(* ===== verification/Prelude.thy ===== *)
theory Prelude
  imports Main "HOL-Library.Multiset"
begin

text \<open>
  Shared vocabulary of the development: Python's exceptions as values, the integer helpers of
  \<^verbatim>\<open>utils/misc.py\<close>, Python slices, the longest common prefix that
  \<^verbatim>\<open>kernel/csrc/src/radix.cpp\<close> computes, and the generic list, sum and multiset lemmas
  that the component theories use.
\<close>

named_theorems align_simps \<open>alignment arithmetic of utils/misc.py\<close>

section \<open>Errors as values\<close>

text \<open>
  Every raise, failed assertion and missing key of the modelled code is an \<open>Inl\<close> with one of
  these values. \<open>StaleNode\<close> has no Python counterpart: it marks the use of a tree node that is no
  longer linked below the root, where the code would go on reading a detached object.
\<close>

datatype py_error =
    AssertionError | ValueError | RuntimeError | KeyError | IndexError
  | NotImplementedError | TypeError | AttributeError | ZeroDivisionError | StaleNode

type_synonym 'a result = "py_error + 'a"

definition rbind :: "'a result \<Rightarrow> ('a \<Rightarrow> 'b result) \<Rightarrow> 'b result" where
  "rbind m f = (case m of Inl e \<Rightarrow> Inl e | Inr x \<Rightarrow> f x)"

lemma rbind_simps [simp]:
  "rbind (Inl e) f = Inl e"
  "rbind (Inr x) f = f x"
  by (simp_all add: rbind_def)

lemma rbind_eq_Inr: "rbind m f = Inr y \<longleftrightarrow> (\<exists>x. m = Inr x \<and> f x = Inr y)"
  by (simp add: rbind_def split: sum.split)

definition py_assert :: "bool \<Rightarrow> 'a result \<Rightarrow> 'a result" where
  "py_assert b r = (if b then r else Inl AssertionError)"

lemma rbindE: "rbind x f = Inr y \<Longrightarrow> (\<And>z. x = Inr z \<Longrightarrow> f z = Inr y \<Longrightarrow> P) \<Longrightarrow> P"
  by (auto simp: rbind_eq_Inr)

lemma py_assert_True [simp]: "py_assert True r = r"
  by (simp add: py_assert_def)

lemma py_assert_eq_Inr: "py_assert b r = Inr y \<longleftrightarrow> b \<and> r = Inr y"
  by (simp add: py_assert_def)

text \<open>A comprehension whose element expression may raise, and an index that may be out of range.\<close>

fun rmap :: "('a \<Rightarrow> 'b result) \<Rightarrow> 'a list \<Rightarrow> 'b list result" where
  "rmap f [] = Inr []"
| "rmap f (x # xs) = rbind (f x) (\<lambda>y. rbind (rmap f xs) (\<lambda>ys. Inr (y # ys)))"

lemma rmap_Inr: "(\<And>x. x \<in> set xs \<Longrightarrow> f x = Inr (g x)) \<Longrightarrow> rmap f xs = Inr (map g xs)"
  by (induction xs) auto

lemma rmap_eq_Inr: "rmap f xs = Inr ys \<Longrightarrow> length ys = length xs \<and> (\<forall>i < length xs. f (xs ! i) = Inr (ys ! i))"
proof (induction xs arbitrary: ys)
  case (Cons x xs)
  then obtain y zs where "f x = Inr y" "rmap f xs = Inr zs" "ys = y # zs" by (auto simp: rbind_eq_Inr)
  with Cons.IH show ?case by (auto simp: nth_Cons less_Suc_eq_0_disj split: nat.splits)
qed simp

definition py_nth :: "'a list \<Rightarrow> nat \<Rightarrow> 'a result" where
  "py_nth xs i = (if i < length xs then Inr (xs ! i) else Inl IndexError)"

section \<open>Integer helpers (utils/misc.py)\<close>

text \<open>
  The helpers are used on lengths (\<open>nat\<close>) and on differences that may be negative (\<open>int\<close>), so they
  are polymorphic; \<open>div\<close> rounds towards minus infinity on \<open>int\<close>, as Python's \<^verbatim>\<open>//\<close> does. The
  divisor is a page size, a step or a granule, positive wherever the code calls them.
\<close>

definition div_ceil :: "'a::{divide,plus,minus,one} \<Rightarrow> 'a \<Rightarrow> 'a" where
  "div_ceil a b = (a + b - 1) div b"

definition align_ceil :: "'a::{divide,plus,minus,one,times} \<Rightarrow> 'a \<Rightarrow> 'a" where
  "align_ceil a b = div_ceil a b * b"

definition align_down :: "'a::{divide,times} \<Rightarrow> 'a \<Rightarrow> 'a" where
  "align_down a b = (a div b) * b"

definition div_even :: "int \<Rightarrow> int \<Rightarrow> bool \<Rightarrow> int result" where
  "div_even a b allow_replicate =
     (if allow_replicate \<and> b > a
      then if a = 0 then Inl ZeroDivisionError
           else py_assert (b mod a = 0) (Inr 1)
      else if b = 0 then Inl ZeroDivisionError
      else py_assert (a mod b = 0) (Inr (a div b)))"

lemma align_down_le [align_simps]: "align_down (a::nat) b \<le> a"
  by (simp add: align_down_def)

lemma align_down_le_int [align_simps]: "0 < b \<Longrightarrow> align_down (a::int) b \<le> a"
  by (metis align_down_def dual_order.refl mult.commute mult_div_mod_eq pos_mod_sign add.commute
      le_add_same_cancel1)

lemma align_down_dvd [align_simps, simp]: "(b::nat) dvd align_down a b"
  by (simp add: align_down_def)

lemma align_down_gt [align_simps]: "0 < b \<Longrightarrow> (a::nat) < align_down a b + b"
  by (metis align_down_def add.commute dividend_less_times_div mult.commute)

lemma align_down_dvd_id [align_simps]: "(b::nat) dvd a \<Longrightarrow> align_down a b = a"
  by (simp add: align_down_def)

lemma align_down_ge [align_simps]: "(b::nat) dvd c \<Longrightarrow> c \<le> a \<Longrightarrow> c \<le> align_down a b"
  by (metis align_down_def align_down_dvd_id div_le_mono mult_le_mono1)

lemma align_down_1 [align_simps, simp]: "align_down (a::nat) (Suc 0) = a"
  by (simp add: align_down_def)

lemma div_ceil_eq [align_simps]:
  assumes b: "0 < b"
  shows "div_ceil (a::nat) b = a div b + (if b dvd a then 0 else 1)"
proof -
  obtain q r where a: "a = q * b + r" and r: "r < b"
    using b by (metis div_mult_mod_eq mod_less_divisor)
  have q: "a div b = q" and m: "a mod b = r" using a r by auto
  show ?thesis
  proof (cases "r = 0")
    case True
    then have "a + b - 1 = (b - 1) + q * b" using a b by simp
    then have "div_ceil a b = ((b - 1) + q * b) div b" by (simp only: div_ceil_def)
    also have "\<dots> = q" using b by (subst div_mult_self1) auto
    finally have "div_ceil a b = q" .
    with True q m show ?thesis by (simp add: dvd_eq_mod_eq_0)
  next
    case False
    then have "a + b - 1 = (r - 1) + (q + 1) * b" using a by simp
    then have "div_ceil a b = ((r - 1) + (q + 1) * b) div b" by (simp only: div_ceil_def)
    also have "\<dots> = q + 1" using b r by (subst div_mult_self1) auto
    finally have "div_ceil a b = q + 1" .
    with False q m show ?thesis by (simp add: dvd_eq_mod_eq_0)
  qed
qed

lemma align_ceil_ge [align_simps]:
  assumes b: "0 < b"
  shows "(a::nat) \<le> align_ceil a b"
proof -
  obtain q r where a: "a = q * b + r" and r: "r < b"
    using b by (metis div_mult_mod_eq mod_less_divisor)
  have "a div b = q" "a mod b = r" using a r by auto
  with a b r show ?thesis
    by (auto simp: align_ceil_def div_ceil_eq dvd_eq_mod_eq_0)
qed

lemma align_ceil_lt [align_simps]: "0 < b \<Longrightarrow> align_ceil (a::nat) b < a + b"
proof -
  assume b: "0 < b"
  have a: "a = a div b * b + a mod b" by simp
  show ?thesis
  proof (cases "b dvd a")
    case False
    then have "0 < a mod b" by (simp add: mod_greater_zero_iff_not_dvd)
    then have "a div b * b < a" using a by linarith
    with b False show ?thesis by (simp add: align_ceil_def div_ceil_eq algebra_simps)
  qed (use b in \<open>auto simp: align_ceil_def div_ceil_eq\<close>)
qed

lemma align_ceil_dvd [align_simps, simp]: "(b::nat) dvd align_ceil a b"
  by (simp add: align_ceil_def)

lemma div_ceil_mono: "0 < b \<Longrightarrow> (a::nat) \<le> c \<Longrightarrow> div_ceil a b \<le> div_ceil c b"
  by (simp add: div_ceil_def div_le_mono)

lemma align_ceil_int:
  assumes "0 < (b::int)"
  shows "a \<le> align_ceil a b" "align_ceil a b < a + b"
proof -
  have "(a + b - 1) div b * b = a + b - 1 - (a + b - 1) mod b" by (simp add: minus_mod_eq_div_mult)
  moreover have "0 \<le> (a + b - 1) mod b" "(a + b - 1) mod b < b" using assms by simp_all
  ultimately show "a \<le> align_ceil a b" "align_ceil a b < a + b"
    by (simp_all add: align_ceil_def div_ceil_def)
qed

lemma align_ceil_mono_int: "0 < (b::int) \<Longrightarrow> a \<le> c \<Longrightarrow> align_ceil a b \<le> align_ceil c b"
  by (simp add: align_ceil_def div_ceil_def zdiv_mono1)

lemma dvd_step: "(p::nat) dvd a \<Longrightarrow> p dvd b \<Longrightarrow> a < b \<Longrightarrow> a + p \<le> b"
proof (elim dvdE)
  fix q r assume "a < b" "a = p * q" "b = p * r"
  then have "q < r" by simp
  then have "p * Suc q \<le> p * r" by (intro mult_le_mono2) simp
  with \<open>a = p * q\<close> \<open>b = p * r\<close> show ?thesis by simp
qed

section \<open>Slices and prefixes\<close>

text \<open>Python's \<^verbatim>\<open>xs[i:j]\<close> for non-negative bounds.\<close>

definition slice :: "nat \<Rightarrow> nat \<Rightarrow> 'a list \<Rightarrow> 'a list" where
  "slice i j xs = drop i (take j xs)"

lemma length_slice [simp]: "length (slice i j xs) = min j (length xs) - i"
  by (simp add: slice_def)

lemma set_slice: "set (slice i j xs) \<subseteq> set xs"
  by (auto simp: slice_def dest: in_set_dropD in_set_takeD)

text \<open>Python's \<^verbatim>\<open>xs[::p]\<close> for \<open>p > 0\<close>.\<close>

function every :: "nat \<Rightarrow> 'a list \<Rightarrow> 'a list" where
  "every p [] = []"
| "every p (x # xs) = x # every p (drop (p - 1) xs)"
  by pat_completeness auto
termination by (relation "measure (\<lambda>(p, xs). length xs)") auto

lemma every_1 [simp]: "every (Suc 0) xs = xs"
  by (induction xs) auto

lemma set_every: "set (every p xs) \<subseteq> set xs"
proof (induction p xs rule: every.induct)
  case (2 p x xs)
  then show ?case using set_drop_subset[of "p - 1" xs] by auto
qed simp

lemma mset_every: "mset (every p xs) \<subseteq># mset xs"
proof (induction p xs rule: every.induct)
  case (2 p x xs)
  have "mset (drop (p - 1) xs) \<subseteq># mset xs"
    by (metis append_take_drop_id mset_append mset_subset_eq_add_right)
  with 2 show ?case by (metis every.simps(2) mset.simps(2) mset_subset_eq_add_mset_cancel
      subset_mset.order_trans)
qed simp

text \<open>\<^verbatim>\<open>torch.cat\<close> of one-dimensional tensors refuses an empty list of tensors.\<close>

definition torch_cat :: "'a list list \<Rightarrow> 'a list result" where
  "torch_cat xss = (if xss = [] then Inl ValueError else Inr (concat xss))"

text \<open>
  The first position where the two sequences differ, at most the shorter length:
  \<^verbatim>\<open>std::mismatch\<close> over the common length in \<^verbatim>\<open>fast_compare_key\<close>.
\<close>

fun fast_compare_key :: "'a list \<Rightarrow> 'a list \<Rightarrow> nat" where
  "fast_compare_key (x # xs) (y # ys) =
     (if x = y then Suc (fast_compare_key xs ys) else 0)"
| "fast_compare_key _ _ = 0"

lemma fast_compare_key_le:
  "fast_compare_key xs ys \<le> length xs" "fast_compare_key xs ys \<le> length ys"
  by (induction xs ys rule: fast_compare_key.induct) auto

lemma take_fast_compare_key:
  "n \<le> fast_compare_key xs ys \<Longrightarrow> take n xs = take n ys"
proof (induction xs ys arbitrary: n rule: fast_compare_key.induct)
  case (1 x xs y ys)
  then show ?case by (cases n) (auto split: if_splits)
qed auto

lemma fast_compare_key_ge:
  "take n xs = take n ys \<Longrightarrow> n \<le> length xs \<Longrightarrow> n \<le> length ys \<Longrightarrow> n \<le> fast_compare_key xs ys"
proof (induction xs ys arbitrary: n rule: fast_compare_key.induct)
  case (1 x xs y ys)
  then show ?case by (cases n) auto
qed auto

lemma fast_compare_key_append [simp]: "fast_compare_key xs (xs @ ys) = length xs"
  by (induction xs) auto

section \<open>Lists, sums and multisets\<close>

lemma sum_list_map_cong_diff:
  "distinct (map g xs) \<Longrightarrow> x \<in> set xs \<Longrightarrow> (\<And>y. y \<in> set xs \<Longrightarrow> g y \<noteq> g x \<Longrightarrow> f' y = f y) \<Longrightarrow>
   sum_list (map f' xs) = sum_list (map f xs) - f x + (f' x :: int)"
proof (induction xs)
  case (Cons y ys)
  show ?case
  proof (cases "x = y")
    case True
    have "map f' ys = map f ys"
      using Cons.prems True by (intro map_cong) (auto simp: image_iff)
    with True show ?thesis by (simp del: map_eq_conv)
  next
    case False
    then have "x \<in> set ys" using Cons.prems by auto
    moreover from this have "g y \<noteq> g x" using Cons.prems by (auto simp: image_iff)
    ultimately show ?thesis using Cons by auto
  qed
qed simp

lemma sum_list_nonneg_int: "(\<And>x. x \<in> set xs \<Longrightarrow> 0 \<le> f x) \<Longrightarrow> 0 \<le> sum_list (map f xs :: int list)"
  by (induction xs) auto

lemma member_le_sum_list_int:
  "(\<And>x. x \<in> set xs \<Longrightarrow> 0 \<le> f x) \<Longrightarrow> x \<in> set xs \<Longrightarrow> f x \<le> sum_list (map f xs :: int list)"
proof (induction xs)
  case (Cons y ys)
  have "0 \<le> sum_list (map f ys)" using Cons.prems by (intro sum_list_nonneg_int) auto
  moreover have "0 \<le> f y" using Cons.prems by simp
  moreover have "x \<noteq> y \<Longrightarrow> f x \<le> sum_list (map f ys)" using Cons by auto
  ultimately show ?case by (cases "x = y") auto
qed simp

lemma sum_list_pos_ex_int:
  "0 < sum_list (map f xs :: int list) \<Longrightarrow> \<exists>x \<in> set xs. 0 < f x"
  by (induction xs) (auto, smt (verit, best))

end
