(* ===== verification/Radix_Tree.thy ===== *)
theory Radix_Tree
  imports Prelude
begin

text \<open>
  The mutable tree behind the three prefix caches: \<^verbatim>\<open>RadixTreeNode\<close> of
  \<^verbatim>\<open>kvcache/radix_cache.py\<close>, its splitting, the token walk that \<^verbatim>\<open>RadixPrefixCache\<close> and
  \<^verbatim>\<open>HybridRadixCache\<close> share, the chain of ancestors the locking loops follow, unlinking, and the
  stack traversals that collect nodes for eviction.

  A node object is identified by its \<^verbatim>\<open>uuid\<close>; a handle is the uuid of its node. The
  \<^verbatim>\<open>_parent\<close> pointer is the position in the tree (\<open>chain\<close> is the walk along it), and the
  \<^verbatim>\<open>children\<close> dictionary is the list of children in insertion order, looked up by the first page
  of the key. Only nodes linked below the root are represented.
\<close>

section \<open>Nodes\<close>

datatype snap_kind = Chunk | Segment | End

text \<open>
  The fields of a node besides its key, value and links. A pooled-sum tensor is never inspected by
  this code, so it is represented by its identity.
\<close>

record nattr =
  ref_count :: int
  timestamp :: int
  mamba_value :: "int option"
  mamba_ref_count :: int
  snapshot_kind :: snap_kind
  pooled_sums :: "nat option"
  pooled_count :: nat
  pin_sessions :: "string list"
  swa_tombstone :: bool
  swa_ref_count :: int
  swa_uuid :: "nat option"

datatype node =
  Node (uuid: nat) (attr: nattr) (nkey: "int list") (nvalue: "int list") (kids: "node list")

text \<open>\<^verbatim>\<open>RadixTreeNode.__init__\<close>: \<^verbatim>\<open>tic or time.monotonic_ns()\<close> reads the clock when the
  stamp it is given is 0.\<close>

definition fresh_attr :: "int \<Rightarrow> int \<Rightarrow> nattr" where
  "fresh_attr tic now =
     \<lparr> ref_count = 0, timestamp = (if tic = 0 then now else tic),
       mamba_value = None, mamba_ref_count = 0, snapshot_kind = Chunk,
       pooled_sums = None, pooled_count = 0, pin_sessions = [],
       swa_tombstone = False, swa_ref_count = 0, swa_uuid = None \<rparr>"

abbreviation nlen :: "node \<Rightarrow> nat" where
  "nlen n \<equiv> length (nkey n)"

definition is_leaf :: "node \<Rightarrow> bool" where
  "is_leaf n \<longleftrightarrow> kids n = []"

text \<open>\<^verbatim>\<open>_get_key_fn\<close>: the children of a node are keyed by the first page of their tokens.\<close>

definition page_key :: "nat \<Rightarrow> int list \<Rightarrow> int list" where
  "page_key ps xs = take ps xs"

text \<open>
  \<^verbatim>\<open>split_at\<close>: the new root-side node takes the first \<open>pos\<close> tokens, the lock counts, the pin
  sessions and the window handle; the old object (same uuid) keeps the rest, its snapshot and its
  children. The new node replaces the old one at the same dictionary key.
\<close>

fun split_at :: "nat \<Rightarrow> nat \<Rightarrow> int \<Rightarrow> node \<Rightarrow> node" where
  "split_at pos c now (Node u a k v gs) =
     Node c
       ((fresh_attr (timestamp a) now)
          \<lparr> ref_count := ref_count a, pin_sessions := pin_sessions a,
            swa_ref_count := swa_ref_count a, swa_tombstone := swa_tombstone a,
            swa_uuid := swa_uuid a \<rparr>)
       (take pos k) (take pos v)
       [Node u (a\<lparr>swa_uuid := None\<rparr>) (drop pos k) (drop pos v) gs]"

section \<open>The token walk\<close>

text \<open>
  The loop of \<^verbatim>\<open>_tree_walk\<close> and \<^verbatim>\<open>_walk\<close>, on the children of the current node.
  \<open>Miss\<close>: no child has the next page. \<open>Hit cs u l c\<close>: the walk ended at node \<open>u\<close> after
  matching \<open>l\<close> tokens; \<open>cs\<close> are the updated children and \<open>c\<close> the uuid counter.
  \<open>Broken\<close>: the assertion of \<^verbatim>\<open>split_at\<close> failed.
\<close>

datatype walk_res = Miss | Hit "node list" nat nat nat | Broken

fun walk_kids :: "nat \<Rightarrow> int \<Rightarrow> nat \<Rightarrow> int list \<Rightarrow> node list \<Rightarrow> walk_res" where
  "walk_kids ps tic c ids [] = Miss"
| "walk_kids ps tic c ids (Node u a k v gs # cs) =
     (if page_key ps k = page_key ps ids then
        let m = align_down (fast_compare_key k ids) ps in
        if m \<noteq> length k then
          (if 0 < m \<and> m < length k then
             case split_at m c tic (Node u a k v gs) of
               Node u' a' k' v' gs' \<Rightarrow>
                 Hit (Node u' (a'\<lparr>timestamp := tic\<rparr>) k' v' gs' # cs) c m (Suc c)
           else Broken)
        else if drop m ids = [] then
          Hit (Node u (a\<lparr>timestamp := tic\<rparr>) k v gs # cs) u m c
        else
          (case walk_kids ps tic c (drop m ids) gs of
             Miss \<Rightarrow> Hit (Node u (a\<lparr>timestamp := tic\<rparr>) k v gs # cs) u m c
           | Hit gs' w l c' \<Rightarrow> Hit (Node u (a\<lparr>timestamp := tic\<rparr>) k v gs' # cs) w (m + l) c'
           | Broken \<Rightarrow> Broken)
      else
        (case walk_kids ps tic c ids cs of
           Miss \<Rightarrow> Miss
         | Hit cs' w l c' \<Rightarrow> Hit (Node u a k v gs # cs') w l c'
         | Broken \<Rightarrow> Broken))"

text \<open>The whole walk from the root: the new root, the node reached, the matched length and the
  uuid counter.\<close>

definition tree_walk ::
  "nat \<Rightarrow> int \<Rightarrow> nat \<Rightarrow> int list \<Rightarrow> node \<Rightarrow> (node \<times> nat \<times> nat \<times> nat) result" where
  "tree_walk ps tic c ids root =
     (if ids = [] then Inr (root, uuid root, 0, c)
      else case walk_kids ps tic c ids (kids root) of
             Miss \<Rightarrow> Inr (root, uuid root, 0, c)
           | Hit cs u l c' \<Rightarrow>
               Inr (Node (uuid root) (attr root) (nkey root) (nvalue root) cs, u, l, c')
           | Broken \<Rightarrow> Inl AssertionError)"

section \<open>Ancestor chains, field updates, linking and unlinking\<close>

text \<open>The uuids from a child of the root down to node \<open>u\<close>.\<close>

fun path_kids :: "nat \<Rightarrow> node list \<Rightarrow> nat list option" where
  "path_kids u [] = None"
| "path_kids u (Node w a k v gs # cs) =
     (if u = w then Some [w]
      else case path_kids u gs of
             Some p \<Rightarrow> Some (w # p)
           | None \<Rightarrow> path_kids u cs)"

text \<open>The nodes a loop \<^verbatim>\<open>while not node.is_root(): ...; node = node.parent\<close> visits from node
  \<open>u\<close>, in that order.\<close>

definition chain :: "nat \<Rightarrow> node \<Rightarrow> nat list result" where
  "chain u root =
     (if u = uuid root then Inr []
      else case path_kids u (kids root) of
             None \<Rightarrow> Inl StaleNode
           | Some p \<Rightarrow> Inr (rev p))"

text \<open>Node \<open>u\<close> as an object: its fields can be read (\<open>find_node\<close>) and written (\<open>upd\<close>).\<close>

fun find_kids :: "nat \<Rightarrow> node list \<Rightarrow> node option" where
  "find_kids u [] = None"
| "find_kids u (Node w a k v gs # cs) =
     (if u = w then Some (Node w a k v gs)
      else case find_kids u gs of Some n \<Rightarrow> Some n | None \<Rightarrow> find_kids u cs)"

definition find_node :: "nat \<Rightarrow> node \<Rightarrow> node result" where
  "find_node u root =
     (if u = uuid root then Inr root
      else case find_kids u (kids root) of None \<Rightarrow> Inl StaleNode | Some n \<Rightarrow> Inr n)"

fun upd_kids :: "nat \<Rightarrow> (nattr \<Rightarrow> nattr) \<Rightarrow> node list \<Rightarrow> node list" where
  "upd_kids u f [] = []"
| "upd_kids u f (Node w a k v gs # cs) =
     Node w (if u = w then f a else a) k v (upd_kids u f gs) # upd_kids u f cs"

definition upd :: "nat \<Rightarrow> (nattr \<Rightarrow> nattr) \<Rightarrow> node \<Rightarrow> node" where
  "upd u f root =
     Node (uuid root) (if u = uuid root then f (attr root) else attr root)
       (nkey root) (nvalue root) (upd_kids u f (kids root))"

text \<open>\<^verbatim>\<open>new_node.set_parent(node)\<close>: a new child goes to the end of the children dictionary of
  node \<open>u\<close>.\<close>

fun add_kids :: "nat \<Rightarrow> node \<Rightarrow> node list \<Rightarrow> node list" where
  "add_kids u n [] = []"
| "add_kids u n (Node w a k v gs # cs) =
     Node w a k v (if u = w then gs @ [n] else add_kids u n gs) # add_kids u n cs"

definition add_child :: "nat \<Rightarrow> node \<Rightarrow> node \<Rightarrow> node" where
  "add_child u n root =
     Node (uuid root) (attr root) (nkey root) (nvalue root)
       (if u = uuid root then kids root @ [n] else add_kids u n (kids root))"

text \<open>\<^verbatim>\<open>del parent.children[key_fn(node._key)]\<close>.\<close>

fun del_kids :: "nat \<Rightarrow> node list \<Rightarrow> node list" where
  "del_kids u [] = []"
| "del_kids u (Node w a k v gs # cs) =
     (if u = w then cs else Node w a k v (del_kids u gs) # del_kids u cs)"

definition unlink :: "nat \<Rightarrow> node \<Rightarrow> node" where
  "unlink u root =
     Node (uuid root) (attr root) (nkey root) (nvalue root) (del_kids u (kids root))"

text \<open>The parent of a linked non-root node.\<close>

definition parent_of :: "nat \<Rightarrow> node \<Rightarrow> nat result" where
  "parent_of u root =
     (case chain u root of
        Inl e \<Rightarrow> Inl e
      | Inr [] \<Rightarrow> Inl AssertionError
      | Inr [_] \<Rightarrow> Inr (uuid root)
      | Inr (_ # p # _) \<Rightarrow> Inr p)"

section \<open>Stack traversals\<close>

text \<open>
  The traversals pop a node from the end of the stack and push its children in dictionary order.
  The stack is kept with its top first, so the children are pushed reversed. Both loops end: the
  nodes on the stack shrink.
\<close>

fun nsize :: "node \<Rightarrow> nat" where
  "nsize (Node u a k v gs) = Suc (sum_list (map nsize gs))"

lemma sum_list_nsize_rev [simp]:
  "sum_list (map nsize (rev gs)) = sum_list (map nsize gs)"
  by (metis rev_map sum_list_rev)

function preorder :: "node list \<Rightarrow> node list" where
  "preorder [] = []"
| "preorder (n # st) = n # preorder (rev (kids n) @ st)"
  by pat_completeness auto
termination
proof (relation "measure (\<lambda>st. sum_list (map nsize st))")
  fix n :: node and st
  show "(rev (kids n) @ st, n # st) \<in> measure (\<lambda>st. sum_list (map nsize st))"
    by (cases n) simp
qed simp

section \<open>Entries of a tree\<close>

text \<open>
  The linked nodes without their shape: sums over the tree (sizes, lock counts, snapshots) are sums
  over this list, and an update of one node is an update of one entry.
\<close>

type_synonym entry = "nat \<times> nattr \<times> int list \<times> int list"

fun ents :: "node list \<Rightarrow> entry list" where
  "ents [] = []"
| "ents (Node u a k v gs # cs) = (u, a, k, v) # ents gs @ ents cs"

abbreviation uuids :: "node list \<Rightarrow> nat list" where
  "uuids cs \<equiv> map fst (ents cs)"

definition esum :: "(entry \<Rightarrow> int) \<Rightarrow> node list \<Rightarrow> int" where
  "esum f cs = sum_list (map f (ents cs))"

fun flat :: "node list \<Rightarrow> node list" where
  "flat [] = []"
| "flat (Node u a k v gs # cs) = Node u a k v gs # flat gs @ flat cs"

definition entry_of :: "node \<Rightarrow> entry" where
  "entry_of n = (uuid n, attr n, nkey n, nvalue n)"

lemma ents_append [simp]: "ents (cs @ ds) = ents cs @ ents ds"
  by (induction cs rule: ents.induct) auto

lemma flat_append [simp]: "flat (cs @ ds) = flat cs @ flat ds"
  by (induction cs rule: flat.induct) auto

lemma ents_flat: "ents cs = map entry_of (flat cs)"
  by (induction cs rule: flat.induct) (auto simp: entry_of_def)

lemma ents_Cons: "ents (n # cs) = entry_of n # ents (kids n) @ ents cs"
  by (cases n) (simp add: entry_of_def)

lemma flat_Cons: "flat (n # cs) = n # flat (kids n) @ flat cs"
  by (cases n) simp

lemma esum_simps [simp]:
  "esum f [] = 0"
  "esum f (Node u a k v gs # cs) = f (u, a, k, v) + esum f gs + esum f cs"
  "esum f (cs @ ds) = esum f cs + esum f ds"
  by (simp_all add: esum_def)

lemma mset_flat_rev: "mset (flat (rev cs)) = mset (flat cs)"
  by (induction cs) (auto simp: flat_Cons)

text \<open>The stack traversal visits every node once.\<close>

lemma mset_preorder: "mset (preorder st) = mset (flat st)"
proof (induction st rule: preorder.induct)
  case (2 n st)
  then show ?case by (simp add: flat_Cons mset_flat_rev)
qed simp

lemma set_preorder: "set (preorder st) = set (flat st)"
  using mset_preorder mset_eq_setD by blast

subsection \<open>Well-formed trees\<close>

text \<open>
  Every node holds at least one whole page of tokens with one index per token, and the first pages
  of the children of a node are distinct (they are the keys of its dictionary).
\<close>

fun wfk :: "nat \<Rightarrow> node list \<Rightarrow> bool" where
  "wfk ps [] = True"
| "wfk ps (Node u a k v gs # cs) \<longleftrightarrow>
     k \<noteq> [] \<and> ps dvd length k \<and> length v = length k \<and> wfk ps gs \<and>
     page_key ps k \<notin> set (map (\<lambda>n. page_key ps (nkey n)) cs) \<and> wfk ps cs"

text \<open>
  The lock count of a node covers the lock counts of its children: a lock taken on a node also
  counts at each of its ancestors.
\<close>

definition rsum :: "node list \<Rightarrow> int" where
  "rsum cs = sum_list (map (\<lambda>n. ref_count (attr n)) cs)"

fun refs_ok :: "node list \<Rightarrow> bool" where
  "refs_ok [] = True"
| "refs_ok (Node u a k v gs # cs) \<longleftrightarrow> rsum gs \<le> ref_count a \<and> refs_ok gs \<and> refs_ok cs"

lemma rsum_simps [simp]:
  "rsum [] = 0"
  "rsum (Node u a k v gs # cs) = ref_count a + rsum cs"
  "rsum (cs @ ds) = rsum cs + rsum ds"
  by (simp_all add: rsum_def)

lemma refs_ok_append [simp]: "refs_ok (cs @ ds) \<longleftrightarrow> refs_ok cs \<and> refs_ok ds"
  by (induction cs rule: refs_ok.induct) auto

lemma refs_ok_nonneg: "refs_ok cs \<Longrightarrow> 0 \<le> rsum cs"
  by (induction cs rule: refs_ok.induct) auto

lemma refs_ok_entry: "refs_ok cs \<Longrightarrow> (u, a, k, v) \<in> set (ents cs) \<Longrightarrow> 0 \<le> ref_count a"
  by (induction cs rule: refs_ok.induct) (auto dest: refs_ok_nonneg)

lemma refs_ok_kid: "refs_ok cs \<Longrightarrow> n \<in> set cs \<Longrightarrow> ref_count (attr n) \<le> rsum cs"
proof (induction cs rule: refs_ok.induct)
  case (2 u a k v gs cs)
  then show ?case using refs_ok_nonneg[of cs] refs_ok_nonneg[of gs] by auto
qed simp

subsection \<open>Token strings and the content of a tree\<close>

text \<open>
  The abstract view of the cache: the pairs of a token string and the page index that holds the KV
  of its last token, one pair per cached token.
\<close>

definition seg :: "int list \<Rightarrow> int list \<Rightarrow> int list \<Rightarrow> (int list \<times> int) list" where
  "seg pre k v = map (\<lambda>i. (pre @ take (Suc i) k, v ! i)) [0..<length k]"

fun content :: "int list \<Rightarrow> node list \<Rightarrow> (int list \<times> int) list" where
  "content pre [] = []"
| "content pre (Node u a k v gs # cs) = seg pre k v @ content (pre @ k) gs @ content pre cs"

lemma content_append [simp]: "content pre (cs @ ds) = content pre cs @ content pre ds"
  by (induction pre cs rule: content.induct) auto

lemma seg_split:
  assumes "m \<le> length k" "length v = length k"
  shows "seg pre k v = seg pre (take m k) (take m v) @ seg (pre @ take m k) (drop m k) (drop m v)"
proof -
  have "[0..<length k] = [0..<m] @ map (\<lambda>i. i + m) [0..<length k - m]"
    using assms(1) by (metis add.commute le_add_diff_inverse map_add_upt plus_nat.add_0
        upt_add_eq_append zero_le)
  then have *: "seg pre k v =
      map (\<lambda>i. (pre @ take (Suc i) k, v ! i)) [0..<m]
      @ map (\<lambda>i. (pre @ take (Suc (i + m)) k, v ! (i + m))) [0..<length k - m]"
    by (simp add: seg_def)
  have 1: "map (\<lambda>i. (pre @ take (Suc i) k, v ! i)) [0..<m] = seg pre (take m k) (take m v)"
    using assms by (auto simp: seg_def min_def)
  have 2: "map (\<lambda>i. (pre @ take (Suc (i + m)) k, v ! (i + m))) [0..<length k - m]
      = seg (pre @ take m k) (drop m k) (drop m v)"
    using assms by (auto simp: seg_def take_drop add.commute nth_drop)
      (metis add.commute add_Suc_right append_take_drop_id take_add take_drop)
  show ?thesis using * 1 2 by simp
qed

lemma set_seg: "length v = length k \<Longrightarrow>
  set (seg pre k v) = {(pre @ take (Suc i) k, v ! i) | i. i < length k}"
  by (auto simp: seg_def)

lemma seg_values: "length v = length k \<Longrightarrow> map snd (seg pre k v) = v"
  by (auto simp: seg_def intro: nth_equalityI)

subsection \<open>The walk\<close>

lemma page_match:
  assumes "0 < ps" "k \<noteq> []" "ps dvd length k" "page_key ps k = page_key ps ids"
    and m: "m = align_down (fast_compare_key k ids) ps"
  shows "0 < m" "m \<le> length k" "m \<le> length ids" "ps dvd m" "take m k = take m ids" "ps \<le> m"
proof -
  have psk: "ps \<le> length k" using assms by (auto intro: dvd_imp_le)
  have "length (take ps ids) = length (take ps k)" using assms(4) by (simp add: page_key_def)
  then have psi: "ps \<le> length ids" using psk by simp
  have "ps \<le> fast_compare_key k ids"
    using assms(4) psk psi by (intro fast_compare_key_ge) (auto simp: page_key_def)
  then show "ps \<le> m" unfolding m by (simp add: align_down_ge)
  then show "0 < m" using assms(1) by simp
  have le: "m \<le> fast_compare_key k ids" unfolding m by (simp add: align_down_le)
  then show "m \<le> length k" "m \<le> length ids" using fast_compare_key_le[of k ids] by auto
  show "ps dvd m" unfolding m by simp
  show "take m k = take m ids" using le by (rule take_fast_compare_key)
qed

lemma walk_kids_Cons_cases [consumes 4, case_names split full stop descend broken later]:
  assumes "walk_kids ps tic c ids (Node u a k v gs # cs) = r" "0 < ps"
    "wfk ps (Node u a k v gs # cs)" "ids \<noteq> []"
  obtains
    m where "page_key ps k = page_key ps ids" "0 < m" "m < length k" "m \<le> length ids"
      "ps dvd m" "take m k = take m ids"
      "m + ps \<le> length k \<Longrightarrow> m + ps \<le> length ids \<Longrightarrow> take (m + ps) k \<noteq> take (m + ps) ids"
      "r = Hit (Node c (((fresh_attr (timestamp a) tic)
          \<lparr> ref_count := ref_count a, pin_sessions := pin_sessions a,
            swa_ref_count := swa_ref_count a, swa_tombstone := swa_tombstone a,
            swa_uuid := swa_uuid a \<rparr>)\<lparr>timestamp := tic\<rparr>)
       (take m k) (take m v)
       [Node u (a\<lparr>swa_uuid := None\<rparr>) (drop m k) (drop m v) gs] # cs) c m (Suc c)"
  | "page_key ps k = page_key ps ids" "ids = k"
      "r = Hit (Node u (a\<lparr>timestamp := tic\<rparr>) k v gs # cs) u (length k) c"
  | ids' where "page_key ps k = page_key ps ids" "ids = k @ ids'" "ids' \<noteq> []"
      "walk_kids ps tic c ids' gs = Miss"
      "r = Hit (Node u (a\<lparr>timestamp := tic\<rparr>) k v gs # cs) u (length k) c"
  | ids' gs' w l c' where "page_key ps k = page_key ps ids" "ids = k @ ids'" "ids' \<noteq> []"
      "walk_kids ps tic c ids' gs = Hit gs' w l c'"
      "r = Hit (Node u (a\<lparr>timestamp := tic\<rparr>) k v gs' # cs) w (length k + l) c'"
  | "page_key ps k = page_key ps ids" "\<exists>ids'. ids = k @ ids' \<and> ids' \<noteq> [] \<and> walk_kids ps tic c ids' gs = Broken"
     "r = Broken"
  | "page_key ps k \<noteq> page_key ps ids"
      "r = (case walk_kids ps tic c ids cs of Miss \<Rightarrow> Miss
           | Hit cs' w l c' \<Rightarrow> Hit (Node u a k v gs # cs') w l c' | Broken \<Rightarrow> Broken)"
proof (cases "page_key ps k = page_key ps ids")
  case True
  define m where "m = align_down (fast_compare_key k ids) ps"
  have pm: "0 < m" "m \<le> length k" "m \<le> length ids" "ps dvd m" "take m k = take m ids"
    using page_match[OF assms(2) _ _ True m_def] assms(3) by auto
  have R: "r = (if m \<noteq> length k then
          (if 0 < m \<and> m < length k then
             Hit (Node c (((fresh_attr (timestamp a) tic)
          \<lparr> ref_count := ref_count a, pin_sessions := pin_sessions a,
            swa_ref_count := swa_ref_count a, swa_tombstone := swa_tombstone a,
            swa_uuid := swa_uuid a \<rparr>)\<lparr>timestamp := tic\<rparr>)
       (take m k) (take m v)
       [Node u (a\<lparr>swa_uuid := None\<rparr>) (drop m k) (drop m v) gs] # cs) c m (Suc c)
           else Broken)
        else if drop m ids = [] then Hit (Node u (a\<lparr>timestamp := tic\<rparr>) k v gs # cs) u m c
        else (case walk_kids ps tic c (drop m ids) gs of
             Miss \<Rightarrow> Hit (Node u (a\<lparr>timestamp := tic\<rparr>) k v gs # cs) u m c
           | Hit gs' w l c' \<Rightarrow> Hit (Node u (a\<lparr>timestamp := tic\<rparr>) k v gs' # cs) w (m + l) c'
           | Broken \<Rightarrow> Broken))"
    using True unfolding assms(1)[symmetric] m_def by (simp add: Let_def)
  have mx: "take (m + ps) k \<noteq> take (m + ps) ids"
    if "m + ps \<le> length k" "m + ps \<le> length ids"
  proof
    assume "take (m + ps) k = take (m + ps) ids"
    then have "m + ps \<le> fast_compare_key k ids" using that by (intro fast_compare_key_ge)
    then have "m + ps \<le> m" using pm(4) unfolding m_def by (intro align_down_ge) auto
    then show False using assms(2) by simp
  qed
  show thesis
  proof (cases "m = length k")
    case False
    with pm have lt: "m < length k" by simp
    show thesis
    proof (rule that(1)[of m])
      show "take (m + ps) k \<noteq> take (m + ps) ids"
        if "m + ps \<le> length k" "m + ps \<le> length ids" using that by (rule mx)
    qed (use True lt pm R in simp_all)
  next
    case eq: True
    then have ids: "ids = k @ drop (length k) ids"
      using pm by (metis append_take_drop_id take_all order_refl)
    show thesis
    proof (cases "drop (length k) ids = []")
      case True2: True
      then have "ids = k" using ids by simp
      moreover have "r = Hit (Node u (a\<lparr>timestamp := tic\<rparr>) k v gs # cs) u (length k) c"
        using R True2 by (simp add: eq)
      ultimately show thesis using True by (intro that(2)) simp_all
    next
      case F: False
      show thesis
      proof (cases "walk_kids ps tic c (drop (length k) ids) gs")
        case Miss
        have "r = Hit (Node u (a\<lparr>timestamp := tic\<rparr>) k v gs # cs) u (length k) c"
          using R F Miss by (simp add: eq)
        then show thesis by (rule that(3)[OF True ids F Miss])
      next
        case (Hit gs' w l c')
        have "r = Hit (Node u (a\<lparr>timestamp := tic\<rparr>) k v gs' # cs) w (length k + l) c'"
          using R F Hit by (simp add: eq)
        then show thesis by (rule that(4)[OF True ids F Hit])
      next
        case Broken
        have "r = Broken" using R F Broken by (simp add: eq)
        moreover have "\<exists>ids'. ids = k @ ids' \<and> ids' \<noteq> [] \<and> walk_kids ps tic c ids' gs = Broken"
          using ids F Broken by blast
        ultimately show thesis using that(5)[OF True] by blast
      qed
    qed
  qed
next
  case False
  with assms(1) show thesis by (intro that(6)) auto
qed

lemma walk_kids_not_Broken:
  assumes "0 < ps" "wfk ps cs" "ids \<noteq> []"
  shows "walk_kids ps tic c ids cs \<noteq> Broken"
  using assms
proof (induction ps tic c ids cs rule: walk_kids.induct)
  case (2 ps tic c ids u a k v gs cs)
  have later: "page_key ps k \<noteq> page_key ps ids \<Longrightarrow> walk_kids ps tic c ids cs \<noteq> Broken"
    using 2 by auto
  have desc: "page_key ps k = page_key ps ids \<Longrightarrow> ids = k @ ids' \<Longrightarrow> ids' \<noteq> [] \<Longrightarrow>
      walk_kids ps tic c ids' gs \<noteq> Broken" for ids'
    using "2.IH"(1)[OF _ refl, simplified] "2.prems"
    by (auto simp: align_down_dvd_id)
  show ?case
    by (rule walk_kids_Cons_cases[OF refl "2.prems"]) (use later desc in \<open>auto split: walk_res.split\<close>)
qed simp


text \<open>
  A successful walk as a relation, one rule per way the loop ends or goes on; the facts about the
  walk are rule inductions over it.
\<close>

definition split_attr :: "int \<Rightarrow> nattr \<Rightarrow> nattr" where
  "split_attr tic a = ((fresh_attr (timestamp a) tic)
          \<lparr> ref_count := ref_count a, pin_sessions := pin_sessions a,
            swa_ref_count := swa_ref_count a, swa_tombstone := swa_tombstone a,
            swa_uuid := swa_uuid a \<rparr>)\<lparr>timestamp := tic\<rparr>"

inductive walked ::
  "nat \<Rightarrow> int \<Rightarrow> nat \<Rightarrow> int list \<Rightarrow> node list \<Rightarrow> node list \<Rightarrow> nat \<Rightarrow> nat \<Rightarrow> nat \<Rightarrow> bool"
  for ps tic c where
  split: "page_key ps k = page_key ps ids \<Longrightarrow> 0 < m \<Longrightarrow> m < length k \<Longrightarrow> m \<le> length ids \<Longrightarrow>
    ps dvd m \<Longrightarrow> take m k = take m ids \<Longrightarrow>
    (m + ps \<le> length k \<Longrightarrow> m + ps \<le> length ids \<Longrightarrow> take (m + ps) k \<noteq> take (m + ps) ids) \<Longrightarrow>
    walked ps tic c ids (Node u a k v gs # cs)
      (Node c (split_attr tic a) (take m k) (take m v)
         [Node u (a\<lparr>swa_uuid := None\<rparr>) (drop m k) (drop m v) gs] # cs) c m (Suc c)"
| full: "walked ps tic c k (Node u a k v gs # cs)
      (Node u (a\<lparr>timestamp := tic\<rparr>) k v gs # cs) u (length k) c"
| stop: "ids' \<noteq> [] \<Longrightarrow> walk_kids ps tic c ids' gs = Miss \<Longrightarrow>
    walked ps tic c (k @ ids') (Node u a k v gs # cs)
      (Node u (a\<lparr>timestamp := tic\<rparr>) k v gs # cs) u (length k) c"
| descend: "ids' \<noteq> [] \<Longrightarrow> walked ps tic c ids' gs gs' w l c' \<Longrightarrow>
    walked ps tic c (k @ ids') (Node u a k v gs # cs)
      (Node u (a\<lparr>timestamp := tic\<rparr>) k v gs' # cs) w (length k + l) c'"
| later: "page_key ps k \<noteq> page_key ps ids \<Longrightarrow> walked ps tic c ids cs cs' w l c' \<Longrightarrow>
    walked ps tic c ids (Node u a k v gs # cs) (Node u a k v gs # cs') w l c'"

lemma walk_kids_walked:
  assumes "walk_kids ps tic c ids cs = Hit cs' w l c'" "0 < ps" "wfk ps cs" "ids \<noteq> []"
  shows "walked ps tic c ids cs cs' w l c'"
  using assms
proof (induction ps tic c ids cs arbitrary: cs' w l c' rule: walk_kids.induct)
  case (2 ps tic c ids u a k v gs cs)
  have later: "page_key ps k \<noteq> page_key ps ids \<Longrightarrow> walk_kids ps tic c ids cs = Hit ds w l c' \<Longrightarrow>
      walked ps tic c ids cs ds w l c'" for ds w l c'
    using 2 by auto
  have desc: "page_key ps k = page_key ps ids \<Longrightarrow> ids = k @ ids' \<Longrightarrow> ids' \<noteq> [] \<Longrightarrow>
      walk_kids ps tic c ids' gs = Hit ds w l c' \<Longrightarrow> walked ps tic c ids' gs ds w l c'" for ids' ds w l c'
    using "2.IH"(1)[OF _ refl, simplified] "2.prems"(2-)
    by (auto simp: align_down_dvd_id)
  from "2.prems" show ?case
  proof (cases rule: walk_kids_Cons_cases)
    case (split m)
    then show ?thesis using walked.split[of ps k ids m tic c u a v gs cs]
      by (auto simp: split_attr_def)
  next
    case later2: later
    then show ?thesis using later by (auto split: walk_res.splits intro: walked.later)
  qed (auto intro: walked.intros desc)
qed simp

lemma walked_page_keys:
  "walked ps tic c ids cs cs' w l c' \<Longrightarrow> wfk ps cs \<Longrightarrow> 0 < ps \<Longrightarrow>
   map (\<lambda>n. page_key ps (nkey n)) cs' = map (\<lambda>n. page_key ps (nkey n)) cs"
  by (induction rule: walked.induct) (auto simp: page_key_def min_def dest!: dvd_imp_le)

lemma wfk_walked:
  "walked ps tic c ids cs cs' w l c' \<Longrightarrow> wfk ps cs \<Longrightarrow> 0 < ps \<Longrightarrow> wfk ps cs'"
proof (induction rule: walked.induct)
  case (split k ids m u a v gs cs)
  moreover from split have "ps \<le> m" by (auto dest: dvd_imp_le)
  ultimately show ?case by (auto simp: page_key_def min_def dvd_diff_nat)
next
  case (later k ids cs cs' w l c' u a v gs)
  then show ?case using walked_page_keys[OF later.hyps(2)] by auto
qed auto

lemma refs_ok_walked:
  "walked ps tic c ids cs cs' w l c' \<Longrightarrow> rsum cs' = rsum cs \<and> (refs_ok cs \<longrightarrow> refs_ok cs')"
  by (induction rule: walked.induct) (auto simp: split_attr_def fresh_attr_def)

lemma content_walked:
  "walked ps tic c ids cs cs' w l c' \<Longrightarrow> wfk ps cs \<Longrightarrow> content pre cs' = content pre cs"
proof (induction arbitrary: pre rule: walked.induct)
  case (split k ids m u a v gs cs)
  then have "seg pre k v = seg pre (take m k) (take m v) @ seg (pre @ take m k) (drop m k) (drop m v)"
    by (intro seg_split) auto
  moreover have "(pre @ take m k) @ drop m k = pre @ k" by simp
  ultimately show ?case by (metis append.assoc append_Nil2 content.simps)
qed auto

lemma walked_uuids:
  "walked ps tic c ids cs cs' w l c' \<Longrightarrow>
   c' = c \<and> mset (uuids cs') = mset (uuids cs) \<and> w \<in> set (uuids cs) \<or>
   c' = Suc c \<and> mset (uuids cs') = add_mset c (mset (uuids cs)) \<and> w = c"
  by (induction rule: walked.induct) auto

lemma walked_len:
  "walked ps tic c ids cs cs' w l c' \<Longrightarrow> wfk ps cs \<Longrightarrow> 0 < l \<and> l \<le> length ids \<and> ps dvd l"
  by (induction rule: walked.induct) auto

text \<open>A quantity of the nodes that a split divides and a time stamp does not change.\<close>

definition additive :: "(entry \<Rightarrow> int) \<Rightarrow> bool" where
  "additive f \<longleftrightarrow>
     (\<forall>u a k v tic. f (u, a\<lparr>timestamp := tic\<rparr>, k, v) = f (u, a, k, v)) \<and>
     (\<forall>c tic u a k v m. m < length k \<longrightarrow> length v = length k \<longrightarrow>
        f (c, split_attr tic a, take m k, take m v)
          + f (u, a\<lparr>swa_uuid := None\<rparr>, drop m k, drop m v) = f (u, a, k, v))"

lemma esum_walked:
  "walked ps tic c ids cs cs' w l c' \<Longrightarrow> wfk ps cs \<Longrightarrow> additive f \<Longrightarrow> esum f cs' = esum f cs"
proof (induction rule: walked.induct)
  case (split k ids m u a v gs cs)
  have "m < length k" "length v = length k" using split by auto
  with split.prems(2) have "f (c, split_attr tic a, take m k, take m v)
          + f (u, a\<lparr>swa_uuid := None\<rparr>, drop m k, drop m v) = f (u, a, k, v)"
    unfolding additive_def by blast
  then show ?case by simp
qed (auto simp: additive_def)

text \<open>The tokens and the page indices on the path from the root to a node.\<close>

fun path_str :: "nat \<Rightarrow> node list \<Rightarrow> (int list \<times> int list) option" where
  "path_str w [] = None"
| "path_str w (Node u a k v gs # cs) =
     (if w = u then Some (k, v)
      else case path_str w gs of
             Some (k', v') \<Rightarrow> Some (k @ k', v @ v')
           | None \<Rightarrow> path_str w cs)"

lemma path_str_None: "path_str w cs = None \<longleftrightarrow> w \<notin> set (uuids cs)"
  by (induction w cs rule: path_str.induct) (auto split: option.splits)

lemma walked_path_str:
  "walked ps tic c ids cs cs' w l c' \<Longrightarrow> wfk ps cs \<Longrightarrow> distinct (uuids cs) \<Longrightarrow> c \<notin> set (uuids cs) \<Longrightarrow>
   \<exists>vs. path_str w cs' = Some (take l ids, vs) \<and> length vs = l"
proof (induction rule: walked.induct)
  case (descend ids' gs gs' w l c' k u a v cs)
  then obtain vs where "path_str w gs' = Some (take l ids', vs)" "length vs = l" by auto
  moreover have "w \<noteq> u" using walked_uuids[OF descend.hyps(2)] descend.prems by auto
  ultimately show ?case using descend.prems by auto
next
  case (later k ids cs cs' w l c' u a v gs)
  then obtain vs where "path_str w cs' = Some (take l ids, vs)" "length vs = l" by auto
  moreover have "w \<noteq> u" "path_str w gs = None"
    using walked_uuids[OF later.hyps(2)] later.prems by (auto simp: path_str_None)
  ultimately show ?case by auto
qed auto


subsection \<open>Matched prefixes are the longest\<close>

lemma in_fst_image: "s \<in> fst ` A \<longleftrightarrow> (\<exists>x. (s, x) \<in> A)"
  by force

lemma content_prefix: "(s, x) \<in> set (content pre cs) \<Longrightarrow> wfk ps cs \<Longrightarrow> \<exists>t. s = pre @ t \<and> t \<noteq> []"
proof (induction pre cs rule: content.induct)
  case (2 pre u a k v gs cs)
  then show ?case by (auto simp: seg_def)
qed simp

lemma content_node: "(s, x) \<in> set (content pre cs) \<Longrightarrow> \<exists>n \<in> set cs. (s, x) \<in> set (content pre [n])"
  by (induction pre cs rule: content.induct) auto

lemma content_single_page:
  assumes "(pre @ t, x) \<in> set (content pre [n])" "wfk ps [n]" "ps \<le> length t" "0 < ps"
  shows "take ps t = page_key ps (nkey n)"
proof -
  obtain u a k v gs where n: "n = Node u a k v gs" by (cases n)
  then have psk: "ps \<le> length k" using assms(2,4) by (auto intro: dvd_imp_le)
  consider (seg) "(pre @ t, x) \<in> set (seg pre k v)" | (gs) "(pre @ t, x) \<in> set (content (pre @ k) gs)"
    using assms(1) n by auto
  then show ?thesis
  proof cases
    case seg
    with n assms(3) show ?thesis by (auto simp: seg_def page_key_def min_def split: if_splits)
  next
    case gs
    then obtain t' where "pre @ t = (pre @ k) @ t'" using content_prefix n assms(2) by fastforce
    with n psk show ?thesis by (simp add: page_key_def)
  qed
qed

lemma content_single_short:
  assumes "(pre @ t, x) \<in> set (content pre [n])" "wfk ps [n]" "length t \<le> nlen n"
  shows "t = take (length t) (nkey n) \<and> x = nvalue n ! (length t - 1)"
proof -
  obtain u a k v gs where n: "n = Node u a k v gs" by (cases n)
  have "(pre @ t, x) \<notin> set (content (pre @ k) gs)"
  proof
    assume "(pre @ t, x) \<in> set (content (pre @ k) gs)"
    from content_prefix[OF this] n assms(2) obtain t' where "pre @ t = (pre @ k) @ t'" "t' \<noteq> []"
      by auto
    then have "length t = length k + length t'" by simp
    with \<open>t' \<noteq> []\<close> n assms(3) show False by simp
  qed
  with assms(1) n have "(pre @ t, x) \<in> set (seg pre k v)" by auto
  with n show ?thesis by (auto simp: seg_def)
qed

lemma content_single_long:
  assumes "(pre @ t, x) \<in> set (content pre [n])" "nlen n < length t"
  shows "(pre @ t, x) \<in> set (content (pre @ nkey n) (kids n))"
  using assms by (cases n) (auto simp: seg_def)

lemma wfk_member: "wfk ps cs \<Longrightarrow> n \<in> set cs \<Longrightarrow> wfk ps [n]"
  by (induction ps cs rule: wfk.induct) auto

lemma wfk_entry: "wfk ps cs \<Longrightarrow> (u, a, k, v) \<in> set (ents cs) \<Longrightarrow> length v = length k \<and> k \<noteq> [] \<and> ps dvd length k"
  by (induction ps cs rule: wfk.induct) auto

lemma wfk_page_unique:
  "wfk ps cs \<Longrightarrow> n \<in> set cs \<Longrightarrow> n' \<in> set cs \<Longrightarrow> page_key ps (nkey n) = page_key ps (nkey n') \<Longrightarrow> n = n'"
  by (induction ps cs rule: wfk.induct) (force simp: image_iff)+

text \<open>The child of a well-formed list that holds a string is the one with its first page.\<close>

lemma content_child:
  assumes "pre @ t \<in> fst ` set (content pre cs)" "wfk ps cs" "0 < ps" "ps \<le> length t"
    "n \<in> set cs" "page_key ps (nkey n) = take ps t"
  obtains x where "(pre @ t, x) \<in> set (content pre [n])"
proof -
  obtain x where "(pre @ t, x) \<in> set (content pre cs)" using assms(1) unfolding in_fst_image by blast
  then obtain n' where n': "n' \<in> set cs" "(pre @ t, x) \<in> set (content pre [n'])"
    using content_node by blast
  have "take ps t = page_key ps (nkey n')"
    by (rule content_single_page[OF n'(2) wfk_member[OF assms(2) n'(1)] assms(4,3)])
  with assms(6) have "n' = n" using wfk_page_unique[OF assms(2) n'(1) assms(5)] by simp
  with n' that show thesis by blast
qed

lemma walk_Miss:
  assumes "walk_kids ps tic c ids cs = Miss" "0 < ps" "wfk ps cs" "ids \<noteq> []"
  shows "n \<in> set cs \<Longrightarrow> page_key ps (nkey n) \<noteq> page_key ps ids"
  using assms
proof (induction ps tic c ids cs rule: walk_kids.induct)
  case (2 ps tic c ids u a k v gs cs)
  from "2.prems"(2-) show ?case
    by (cases rule: walk_kids_Cons_cases)
      (use 2 in \<open>auto split: walk_res.splits\<close>)
qed simp

lemma walk_Miss_max:
  assumes "walk_kids ps tic c ids cs = Miss" "0 < ps" "wfk ps cs" "ids \<noteq> []" "ps \<le> length ids"
  shows "pre @ take ps ids \<notin> fst ` set (content pre cs)"
proof
  assume "pre @ take ps ids \<in> fst ` set (content pre cs)"
  then obtain x n where n: "n \<in> set cs" "(pre @ take ps ids, x) \<in> set (content pre [n])"
    unfolding in_fst_image using content_node by blast
  have "take ps (take ps ids) = page_key ps (nkey n)"
    by (rule content_single_page[OF n(2) wfk_member[OF assms(3) n(1)]]) (use assms in auto)
  then show False using walk_Miss[OF assms(1-4) n(1)] by (simp add: page_key_def)
qed

lemma walked_max:
  assumes "walked ps tic c ids cs cs' w l c'" "wfk ps cs" "0 < ps" "l + ps \<le> length ids"
  shows "pre @ take (l + ps) ids \<notin> fst ` set (content pre cs)"
  using assms
proof (induction arbitrary: pre rule: walked.induct)
  case (split k ids m u a v gs cs)
  have mk: "m + ps \<le> length k"
  proof -
    obtain q where q: "length k = ps * q" using split.prems by auto
    obtain r where r: "m = ps * r" using split.hyps by auto
    have "r < q" using split.hyps(3) q r by simp
    then have "ps * Suc r \<le> ps * q" by (intro mult_le_mono2) simp
    with q r show ?thesis by simp
  qed
  show ?case
  proof
    assume "pre @ take (m + ps) ids \<in> fst ` set (content pre (Node u a k v gs # cs))"
    then obtain x where "(pre @ take (m + ps) ids, x) \<in> set (content pre [Node u a k v gs])"
      by (rule content_child[OF _ split.prems(1,2)])
        (use split.prems split.hyps(1) in \<open>auto simp: page_key_def min_def\<close>)
    from content_single_short[OF this, of ps] have "take (m + ps) ids = take (m + ps) k"
      using split.prems mk by (simp add: min_def)
    with split.hyps(7)[OF mk split.prems(3)] show False by simp
  qed
next
  case (stop ids' gs k u a v cs)
  have psk: "ps \<le> length k" using stop.prems by (auto intro: dvd_imp_le)
  have m: "(pre @ k) @ take ps ids' \<notin> fst ` set (content (pre @ k) gs)"
    by (rule walk_Miss_max[OF stop.hyps(2)]) (use stop in auto)
  show ?case
  proof
    assume "pre @ take (length k + ps) (k @ ids') \<in> fst ` set (content pre (Node u a k v gs # cs))"
    then have "pre @ k @ take ps ids' \<in> fst ` set (content pre (Node u a k v gs # cs))"
      by (simp del: content.simps)
    then obtain x where "(pre @ k @ take ps ids', x) \<in> set (content pre [Node u a k v gs])"
      by (rule content_child[OF _ stop.prems(1,2)]) (use psk in \<open>auto simp: page_key_def\<close>)
    from content_single_long[OF this] have "(pre @ k @ take ps ids', x) \<in> set (content (pre @ k) gs)"
      using stop.prems(2) stop.hyps(1) by simp
    with m show False unfolding in_fst_image by auto
  qed
next
  case (descend ids' gs gs' w l c' k u a v cs)
  have psk: "ps \<le> length k" using descend.prems by (auto intro: dvd_imp_le)
  have m: "(pre @ k) @ take (l + ps) ids' \<notin> fst ` set (content (pre @ k) gs)"
    by (rule descend.IH) (use descend in auto)
  show ?case
  proof
    assume "pre @ take (length k + l + ps) (k @ ids') \<in> fst ` set (content pre (Node u a k v gs # cs))"
    then have "pre @ k @ take (l + ps) ids' \<in> fst ` set (content pre (Node u a k v gs # cs))"
      by (simp add: add.assoc del: content.simps)
    then obtain x where "(pre @ k @ take (l + ps) ids', x) \<in> set (content pre [Node u a k v gs])"
      by (rule content_child[OF _ descend.prems(1,2)]) (use psk in \<open>auto simp: page_key_def\<close>)
    from content_single_long[OF this]
    have "(pre @ k @ take (l + ps) ids', x) \<in> set (content (pre @ k) gs)"
      using descend.prems(2) descend.hyps(1) by simp
    with m show False unfolding in_fst_image by auto
  qed
next
  case (later k ids cs cs' w l c' u a v gs)
  have m: "pre @ take (l + ps) ids \<notin> fst ` set (content pre cs)"
    by (rule later.IH) (use later in auto)
  show ?case
  proof
    assume "pre @ take (l + ps) ids \<in> fst ` set (content pre (Node u a k v gs # cs))"
    then obtain x where x: "(pre @ take (l + ps) ids, x) \<in> set (content pre [Node u a k v gs])"
      using m unfolding in_fst_image by auto
    have "take ps (take (l + ps) ids) = page_key ps (nkey (Node u a k v gs))"
      by (rule content_single_page[OF x]) (use later.prems in auto)
    with later.hyps(1) show False by (simp add: page_key_def)
  qed
qed simp


subsection \<open>Field updates\<close>

lemma ents_upd_kids:
  "ents (upd_kids u f cs) = map (\<lambda>(w, a, k, v). (w, if u = w then f a else a, k, v)) (ents cs)"
  by (induction u f cs rule: upd_kids.induct) auto

lemma uuids_upd_kids [simp]: "uuids (upd_kids u f cs) = uuids cs"
  by (simp add: ents_upd_kids) (auto simp: comp_def split_beta)

lemma map_nkey_upd_kids [simp]: "map (\<lambda>n. h (nkey n)) (upd_kids u f cs) = map (\<lambda>n. h (nkey n)) cs"
  by (induction u f cs rule: upd_kids.induct) auto

lemma wfk_upd_kids [simp]: "wfk ps (upd_kids u f cs) = wfk ps cs"
proof (induction u f cs rule: upd_kids.induct)
  case (2 u f w a k v gs cs)
  have "set (map (\<lambda>n. page_key ps (nkey n)) (upd_kids u f cs)) = set (map (\<lambda>n. page_key ps (nkey n)) cs)"
    by (simp only: map_nkey_upd_kids)
  then show ?case using 2 by (simp only: wfk.simps upd_kids.simps)
qed simp

lemma content_upd_kids [simp]: "content pre (upd_kids u f cs) = content pre cs"
  by (induction pre cs rule: content.induct) auto

lemma upd_kids_id: "u \<notin> set (uuids cs) \<Longrightarrow> upd_kids u f cs = cs"
  by (induction u f cs rule: upd_kids.induct) auto

lemma path_kids_upd_kids [simp]: "path_kids w (upd_kids u f cs) = path_kids w cs"
  by (induction u f cs rule: upd_kids.induct) (auto split: option.splits)

lemma path_str_upd_kids [simp]: "path_str w (upd_kids u f cs) = path_str w cs"
  by (induction u f cs rule: upd_kids.induct) (auto split: option.splits)

lemma esum_upd_kids:
  assumes "(u, a, k, v) \<in> set (ents cs)" "distinct (uuids cs)"
  shows "esum g (upd_kids u f cs) = esum g cs - g (u, a, k, v) + g (u, f a, k, v)"
proof -
  let ?h = "\<lambda>(w, a, k, v). (w, if u = w then f a else a, k, v)"
  have "sum_list (map (g \<circ> ?h) (ents cs)) =
      sum_list (map g (ents cs)) - g (u, a, k, v) + (g \<circ> ?h) (u, a, k, v)"
    by (rule sum_list_map_cong_diff[where g = fst, OF assms(2,1)]) auto
  then show ?thesis by (simp add: esum_def ents_upd_kids)
qed

subsection \<open>Finding nodes\<close>

lemma find_kids_None: "find_kids u cs = None \<longleftrightarrow> u \<notin> set (uuids cs)"
  by (induction u cs rule: find_kids.induct) (auto split: option.splits)

lemma path_kids_None: "path_kids u cs = None \<longleftrightarrow> u \<notin> set (uuids cs)"
  by (induction u cs rule: path_kids.induct) (auto split: option.splits)

lemma find_kids_flat: "find_kids u cs = Some n \<Longrightarrow> n \<in> set (flat cs) \<and> uuid n = u"
  by (induction u cs rule: find_kids.induct) (auto split: option.splits if_splits)

lemma flat_uuid: "n \<in> set (flat cs) \<Longrightarrow> uuid n \<in> set (uuids cs)"
  by (induction cs rule: flat.induct) auto

lemma find_kids_unique:
  "distinct (uuids cs) \<Longrightarrow> n \<in> set (flat cs) \<Longrightarrow> find_kids (uuid n) cs = Some n"
proof (induction cs rule: flat.induct)
  case (2 u a k v gs cs)
  consider "n = Node u a k v gs" | "n \<in> set (flat gs)" | "n \<in> set (flat cs)" using 2 by auto
  then show ?case
  proof cases
    case 2: 2
    then have "uuid n \<noteq> u" using flat_uuid[OF 2] "2.prems" by auto
    with 2 "2.IH" "2.prems" show ?thesis by simp
  next
    case 3
    then have "uuid n \<in> set (uuids cs)" by (rule flat_uuid)
    with "2.prems" have "uuid n \<noteq> u" "uuid n \<notin> set (uuids gs)" by auto
    with 3 "2.IH" "2.prems" show ?thesis using find_kids_None[of "uuid n" gs] by simp
  qed simp
qed simp

lemma flat_entry: "n \<in> set (flat cs) \<Longrightarrow> entry_of n \<in> set (ents cs)"
  by (simp add: ents_flat)

lemma path_kids_set: "path_kids u cs = Some p \<Longrightarrow> set p \<subseteq> set (uuids cs) \<and> u \<in> set p \<and> last p = u \<and> p \<noteq> []"
  by (induction u cs arbitrary: p rule: path_kids.induct) (auto split: option.splits if_splits)

lemma path_kids_distinct: "path_kids u cs = Some p \<Longrightarrow> distinct (uuids cs) \<Longrightarrow> distinct p"
proof (induction u cs arbitrary: p rule: path_kids.induct)
  case (2 u w a k v gs cs)
  show ?case
  proof (cases "u = w")
    case False
    note F = False
    show ?thesis
    proof (cases "path_kids u gs")
      case (Some q)
      then have "distinct q" "w \<notin> set q"
        using "2.IH"(1)[OF F Some] "2.prems" path_kids_set[OF Some] by auto
      then show ?thesis using "2.prems" F Some by auto
    qed (use 2 F in auto)
  qed (use "2.prems" in auto)
qed simp


subsection \<open>Locking a path\<close>

fun upd_set :: "nat set \<Rightarrow> (nattr \<Rightarrow> nattr) \<Rightarrow> node list \<Rightarrow> node list" where
  "upd_set S f [] = []"
| "upd_set S f (Node w a k v gs # cs) =
     Node w (if w \<in> S then f a else a) k v (upd_set S f gs) # upd_set S f cs"

lemma upd_set_empty [simp]: "upd_set {} f cs = cs"
  by (induction "{}::nat set" f cs rule: upd_set.induct) auto

lemma upd_set_upd_kids:
  "u \<notin> S \<Longrightarrow> upd_set S f (upd_kids u f cs) = upd_set (insert u S) f cs"
  by (induction u f cs rule: upd_kids.induct) auto

lemma upd_set_id: "S \<inter> set (uuids cs) = {} \<Longrightarrow> upd_set S f cs = cs"
  by (induction S f cs rule: upd_set.induct) (auto simp: Int_Un_distrib)

lemma upd_set_insert_id: "u \<notin> set (uuids cs) \<Longrightarrow> upd_set (insert u S) f cs = upd_set S f cs"
  by (induction S f cs rule: upd_set.induct) auto

abbreviation inc_ref :: "nattr \<Rightarrow> nattr" where
  "inc_ref a \<equiv> a\<lparr>ref_count := ref_count a + 1\<rparr>"

abbreviation dec_ref :: "nattr \<Rightarrow> nattr" where
  "dec_ref a \<equiv> a\<lparr>ref_count := ref_count a - 1\<rparr>"

lemma upd_set_disjoint_id:
  "set p \<subseteq> set (uuids gs) \<Longrightarrow> distinct (uuids gs @ uuids cs) \<Longrightarrow> upd_set (set p) f cs = cs"
  by (intro upd_set_id) auto

lemma refs_ok_inc_path:
  assumes "path_kids u cs = Some p" "distinct (uuids cs)" "refs_ok cs"
  shows "refs_ok (upd_set (set p) inc_ref cs) \<and> rsum (upd_set (set p) inc_ref cs) = rsum cs + 1"
  using assms
proof (induction u cs arbitrary: p rule: path_kids.induct)
  case (2 u w a k v gs cs)
  show ?case
  proof (cases "u = w")
    case True
    then have "p = [w]" using 2 by simp
    moreover have "upd_set {w} inc_ref gs = gs" "upd_set {w} inc_ref cs = cs"
      using "2.prems" by (auto intro!: upd_set_id)
    ultimately show ?thesis using "2.prems" by simp
  next
    case False
    show ?thesis
    proof (cases "path_kids u gs")
      case (Some q)
      then have p: "p = w # q" using "2.prems" False by simp
      have q: "set q \<subseteq> set (uuids gs)" using path_kids_set[OF Some] by simp
      have "upd_set (set p) inc_ref gs = upd_set (set q) inc_ref gs"
        unfolding p using "2.prems" by (simp add: upd_set_insert_id)
      moreover have "upd_set (set p) inc_ref cs = cs"
        using p q "2.prems" by (intro upd_set_id) auto
      ultimately show ?thesis using "2.IH"(1)[OF False Some] "2.prems" p by simp
    next
      case None
      then have "path_kids u cs = Some p" using "2.prems" False by simp
      moreover from this have q: "set p \<subseteq> set (uuids cs)" using path_kids_set by blast
      moreover have "upd_set (set p) inc_ref gs = gs" using q "2.prems" by (intro upd_set_id) auto
      moreover have "w \<notin> set p" using q "2.prems" by auto
      ultimately show ?thesis using "2.IH"(2)[OF False None] "2.prems" by simp
    qed
  qed
qed simp

lemma refs_ok_dec_path:
  assumes "path_kids u cs = Some p" "distinct (uuids cs)" "refs_ok cs"
    "find_kids u cs = Some n" "rsum (kids n) < ref_count (attr n)"
  shows "refs_ok (upd_set (set p) dec_ref cs) \<and> rsum (upd_set (set p) dec_ref cs) = rsum cs - 1
    \<and> 0 < rsum cs"
  using assms
proof (induction u cs arbitrary: p rule: path_kids.induct)
  case (2 u w a k v gs cs)
  have cs0: "0 \<le> rsum cs" "0 \<le> rsum gs" using "2.prems" refs_ok_nonneg by auto
  show ?case
  proof (cases "u = w")
    case True
    then have "p = [w]" "n = Node w a k v gs" using 2 by simp_all
    moreover have "upd_set {w} dec_ref gs = gs" "upd_set {w} dec_ref cs = cs"
      using "2.prems" by (auto intro!: upd_set_id)
    ultimately show ?thesis using "2.prems" cs0 by simp
  next
    case False
    show ?thesis
    proof (cases "path_kids u gs")
      case (Some q)
      then have p: "p = w # q" using "2.prems" False by simp
      have q: "set q \<subseteq> set (uuids gs)" "u \<in> set (uuids gs)" using path_kids_set[OF Some] by auto
      have n: "find_kids u gs = Some n"
        using "2.prems"(4) q False find_kids_None[of u gs] by (auto split: option.splits)
      have "upd_set (set p) dec_ref gs = upd_set (set q) dec_ref gs"
        unfolding p using "2.prems" by (simp add: upd_set_insert_id)
      moreover have "upd_set (set p) dec_ref cs = cs"
        using p q "2.prems" by (intro upd_set_id) auto
      ultimately show ?thesis using "2.IH"(1)[OF False Some] "2.prems" n p cs0 by simp
    next
      case None
      then have c: "path_kids u cs = Some p" using "2.prems" False by simp
      then have q: "set p \<subseteq> set (uuids cs)" using path_kids_set by blast
      moreover have "u \<notin> set (uuids gs)" using None path_kids_None by blast
      then have n: "find_kids u cs = Some n"
        using "2.prems"(4) False find_kids_None[of u gs] by (auto split: option.splits)
      moreover have "upd_set (set p) dec_ref gs = gs" using q "2.prems" by (intro upd_set_id) auto
      moreover have "w \<notin> set p" using q "2.prems" by auto
      ultimately show ?thesis using "2.IH"(2)[OF False None] "2.prems" c cs0 by simp
    qed
  qed
qed simp

text \<open>Every node on the path to \<open>u\<close> is locked at least as often as \<open>u\<close>.\<close>

lemma path_refs_ge:
  assumes "path_kids u cs = Some p" "distinct (uuids cs)" "refs_ok cs" "find_kids u cs = Some n"
  shows "(\<forall>(w, a, k, v) \<in> set (ents cs). w \<in> set p \<longrightarrow> ref_count (attr n) \<le> ref_count a)
    \<and> ref_count (attr n) \<le> rsum cs"
  using assms
proof (induction u cs arbitrary: p rule: path_kids.induct)
  case (2 u x b k v gs cs)
  have cs0: "0 \<le> rsum cs" "0 \<le> rsum gs" using "2.prems" refs_ok_nonneg by auto
  show ?case
  proof (cases "u = x")
    case True
    then have "p = [x]" "n = Node x b k v gs" using 2 by simp_all
    moreover have "(w, a, k', v') \<in> set (ents gs @ ents cs) \<Longrightarrow> w \<noteq> x" for w a k' v'
      using "2.prems"(2) by force
    ultimately show ?thesis using cs0 by auto
  next
    case False
    show ?thesis
    proof (cases "path_kids u gs")
      case (Some q)
      then have p: "p = x # q" using "2.prems" False by simp
      have q: "set q \<subseteq> set (uuids gs)" "u \<in> set (uuids gs)" using path_kids_set[OF Some] by auto
      have n: "find_kids u gs = Some n"
        using "2.prems"(4) q False find_kids_None[of u gs] by (auto split: option.splits)
      have ih: "(\<forall>(w, a, k, v) \<in> set (ents gs). w \<in> set q \<longrightarrow> ref_count (attr n) \<le> ref_count a)
          \<and> ref_count (attr n) \<le> rsum gs"
        using "2.IH"(1)[OF False Some] "2.prems" n by auto
      have "(w, a, k', v') \<in> set (ents cs) \<Longrightarrow> w \<notin> set p" for w a k' v'
        using "2.prems"(2) q(1) p by force
      moreover have "(w, a, k', v') \<in> set (ents gs) \<Longrightarrow> w \<noteq> x" for w a k' v'
        using "2.prems"(2) by force
      ultimately show ?thesis using ih p "2.prems"(3) cs0 by fastforce
    next
      case None
      then have c: "path_kids u cs = Some p" using "2.prems" False by simp
      then have q: "set p \<subseteq> set (uuids cs)" using path_kids_set by blast
      have "u \<notin> set (uuids gs)" using None path_kids_None by blast
      then have n: "find_kids u cs = Some n"
        using "2.prems"(4) False find_kids_None[of u gs] by (auto split: option.splits)
      have ih: "(\<forall>(w, a, k, v) \<in> set (ents cs). w \<in> set p \<longrightarrow> ref_count (attr n) \<le> ref_count a)
          \<and> ref_count (attr n) \<le> rsum cs"
        using "2.IH"(2)[OF False None] "2.prems" n c by auto
      have "(w, a, k', v') \<in> set (ents gs) \<Longrightarrow> w \<notin> set p" for w a k' v'
        using "2.prems"(2) q by force
      moreover have "x \<notin> set p" using q "2.prems" by auto
      ultimately show ?thesis using ih "2.prems"(3) cs0 by fastforce
    qed
  qed
qed simp

subsection \<open>Adding a leaf\<close>

lemma add_kids_id: "u \<notin> set (uuids cs) \<Longrightarrow> add_kids u n cs = cs"
  by (induction u n cs rule: add_kids.induct) auto

lemma mset_ents_add_kids:
  "distinct (uuids cs) \<Longrightarrow> u \<in> set (uuids cs) \<Longrightarrow>
   mset (ents (add_kids u n cs)) = mset (ents [n]) + mset (ents cs)"
proof (induction u n cs rule: add_kids.induct)
  case (2 u n w a k v gs cs)
  show ?case
  proof (cases "u = w")
    case True
    then have "add_kids u n cs = cs" using 2 by (intro add_kids_id) auto
    with True show ?thesis by simp
  next
    case False
    show ?thesis
    proof (cases "u \<in> set (uuids gs)")
      case True
      then have "add_kids u n cs = cs" using 2 by (intro add_kids_id) auto
      with True False 2 show ?thesis by simp
    next
      case F: False
      then have "add_kids u n gs = gs" by (rule add_kids_id)
      with False F 2 show ?thesis by simp
    qed
  qed
qed simp

lemma esum_mset: "esum f cs = \<Sum>\<^sub># (image_mset f (mset (ents cs)))"
  by (metis esum_def mset_map sum_mset_sum_list)

lemma esum_add_kids:
  "distinct (uuids cs) \<Longrightarrow> u \<in> set (uuids cs) \<Longrightarrow> esum f (add_kids u n cs) = esum f [n] + esum f cs"
  by (simp add: esum_mset mset_ents_add_kids)

lemma map_nkey_add_kids [simp]: "map (\<lambda>n. h (nkey n)) (add_kids u m cs) = map (\<lambda>n. h (nkey n)) cs"
  by (induction u m cs rule: add_kids.induct) auto

lemma wfk_append:
  "wfk ps (cs @ ds) \<longleftrightarrow> wfk ps cs \<and> wfk ps ds \<and>
     set (map (\<lambda>n. page_key ps (nkey n)) cs) \<inter> set (map (\<lambda>n. page_key ps (nkey n)) ds) = {}"
  by (induction ps cs rule: wfk.induct) auto

lemma wfk_add_kids:
  assumes "wfk ps cs" "wfk ps [n]"
    "\<And>x. x \<in> set (flat cs) \<Longrightarrow> uuid x = u \<Longrightarrow>
       page_key ps (nkey n) \<notin> set (map (\<lambda>g. page_key ps (nkey g)) (kids x))"
  shows "wfk ps (add_kids u n cs)"
  using assms
proof (induction u n cs rule: add_kids.induct)
  case (2 u n w a k v gs cs)
  have "wfk ps cs" "wfk ps gs" using "2.prems" by auto
  have "wfk ps (add_kids u n cs)" by (rule "2.IH"(2)) (use 2 in auto)
  moreover have "u \<noteq> w \<Longrightarrow> wfk ps (add_kids u n gs)" by (rule "2.IH"(1)) (use 2 in auto)
  moreover have "u = w \<Longrightarrow> wfk ps (gs @ [n])"
    using "2.prems"(1,2) "2.prems"(3)[of "Node w a k v gs"] by (auto simp: wfk_append)
  moreover have "set (map (\<lambda>n. page_key ps (nkey n)) (add_kids u n cs))
      = set (map (\<lambda>n. page_key ps (nkey n)) cs)" by (simp only: map_nkey_add_kids)
  ultimately show ?case using "2.prems"(1) by (simp only: add_kids.simps wfk.simps) auto
qed simp

lemma refs_ok_add_kids:
  "refs_ok cs \<Longrightarrow> refs_ok [n] \<Longrightarrow> ref_count (attr n) = 0 \<Longrightarrow>
   refs_ok (add_kids u n cs) \<and> rsum (add_kids u n cs) = rsum cs"
  by (induction u n cs rule: add_kids.induct) (auto simp: rsum_def)

lemma content_add_kids:
  "distinct (uuids cs) \<Longrightarrow> path_str u cs = Some (s, vs) \<Longrightarrow>
   mset (content pre (add_kids u n cs)) = mset (content pre cs) + mset (content (pre @ s) [n])"
proof (induction u n cs arbitrary: pre s vs rule: add_kids.induct)
  case (2 u n w a k v gs cs)
  show ?case
  proof (cases "u = w")
    case True
    then have "add_kids u n cs = cs" using 2 by (intro add_kids_id) auto
    with True 2 show ?thesis by simp
  next
    case False
    show ?thesis
    proof (cases "path_str u gs")
      case None
      then have "add_kids u n gs = gs" by (simp add: add_kids_id path_str_None)
      with None False 2 show ?thesis by simp
    next
      case (Some q)
      then obtain s' vs' where q: "path_str u gs = Some (s', vs')" by (cases q) auto
      then have "u \<in> set (uuids gs)" using path_str_None[of u gs] by auto
      then have "add_kids u n cs = cs" using 2 by (intro add_kids_id) auto
      with q False 2 show ?thesis by auto
    qed
  qed
qed simp

text \<open>Where the walk stops, the next page is not the page of a child.\<close>

lemma walked_no_child:
  assumes "walked ps tic c ids cs cs' w l c'" "wfk ps cs" "0 < ps" "ps dvd length ids"
    "l < length ids" "x \<in> set (flat cs')" "uuid x = w" "distinct (uuids cs)" "c \<notin> set (uuids cs)"
  shows "page_key ps (drop l ids) \<notin> set (map (\<lambda>g. page_key ps (nkey g)) (kids x))"
  using assms
proof (induction rule: walked.induct)
  case (split k ids m u a v gs cs)
  have "x = Node c (split_attr tic a) (take m k) (take m v)
         [Node u (a\<lparr>swa_uuid := None\<rparr>) (drop m k) (drop m v) gs]"
    using split.prems flat_uuid[of x gs] flat_uuid[of x cs] by auto
  moreover have "page_key ps (drop m ids) \<noteq> page_key ps (drop m k)"
  proof
    assume eq: "page_key ps (drop m ids) = page_key ps (drop m k)"
    have "m + ps \<le> length ids" "m + ps \<le> length k"
      using split.hyps split.prems by (auto intro: dvd_step)
    moreover have "take (m + ps) k = take (m + ps) ids"
      using eq split.hyps(6) by (simp add: take_add page_key_def)
    ultimately show False using split.hyps(7) by simp
  qed
  ultimately show ?case by simp
next
  case (stop ids' gs k u a v cs)
  have "x = Node u (a\<lparr>timestamp := tic\<rparr>) k v gs"
    using stop.prems flat_uuid[of x gs] flat_uuid[of x cs] by auto
  then show ?case using walk_Miss[OF stop.hyps(2)] stop by fastforce
next
  case (descend ids' gs gs' w l c' k u a v cs)
  have "w \<in> set (uuids gs) \<or> w = c" using walked_uuids[OF descend.hyps(2)] by blast
  moreover have "u \<notin> set (uuids gs)" "set (uuids gs) \<inter> set (uuids cs) = {}" "c \<noteq> u"
    "c \<notin> set (uuids cs)" using descend.prems(7,8) by auto
  ultimately have "w \<noteq> u" "w \<notin> set (uuids cs)" by blast+
  then have "x \<in> set (flat gs')" using descend.prems(5,6) flat_uuid[of x cs] by auto
  moreover have "ps dvd length ids'" using descend.prems by (simp add: dvd_add_right_iff)
  ultimately show ?case using descend by auto
next
  case (later k ids cs cs' w l c' u a v gs)
  have "w \<in> set (uuids cs) \<or> w = c" using walked_uuids[OF later.hyps(2)] by blast
  moreover have "u \<notin> set (uuids cs)" "set (uuids gs) \<inter> set (uuids cs) = {}" "c \<noteq> u"
    "c \<notin> set (uuids gs)" using later.prems(7,8) by auto
  ultimately have "w \<noteq> u" "w \<notin> set (uuids gs)" by blast+
  then have "x \<in> set (flat cs')" using later.prems(5,6) flat_uuid[of x gs] by auto
  then show ?case using later by auto
qed simp


subsection \<open>Unlinking a leaf\<close>

definition del_node :: "nat \<Rightarrow> node \<Rightarrow> node" where
  "del_node u n = Node (uuid n) (attr n) (nkey n) (nvalue n) (del_kids u (kids n))"

lemma del_kids_id: "u \<notin> set (uuids cs) \<Longrightarrow> del_kids u cs = cs"
  by (induction u cs rule: del_kids.induct) auto

lemma del_node_id: "u \<notin> set (uuids (kids n)) \<Longrightarrow> del_node u n = n"
  by (cases n) (simp add: del_node_def del_kids_id)

definition leaf_at :: "nat \<Rightarrow> node list \<Rightarrow> bool" where
  "leaf_at u cs \<longleftrightarrow> (\<forall>n \<in> set (flat cs). uuid n = u \<longrightarrow> kids n = [])"

lemma leaf_at_simps [simp]:
  "leaf_at u []"
  "leaf_at u (Node w a k v gs # cs) \<longleftrightarrow> (u = w \<longrightarrow> gs = []) \<and> leaf_at u gs \<and> leaf_at u cs"
  by (auto simp: leaf_at_def)

lemma set_flat_self: "set cs \<subseteq> set (flat cs)"
  by (induction cs rule: flat.induct) auto

lemma filter_fst_id: "u \<notin> fst ` set xs \<Longrightarrow> filter (\<lambda>e. fst e \<noteq> u) xs = xs"
  by (induction xs) auto

lemma flat_kids: "n \<in> set (flat cs) \<Longrightarrow> set (flat (kids n)) \<subseteq> set (flat cs)"
  by (induction cs rule: flat.induct) auto

lemma flat_del_kids:
  "distinct (uuids cs) \<Longrightarrow> leaf_at u cs \<Longrightarrow>
   flat (del_kids u cs) = map (del_node u) (filter (\<lambda>n. uuid n \<noteq> u) (flat cs))"
proof (induction u cs rule: del_kids.induct)
  case (2 u w a k v gs cs)
  show ?case
  proof (cases "u = w")
    case True
    have "filter (\<lambda>n. uuid n \<noteq> u) (flat cs) = flat cs"
      using "2.prems" True flat_uuid[of _ cs] by (intro filter_True) auto
    moreover have "map (del_node u) (flat cs) = flat cs"
    proof (rule map_idI)
      fix n assume n: "n \<in> set (flat cs)"
      have "set (uuids (kids n)) \<subseteq> set (uuids cs)"
        using flat_kids[OF n] by (auto simp: ents_flat)
      then show "del_node u n = n" using "2.prems" True by (intro del_node_id) auto
    qed
    ultimately show ?thesis using True "2.prems" by simp
  next
    case False
    then show ?thesis using 2 by (simp add: del_node_def)
  qed
qed simp

lemma ents_del_kids:
  assumes "distinct (uuids cs)" "leaf_at u cs"
  shows "ents (del_kids u cs) = filter (\<lambda>e. fst e \<noteq> u) (ents cs)"
proof -
  have "entry_of \<circ> del_node u = entry_of" by (auto simp: entry_of_def del_node_def)
  then show ?thesis
    using flat_del_kids[OF assms] by (simp add: ents_flat filter_map comp_def entry_of_def)
qed

lemma esum_del_kids:
  assumes "distinct (uuids cs)" "leaf_at u cs" "(u, a, k, v) \<in> set (ents cs)"
  shows "esum f (del_kids u cs) = esum f cs - f (u, a, k, v)"
proof -
  obtain xs ys where xy: "ents cs = xs @ (u, a, k, v) # ys" using assms(3) split_list by fast
  then have "filter (\<lambda>e. fst e \<noteq> u) (ents cs) = xs @ ys"
    using assms(1) by (simp add: filter_fst_id)
  then show ?thesis using ents_del_kids[OF assms(1,2)] xy by (simp add: esum_def)
qed

lemma length_ents_del_kids:
  "u \<in> set (uuids cs) \<Longrightarrow> length (ents (del_kids u cs)) < length (ents cs)"
proof (induction u cs rule: del_kids.induct)
  case (2 u w a k v gs cs)
  have le: "length (ents (del_kids u ds)) \<le> length (ents ds)" for u ds
    by (induction u ds rule: del_kids.induct) auto
  show ?case
  proof (cases "u = w")
    case False
    then have "u \<in> set (uuids gs) \<or> u \<in> set (uuids cs)" using "2.prems" by simp
    then show ?thesis
      using "2.IH"(1)[OF False] "2.IH"(2)[OF False] le[of u gs] le[of u cs] False
      by (cases "u \<in> set (uuids gs)") auto
  qed simp
qed simp

lemma set_map_nkey_del_kids: "set (map h (map nkey (del_kids u cs))) \<subseteq> set (map h (map nkey cs))"
  by (induction u cs rule: del_kids.induct) auto

lemma wfk_del_kids: "wfk ps cs \<Longrightarrow> wfk ps (del_kids u cs)"
proof (induction u cs rule: del_kids.induct)
  case (2 u w a k v gs cs)
  then show ?case using set_map_nkey_del_kids[of "page_key ps" u cs] by auto
qed simp

lemma refs_ok_del_kids: "refs_ok cs \<Longrightarrow> refs_ok (del_kids u cs) \<and> rsum (del_kids u cs) \<le> rsum cs"
proof (induction u cs rule: del_kids.induct)
  case (2 u w a k v gs cs)
  have "0 \<le> rsum gs" using "2.prems" refs_ok_nonneg by auto
  then show ?case using 2 by auto
qed simp

lemma mset_content_del_kids:
  "distinct (uuids cs) \<Longrightarrow> leaf_at u cs \<Longrightarrow> (u, a, k, v) \<in> set (ents cs) \<Longrightarrow>
   \<exists>s. mset (content pre cs) = mset (content pre (del_kids u cs)) + mset (seg s k v)"
proof (induction u cs arbitrary: pre rule: del_kids.induct)
  case (2 u w b k' v' gs cs)
  show ?case
  proof (cases "u = w")
    case True
    then have "(u, a, k, v) = (w, b, k', v')" using 2 by (auto simp: rev_image_eqI)
    then show ?thesis using True "2.prems" by auto
  next
    case False
    then consider "(u, a, k, v) \<in> set (ents gs)" | "(u, a, k, v) \<in> set (ents cs)" using 2 by auto
    then show ?thesis
    proof cases
      case 1
      then have "u \<notin> set (uuids cs)" using "2.prems" by (auto simp: rev_image_eqI disjoint_iff)
      then have "del_kids u cs = cs" by (rule del_kids_id)
      moreover have "\<exists>s. mset (content (pre @ k') gs)
          = mset (content (pre @ k') (del_kids u gs)) + mset (seg s k v)"
        by (rule "2.IH"(1)[OF False]) (use "2.prems" 1 in auto)
      then obtain s where "mset (content (pre @ k') gs)
          = mset (content (pre @ k') (del_kids u gs)) + mset (seg s k v)" by blast
      ultimately show ?thesis using False by (auto intro: exI[of _ s])
    next
      case 2
      then have "u \<notin> set (uuids gs)" using "2.prems" by (auto simp: rev_image_eqI disjoint_iff)
      then have "del_kids u gs = gs" by (rule del_kids_id)
      moreover have "\<exists>s. mset (content pre cs)
          = mset (content pre (del_kids u cs)) + mset (seg s k v)"
        by (rule "2.IH"(2)[OF False]) (use "2.prems" 2 in auto)
      then obtain s where "mset (content pre cs)
          = mset (content pre (del_kids u cs)) + mset (seg s k v)" by blast
      ultimately show ?thesis using False by (auto intro: exI[of _ s])
    qed
  qed
qed simp

subsection \<open>Parents\<close>

lemma path_kids_parent:
  assumes "path_kids u cs = Some q" "distinct (uuids cs)" "n \<in> set (flat cs)" "x \<in> set (kids n)" "uuid x = u"
  shows "\<exists>q'. q = q' @ [uuid n, u]"
  using assms
proof (induction u cs arbitrary: q rule: path_kids.induct)
  case (2 u w a k v gs cs)
  have xn: "x \<in> set (flat (kids n))" using "2.prems"(4) set_flat_self by blast
  then have xin: "x \<in> set (flat (Node w a k v gs # cs))" using flat_kids[OF "2.prems"(3)] by auto
  consider (here) "n = Node w a k v gs" | (gs) "n \<in> set (flat gs)" | (cs) "n \<in> set (flat cs)"
    using "2.prems"(3) by auto
  then show ?case
  proof cases
    case here
    then have xg: "x \<in> set gs" "u \<in> set (uuids gs)"
      using "2.prems"(4,5) flat_uuid[of x gs] xn by auto
    then have "u \<noteq> w" using "2.prems"(2) by auto
    moreover have "path_kids u gs = Some [u]"
      using xg(1) "2.prems"(2,5)
    proof (induction gs rule: flat.induct)
      case (2 w' a' k' v' gs' cs')
      show ?case
      proof (cases "u = w'")
        case False
        then have "x \<in> set cs'" using "2.prems" by auto
        moreover from this have "u \<in> set (uuids cs')"
          using "2.prems"(3) flat_uuid[of x cs'] set_flat_self by blast
        ultimately show ?thesis using 2 False path_kids_None[of u gs']  by auto
      qed simp
    qed simp
    ultimately show ?thesis using "2.prems" here by auto
  next
    case gs
    then have "x \<in> set (flat gs)" using flat_kids[OF gs] xn by auto
    then have "u \<in> set (uuids gs)" using flat_uuid "2.prems"(5) by blast
    moreover have "w \<notin> set (uuids gs)" using "2.prems"(2) by auto
    ultimately obtain p where p: "path_kids u gs = Some p" and "u \<noteq> w"
      using path_kids_None[of u gs] by fastforce
    with "2.IH"(1)[of p] "2.prems" gs show ?thesis by auto
  next
    case cs
    then have "x \<in> set (flat cs)" using flat_kids[OF cs] xn by auto
    then have u: "u \<in> set (uuids cs)" using flat_uuid "2.prems"(5) by blast
    moreover have "w \<notin> set (uuids cs)" "set (uuids gs) \<inter> set (uuids cs) = {}"
      using "2.prems"(2) by auto
    ultimately have "u \<noteq> w" "path_kids u gs = None" using path_kids_None[of u gs] by blast+
    moreover from this have "path_kids u cs = Some q" using "2.prems"(1) by simp
    ultimately show ?thesis using "2.IH"(2) "2.prems"(2,4,5) cs by simp
  qed
qed simp

lemma path_kids_single: "path_kids u cs = Some [u] \<Longrightarrow> u \<in> uuid ` set cs"
proof (induction u cs rule: path_kids.induct)
  case (2 u w a k v gs cs)
  then show ?case by (cases "u = w"; cases "path_kids u gs") auto
qed simp

lemma path_kids_append2:
  assumes "path_kids u cs = Some (q @ [p, u])"
  shows "\<exists>n \<in> set (flat cs). uuid n = p \<and> u \<in> uuid ` set (kids n)"
  using assms
proof (induction u cs arbitrary: q rule: path_kids.induct)
  case (2 u w a k v gs cs)
  show ?case
  proof (cases "u = w")
    case False
    show ?thesis
    proof (cases "path_kids u gs")
      case (Some r)
      then have r: "w # r = q @ [p, u]" using "2.prems" False by simp
      show ?thesis
      proof (cases q)
        case Nil
        then have "w = p" "path_kids u gs = Some [u]" using r Some by auto
        moreover from this have "u \<in> uuid ` set gs" using path_kids_single by blast
        ultimately show ?thesis by auto
      next
        case (Cons y ys)
        then show ?thesis using "2.IH"(1)[OF False, of ys] Some r by auto
      qed
    qed (use 2 False in auto)
  qed (use "2.prems" in auto)
qed simp


end
