(* ===== verification/Radix_Cache.thy ===== *)
theory Radix_Cache
  imports Radix_Tree
begin

text \<open>
  The plain prefix cache: \<^verbatim>\<open>RadixPrefixCache\<close> and \<^verbatim>\<open>NaivePrefixCache\<close> of
  \<^verbatim>\<open>kvcache/radix_cache.py\<close> and \<^verbatim>\<open>kvcache/naive_cache.py\<close>, the contract
  \<^verbatim>\<open>BasePrefixCache\<close> of \<^verbatim>\<open>kvcache/base.py\<close> as a locale, and its two interpretations.

  Clock readings (\<^verbatim>\<open>time.monotonic_ns\<close>) are arguments: \<open>tic\<close> is the reading of the walk and
  \<open>now\<close> the one of a new node. \<^verbatim>\<open>heapq\<close> is a list from which \<^verbatim>\<open>heappop\<close> takes an element with
  the least time stamp (the first of them, if several have it; the documentation of
  \<^verbatim>\<open>heapq\<close> leaves that choice open, and no theorem here depends on it).
\<close>

section \<open>State and operations\<close>

record radix =
  page_size :: nat
  evictable_size :: int
  protected_size :: int
  root_node :: node
  counter :: nat

record handle =
  cached_len :: nat
  hnode :: nat

text \<open>\<^verbatim>\<open>RadixPrefixCache.__init__\<close>: the root gets the next uuid and is always protected.\<close>

definition radix_init :: "nat \<Rightarrow> nat \<Rightarrow> int \<Rightarrow> radix" where
  "radix_init ps c now =
     \<lparr> page_size = ps, evictable_size = 0, protected_size = 0,
       root_node = Node c ((fresh_attr 0 now)\<lparr>ref_count := 1\<rparr>) [] [] [],
       counter = Suc c \<rparr>"

text \<open>\<^verbatim>\<open>RadixCacheHandle.get_matched_indices\<close>: the values on the way to the root, reversed.\<close>

fun collect_values :: "node \<Rightarrow> nat list \<Rightarrow> int list list result" where
  "collect_values root [] = Inr []"
| "collect_values root (u # us) =
     rbind (find_node u root) (\<lambda>n. rbind (collect_values root us) (\<lambda>vs. Inr (nvalue n # vs)))"

definition get_matched_indices :: "radix \<Rightarrow> handle \<Rightarrow> int list result" where
  "get_matched_indices s h =
     rbind (chain (hnode h) (root_node s)) (\<lambda>p.
     rbind (collect_values (root_node s) p) (\<lambda>value_list. torch_cat (rev value_list)))"

text \<open>The two loops of \<^verbatim>\<open>lock_handle\<close>, over the nodes from the handle's node to the root.\<close>

fun lock_loop :: "nat list \<Rightarrow> radix \<Rightarrow> radix result" where
  "lock_loop [] s = Inr s"
| "lock_loop (u # us) s =
     rbind (find_node u (root_node s)) (\<lambda>n.
       let s1 = (if ref_count (attr n) = 0
                 then s\<lparr>evictable_size := evictable_size s - int (nlen n),
                        protected_size := protected_size s + int (nlen n)\<rparr>
                 else s)
       in lock_loop us (s1\<lparr>root_node := upd u inc_ref (root_node s1)\<rparr>))"

fun unlock_loop :: "nat list \<Rightarrow> radix \<Rightarrow> radix result" where
  "unlock_loop [] s = Inr s"
| "unlock_loop (u # us) s =
     rbind (find_node u (root_node s)) (\<lambda>n.
       py_assert (ref_count (attr n) - 1 \<ge> 0)
         (let s1 = s\<lparr>root_node := upd u dec_ref (root_node s)\<rparr>;
              s2 = (if ref_count (attr n) - 1 = 0
                    then s1\<lparr>evictable_size := evictable_size s1 + int (nlen n),
                            protected_size := protected_size s1 - int (nlen n)\<rparr>
                    else s1)
          in unlock_loop us s2))"

definition lock_handle :: "radix \<Rightarrow> handle \<Rightarrow> bool \<Rightarrow> radix result" where
  "lock_handle s h unlock =
     rbind (chain (hnode h) (root_node s)) (\<lambda>p. if unlock then unlock_loop p s else lock_loop p s)"

definition match_prefix :: "int \<Rightarrow> int list \<Rightarrow> radix \<Rightarrow> (radix \<times> handle) result" where
  "match_prefix tic ids s =
     rbind (tree_walk (page_size s) tic (counter s) ids (root_node s)) (\<lambda>(r, u, l, c).
       Inr (s\<lparr>root_node := r, counter := c\<rparr>, \<lparr>cached_len = l, hnode = u\<rparr>))"

definition insert_prefix ::
  "int \<Rightarrow> int \<Rightarrow> int list \<Rightarrow> int list \<Rightarrow> radix \<Rightarrow> (radix \<times> nat \<times> handle) result" where
  "insert_prefix tic now input_ids indices s =
     (let insert_len = align_down (length input_ids) (page_size s);
          ids = take insert_len input_ids; idx = take insert_len indices
      in rbind (tree_walk (page_size s) tic (counter s) ids (root_node s)) (\<lambda>(r, u, prefix_len, c).
           if prefix_len \<noteq> insert_len then
             py_assert (length (drop prefix_len ids) = length (drop prefix_len idx))
               (let new_node = Node c (fresh_attr 0 now) (drop prefix_len ids) (drop prefix_len idx) []
                in Inr (s\<lparr>root_node := add_child u new_node r, counter := Suc c,
                          evictable_size := evictable_size s + int (nlen new_node)\<rparr>,
                        prefix_len, \<lparr>cached_len = insert_len, hnode = c\<rparr>))
           else Inr (s\<lparr>root_node := r, counter := c\<rparr>, prefix_len,
                     \<lparr>cached_len = insert_len, hnode = u\<rparr>)))"

definition collect_leave_nodes_for_evict :: "node \<Rightarrow> nat list" where
  "collect_leave_nodes_for_evict root =
     map uuid (filter (\<lambda>n. is_leaf n \<and> ref_count (attr n) = 0) (preorder [root]))"

text \<open>The key \<^verbatim>\<open>heapq\<close> orders a node by (\<^verbatim>\<open>RadixTreeNode.__lt__\<close>).\<close>

definition stamp_of :: "node \<Rightarrow> nat \<Rightarrow> int" where
  "stamp_of root u = (case find_node u root of Inl _ \<Rightarrow> 0 | Inr n \<Rightarrow> timestamp (attr n))"

definition heappop :: "(nat \<Rightarrow> 'k::linorder) \<Rightarrow> nat list \<Rightarrow> nat \<times> nat list" where
  "heappop f xs = (let x = arg_min_list f xs in (x, remove1 x xs))"

lemma unlink_decreases:
  assumes "find_node u root = Inr n" "u \<noteq> uuid root"
  shows "length (ents (kids (unlink u root))) < length (ents (kids root))"
proof -
  have "find_kids u (kids root) \<noteq> None"
    using assms by (auto simp: find_node_def split: option.splits)
  then have "u \<in> set (uuids (kids root))" using find_kids_None[of u "kids root"] by simp
  then show ?thesis by (simp add: unlink_def length_ents_del_kids)
qed

text \<open>The loop of \<^verbatim>\<open>evict\<close>. Each round unlinks a node, so it ends.\<close>

function evict_loop ::
  "nat \<Rightarrow> radix \<Rightarrow> nat list \<Rightarrow> int list \<Rightarrow> nat \<Rightarrow> (radix \<times> int list) result" where
  "evict_loop sz s leave_nodes evicted evicted_size =
     (if \<not> evicted_size < sz then Inr (s, evicted)
      else if leave_nodes = [] then Inl AssertionError
      else case heappop (stamp_of (root_node s)) leave_nodes of (u, leave_nodes') \<Rightarrow>
        case find_node u (root_node s) of Inl e \<Rightarrow> Inl e | Inr n \<Rightarrow>
        if \<not> (ref_count (attr n) = 0 \<and> is_leaf n \<and> u \<noteq> uuid (root_node s)) then Inl AssertionError
        else case parent_of u (root_node s) of Inl e \<Rightarrow> Inl e | Inr p \<Rightarrow>
          let s' = s\<lparr>evictable_size := evictable_size s - int (nlen n),
                     root_node := unlink u (root_node s)\<rparr>
          in case find_node p (root_node s') of Inl e \<Rightarrow> Inl e | Inr parent \<Rightarrow>
             evict_loop sz s'
               (if is_leaf parent \<and> ref_count (attr parent) = 0 then leave_nodes' @ [p]
                else leave_nodes')
               (evicted @ nvalue n) (evicted_size + nlen n))"
  by pat_completeness auto
termination
  by (relation "measure (\<lambda>(sz, s, h, ev, n). length (ents (kids (root_node s))))")
    (auto simp: unlink_decreases)

declare evict_loop.simps [simp del]

definition evict :: "nat \<Rightarrow> radix \<Rightarrow> (radix \<times> int list) result" where
  "evict sz s =
     (if sz = 0 then Inr (s, [])
      else py_assert (int sz \<le> evictable_size s)
        (evict_loop sz s (collect_leave_nodes_for_evict (root_node s)) [] 0))"

text \<open>\<^verbatim>\<open>RadixPrefixCache.reset\<close> is an unimplemented stub.\<close>

definition reset :: "radix \<Rightarrow> radix result" where
  "reset s = Inl NotImplementedError"

text \<open>\<^verbatim>\<open>SizeInfo\<close> and its \<^verbatim>\<open>total_size\<close>.\<close>

definition size_info :: "radix \<Rightarrow> int \<times> int" where
  "size_info s = (evictable_size s, protected_size s)"

definition total_size :: "int \<times> int \<Rightarrow> int" where
  "total_size i = fst i + snd i"

section \<open>Invariant\<close>

text \<open>Tokens of a node counted as evictable (unlocked) or as protected (locked).\<close>

definition evictable_tokens :: "entry \<Rightarrow> int" where
  "evictable_tokens = (\<lambda>(u, a, k, v). if ref_count a = 0 then int (length k) else 0)"

definition protected_tokens :: "entry \<Rightarrow> int" where
  "protected_tokens = (\<lambda>(u, a, k, v). if ref_count a = 0 then 0 else int (length k))"

definition tree_inv :: "nat \<Rightarrow> nat \<Rightarrow> node \<Rightarrow> bool" where
  "tree_inv ps c root \<longleftrightarrow>
     0 < ps \<and> 0 < ref_count (attr root) \<and>
     distinct (uuid root # uuids (kids root)) \<and> (\<forall>u \<in> set (uuid root # uuids (kids root)). u < c) \<and>
     wfk ps (kids root) \<and> refs_ok (kids root)"

definition radix_inv :: "radix \<Rightarrow> bool" where
  "radix_inv s \<longleftrightarrow>
     tree_inv (page_size s) (counter s) (root_node s) \<and>
     evictable_size s = esum evictable_tokens (kids (root_node s)) \<and>
     protected_size s = esum protected_tokens (kids (root_node s))"

lemma radix_inv_init: "0 < ps \<Longrightarrow> radix_inv (radix_init ps c now)"
  by (simp add: radix_inv_def radix_init_def tree_inv_def)

lemma additive_evictable: "additive evictable_tokens"
  by (auto simp: additive_def evictable_tokens_def split_attr_def)

lemma additive_protected: "additive protected_tokens"
  by (auto simp: additive_def protected_tokens_def split_attr_def)

section \<open>Walks on a cache\<close>

lemma tree_invD:
  assumes "tree_inv ps c root"
  shows "0 < ps" "wfk ps (kids root)" "refs_ok (kids root)" "distinct (uuids (kids root))"
    "uuid root \<notin> set (uuids (kids root))" "c \<notin> set (uuids (kids root))" "c \<noteq> uuid root"
    "\<And>u. u \<in> set (uuids (kids root)) \<Longrightarrow> u < c" "uuid root < c" "0 < ref_count (attr root)"
  using assms unfolding tree_inv_def by (auto simp del: ents.simps)

lemma tree_walk_cases [consumes 1, case_names root hit]:
  assumes "tree_inv ps c root"
  obtains "tree_walk ps tic c ids root = Inr (root, uuid root, 0, c)"
      "ids = [] \<or> walk_kids ps tic c ids (kids root) = Miss"
  | cs' u l c' where "walked ps tic c ids (kids root) cs' u l c'" "ids \<noteq> []"
      "tree_walk ps tic c ids root =
         Inr (Node (uuid root) (attr root) (nkey root) (nvalue root) cs', u, l, c')"
proof (cases "ids = [] \<or> walk_kids ps tic c ids (kids root) = Miss")
  case True
  then show thesis by (intro that(1)) (auto simp: tree_walk_def)
next
  case False
  then obtain cs' u l c' where h: "walk_kids ps tic c ids (kids root) = Hit cs' u l c'"
    using walk_kids_not_Broken[of ps "kids root" ids tic c] tree_invD[OF assms]
    by (cases "walk_kids ps tic c ids (kids root)") auto
  show thesis
  proof (rule that(2))
    show "walked ps tic c ids (kids root) cs' u l c'"
      using walk_kids_walked[OF h] tree_invD[OF assms] False by simp
  qed (use False h in \<open>auto simp: tree_walk_def\<close>)
qed

text \<open>What a walk leaves: the same root object, the same content, and a node at the end of the
  matched tokens.\<close>

lemma tree_walk_ok:
  assumes inv: "tree_inv ps c root"
  obtains r u l c' where "tree_walk ps tic c ids root = Inr (r, u, l, c')"
    "tree_inv ps c' r" "uuid r = uuid root" "attr r = attr root" "nkey r = nkey root"
    "nvalue r = nvalue root" "c \<le> c'"
    "content pre (kids r) = content pre (kids root)"
    "\<And>f. additive f \<Longrightarrow> esum f (kids r) = esum f (kids root)"
    "rsum (kids r) = rsum (kids root)"
    "l \<le> length ids" "ps dvd l"
    "u = uuid r \<and> l = 0 \<or> u \<noteq> uuid r \<and> (\<exists>vs. path_str u (kids r) = Some (take l ids, vs) \<and> length vs = l)"
    "l + ps \<le> length ids \<Longrightarrow> pre @ take (l + ps) ids \<notin> fst ` set (content pre (kids root))"
    "set (uuids (kids root)) \<subseteq> set (uuids (kids r))"
    "\<And>x. ps dvd length ids \<Longrightarrow> l < length ids \<Longrightarrow> x \<in> insert r (set (flat (kids r))) \<Longrightarrow>
       uuid x = u \<Longrightarrow> page_key ps (drop l ids) \<notin> set (map (\<lambda>g. page_key ps (nkey g)) (kids x))"
  using inv
proof (cases rule: tree_walk_cases[of ps c root tic ids])
  case root
  have miss: "n \<in> set (kids root) \<Longrightarrow> ids \<noteq> [] \<Longrightarrow> page_key ps (nkey n) \<noteq> page_key ps ids" for n
    using walk_Miss[of ps tic c ids "kids root" n] root(2) tree_invD[OF inv] by auto
  show thesis
  proof (rule that[OF root(1) inv])
    show "0 + ps \<le> length ids \<Longrightarrow> pre @ take (0 + ps) ids \<notin> fst ` set (content pre (kids root))"
      using walk_Miss_max[of ps tic c ids "kids root" pre] root(2) tree_invD(1,2)[OF inv]
      by (cases "ids = []") (simp_all add: in_fst_image)
    show "page_key ps (drop 0 ids) \<notin> set (map (\<lambda>g. page_key ps (nkey g)) (kids x))"
      if "ps dvd length ids" "0 < length ids" "x \<in> insert root (set (flat (kids root)))"
        "uuid x = uuid root" for x
    proof -
      have "x = root" using that(3,4) flat_uuid[of x "kids root"] tree_invD(5)[OF inv] by auto
      then show ?thesis using miss that(2) by (fastforce simp: image_iff)
    qed
  qed simp_all
next
  case (hit cs' u l c')
  note I = tree_invD[OF inv] and W = hit(1)
  let ?r = "Node (uuid root) (attr root) (nkey root) (nvalue root) cs'"
  note U = walked_uuids[OF W]
  have setu: "set (uuids cs') \<subseteq> insert c (set (uuids (kids root)))"
    "set (uuids (kids root)) \<subseteq> set (uuids cs')" "c \<le> c'" "c' \<le> Suc c" "c' = c \<Longrightarrow> set (uuids cs') = set (uuids (kids root))"
    using U by (metis mset_eq_setD set_mset_add_mset_insert set_mset_mset subset_insertI
        order_refl le_Suc_eq insertI1 n_not_Suc_n)+
  have dist: "distinct (uuids cs')" using U I(4,6) by (metis distinct.simps(2) mset.simps(2) mset_eq_imp_distinct_iff)
  have uin: "u \<in> set (uuids cs')" using U setu(2) by (metis mset_eq_setD set_mset_add_mset_insert set_mset_mset insertI1)
  have lt: "w < c'" if "w \<in> set (uuids cs')" for w
  proof (cases "c' = c")
    case True
    then show ?thesis using setu(5) I(8) that by blast
  next
    case False
    then have "c' = Suc c" using setu(3,4) by simp
    then show ?thesis using setu(1) I(8) that by fastforce
  qed
  have rt: "uuid root \<notin> set (uuids cs')" using setu(1) I(5,7) by blast
  have inv': "tree_inv ps c' ?r"
    unfolding tree_inv_def using I dist lt rt setu(3) wfk_walked[OF W] refs_ok_walked[OF W]
    by auto
  show thesis
  proof (rule that[OF hit(3) inv'])
    show "content pre (kids ?r) = content pre (kids root)"
      using content_walked[OF W I(2)] by simp
    show "esum f (kids ?r) = esum f (kids root)" if "additive f" for f
      using esum_walked[OF W I(2) that] by simp
    show "rsum (kids ?r) = rsum (kids root)" using refs_ok_walked[OF W] by simp
    show "l \<le> length ids" "ps dvd l" using walked_len[OF W I(2)] by auto
    show "u = uuid ?r \<and> l = 0 \<or> u \<noteq> uuid ?r \<and>
        (\<exists>vs. path_str u (kids ?r) = Some (take l ids, vs) \<and> length vs = l)"
    proof -
      have "u \<noteq> uuid ?r" using uin rt by (metis node.sel(1))
      then show ?thesis using walked_path_str[OF W I(2,4,6)] by auto
    qed
    show "l + ps \<le> length ids \<Longrightarrow> pre @ take (l + ps) ids \<notin> fst ` set (content pre (kids root))"
      using walked_max[OF W I(2,1)] by simp
    show "page_key ps (drop l ids) \<notin> set (map (\<lambda>g. page_key ps (nkey g)) (kids x))"
      if "ps dvd length ids" "l < length ids" "x \<in> insert ?r (set (flat (kids ?r)))"
        "uuid x = u" for x
    proof -
      have "u \<noteq> uuid ?r" using uin rt by (metis node.sel(1))
      then have "x \<in> set (flat cs')" using that(3,4) by auto
      then show ?thesis using walked_no_child[OF W I(2,1) that(1,2) _ that(4) I(4,6)] by simp
    qed
  qed (use setu in auto)
qed

subsection \<open>Indices along a path\<close>

lemma find_kids_in:
  "u \<in> set (uuids gs) \<Longrightarrow> u \<noteq> w \<Longrightarrow> find_kids u (Node w a k v gs # cs) = find_kids u gs"
  using find_kids_None[of u gs] by (auto split: option.splits)

lemma path_str_path_kids:
  "path_kids w cs = Some p \<Longrightarrow> distinct (uuids cs) \<Longrightarrow>
   path_str w cs = Some (concat (map (\<lambda>u. nkey (the (find_kids u cs))) p),
                         concat (map (\<lambda>u. nvalue (the (find_kids u cs))) p))"
proof (induction w cs arbitrary: p rule: path_kids.induct)
  case (2 u w a k v gs cs)
  show ?case
  proof (cases "u = w")
    case False
    show ?thesis
    proof (cases "path_kids u gs")
      case (Some q)
      then have p: "p = w # q" using "2.prems" False by simp
      have q: "\<And>x. x \<in> set q \<Longrightarrow> x \<in> set (uuids gs) \<and> x \<noteq> w"
        using path_kids_set[OF Some] "2.prems"(2) by auto
      have "map (\<lambda>u. nkey (the (find_kids u (Node w a k v gs # cs)))) q = map (\<lambda>u. nkey (the (find_kids u gs))) q"
        "map (\<lambda>u. nvalue (the (find_kids u (Node w a k v gs # cs)))) q = map (\<lambda>u. nvalue (the (find_kids u gs))) q"
        using q find_kids_in by (auto simp del: find_kids.simps)
      then show ?thesis using "2.IH"(1)[OF False Some] "2.prems"(2) False p
        by (simp del: map_eq_conv)
    next
      case None
      then have c: "path_kids u cs = Some p" using "2.prems" False by simp
      have "\<And>x. x \<in> set p \<Longrightarrow> x \<noteq> w \<and> x \<notin> set (uuids gs)"
        using path_kids_set[OF c] "2.prems"(2) by auto
      then have "\<And>x. x \<in> set p \<Longrightarrow> x \<noteq> w \<and> find_kids x gs = None"
        using find_kids_None by simp
      then have "map (\<lambda>u. nkey (the (find_kids u (Node w a k v gs # cs)))) p = map (\<lambda>u. nkey (the (find_kids u cs))) p"
        "map (\<lambda>u. nvalue (the (find_kids u (Node w a k v gs # cs)))) p = map (\<lambda>u. nvalue (the (find_kids u cs))) p"
        by auto
      moreover have "path_str u gs = None" using None path_kids_None[of u gs] path_str_None[of u gs] by simp
      ultimately show ?thesis using "2.IH"(2)[OF False None c] "2.prems"(2) False
        by (simp del: map_eq_conv find_kids.simps)
    qed
  qed (use "2.prems" in auto)
qed simp

lemma find_node_kids:
  "u \<in> set (uuids (kids root)) \<Longrightarrow> u \<noteq> uuid root \<Longrightarrow> find_node u root = Inr (the (find_kids u (kids root)))"
  using find_kids_None[of u "kids root"] by (auto simp: find_node_def split: option.splits)

lemma collect_values_ok:
  "(\<And>u. u \<in> set us \<Longrightarrow> u \<in> set (uuids (kids root)) \<and> u \<noteq> uuid root) \<Longrightarrow>
   collect_values root us = Inr (map (\<lambda>u. nvalue (the (find_kids u (kids root)))) us)"
  by (induction us) (auto simp: find_node_kids)

lemma path_str_kids:
  "path_str u cs = Some q \<Longrightarrow> \<exists>p. path_kids u cs = Some p"
  using path_str_None[of u cs] path_kids_None[of u cs] by force

lemma matched_indices:
  assumes "tree_inv ps c root" "path_str u (kids root) = Some (ks, vs)" "u \<noteq> uuid root"
    "root_node s = root"
  shows "get_matched_indices s \<lparr>cached_len = l, hnode = u\<rparr> = Inr vs"
proof -
  note I = tree_invD[OF assms(1)]
  obtain p where p: "path_kids u (kids root) = Some p" using path_str_kids[OF assms(2)] by blast
  have mem: "\<And>x. x \<in> set p \<Longrightarrow> x \<in> set (uuids (kids root)) \<and> x \<noteq> uuid root"
    using path_kids_set[OF p] I(5) by auto
  have "collect_values root (rev p) = Inr (map (\<lambda>u. nvalue (the (find_kids u (kids root)))) (rev p))"
    by (rule collect_values_ok) (use mem in auto)
  moreover have "concat (map (\<lambda>u. nvalue (the (find_kids u (kids root)))) p) = vs"
    using path_str_path_kids[OF p I(4)] assms(2) by simp
  moreover have "p \<noteq> []" using path_kids_set[OF p] by auto
  ultimately show ?thesis
    using p assms(3,4) by (simp add: get_matched_indices_def chain_def torch_cat_def flip: rev_map)
qed

lemma path_str_lengths: "path_str u cs = Some (s, vs) \<Longrightarrow> wfk ps cs \<Longrightarrow> length vs = length s"
  by (induction u cs arbitrary: s vs rule: path_str.induct) (auto split: if_splits option.splits)

lemma path_str_content:
  "path_str u cs = Some (s, vs) \<Longrightarrow> wfk ps cs \<Longrightarrow> i < length s \<Longrightarrow>
   (pre @ take (Suc i) s, vs ! i) \<in> set (content pre cs)"
proof (induction u cs arbitrary: s vs i pre rule: path_str.induct)
  case (2 w u a k v gs cs)
  show ?case
  proof (cases "w = u")
    case True
    then show ?thesis using 2 by (auto simp: set_seg)
  next
    case False
    show ?thesis
    proof (cases "path_str w gs")
      case None
      then show ?thesis using 2 False by auto
    next
      case (Some q)
      then obtain s' vs' where q: "path_str w gs = Some (s', vs')" by (cases q) auto
      then have e: "s = k @ s'" "vs = v @ vs'" using "2.prems" False by auto
      have kv: "length v = length k" using "2.prems" by simp
      show ?thesis
      proof (cases "i < length k")
        case True
        then have "(pre @ take (Suc i) k, v ! i) \<in> set (seg pre k v)" using kv by (auto simp: set_seg)
        then show ?thesis using e True kv by (simp add: nth_append)
      next
        case F: False
        then have "((pre @ k) @ take (Suc (i - length k)) s', vs' ! (i - length k)) \<in> set (content (pre @ k) gs)"
          by (intro "2.IH"(1)[OF False _ _ _]) (use q "2.prems" e F in auto)
        then show ?thesis using e F kv by (simp add: nth_append Suc_diff_le)
      qed
    qed
  qed
qed simp


section \<open>Matching and inserting\<close>

text \<open>The tokens and page indices a handle stands for: those on the way from the root to its node.\<close>

definition handle_str :: "radix \<Rightarrow> handle \<Rightarrow> (int list \<times> int list) option" where
  "handle_str s h = (if hnode h = uuid (root_node s) then Some ([], [])
                     else path_str (hnode h) (kids (root_node s)))"

lemma path_str_nonempty: "path_str w cs = Some (t, r) \<Longrightarrow> wfk ps cs \<Longrightarrow> t \<noteq> []"
  by (induction w cs arbitrary: t r rule: path_str.induct) (auto split: if_splits option.splits)

text \<open>A handle that stands for no token, the one at the root, has no tensor to concatenate.\<close>

lemma handle_str_indices:
  assumes "radix_inv s" "handle_str s h = Some (ks, vs)"
  shows "get_matched_indices s h = (if ks = [] then Inl ValueError else Inr vs)" "length vs = length ks"
proof -
  have t: "tree_inv (page_size s) (counter s) (root_node s)" using assms(1) by (simp add: radix_inv_def)
  show "get_matched_indices s h = (if ks = [] then Inl ValueError else Inr vs)"
  proof (cases "hnode h = uuid (root_node s)")
    case True
    then show ?thesis using assms(2) by (simp add: handle_str_def get_matched_indices_def chain_def torch_cat_def)
  next
    case False
    then have p: "path_str (hnode h) (kids (root_node s)) = Some (ks, vs)" using assms(2) by (simp add: handle_str_def)
    have "ks \<noteq> []" using path_str_nonempty[OF p tree_invD(2)[OF t]] .
    then show ?thesis using matched_indices[OF t p False refl, of "cached_len h"]
      by (simp add: get_matched_indices_def)
  qed
  show "length vs = length ks"
    using assms(2) path_str_lengths[OF _ tree_invD(2)[OF t]] by (auto simp: handle_str_def split: if_splits)
qed

abbreviation cache_content :: "radix \<Rightarrow> (int list \<times> int) list" where
  "cache_content s \<equiv> content [] (kids (root_node s))"

abbreviation cache_values :: "radix \<Rightarrow> int list" where
  "cache_values s \<equiv> map snd (cache_content s)"

text \<open>A match is read off the content: its indices are the indices of the prefixes of the input,
  and the next page is not cached.\<close>

definition longest_match :: "radix \<Rightarrow> int list \<Rightarrow> nat \<Rightarrow> int list \<Rightarrow> bool" where
  "longest_match s ids l vs \<longleftrightarrow>
     l \<le> length ids \<and> page_size s dvd l \<and> length vs = l \<and>
     (\<forall>i < l. (take (Suc i) ids, vs ! i) \<in> set (cache_content s)) \<and>
     (l + page_size s \<le> length ids \<longrightarrow>
        take (l + page_size s) ids \<notin> fst ` set (cache_content s))"

lemma match_prefix_correct:
  assumes "radix_inv s"
  shows "\<exists>s' h vs. match_prefix tic ids s = Inr (s', h) \<and> radix_inv s' \<and>
     page_size s' = page_size s \<and> size_info s' = size_info s \<and> cache_content s' = cache_content s \<and>
     handle_str s' h = Some (take (cached_len h) ids, vs) \<and> longest_match s ids (cached_len h) vs"
proof -
  have inv: "tree_inv (page_size s) (counter s) (root_node s)" using assms by (simp add: radix_inv_def)
  obtain r u l c' where W: "tree_walk (page_size s) tic (counter s) ids (root_node s) = Inr (r, u, l, c')"
    "tree_inv (page_size s) c' r"
    "content [] (kids r) = content [] (kids (root_node s))"
    "\<And>f. additive f \<Longrightarrow> esum f (kids r) = esum f (kids (root_node s))"
    "l \<le> length ids" "page_size s dvd l"
    "u = uuid r \<and> l = 0 \<or> u \<noteq> uuid r \<and> (\<exists>vs. path_str u (kids r) = Some (take l ids, vs) \<and> length vs = l)"
    "l + page_size s \<le> length ids \<Longrightarrow> [] @ take (l + page_size s) ids \<notin> fst ` set (content [] (kids (root_node s)))"
    by (rule tree_walk_ok[OF inv]) blast
  let ?s = "s\<lparr>root_node := r, counter := c'\<rparr>" and ?h = "\<lparr>cached_len = l, hnode = u\<rparr>"
  have m: "match_prefix tic ids s = Inr (?s, ?h)" using W(1) by (simp add: match_prefix_def)
  have i: "radix_inv ?s"
    using assms W(2) W(4)[OF additive_evictable] W(4)[OF additive_protected] by (simp add: radix_inv_def)
  obtain vs where "handle_str ?s ?h = Some (take l ids, vs)" "length vs = l"
    "\<forall>i < l. (take (Suc i) ids, vs ! i) \<in> set (cache_content s)"
  proof (cases "u = uuid r")
    case True
    then show thesis using that[of "[]"] W(7) by (simp add: handle_str_def)
  next
    case False
    then obtain vs where v: "path_str u (kids r) = Some (take l ids, vs)" "length vs = l" using W(7) by auto
    have "(take (Suc i) ids, vs ! i) \<in> set (cache_content s)" if "i < l" for i
      using path_str_content[OF v(1) tree_invD(2)[OF W(2)], of i "[]"] that W(3,5) by (simp add: min_def)
    with v False show thesis using that[of vs] by (simp add: handle_str_def)
  qed
  with m i W(3,5,6,8) show ?thesis by (auto simp: longest_match_def size_info_def)
qed

definition insert_len :: "radix \<Rightarrow> int list \<Rightarrow> nat" where
  "insert_len s ids = align_down (length ids) (page_size s)"

lemma kids_add_child: "kids (add_child u n r) = (if u = uuid r then kids r @ [n] else add_kids u n (kids r))"
  by (simp add: add_child_def)

lemma add_child_facts:
  assumes inv: "tree_inv ps c' r"
    and wf: "k \<noteq> []" "ps dvd length k" "length v = length k"
    and u: "u = uuid r \<or> u \<in> set (uuids (kids r))" and ref: "ref_count a = 0"
    and no: "\<And>x. x \<in> insert r (set (flat (kids r))) \<Longrightarrow> uuid x = u \<Longrightarrow>
       page_key ps k \<notin> set (map (\<lambda>g. page_key ps (nkey g)) (kids x))"
  defines "n \<equiv> Node c' a k v []"
  shows "tree_inv ps (Suc c') (add_child u n r)"
    and "esum f (kids (add_child u n r)) = f (c', a, k, v) + esum f (kids r)"
proof -
  note I = tree_invD[OF inv]
  show sum: "esum f (kids (add_child u n r)) = f (c', a, k, v) + esum f (kids r)" for f
    using u I esum_add_kids[OF I(4), of u f n] by (auto simp: kids_add_child n_def)
  have wfn: "wfk ps [n]" using wf by (simp add: n_def)
  have wfk: "wfk ps (kids (add_child u n r))"
  proof (cases "u = uuid r")
    case True
    then show ?thesis using no[of r] I(2) wfn by (auto simp: kids_add_child wfk_append n_def)
  next
    case False
    have "wfk ps (add_kids u n (kids r))"
      by (rule wfk_add_kids[OF I(2) wfn]) (use no in \<open>auto simp: n_def\<close>)
    then show ?thesis using False by (simp add: kids_add_child)
  qed
  have refs: "refs_ok (kids (add_child u n r))"
    using refs_ok_add_kids[OF I(3), of n u] I(3) ref by (auto simp: kids_add_child n_def)
  have m: "mset (ents (kids (add_child u n r))) = add_mset (c', a, k, v) (mset (ents (kids r)))"
    using u mset_ents_add_kids[OF I(4), of u n] by (auto simp: kids_add_child n_def)
  then have mu: "mset (uuids (kids (add_child u n r))) = add_mset c' (mset (uuids (kids r)))" by simp
  have "set (uuids (kids (add_child u n r))) = insert c' (set (uuids (kids r)))"
    using mu by (metis mset_eq_setD set_mset_add_mset_insert set_mset_mset)
  moreover have "distinct (uuids (kids (add_child u n r)))"
    using mu I(4,6) by (metis distinct.simps(2) mset.simps(2) mset_eq_imp_distinct_iff)
  ultimately show "tree_inv ps (Suc c') (add_child u n r)"
    using I wfk refs by (auto simp: tree_inv_def add_child_def less_Suc_eq simp del: kids_add_child)
qed


lemma content_add_child:
  assumes inv: "tree_inv ps c' r" and len: "length v = length k"
    and u: "u = uuid r \<and> s = [] \<or> u \<noteq> uuid r \<and> path_str u (kids r) = Some (s, vs)"
  shows "mset (content [] (kids (add_child u (Node c' a k v []) r)))
    = mset (content [] (kids r)) + mset (seg s k v)"
  using u content_add_kids[OF tree_invD(4)[OF inv], of u s vs "[]" "Node c' a k v []"]
  by (auto simp: kids_add_child)

lemma path_str_add_kids_new:
  assumes "distinct (uuids cs)" "c \<notin> set (uuids cs)" "path_str u cs = Some (s, vs)"
  shows "path_str c (add_kids u (Node c a k v []) cs) = Some (s @ k, vs @ v)"
  using assms
proof (induction u "Node c a k v []" cs arbitrary: s vs rule: add_kids.induct)
  case (2 u w b k' v' gs cs)
  have c: "c \<noteq> w" "path_str c gs = None" using "2.prems" by (auto simp: path_str_None)
  show ?case
  proof (cases "u = w")
    case True
    have "path_str c (gs @ [Node c a k v []]) = Some (k, v)"
      using c(2) by (induction c gs rule: path_str.induct) (auto split: option.splits if_splits)
    then show ?thesis using True c "2.prems" by auto
  next
    case False
    show ?thesis
    proof (cases "path_str u gs")
      case None
      then have "add_kids u (Node c a k v []) gs = gs" by (simp add: add_kids_id path_str_None)
      with None False 2 c show ?thesis by simp
    next
      case (Some q)
      then obtain s' vs' where q: "path_str u gs = Some (s', vs')" by (cases q) auto
      then have "path_str c (add_kids u (Node c a k v []) gs) = Some (s' @ k, vs' @ v)"
        using "2.hyps"(1)[OF False] "2.prems" by auto
      with q False 2 c show ?thesis by auto
    qed
  qed
qed simp

lemma path_str_append_new:
  "path_str c cs = None \<Longrightarrow> path_str c (cs @ [Node c a k v []]) = Some (k, v)"
  by (induction c cs rule: path_str.induct) (auto split: option.splits if_splits)

lemma insert_prefix_correct:
  assumes inv: "radix_inv s" and len: "length indices = length ids"
  defines "n \<equiv> insert_len s ids"
  shows "\<exists>s' l h vs. insert_prefix tic now ids indices s = Inr (s', l, h) \<and> radix_inv s' \<and>
     page_size s' = page_size s \<and> l \<le> n \<and> page_size s dvd l \<and> cached_len h = n \<and>
     evictable_size s' = evictable_size s + int (n - l) \<and> protected_size s' = protected_size s \<and>
     mset (cache_content s') =
       mset (cache_content s) + mset (seg (take l ids) (slice l n ids) (slice l n indices)) \<and>
     handle_str s' h = Some (take n ids, vs) \<and> length vs = n \<and> drop l vs = slice l n indices \<and>
     (\<forall>i < l. (take (Suc i) ids, vs ! i) \<in> set (cache_content s))"
proof -
  have tinv: "tree_inv (page_size s) (counter s) (root_node s)" using inv by (simp add: radix_inv_def)
  have nle: "n \<le> length ids" "page_size s dvd n" by (simp_all add: n_def insert_len_def align_down_le)
  have n': "align_down (length ids) (page_size s) = n" by (simp add: n_def insert_len_def)
  let ?ids = "take n ids" and ?idx = "take n indices"
  obtain r u l c' where W: "tree_walk (page_size s) tic (counter s) ?ids (root_node s) = Inr (r, u, l, c')"
    "tree_inv (page_size s) c' r"
    "content [] (kids r) = content [] (kids (root_node s))"
    "\<And>f. additive f \<Longrightarrow> esum f (kids r) = esum f (kids (root_node s))"
    "l \<le> length ?ids" "page_size s dvd l"
    "u = uuid r \<and> l = 0 \<or> u \<noteq> uuid r \<and> (\<exists>vs. path_str u (kids r) = Some (take l ?ids, vs) \<and> length vs = l)"
    "\<And>x. page_size s dvd length ?ids \<Longrightarrow> l < length ?ids \<Longrightarrow> x \<in> insert r (set (flat (kids r))) \<Longrightarrow>
       uuid x = u \<Longrightarrow> page_key (page_size s) (drop l ?ids) \<notin> set (map (\<lambda>g. page_key (page_size s) (nkey g)) (kids x))"
    by (rule tree_walk_ok[OF tinv]) blast
  note I = tree_invD[OF W(2)]
  have ln: "l \<le> n" using W(5) nle by simp
  obtain ws where ws: "u = uuid r \<and> l = 0 \<and> ws = [] \<or> u \<noteq> uuid r \<and> path_str u (kids r) = Some (take l ids, ws)"
    "length ws = l" using W(7) ln by (cases "u = uuid r") (auto simp: min_def)
  have wsc: "\<forall>i < l. (take (Suc i) ids, ws ! i) \<in> set (cache_content s)"
  proof (intro allI impI)
    fix i assume i: "i < l"
    then have "path_str u (kids r) = Some (take l ids, ws)" using ws by auto
    from path_str_content[OF this I(2), of i "[]"] show "(take (Suc i) ids, ws ! i) \<in> set (cache_content s)"
      using i W(3) ln nle(1) by (simp add: min_def)
  qed
  show ?thesis
  proof (cases "l = n")
    case True
    let ?s = "s\<lparr>root_node := r, counter := c'\<rparr>" and ?h = "\<lparr>cached_len = n, hnode = u\<rparr>"
    have "insert_prefix tic now ids indices s = Inr (?s, l, ?h)"
      using W(1) True n' by (simp add: insert_prefix_def Let_def)
    moreover have "radix_inv ?s"
      using inv W(2) W(4)[OF additive_evictable] W(4)[OF additive_protected] by (simp add: radix_inv_def)
    moreover have "handle_str ?s ?h = Some (take n ids, ws)" using ws True by (auto simp: handle_str_def)
    ultimately show ?thesis using True ws(2) wsc W(3,6) nle
      by (intro exI[of _ ?s] exI[of _ l] exI[of _ ?h] exI[of _ ws])
        (simp add: seg_def slice_def)
  next
    case False
    then have lt: "l < n" using ln by simp
    let ?k = "slice l n ids" and ?v = "slice l n indices"
    let ?n = "Node c' (fresh_attr 0 now) ?k ?v []"
    let ?s = "s\<lparr>root_node := add_child u ?n r, counter := Suc c', evictable_size := evictable_size s + int (n - l)\<rparr>"
    let ?h = "\<lparr>cached_len = n, hnode = c'\<rparr>"
    have kl: "length ?k = n - l" "length ?v = n - l" "?k \<noteq> []" "page_size s dvd length ?k"
      using lt nle len W(6) by (auto simp: dvd_diff_nat slice_def)
    have ins: "insert_prefix tic now ids indices s = Inr (?s, l, ?h)"
      using W(1) False nle(1) len lt n'
      by (simp add: insert_prefix_def Let_def slice_def min_def)
    have uin: "u = uuid r \<or> u \<in> set (uuids (kids r))" using ws path_str_None[of u "kids r"] by auto
    have no: "page_key (page_size s) ?k \<notin> set (map (\<lambda>g. page_key (page_size s) (nkey g)) (kids x))"
      if "x \<in> insert r (set (flat (kids r)))" "uuid x = u" for x
      using W(8)[OF _ _ that] nle lt by (simp add: slice_def)
    have vk: "length ?v = length ?k" and r0: "ref_count (fresh_attr 0 now) = 0"
      using kl by (simp_all add: fresh_attr_def)
    have F1: "tree_inv (page_size s) (Suc c') (add_child u ?n r)"
      by (rule add_child_facts(1)[OF W(2) kl(3,4) vk uin r0 no])
    have F2: "esum f (kids (add_child u ?n r)) = f (c', fresh_attr 0 now, ?k, ?v) + esum f (kids r)" for f
      by (rule add_child_facts(2)[OF W(2) kl(3,4) vk uin r0 no])
    have "evictable_tokens (c', fresh_attr 0 now, ?k, ?v) = int (n - l)"
      "protected_tokens (c', fresh_attr 0 now, ?k, ?v) = 0"
      using kl(1) r0 by (simp_all add: evictable_tokens_def protected_tokens_def)
    then have iv: "radix_inv ?s"
      using F1 F2 inv W(4)[OF additive_evictable] W(4)[OF additive_protected]
      by (simp add: radix_inv_def)
    have ct: "mset (cache_content ?s) = mset (cache_content s) + mset (seg (take l ids) ?k ?v)"
      using content_add_child[OF W(2), of ?v ?k u "take l ids" ws] kl ws W(3) by auto
    have "path_str c' (kids (add_child u ?n r)) = Some (take l ids @ ?k, ws @ ?v)"
    proof (cases "u = uuid r")
      case True
      then show ?thesis
        using ws path_str_append_new[of c' "kids r"] I(6) by (simp add: kids_add_child path_str_None)
    next
      case F: False
      then show ?thesis
        using ws path_str_add_kids_new[OF I(4,6), of u "take l ids" ws "fresh_attr 0 now" ?k ?v]
        by (simp add: kids_add_child)
    qed
    moreover have "take l ids @ ?k = take n ids" using ln
      by (metis append_take_drop_id drop_take le_add_diff_inverse slice_def take_add)
    ultimately have g: "handle_str ?s ?h = Some (take n ids, ws @ ?v)"
      using I(7) by (simp add: handle_str_def add_child_def)
    show ?thesis using ins iv ct g ws(2) wsc W(6) ln kl
      by (intro exI[of _ ?s] exI[of _ l] exI[of _ ?h] exI[of _ "ws @ ?v"])
        (simp add: nth_append)
  qed
qed


end
