(* ===== verification/Radix_Lock.thy ===== *)
theory Radix_Lock
  imports Radix_Cache
begin

text \<open>
  Locking of \<^verbatim>\<open>RadixPrefixCache\<close> (\<^verbatim>\<open>kvcache/radix_cache.py\<close>): which handles can be locked and
  unlocked, that both loops keep the invariant and only move tokens between the evictable and
  the protected count, and that an unlock undoes its lock.
\<close>

section \<open>Locking\<close>

text \<open>A handle is live while its node is linked; it holds a lock of its own while its node is
  locked more often than its children are.\<close>

definition live_handle :: "radix \<Rightarrow> handle \<Rightarrow> bool" where
  "live_handle s h \<longleftrightarrow> hnode h = uuid (root_node s) \<or> hnode h \<in> set (uuids (kids (root_node s)))"

definition holds_lock :: "radix \<Rightarrow> handle \<Rightarrow> bool" where
  "holds_lock s h \<longleftrightarrow> hnode h = uuid (root_node s) \<or>
     (\<exists>n. find_kids (hnode h) (kids (root_node s)) = Some n \<and> rsum (kids n) < ref_count (attr n))"

lemma kids_upd: "kids (upd u f root) = upd_kids u f (kids root)"
  by (simp add: upd_def)

lemma uuid_upd [simp]: "uuid (upd u f root) = uuid root"
  by (simp add: upd_def)

lemma attr_upd: "u \<noteq> uuid root \<Longrightarrow> attr (upd u f root) = attr root"
  by (simp add: upd_def)

text \<open>The part of the invariant that holds between two rounds of a locking loop.\<close>

definition lock_inv :: "nat \<Rightarrow> radix \<Rightarrow> bool" where
  "lock_inv ru s \<longleftrightarrow> uuid (root_node s) = ru \<and> ru \<notin> set (uuids (kids (root_node s))) \<and>
     distinct (uuids (kids (root_node s))) \<and>
     (\<forall>(u, a, k, v) \<in> set (ents (kids (root_node s))). 0 \<le> ref_count a) \<and>
     evictable_size s = esum evictable_tokens (kids (root_node s)) \<and>
     protected_size s = esum protected_tokens (kids (root_node s))"

lemma find_node_entry:
  assumes "find_node u root = Inr n" "u \<noteq> uuid root"
  shows "(u, attr n, nkey n, nvalue n) \<in> set (ents (kids root))" "find_kids u (kids root) = Some n"
proof -
  show f: "find_kids u (kids root) = Some n" using assms by (auto simp: find_node_def split: option.splits)
  show "(u, attr n, nkey n, nvalue n) \<in> set (ents (kids root))"
    using find_kids_flat[OF f] flat_entry[of n "kids root"] by (auto simp: entry_of_def)
qed

lemma find_node_ex:
  "u \<in> set (uuids (kids root)) \<Longrightarrow> uuid root \<notin> set (uuids (kids root)) \<Longrightarrow> \<exists>n. find_node u root = Inr n"
  using find_node_kids[of u root] by metis

lemma lock_loop_ok:
  assumes "lock_inv ru s" "set us \<subseteq> set (uuids (kids (root_node s)))" "distinct us"
  shows "\<exists>s'. lock_loop us s = Inr s' \<and> lock_inv ru s' \<and>
     root_node s' = Node (uuid (root_node s)) (attr (root_node s)) (nkey (root_node s)) (nvalue (root_node s))
        (upd_set (set us) inc_ref (kids (root_node s))) \<and>
     page_size s' = page_size s \<and> counter s' = counter s \<and>
     evictable_size s' + protected_size s' = evictable_size s + protected_size s \<and>
     evictable_size s' \<le> evictable_size s"
  using assms
proof (induction us arbitrary: s)
  case Nil
  then show ?case by (cases "root_node s") auto
next
  case (Cons u us)
  let ?r = "root_node s"
  have u1: "u \<in> set (uuids (kids ?r))" "uuid ?r \<notin> set (uuids (kids ?r))"
    using Cons.prems(1,2) by (simp_all add: lock_inv_def)
  then have u: "u \<in> set (uuids (kids ?r))" "u \<noteq> uuid ?r" by metis+
  obtain n where n: "find_node u ?r = Inr n" using find_node_ex[OF u(1)] Cons.prems(1) by (auto simp: lock_inv_def)
  note e = find_node_entry[OF n u(2)]
  define s1 where "s1 = (if ref_count (attr n) = 0
                 then s\<lparr>evictable_size := evictable_size s - int (nlen n),
                        protected_size := protected_size s + int (nlen n)\<rparr> else s)"
  define s2 where "s2 = s1\<lparr>root_node := upd u inc_ref (root_node s1)\<rparr>"
  have r2: "root_node s2 = upd u inc_ref ?r" by (simp add: s2_def s1_def)
  have ge: "0 \<le> ref_count (attr n)" using Cons.prems(1) e(1) by (auto simp: lock_inv_def)
  have d: "distinct (uuids (kids ?r))" using Cons.prems(1) by (simp add: lock_inv_def)
  have inv2: "lock_inv ru s2"
  proof -
    have "\<forall>(w, a, k, v) \<in> set (ents (upd_kids u inc_ref (kids ?r))). 0 \<le> ref_count a"
      using Cons.prems(1) by (auto simp: lock_inv_def ents_upd_kids)
    moreover have "evictable_size s2 = esum evictable_tokens (upd_kids u inc_ref (kids ?r))"
      "protected_size s2 = esum protected_tokens (upd_kids u inc_ref (kids ?r))"
      using Cons.prems(1) ge esum_upd_kids[OF e(1) d, of _ inc_ref]
      by (simp_all add: lock_inv_def s2_def s1_def) (simp_all add: evictable_tokens_def protected_tokens_def)
    ultimately show ?thesis
      using Cons.prems(1) unfolding lock_inv_def r2 kids_upd uuid_upd uuids_upd_kids by simp
  qed
  have sub: "set us \<subseteq> set (uuids (kids (root_node s2)))" using Cons.prems(2) by (simp add: r2 kids_upd)
  obtain s' where s': "lock_loop us s2 = Inr s'" "lock_inv ru s'"
     "root_node s' = Node (uuid (root_node s2)) (attr (root_node s2)) (nkey (root_node s2)) (nvalue (root_node s2))
        (upd_set (set us) inc_ref (kids (root_node s2)))"
     "page_size s' = page_size s2" "counter s' = counter s2"
     "evictable_size s' + protected_size s' = evictable_size s2 + protected_size s2"
     "evictable_size s' \<le> evictable_size s2"
    using Cons.IH[OF inv2 sub] Cons.prems(3) by auto
  have "lock_loop (u # us) s = Inr s'" using n s'(1) by (simp add: Let_def s2_def s1_def)
  moreover have "upd_set (set us) inc_ref (kids (root_node s2)) = upd_set (set (u # us)) inc_ref (kids ?r)"
    using Cons.prems(3) by (simp add: r2 kids_upd upd_set_upd_kids)
  moreover have "page_size s2 = page_size s" "counter s2 = counter s"
    "evictable_size s2 + protected_size s2 = evictable_size s + protected_size s"
    "evictable_size s2 \<le> evictable_size s" by (simp_all add: s2_def s1_def)
  moreover have "attr (root_node s2) = attr ?r" "uuid (root_node s2) = uuid ?r"
    "nkey (root_node s2) = nkey ?r" "nvalue (root_node s2) = nvalue ?r"
    using u(2) by (simp_all add: r2 upd_def)
  ultimately show ?case using s' by simp
qed

lemma upd_set_comp: "upd_set S g (upd_set S f cs) = upd_set S (g \<circ> f) cs"
  by (induction S f cs rule: upd_set.induct) auto

lemma upd_set_ident: "(\<And>a. f a = a) \<Longrightarrow> upd_set S f cs = cs"
  by (induction S f cs rule: upd_set.induct) auto

lemma ents_upd_set: "ents (upd_set S f cs) = map (\<lambda>(w, a, k, v). (w, if w \<in> S then f a else a, k, v)) (ents cs)"
  by (induction S f cs rule: upd_set.induct) auto

lemma uuids_upd_set [simp]: "uuids (upd_set S f cs) = uuids cs"
  by (simp add: ents_upd_set) (auto simp: comp_def split_beta)

lemma map_nkey_upd_set [simp]: "map (\<lambda>n. h (nkey n)) (upd_set S f cs) = map (\<lambda>n. h (nkey n)) cs"
  by (induction S f cs rule: upd_set.induct) auto

lemma wfk_upd_set [simp]: "wfk ps (upd_set S f cs) = wfk ps cs"
proof (induction S f cs rule: upd_set.induct)
  case (2 S f w a k v gs cs)
  have "set (map (\<lambda>n. page_key ps (nkey n)) (upd_set S f cs)) = set (map (\<lambda>n. page_key ps (nkey n)) cs)"
    by (simp only: map_nkey_upd_set)
  then show ?case using 2 by (simp only: wfk.simps upd_set.simps)
qed simp

lemma content_upd_set [simp]: "content pre (upd_set S f cs) = content pre cs"
  by (induction pre cs rule: content.induct) auto

lemma refs_ok_flat: "refs_ok cs \<Longrightarrow> n \<in> set (flat cs) \<Longrightarrow> refs_ok (kids n)"
  by (induction cs rule: flat.induct) auto

lemma refs_ok_here: "refs_ok cs \<Longrightarrow> n \<in> set (flat cs) \<Longrightarrow> rsum (kids n) \<le> ref_count (attr n)"
  by (induction cs rule: flat.induct) auto

lemma radix_inv_lock_inv: "radix_inv s \<Longrightarrow> lock_inv (uuid (root_node s)) s"
  using refs_ok_entry by (fastforce simp: radix_inv_def tree_inv_def lock_inv_def)

lemma live_chain:
  assumes "radix_inv s" "live_handle s h"
  obtains p where "chain (hnode h) (root_node s) = Inr p" "set p \<subseteq> set (uuids (kids (root_node s)))"
    "distinct p" "hnode h \<noteq> uuid (root_node s) \<Longrightarrow> path_kids (hnode h) (kids (root_node s)) = Some (rev p)"
    "hnode h = uuid (root_node s) \<Longrightarrow> p = []"
proof (cases "hnode h = uuid (root_node s)")
  case True
  then show thesis by (intro that[of "[]"]) (auto simp: chain_def)
next
  case False
  then have "hnode h \<in> set (uuids (kids (root_node s)))" using assms(2) by (simp add: live_handle_def)
  then obtain q where q: "path_kids (hnode h) (kids (root_node s)) = Some q"
    using path_kids_None by (metis not_None_eq)
  have d: "distinct (uuids (kids (root_node s)))" using assms(1) by (simp add: radix_inv_def tree_inv_def)
  show thesis
    by (rule that[of "rev q"])
      (use False q path_kids_set[OF q] path_kids_distinct[OF q d] in \<open>auto simp: chain_def\<close>)
qed

lemma lock_handle_ok:
  assumes inv: "radix_inv s" and live: "live_handle s h"
  shows "\<exists>s'. lock_handle s h False = Inr s' \<and> radix_inv s' \<and>
     page_size s' = page_size s \<and> counter s' = counter s \<and>
     evictable_size s' + protected_size s' = evictable_size s + protected_size s \<and>
     evictable_size s' \<le> evictable_size s \<and> cache_content s' = cache_content s \<and>
     (\<forall>p. chain (hnode h) (root_node s) = Inr p \<longrightarrow>
        root_node s' = Node (uuid (root_node s)) (attr (root_node s)) (nkey (root_node s))
          (nvalue (root_node s)) (upd_set (set p) inc_ref (kids (root_node s))))"
proof -
  let ?r = "root_node s"
  obtain p where p: "chain (hnode h) ?r = Inr p" "set p \<subseteq> set (uuids (kids ?r))" "distinct p"
    "hnode h \<noteq> uuid ?r \<Longrightarrow> path_kids (hnode h) (kids ?r) = Some (rev p)" "hnode h = uuid ?r \<Longrightarrow> p = []"
    using live_chain[OF inv live] by metis
  obtain s' where s': "lock_loop p s = Inr s'" "lock_inv (uuid ?r) s'"
     "root_node s' = Node (uuid ?r) (attr ?r) (nkey ?r) (nvalue ?r) (upd_set (set p) inc_ref (kids ?r))"
     "page_size s' = page_size s" "counter s' = counter s"
     "evictable_size s' + protected_size s' = evictable_size s + protected_size s"
     "evictable_size s' \<le> evictable_size s"
    using lock_loop_ok[OF radix_inv_lock_inv[OF inv] p(2,3)] by blast
  have d: "distinct (uuids (kids ?r))" "refs_ok (kids ?r)" using inv by (auto simp: radix_inv_def tree_inv_def)
  have refs: "refs_ok (upd_set (set p) inc_ref (kids ?r))"
  proof (cases "hnode h = uuid ?r")
    case True
    then show ?thesis using p(5) d by simp
  next
    case False
    from refs_ok_inc_path[OF p(4)[OF False] d] show ?thesis by simp
  qed
  have "radix_inv s'"
    using inv s'(2-5) refs by (auto simp: radix_inv_def tree_inv_def lock_inv_def)
  moreover have "lock_handle s h False = Inr s'" using p(1) s'(1) by (simp add: lock_handle_def)
  ultimately show ?thesis using s' p(1) by auto
qed


lemma unlock_loop_ok:
  assumes "lock_inv ru s" "set us \<subseteq> set (uuids (kids (root_node s)))" "distinct us"
    "\<forall>(u, a, k, v) \<in> set (ents (kids (root_node s))). u \<in> set us \<longrightarrow> 1 \<le> ref_count a"
  shows "\<exists>s'. unlock_loop us s = Inr s' \<and> lock_inv ru s' \<and>
     root_node s' = Node (uuid (root_node s)) (attr (root_node s)) (nkey (root_node s)) (nvalue (root_node s))
        (upd_set (set us) dec_ref (kids (root_node s))) \<and>
     page_size s' = page_size s \<and> counter s' = counter s \<and>
     evictable_size s' + protected_size s' = evictable_size s + protected_size s \<and>
     evictable_size s \<le> evictable_size s'"
  using assms
proof (induction us arbitrary: s)
  case Nil
  then show ?case by (cases "root_node s") auto
next
  case (Cons u us)
  let ?r = "root_node s"
  have u1: "u \<in> set (uuids (kids ?r))" "uuid ?r \<notin> set (uuids (kids ?r))"
    using Cons.prems(1,2) by (simp_all add: lock_inv_def)
  then have u: "u \<in> set (uuids (kids ?r))" "u \<noteq> uuid ?r" by metis+
  obtain n where n: "find_node u ?r = Inr n" using find_node_ex[OF u(1)] Cons.prems(1) by (auto simp: lock_inv_def)
  note e = find_node_entry[OF n u(2)]
  define s1 where "s1 = s\<lparr>root_node := upd u dec_ref (root_node s)\<rparr>"
  define s2 where "s2 = (if ref_count (attr n) - 1 = 0
                    then s1\<lparr>evictable_size := evictable_size s1 + int (nlen n),
                            protected_size := protected_size s1 - int (nlen n)\<rparr>
                    else s1)"
  have r2: "root_node s2 = upd u dec_ref ?r" by (simp add: s2_def s1_def)
  have ge: "1 \<le> ref_count (attr n)" using Cons.prems(4) e(1) by auto
  have d: "distinct (uuids (kids ?r))" using Cons.prems(1) by (simp add: lock_inv_def)
  have same: "a = attr n" if "(u, a, k, v) \<in> set (ents (kids ?r))" for a k v
    using eq_key_imp_eq_value[OF d that e(1)] by simp
  have inv2: "lock_inv ru s2"
  proof -
    have "\<forall>(w, a, k, v) \<in> set (ents (upd_kids u dec_ref (kids ?r))). 0 \<le> ref_count a"
      using Cons.prems(1) same ge by (auto simp: lock_inv_def ents_upd_kids)
    moreover have "evictable_size s2 = esum evictable_tokens (upd_kids u dec_ref (kids ?r))"
      "protected_size s2 = esum protected_tokens (upd_kids u dec_ref (kids ?r))"
      using Cons.prems(1) ge esum_upd_kids[OF e(1) d, of _ dec_ref]
      by (simp_all add: lock_inv_def s2_def s1_def) (simp_all add: evictable_tokens_def protected_tokens_def)
    ultimately show ?thesis
      using Cons.prems(1) unfolding lock_inv_def r2 kids_upd uuid_upd uuids_upd_kids by simp
  qed
  have sub: "set us \<subseteq> set (uuids (kids (root_node s2)))" using Cons.prems(2) by (simp add: r2 kids_upd)
  have pos: "\<forall>(u, a, k, v) \<in> set (ents (kids (root_node s2))). u \<in> set us \<longrightarrow> 1 \<le> ref_count a"
    using Cons.prems(3,4) by (auto simp: r2 kids_upd ents_upd_kids)
  obtain s' where s': "unlock_loop us s2 = Inr s'" "lock_inv ru s'"
     "root_node s' = Node (uuid (root_node s2)) (attr (root_node s2)) (nkey (root_node s2)) (nvalue (root_node s2))
        (upd_set (set us) dec_ref (kids (root_node s2)))"
     "page_size s' = page_size s2" "counter s' = counter s2"
     "evictable_size s' + protected_size s' = evictable_size s2 + protected_size s2"
     "evictable_size s2 \<le> evictable_size s'"
    using Cons.IH[OF inv2 sub _ pos] Cons.prems(3) by auto
  have "unlock_loop (u # us) s = Inr s'"
    using n s'(1) ge unfolding s2_def s1_def by (simp add: Let_def split: if_splits)
  moreover have "upd_set (set us) dec_ref (kids (root_node s2)) = upd_set (set (u # us)) dec_ref (kids ?r)"
    using Cons.prems(3) by (simp add: r2 kids_upd upd_set_upd_kids)
  moreover have "page_size s2 = page_size s" "counter s2 = counter s"
    "evictable_size s2 + protected_size s2 = evictable_size s + protected_size s"
    "evictable_size s \<le> evictable_size s2" by (simp_all add: s2_def s1_def)
  moreover have "attr (root_node s2) = attr ?r" "uuid (root_node s2) = uuid ?r"
    "nkey (root_node s2) = nkey ?r" "nvalue (root_node s2) = nvalue ?r"
    using u(2) by (simp_all add: r2 upd_def)
  ultimately show ?case using s' by simp
qed

lemma holds_lock_live: "holds_lock s h \<Longrightarrow> live_handle s h"
  unfolding holds_lock_def live_handle_def by (metis find_kids_None option.distinct(1))

lemma unlock_handle_ok:
  assumes inv: "radix_inv s" and hold: "holds_lock s h"
  shows "\<exists>s'. lock_handle s h True = Inr s' \<and> radix_inv s' \<and>
     page_size s' = page_size s \<and> counter s' = counter s \<and>
     evictable_size s' + protected_size s' = evictable_size s + protected_size s \<and>
     evictable_size s \<le> evictable_size s' \<and> cache_content s' = cache_content s \<and>
     (\<forall>p. chain (hnode h) (root_node s) = Inr p \<longrightarrow>
        root_node s' = Node (uuid (root_node s)) (attr (root_node s)) (nkey (root_node s))
          (nvalue (root_node s)) (upd_set (set p) dec_ref (kids (root_node s))))"
proof -
  let ?r = "root_node s"
  obtain p where p: "chain (hnode h) ?r = Inr p" "set p \<subseteq> set (uuids (kids ?r))" "distinct p"
    "hnode h \<noteq> uuid ?r \<Longrightarrow> path_kids (hnode h) (kids ?r) = Some (rev p)" "hnode h = uuid ?r \<Longrightarrow> p = []"
    using live_chain[OF inv holds_lock_live[OF hold]] by metis
  have d: "distinct (uuids (kids ?r))" "refs_ok (kids ?r)" using inv by (auto simp: radix_inv_def tree_inv_def)
  have *: "(\<forall>(u, a, k, v) \<in> set (ents (kids ?r)). u \<in> set p \<longrightarrow> 1 \<le> ref_count a)
      \<and> refs_ok (upd_set (set p) dec_ref (kids ?r))"
  proof (cases "hnode h = uuid ?r")
    case True
    then show ?thesis using p(5) d by simp
  next
    case False
    then obtain n where n: "find_kids (hnode h) (kids ?r) = Some n" "rsum (kids n) < ref_count (attr n)"
      using hold by (auto simp: holds_lock_def)
    have "refs_ok (kids n)" using d(2) find_kids_flat[OF n(1)]
      by (metis refs_ok_flat)
    then have "0 < ref_count (attr n)" using n(2) refs_ok_nonneg by fastforce
    then show ?thesis
      using path_refs_ge[OF p(4)[OF False] d n(1)] refs_ok_dec_path[OF p(4)[OF False] d n] by fastforce
  qed
  obtain s' where s': "unlock_loop p s = Inr s'" "lock_inv (uuid ?r) s'"
     "root_node s' = Node (uuid ?r) (attr ?r) (nkey ?r) (nvalue ?r) (upd_set (set p) dec_ref (kids ?r))"
     "page_size s' = page_size s" "counter s' = counter s"
     "evictable_size s' + protected_size s' = evictable_size s + protected_size s"
     "evictable_size s \<le> evictable_size s'"
    using unlock_loop_ok[OF radix_inv_lock_inv[OF inv] p(2,3)] * by blast
  have "radix_inv s'"
    using inv s'(2-5) * by (auto simp: radix_inv_def tree_inv_def lock_inv_def)
  moreover have "lock_handle s h True = Inr s'" using p(1) s'(1) by (simp add: lock_handle_def)
  ultimately show ?thesis using s' p(1) by auto
qed

lemma path_kids_upd_set [simp]: "path_kids u (upd_set S f cs) = path_kids u cs"
  by (induction S f cs rule: upd_set.induct) (auto split: option.splits)


lemma find_kids_upd_set:
  "find_kids u (upd_set S f cs) = map_option (\<lambda>n. Node (uuid n) (if uuid n \<in> S then f (attr n) else attr n)
      (nkey n) (nvalue n) (upd_set S f (kids n))) (find_kids u cs)"
  by (induction S f cs rule: upd_set.induct) (auto split: option.splits)

lemma path_above:
  "path_kids u cs = Some p \<Longrightarrow> find_kids u cs = Some n \<Longrightarrow> distinct (uuids cs) \<Longrightarrow>
   set p \<inter> set (uuids (kids n)) = {}"
proof (induction u cs arbitrary: p rule: path_kids.induct)
  case (2 u w a k v gs cs)
  show ?case
  proof (cases "u = w")
    case False
    show ?thesis
    proof (cases "path_kids u gs")
      case (Some q)
      then have "u \<in> set (uuids gs)" using path_kids_None by (metis option.distinct(1))
      then have n: "find_kids u gs = Some n" using "2.prems"(2) False find_kids_in by metis
      have "set (uuids (kids n)) \<subseteq> set (uuids gs)"
        using find_kids_flat[OF n] flat_kids by (fastforce simp: ents_flat)
      moreover have "w \<notin> set (uuids gs)" using "2.prems"(3) by simp
      moreover have "set q \<inter> set (uuids (kids n)) = {}"
        by (rule "2.IH"(1)[OF False Some n]) (use "2.prems"(3) in simp)
      moreover have "p = w # q" using "2.prems"(1) False Some by simp
      ultimately show ?thesis by auto
    next
      case None
      then have "find_kids u gs = None" using path_kids_None find_kids_None by metis
      then show ?thesis using 2 False None by auto
    qed
  next
    case True
    then have p: "p = [w]" and n: "n = Node w a k v gs" using "2.prems"(1,2) by simp_all
    have "w \<notin> set (uuids gs)" using "2.prems"(3) by simp
    then show ?thesis unfolding p n by simp
  qed
qed simp

text \<open>Unlocking a handle that was just locked gives back the state before the lock.\<close>

lemma lock_unlock_ok:
  assumes inv: "radix_inv s" and live: "live_handle s h"
  shows "\<exists>s'. lock_handle s h False = Inr s' \<and> holds_lock s' h \<and> lock_handle s' h True = Inr s"
proof -
  let ?r = "root_node s"
  obtain p where p: "chain (hnode h) ?r = Inr p" "hnode h \<noteq> uuid ?r \<Longrightarrow> path_kids (hnode h) (kids ?r) = Some (rev p)"
    using live_chain[OF inv live] by metis
  obtain s1 where s1: "lock_handle s h False = Inr s1" "radix_inv s1" "page_size s1 = page_size s"
    "counter s1 = counter s" "root_node s1 = Node (uuid ?r) (attr ?r) (nkey ?r) (nvalue ?r) (upd_set (set p) inc_ref (kids ?r))"
    using lock_handle_ok[OF inv live] p(1) by blast
  have d: "distinct (uuids (kids ?r))" "refs_ok (kids ?r)" using inv by (auto simp: radix_inv_def tree_inv_def)
  have hold: "holds_lock s1 h"
  proof (cases "hnode h = uuid ?r")
    case True
    then show ?thesis using s1(5) by (simp add: holds_lock_def)
  next
    case False
    obtain n where n: "find_kids (hnode h) (kids ?r) = Some n"
      using live False find_kids_None unfolding live_handle_def by (metis not_None_eq)
    have u: "uuid n = hnode h" "n \<in> set (flat (kids ?r))" using find_kids_flat[OF n] by auto
    have "hnode h \<in> set p" using path_kids_set[OF p(2)[OF False]] by simp
    moreover have "upd_set (set p) inc_ref (kids n) = kids n"
      by (rule upd_set_id) (use path_above[OF p(2)[OF False] n d(1)] in auto)
    moreover have "rsum (kids n) \<le> ref_count (attr n)" using d(2) u(2) by (rule refs_ok_here)
    ultimately show ?thesis using n u s1(5) by (simp add: holds_lock_def find_kids_upd_set)
  qed
  have c1: "chain (hnode h) (root_node s1) = Inr p" using p(1) s1(5) by (simp add: chain_def split: if_splits)
  obtain s2 where s2: "lock_handle s1 h True = Inr s2" "radix_inv s2" "page_size s2 = page_size s1"
    "counter s2 = counter s1" "root_node s2 = Node (uuid ?r) (attr ?r) (nkey ?r) (nvalue ?r)
        (upd_set (set p) dec_ref (upd_set (set p) inc_ref (kids ?r)))"
    using unlock_handle_ok[OF s1(2) hold] c1 s1(5) by auto
  have "upd_set (set p) dec_ref (upd_set (set p) inc_ref (kids ?r)) = kids ?r"
    by (simp add: upd_set_comp upd_set_ident)
  then have "root_node s2 = ?r" using s2(5) by (cases ?r) simp
  then have "s2 = s" using s2 s1 inv by (simp add: radix_inv_def)
  with s1(1) hold s2(1) show ?thesis by blast
qed

end
