(* ===== verification/Radix_Evict.thy ===== *)
theory Radix_Evict
  imports Radix_Lock
begin

text \<open>
  Eviction of \<^verbatim>\<open>RadixPrefixCache\<close> (\<^verbatim>\<open>kvcache/radix_cache.py\<close>): the heap always holds exactly the
  unlocked leaves, the loop takes the least recently used one and returns as soon as enough
  tokens are freed, every page leaves the cache exactly once and no locked node is touched.
\<close>

section \<open>Eviction\<close>

definition unlocked_leaves :: "node list \<Rightarrow> nat set" where
  "unlocked_leaves cs = {uuid n | n. n \<in> set (flat cs) \<and> kids n = [] \<and> ref_count (attr n) = 0}"

lemma unlocked_leaf_ex:
  "refs_ok cs \<Longrightarrow> n \<in> set (flat cs) \<Longrightarrow> ref_count (attr n) = 0 \<Longrightarrow> unlocked_leaves cs \<noteq> {}"
proof (induction cs arbitrary: n rule: flat.induct)
  case (2 u a k v gs cs)
  have sub: "unlocked_leaves gs \<subseteq> unlocked_leaves (Node u a k v gs # cs)"
    "unlocked_leaves cs \<subseteq> unlocked_leaves (Node u a k v gs # cs)"
    by (auto simp: unlocked_leaves_def)
  consider "n = Node u a k v gs" | "n \<in> set (flat gs)" | "n \<in> set (flat cs)" using "2.prems" by auto
  then show ?case
  proof cases
    case 1
    show ?thesis
    proof (cases gs)
      case Nil
      then have "u \<in> unlocked_leaves (Node u a k v gs # cs)" unfolding unlocked_leaves_def
        using 1 "2.prems" by (intro CollectI exI[of _ "Node u a k v []"]) auto
      then show ?thesis by blast
    next
      case (Cons g gs')
      then have g: "g \<in> set gs" by simp
      then have "ref_count (attr g) \<le> 0" using refs_ok_kid[of gs g] 1 "2.prems" by auto
      moreover have "0 \<le> ref_count (attr g)"
        using refs_ok_entry[of gs "uuid g" "attr g" "nkey g" "nvalue g"] "2.prems"(1)
          flat_entry[of g gs] g set_flat_self by (fastforce simp: entry_of_def)
      ultimately have "unlocked_leaves gs \<noteq> {}"
        using "2.IH"(1)[of g] "2.prems"(1) g set_flat_self by fastforce
      then show ?thesis using sub by auto
    qed
  qed (use 2 sub in \<open>auto\<close>)
qed simp

lemma collect_leave_nodes:
  assumes "tree_inv ps c root"
  shows "set (collect_leave_nodes_for_evict root) = unlocked_leaves (kids root)"
    "distinct (collect_leave_nodes_for_evict root)"
proof -
  note I = tree_invD[OF assms]
  have f: "flat [root] = root # flat (kids root)" by (simp add: flat_Cons)
  have "set (preorder [root]) = insert root (set (flat (kids root)))" by (simp add: set_preorder f del: preorder.simps)
  then show "set (collect_leave_nodes_for_evict root) = unlocked_leaves (kids root)"
    using I(10) by (auto simp: collect_leave_nodes_for_evict_def unlocked_leaves_def is_leaf_def
        simp del: preorder.simps)
  have "mset (map uuid (preorder [root])) = mset (uuid root # uuids (kids root))"
    by (simp add: mset_preorder f ents_flat entry_of_def comp_def del: preorder.simps)
  then have "distinct (map uuid (preorder [root]))"
    using I(4,5) by (metis distinct.simps(2) mset_eq_imp_distinct_iff)
  then show "distinct (collect_leave_nodes_for_evict root)"
    by (simp add: collect_leave_nodes_for_evict_def distinct_map_filter del: preorder.simps)
qed

lemma del_kids_empty: "del_kids u cs = [] \<Longrightarrow> cs \<noteq> [] \<Longrightarrow> \<exists>x. cs = [x] \<and> uuid x = u"
  by (cases cs rule: ents.cases) (auto split: if_splits)

lemma unlink_leaf:
  assumes inv: "tree_inv ps c root" and n: "n \<in> set (flat (kids root))" "kids n = []"
    "ref_count (attr n) = 0" "uuid n = u"
  shows "\<exists>p pn. parent_of u root = Inr p \<and> find_node p (unlink u root) = Inr pn \<and>
     unlocked_leaves (kids (unlink u root)) = (unlocked_leaves (kids root) - {u}) \<union>
       (if is_leaf pn \<and> ref_count (attr pn) = 0 then {p} else {}) \<and>
     p \<notin> unlocked_leaves (kids root) \<and> p \<noteq> u"
proof -
  note I = tree_invD[OF inv]
  let ?cs = "kids root"
  have u: "u \<in> set (uuids ?cs)" "u \<noteq> uuid root" using flat_uuid[OF n(1)] n(4) I(5) by metis+
  have find: "find_kids u ?cs = Some n" using find_kids_unique[OF I(4) n(1)] n(4) by simp
  have leaf: "leaf_at u ?cs" unfolding leaf_at_def
    using find_kids_unique[OF I(4)] find n(2) by auto
  obtain q where q: "path_kids u ?cs = Some q" using path_kids_None u(1) by (metis not_None_eq)
  have ql: "q \<noteq> []" "last q = u" "distinct q" "set q \<subseteq> set (uuids ?cs)"
    using path_kids_set[OF q] path_kids_distinct[OF q I(4)] by auto
  have flat': "flat (del_kids u ?cs) = map (del_node u) (filter (\<lambda>n. uuid n \<noteq> u) (flat ?cs))"
    by (rule flat_del_kids[OF I(4) leaf])
  have ul: "unlocked_leaves (del_kids u ?cs) = {uuid m | m. m \<in> set (flat ?cs) \<and> uuid m \<noteq> u \<and>
      del_kids u (kids m) = [] \<and> ref_count (attr m) = 0}"
  proof -
    have "unlocked_leaves (del_kids u ?cs) = uuid ` {m' \<in> del_node u ` {m \<in> set (flat ?cs). uuid m \<noteq> u}.
        kids m' = [] \<and> ref_count (attr m') = 0}"
      unfolding unlocked_leaves_def flat' by auto
    also have "{m' \<in> del_node u ` {m \<in> set (flat ?cs). uuid m \<noteq> u}. kids m' = [] \<and> ref_count (attr m') = 0} =
        del_node u ` {m \<in> set (flat ?cs). uuid m \<noteq> u \<and> del_kids u (kids m) = [] \<and> ref_count (attr m) = 0}"
      by (auto simp: del_node_def)
    also have "uuid ` \<dots> = uuid ` {m \<in> set (flat ?cs). uuid m \<noteq> u \<and> del_kids u (kids m) = [] \<and> ref_count (attr m) = 0}"
      by (simp add: image_image del_node_def)
    finally show ?thesis by auto
  qed
  have old: "unlocked_leaves ?cs - {u} = {uuid m | m. m \<in> set (flat ?cs) \<and> uuid m \<noteq> u \<and>
      kids m = [] \<and> ref_count (attr m) = 0}" by (auto simp: unlocked_leaves_def)
  have parent: "\<exists>q'. q = q' @ [uuid m, u]"
    if m: "m \<in> set (flat ?cs)" "del_kids u (kids m) = []" "kids m \<noteq> []" for m
  proof -
    obtain x where x: "kids m = [x]" "uuid x = u" using del_kids_empty[OF m(2,3)] by blast
    show ?thesis by (rule path_kids_parent[OF q I(4) m(1), of x]) (use x in simp_all)
  qed
  show ?thesis
  proof (cases "\<exists>q' p. q = q' @ [p, u]")
    case False
    then have "q = [u]" using ql(1,2) by (metis append_butlast_last_id append_Nil append.assoc
          append_Cons rev_exhaust)
    then have "parent_of u root = Inr (uuid root)" using u(2) q by (simp add: parent_of_def chain_def)
    moreover have "find_node (uuid root) (unlink u root) = Inr (unlink u root)"
      by (simp add: find_node_def unlink_def)
    moreover have "unlocked_leaves (del_kids u ?cs) = unlocked_leaves ?cs - {u}"
      unfolding ul old using parent False by auto
    moreover have "uuid root \<notin> unlocked_leaves ?cs"
      using I(5) flat_uuid by (fastforce simp: unlocked_leaves_def)
    moreover have "ref_count (attr (unlink u root)) \<noteq> 0" using I(10) by (simp add: unlink_def)
    ultimately show ?thesis using u(2) by (auto simp: unlink_def)
  next
    case True
    then obtain q' p where qp: "q = q' @ [p, u]" by blast
    have p: "p \<noteq> u" "p \<in> set (uuids ?cs)" using ql(3,4) qp by auto
    then have "p \<noteq> uuid root" using I(5) by metis
    note p = p(1) this p(2)
    have par: "parent_of u root = Inr p" using u(2) q qp by (simp add: parent_of_def chain_def)
    obtain m where m: "m \<in> set (flat ?cs)" "uuid m = p" "u \<in> uuid ` set (kids m)"
      using path_kids_append2 q qp by blast
    have um: "m' = m" if "m' \<in> set (flat ?cs)" "uuid m' = p" for m'
      using find_kids_unique[OF I(4) that(1)] find_kids_unique[OF I(4) m(1)] that(2) m(2) by simp
    have "del_node u m \<in> set (flat (del_kids u ?cs))" unfolding flat' using m p by auto
    moreover have "distinct (uuids (del_kids u ?cs))"
      using ents_del_kids[OF I(4) leaf] I(4) by (simp add: distinct_map_filter)
    ultimately have "find_kids p (del_kids u ?cs) = Some (del_node u m)"
      using find_kids_unique[of "del_kids u ?cs" "del_node u m"] m(2) by (simp add: del_node_def)
    then have fp: "find_node p (unlink u root) = Inr (del_node u m)"
      using p by (simp add: find_node_def unlink_def)
    have "unlocked_leaves (del_kids u ?cs) = (unlocked_leaves ?cs - {u}) \<union>
       (if is_leaf (del_node u m) \<and> ref_count (attr (del_node u m)) = 0 then {p} else {})"
    proof (intro set_eqI iffI)
      fix x assume "x \<in> unlocked_leaves (del_kids u ?cs)"
      then obtain m' where m': "x = uuid m'" "m' \<in> set (flat ?cs)" "uuid m' \<noteq> u"
        "del_kids u (kids m') = []" "ref_count (attr m') = 0" unfolding ul by blast
      show "x \<in> (unlocked_leaves ?cs - {u}) \<union>
        (if is_leaf (del_node u m) \<and> ref_count (attr (del_node u m)) = 0 then {p} else {})"
      proof (cases "kids m' = []")
        case True
        then show ?thesis using m' unfolding old by blast
      next
        case False
        then have "uuid m' = p" using parent[OF m'(2,4)] qp by auto
        then have "m' = m" using um m'(2) by blast
        then show ?thesis using m' m(2) by (simp add: del_node_def is_leaf_def)
      qed
    next
      fix x assume "x \<in> (unlocked_leaves ?cs - {u}) \<union>
        (if is_leaf (del_node u m) \<and> ref_count (attr (del_node u m)) = 0 then {p} else {})"
      then consider "x \<in> unlocked_leaves ?cs - {u}" | "x = p" "is_leaf (del_node u m)"
        "ref_count (attr (del_node u m)) = 0" by (auto split: if_splits)
      then show "x \<in> unlocked_leaves (del_kids u ?cs)"
      proof cases
        case 1
        then show ?thesis unfolding old ul by auto
      next
        case 2
        then have "del_kids u (kids m) = []" "ref_count (attr m) = 0"
          by (simp_all add: del_node_def is_leaf_def)
        then show ?thesis using 2(1) m p unfolding ul by blast
      qed
    qed
    moreover have "p \<notin> unlocked_leaves ?cs"
      using um m(3) unfolding unlocked_leaves_def by fastforce
    ultimately show ?thesis using par fp p(1) by (auto simp: unlink_def)
  qed
qed

lemma heappop_in:
  assumes "xs \<noteq> []" "heappop f xs = (x, ys)"
  shows "x \<in> set xs" "ys = remove1 x xs" "\<And>y. y \<in> set xs \<Longrightarrow> f x \<le> f y"
  using assms arg_min_list_in[of xs f] f_arg_min_list_f[of xs f] by (auto simp: heappop_def Let_def)

text \<open>What one round of the eviction loop does to the cache: the unlocked leaf \<open>u\<close> leaves the
  tree, its tokens leave the evictable count and its page indices leave the content.\<close>

lemma unlink_round:
  assumes inv: "radix_inv s" and n: "n \<in> set (flat (kids (root_node s)))" "kids n = []"
    "ref_count (attr n) = 0" "uuid n = u"
  defines "s' \<equiv> s\<lparr>evictable_size := evictable_size s - int (nlen n), root_node := unlink u (root_node s)\<rparr>"
  shows "radix_inv s'" "find_node u (root_node s) = Inr n" "u \<noteq> uuid (root_node s)"
    "mset (map snd (content [] (kids (root_node s)))) =
       mset (map snd (content [] (kids (root_node s')))) + mset (nvalue n)"
    "ents (kids (root_node s')) = filter (\<lambda>e. fst e \<noteq> u) (ents (kids (root_node s)))"
    "length (nvalue n) = nlen n"
proof -
  let ?cs = "kids (root_node s)"
  have tinv: "tree_inv (page_size s) (counter s) (root_node s)" using inv by (simp add: radix_inv_def)
  note I = tree_invD[OF tinv]
  have u: "u \<in> set (uuids ?cs)" "u \<noteq> uuid (root_node s)" using flat_uuid[OF n(1)] n(4) I(5) by metis+
  have find: "find_kids u ?cs = Some n" using find_kids_unique[OF I(4) n(1)] n(4) by simp
  have leaf: "leaf_at u ?cs" unfolding leaf_at_def
    using find_kids_unique[OF I(4)] find n(2) by auto
  show "find_node u (root_node s) = Inr n" "u \<noteq> uuid (root_node s)"
    using u find by (simp_all add: find_node_def)
  have e: "(u, attr n, nkey n, nvalue n) \<in> set (ents ?cs)"
    using flat_entry[OF n(1)] n(4) by (simp add: entry_of_def)
  have wf: "length (nvalue n) = length (nkey n)"
    using wfk_entry[OF I(2) e] by simp
  then show "length (nvalue n) = nlen n" by simp
  obtain t where "mset (content [] ?cs) = mset (content [] (del_kids u ?cs)) + mset (seg t (nkey n) (nvalue n))"
    using mset_content_del_kids[OF I(4) leaf e] by blast
  then have "image_mset snd (mset (content [] ?cs)) =
     image_mset snd (mset (content [] (del_kids u ?cs))) + image_mset snd (mset (seg t (nkey n) (nvalue n)))"
    by simp
  then show "mset (map snd (content [] ?cs)) = mset (map snd (content [] (kids (root_node s')))) + mset (nvalue n)"
    using seg_values[OF wf, of t] by (simp add: s'_def unlink_def flip: mset_map)
  show ents: "ents (kids (root_node s')) = filter (\<lambda>e. fst e \<noteq> u) (ents ?cs)"
    using ents_del_kids[OF I(4) leaf] by (simp add: s'_def unlink_def)
  have sub: "set (uuids (del_kids u ?cs)) \<subseteq> set (uuids ?cs)" "distinct (uuids (del_kids u ?cs))"
    using ents_del_kids[OF I(4) leaf] I(4) by (auto simp: distinct_map_filter)
  have "tree_inv (page_size s) (counter s) (unlink u (root_node s))"
  proof -
    have "\<forall>w \<in> set (uuids (del_kids u ?cs)). w < counter s \<and> w \<noteq> uuid (root_node s)"
      using sub(1) I(5,8) by blast
    then show ?thesis unfolding tree_inv_def using I(1,9,10) sub(2) wfk_del_kids[OF I(2)] refs_ok_del_kids[OF I(3)]
      by (auto simp: unlink_def)
  qed
  moreover have "esum evictable_tokens (del_kids u ?cs) = evictable_size s - int (nlen n)"
    "esum protected_tokens (del_kids u ?cs) = protected_size s"
    using esum_del_kids[OF I(4) leaf e] inv n(3)
    by (simp_all add: radix_inv_def evictable_tokens_def protected_tokens_def)
  ultimately show "radix_inv s'" unfolding s'_def radix_inv_def by (simp add: unlink_def)
qed


lemma esum_pos_entry: "0 < esum evictable_tokens cs \<Longrightarrow> \<exists>n \<in> set (flat cs). ref_count (attr n) = 0"
proof (rule ccontr)
  assume "0 < esum evictable_tokens cs" "\<not> (\<exists>n \<in> set (flat cs). ref_count (attr n) = 0)"
  then have "\<forall>e \<in> set (ents cs). evictable_tokens e = 0"
    by (auto simp: ents_flat entry_of_def evictable_tokens_def)
  then have "map evictable_tokens (ents cs) = map (\<lambda>_. 0) (ents cs)" by (intro map_cong) auto
  then have "esum evictable_tokens cs = 0" unfolding esum_def by (simp only: sum_list_0)
  then show False using \<open>0 < esum evictable_tokens cs\<close> by simp
qed

text \<open>One round of the loop: the least recently used leaf \<open>x\<close> goes, and the heap again holds
  exactly the unlocked leaves.\<close>

lemma evict_round:
  assumes inv: "radix_inv s" and heap: "set heap = unlocked_leaves (kids (root_node s))" "distinct heap"
    and more: "n < sz" "int sz \<le> int n + evictable_size s"
  obtains x s1 heap1 where "x \<in> set (flat (kids (root_node s)))" "kids x = []" "ref_count (attr x) = 0"
    "\<And>w. w \<in> set heap \<Longrightarrow> timestamp (attr x) \<le> stamp_of (root_node s) w"
    "s1 = s\<lparr>evictable_size := evictable_size s - int (nlen x), root_node := unlink (uuid x) (root_node s)\<rparr>"
    "set heap1 = unlocked_leaves (kids (root_node s1))" "distinct heap1"
    "\<And>ev. evict_loop sz s heap ev n = evict_loop sz s1 heap1 (ev @ nvalue x) (n + nlen x)"
proof -
  let ?cs = "kids (root_node s)"
  have tinv: "tree_inv (page_size s) (counter s) (root_node s)" using inv by (simp add: radix_inv_def)
  have "0 < esum evictable_tokens ?cs" using more inv by (simp add: radix_inv_def)
  then have ne: "heap \<noteq> []"
    using unlocked_leaf_ex[OF tree_invD(3)[OF tinv]] esum_pos_entry heap(1) by fastforce
  obtain u heap' where pop: "heappop (stamp_of (root_node s)) heap = (u, heap')" by fastforce
  note pop' = heappop_in[OF ne pop]
  obtain x where x: "x \<in> set (flat ?cs)" "kids x = []" "ref_count (attr x) = 0" "uuid x = u"
    using pop'(1) heap(1) unfolding unlocked_leaves_def by auto
  define s1 where "s1 = s\<lparr>evictable_size := evictable_size s - int (nlen x), root_node := unlink u (root_node s)\<rparr>"
  note R = unlink_round[OF inv x, folded s1_def]
  obtain p pn where p: "parent_of u (root_node s) = Inr p" "find_node p (unlink u (root_node s)) = Inr pn"
    "unlocked_leaves (kids (unlink u (root_node s))) = (unlocked_leaves ?cs - {u}) \<union>
       (if is_leaf pn \<and> ref_count (attr pn) = 0 then {p} else {})"
    "p \<notin> unlocked_leaves ?cs" "p \<noteq> u" using unlink_leaf[OF tinv x] by blast
  define heap1 where "heap1 = (if is_leaf pn \<and> ref_count (attr pn) = 0 then heap' @ [p] else heap')"
  show thesis
  proof (rule that[OF x(1-3) _ s1_def[folded x(4)], of heap1])
    show "timestamp (attr x) \<le> stamp_of (root_node s) w" if "w \<in> set heap" for w
      using pop'(3)[OF that] R(2) by (simp add: stamp_of_def)
    show "set heap1 = unlocked_leaves (kids (root_node s1))" "distinct heap1"
      using p(3,4,5) heap pop'(2) by (auto simp: heap1_def s1_def)
    show "evict_loop sz s heap ev n = evict_loop sz s1 heap1 (ev @ nvalue x) (n + nlen x)" for ev
      using more(1) ne pop R(2,3) x(2,3) p(1,2)
      by (subst evict_loop.simps) (simp add: s1_def heap1_def is_leaf_def)
  qed
qed

lemma evict_loop_ok:
  assumes "radix_inv s" "set heap = unlocked_leaves (kids (root_node s))" "distinct heap"
    "int sz \<le> int n + evictable_size s"
  shows "\<exists>s' ev'. evict_loop sz s heap ev n = Inr (s', ev @ ev') \<and> radix_inv s' \<and>
     page_size s' = page_size s \<and> uuid (root_node s') = uuid (root_node s) \<and>
     sz \<le> n + length ev' \<and> evictable_size s' = evictable_size s - int (length ev') \<and>
     protected_size s' = protected_size s \<and>
     mset (cache_values s) = mset (cache_values s') + mset ev' \<and>
     set (ents (kids (root_node s'))) \<subseteq> set (ents (kids (root_node s))) \<and>
     {e \<in> set (ents (kids (root_node s))). 0 < ref_count (fst (snd e))} \<subseteq> set (ents (kids (root_node s'))) \<and>
     (\<exists>es. set es \<subseteq> set (ents (kids (root_node s))) \<and> ev' = concat (map (\<lambda>(u, a, k, v). v) es))"
  using assms
proof (induction "length (ents (kids (root_node s)))" arbitrary: s heap ev n rule: less_induct)
  case less
  let ?cs = "kids (root_node s)"
  show ?case
  proof (cases "n < sz")
    case False
    then show ?thesis using less.prems(1) by (simp add: evict_loop.simps exI[of _ "[]"])
  next
    case True
    obtain x s1 heap1 where x: "x \<in> set (flat ?cs)" "kids x = []" "ref_count (attr x) = 0"
      and s1: "s1 = s\<lparr>evictable_size := evictable_size s - int (nlen x), root_node := unlink (uuid x) (root_node s)\<rparr>"
      and h1: "set heap1 = unlocked_leaves (kids (root_node s1))" "distinct heap1"
      and step: "evict_loop sz s heap ev n = evict_loop sz s1 heap1 (ev @ nvalue x) (n + nlen x)"
      using evict_round[OF less.prems(1-3) True less.prems(4)] by metis
    note R = unlink_round[OF less.prems(1) x refl, folded s1]
    have "length (ents (kids (root_node s1))) < length (ents ?cs)"
      using unlink_decreases[OF R(2,3)] by (simp add: s1)
    moreover have "int sz \<le> int (n + nlen x) + evictable_size s1" using less.prems(4) by (simp add: s1)
    ultimately obtain s' ev' where r: "evict_loop sz s1 heap1 (ev @ nvalue x) (n + nlen x) = Inr (s', (ev @ nvalue x) @ ev')"
      "radix_inv s'" "page_size s' = page_size s1" "uuid (root_node s') = uuid (root_node s1)"
      "sz \<le> (n + nlen x) + length ev'" "evictable_size s' = evictable_size s1 - int (length ev')"
      "protected_size s' = protected_size s1" "mset (cache_values s1) = mset (cache_values s') + mset ev'"
      "set (ents (kids (root_node s'))) \<subseteq> set (ents (kids (root_node s1)))"
      "{e \<in> set (ents (kids (root_node s1))). 0 < ref_count (fst (snd e))} \<subseteq> set (ents (kids (root_node s')))"
      "\<exists>es. set es \<subseteq> set (ents (kids (root_node s1))) \<and> ev' = concat (map (\<lambda>(u, a, k, v). v) es)"
      using less.hyps[OF _ R(1) h1] by blast
    have "distinct (uuids ?cs)" using less.prems(1) unfolding radix_inv_def by (blast dest: tree_invD)
    then have "ref_count (fst (snd e)) = 0" if "e \<in> set (ents ?cs)" "fst e = uuid x" for e
      using that flat_entry[OF x(1)] x(3)
      by (metis entry_of_def eq_key_imp_eq_value fst_conv prod.collapse snd_conv)
    then have "{e \<in> set (ents ?cs). 0 < ref_count (fst (snd e))} \<subseteq> set (ents (kids (root_node s')))"
      using r(10) R(5) by fastforce
    moreover have "set (ents (kids (root_node s'))) \<subseteq> set (ents ?cs)" using r(9) R(5) by auto
    moreover have "mset (cache_values s) = mset (cache_values s') + mset (nvalue x @ ev')"
      using r(8) R(4) by (simp add: ac_simps)
    moreover have "evict_loop sz s heap ev n = Inr (s', ev @ nvalue x @ ev')" using step r(1) by simp
    moreover have "page_size s1 = page_size s" "uuid (root_node s1) = uuid (root_node s)"
      "protected_size s1 = protected_size s" "evictable_size s1 = evictable_size s - int (length (nvalue x))"
      using R(6) by (simp_all add: s1 unlink_def)
    moreover have "\<exists>es. set es \<subseteq> set (ents ?cs) \<and> nvalue x @ ev' = concat (map (\<lambda>(u, a, k, v). v) es)"
    proof -
      obtain es where "set es \<subseteq> set (ents (kids (root_node s1)))" "ev' = concat (map (\<lambda>(u, a, k, v). v) es)"
        using r(11) by blast
      then show ?thesis using R(5) flat_entry[OF x(1)]
        by (intro exI[of _ "entry_of x # es"]) (auto simp: entry_of_def)
    qed
    ultimately show ?thesis using r(2-7) R(6)
      by (intro exI[of _ s'] exI[of _ "nvalue x @ ev'"]) simp
  qed
qed

lemma evict_ok:
  assumes inv: "radix_inv s" and sz: "int sz \<le> evictable_size s"
  shows "\<exists>s' ev. evict sz s = Inr (s', ev) \<and> radix_inv s' \<and> page_size s' = page_size s \<and>
     uuid (root_node s') = uuid (root_node s) \<and> sz \<le> length ev \<and>
     size_info s' = (evictable_size s - int (length ev), protected_size s) \<and>
     mset (cache_values s) = mset (cache_values s') + mset ev \<and>
     set (ents (kids (root_node s'))) \<subseteq> set (ents (kids (root_node s))) \<and>
     {e \<in> set (ents (kids (root_node s))). 0 < ref_count (fst (snd e))} \<subseteq> set (ents (kids (root_node s'))) \<and>
     (\<exists>es. set es \<subseteq> set (ents (kids (root_node s))) \<and> ev = concat (map (\<lambda>(u, a, k, v). v) es))"
proof (cases "sz = 0")
  case True
  then show ?thesis using inv by (simp add: evict_def size_info_def exI[of _ "[]"])
next
  case False
  have t: "tree_inv (page_size s) (counter s) (root_node s)" using inv by (simp add: radix_inv_def)
  show ?thesis
    using evict_loop_ok[OF inv collect_leave_nodes[OF t], of sz 0 "[]"] sz False
    by (simp add: evict_def py_assert_def size_info_def)
qed

text \<open>The first node an eviction takes is the least recently used unlocked leaf, and when that
  leaf is large enough it is the only one.\<close>

lemma evict_lru:
  assumes inv: "radix_inv s" and sz: "0 < sz" "int sz \<le> evictable_size s"
  shows "\<exists>n s' ev. evict sz s = Inr (s', nvalue n @ ev) \<and> n \<in> set (flat (kids (root_node s))) \<and>
     is_leaf n \<and> ref_count (attr n) = 0 \<and> (sz \<le> nlen n \<longrightarrow> ev = []) \<and>
     (\<forall>m \<in> set (flat (kids (root_node s))). is_leaf m \<and> ref_count (attr m) = 0 \<longrightarrow>
        timestamp (attr n) \<le> timestamp (attr m))"
proof -
  let ?cs = "kids (root_node s)" and ?h = "collect_leave_nodes_for_evict (root_node s)"
  have t: "tree_inv (page_size s) (counter s) (root_node s)" using inv by (simp add: radix_inv_def)
  note h = collect_leave_nodes[OF t]
  have sz': "int sz \<le> int 0 + evictable_size s" using sz by simp
  obtain x s1 heap1 where x: "x \<in> set (flat ?cs)" "kids x = []" "ref_count (attr x) = 0"
    "\<And>w. w \<in> set ?h \<Longrightarrow> timestamp (attr x) \<le> stamp_of (root_node s) w"
    and s1: "s1 = s\<lparr>evictable_size := evictable_size s - int (nlen x), root_node := unlink (uuid x) (root_node s)\<rparr>"
    and h1: "set heap1 = unlocked_leaves (kids (root_node s1))" "distinct heap1"
    and step: "evict_loop sz s ?h [] 0 = evict_loop sz s1 heap1 ([] @ nvalue x) (0 + nlen x)"
    using evict_round[OF inv h sz(1) sz'] by metis
  note R = unlink_round[OF inv x(1-3) refl, folded s1]
  have ev: "evict sz s = evict_loop sz s1 heap1 (nvalue x) (nlen x)"
    using step sz by (simp add: evict_def)
  have "int sz \<le> int (nlen x) + evictable_size s1" using sz by (simp add: s1)
  then obtain s' ev' where r: "evict_loop sz s1 heap1 (nvalue x) (nlen x) = Inr (s', nvalue x @ ev')"
    using evict_loop_ok[OF R(1) h1] by blast
  moreover have "ev' = []" if "sz \<le> nlen x" using r that by (simp add: evict_loop.simps)
  moreover have "timestamp (attr x) \<le> timestamp (attr m)"
    if m: "m \<in> set (flat ?cs)" "is_leaf m" "ref_count (attr m) = 0" for m
  proof -
    have "uuid m \<in> set ?h" using m h(1) by (auto simp: unlocked_leaves_def is_leaf_def)
    moreover have "find_node (uuid m) (root_node s) = Inr m"
      using unlink_round(2)[OF inv m(1) _ m(3) refl] m(2) by (simp add: is_leaf_def)
    ultimately show ?thesis using x(4)[of "uuid m"] by (simp add: stamp_of_def)
  qed
  ultimately show ?thesis using ev x by (auto simp: is_leaf_def)
qed

end
