(* ===== verification/Radix_Handles.thy ===== *)
theory Radix_Handles
  imports Radix_Evict
begin

text \<open>
  Handles of \<^verbatim>\<open>RadixPrefixCache\<close> (\<^verbatim>\<open>kvcache/radix_cache.py\<close>) over the lifetime of the cache: no
  match, insertion, lock or unlock changes the page indices a live handle stands for, no eviction
  changes those of a locked one, and a prefix that was inserted is matched again in full, with
  the same page indices.
\<close>

section \<open>Handles stay valid\<close>

lemma handle_str_live: "radix_inv s \<Longrightarrow> live_handle s h \<longleftrightarrow> handle_str s h \<noteq> None"
  by (auto simp: handle_str_def live_handle_def path_str_None simp del: not_None_eq)

lemma walked_path_str_old:
  "walked ps tic c ids cs cs' u l c' \<Longrightarrow> c \<notin> set (uuids cs) \<Longrightarrow> path_str w cs = Some q \<Longrightarrow> path_str w cs' = Some q"
proof (induction arbitrary: q rule: walked.induct)
  case (split k ids m u a v gs cs)
  then have "w \<noteq> c" using path_str_None[of w "Node u a k v gs # cs"] by auto
  with split.prems(2) show ?case by (auto split: option.splits if_splits)
next
  case (descend ids' gs gs' x l c' k u a v cs)
  show ?case
  proof (cases "w = u")
    case False
    show ?thesis
    proof (cases "path_str w gs")
      case (Some r)
      then have "path_str w gs' = Some r" using descend by auto
      then show ?thesis using descend.prems(2) False Some by simp
    next
      case None
      then have "path_str w cs = Some q" using descend.prems(2) False by simp
      then have "w \<noteq> c" using path_str_None[of w cs] descend.prems(1) by auto
      then have "w \<notin> set (uuids gs')"
        using walked_uuids[OF descend.hyps(2)] None path_str_None[of w gs]
        by (metis insertE mset_eq_setD set_mset_add_mset_insert set_mset_mset)
      then have "path_str w gs' = None" by (simp add: path_str_None)
      then show ?thesis using descend.prems(2) False None by simp
    qed
  qed (use descend in simp)
next
  case (later k ids cs cs' x l c' u a v gs)
  then show ?case by (cases q) (auto split: option.splits)
qed (auto split: option.splits)

lemma path_str_append_None: "path_str w ds = None \<Longrightarrow> path_str w (cs @ ds) = path_str w cs"
  by (induction w cs rule: path_str.induct) (auto split: option.splits)

lemma path_str_add_kids_old: "uuid n \<noteq> w \<Longrightarrow> kids n = [] \<Longrightarrow> path_str w (add_kids u n cs) = path_str w cs"
proof (induction u n cs rule: add_kids.induct)
  case (2 u n x a k v gs cs)
  have "path_str w [n] = None" using "2.prems" by (cases n) simp
  then show ?case using 2 by (auto simp: path_str_append_None split: option.splits)
qed simp

lemma path_str_add_child_old:
  "uuid n \<noteq> w \<Longrightarrow> kids n = [] \<Longrightarrow> path_str w (kids (add_child u n root)) = path_str w (kids root)"
  by (cases n) (simp add: kids_add_child path_str_append_None path_str_add_kids_old)

lemma path_str_del_kids_old:
  "distinct (uuids cs) \<Longrightarrow> leaf_at u cs \<Longrightarrow> w \<noteq> u \<Longrightarrow> path_str w (del_kids u cs) = path_str w cs"
  by (induction u cs rule: del_kids.induct) (auto split: option.splits)

lemma path_str_upd_set [simp]: "path_str w (upd_set S f cs) = path_str w cs"
  by (induction S f cs rule: upd_set.induct) (auto split: option.splits)

text \<open>A walk, an insertion and a lock keep what every live handle stands for.\<close>

lemma tree_walk_path_str:
  assumes "tree_inv ps c root" "tree_walk ps tic c ids root = Inr (r, u, l, c')"
    "path_str w (kids root) = Some q"
  shows "path_str w (kids r) = Some q" "uuid r = uuid root"
  using assms(1)
  by (cases rule: tree_walk_cases[of ps c root tic ids]; use assms tree_invD(6)[OF assms(1)] in
      \<open>auto dest: walked_path_str_old\<close>)+

lemma match_keeps_handle:
  assumes inv: "radix_inv s" and m: "match_prefix tic ids s = Inr (s', h')" and h: "handle_str s h = Some q"
  shows "handle_str s' h = Some q"
proof -
  obtain r u l c' where w: "tree_walk (page_size s) tic (counter s) ids (root_node s) = Inr (r, u, l, c')"
    "s' = s\<lparr>root_node := r, counter := c'\<rparr>" using m by (auto simp: match_prefix_def rbind_eq_Inr)
  have t: "tree_inv (page_size s) (counter s) (root_node s)" using inv by (simp add: radix_inv_def)
  obtain r' where "uuid r' = uuid (root_node s)" "r' = r"
    by (rule tree_walk_ok[OF t, of tic ids]) (use w(1) in auto)
  then show ?thesis using h tree_walk_path_str[OF t w(1)] w(2) by (auto simp: handle_str_def split: if_splits)
qed

lemma insert_keeps_handle:
  assumes inv: "radix_inv s" and m: "insert_prefix tic now ids indices s = Inr (s', l', h')"
    and h: "handle_str s h = Some q"
  shows "handle_str s' h = Some q"
proof -
  define ids' where "ids' = take (align_down (length ids) (page_size s)) ids"
  have t: "tree_inv (page_size s) (counter s) (root_node s)" using inv by (simp add: radix_inv_def)
  obtain r u l c' where w: "tree_walk (page_size s) tic (counter s) ids' (root_node s) = Inr (r, u, l, c')"
    "uuid r = uuid (root_node s)" "tree_inv (page_size s) c' r"
    by (rule tree_walk_ok[OF t, of tic ids'])
  have root: "root_node s' = r \<or> (\<exists>n. root_node s' = add_child u n r \<and> uuid n = c' \<and> kids n = [])"
    using m w(1) unfolding insert_prefix_def Let_def ids'_def[symmetric]
    by (auto simp: py_assert_eq_Inr split: if_splits)
  show ?thesis
  proof (cases "hnode h = uuid (root_node s)")
    case True
    then show ?thesis using root w(2) h by (auto simp: handle_str_def add_child_def)
  next
    case False
    then have p: "path_str (hnode h) (kids r) = Some q"
      using h tree_walk_path_str(1)[OF t w(1)] by (simp add: handle_str_def)
    then have "hnode h \<noteq> c'" using path_str_None[of c' "kids r"] tree_invD(6)[OF w(3)] by auto
    then have "path_str (hnode h) (kids (root_node s')) = Some q"
      using root p path_str_add_child_old by metis
    moreover have "uuid (root_node s') = uuid (root_node s)" using root w(2) by (auto simp: add_child_def)
    ultimately show ?thesis using False by (simp add: handle_str_def)
  qed
qed

lemma lock_keeps_handle:
  assumes "radix_inv s" "if unlock then holds_lock s h' else live_handle s h'"
    "lock_handle s h' unlock = Inr s'"
  shows "handle_str s' h = handle_str s h"
proof -
  obtain p where "chain (hnode h') (root_node s) = Inr p"
    using assms(3) by (auto simp: lock_handle_def rbind_eq_Inr)
  then obtain f where "root_node s' = Node (uuid (root_node s)) (attr (root_node s)) (nkey (root_node s))
     (nvalue (root_node s)) (upd_set (set p) f (kids (root_node s)))"
    using lock_handle_ok[of s h'] unlock_handle_ok[of s h'] assms by (cases unlock) fastforce+
  then show ?thesis by (simp add: handle_str_def)
qed

text \<open>An eviction keeps every handle whose node is locked.\<close>

definition locked_handle :: "radix \<Rightarrow> handle \<Rightarrow> bool" where
  "locked_handle s h \<longleftrightarrow> hnode h = uuid (root_node s) \<or>
     (\<exists>n. find_kids (hnode h) (kids (root_node s)) = Some n \<and> 0 < ref_count (attr n))"

lemma evict_loop_keeps_handle:
  assumes "radix_inv s" "set heap = unlocked_leaves (kids (root_node s))" "distinct heap"
    "int sz \<le> int n + evictable_size s" "locked_handle s h" "evict_loop sz s heap ev n = Inr (s', ev')"
  shows "handle_str s' h = handle_str s h"
  using assms
proof (induction "length (ents (kids (root_node s)))" arbitrary: s heap ev n rule: less_induct)
  case less
  let ?cs = "kids (root_node s)"
  show ?case
  proof (cases "n < sz")
    case False
    then show ?thesis using less.prems(6) by (simp add: evict_loop.simps)
  next
    case True
    obtain x s1 heap1 where x: "x \<in> set (flat ?cs)" "kids x = []" "ref_count (attr x) = 0"
      and s1: "s1 = s\<lparr>evictable_size := evictable_size s - int (nlen x), root_node := unlink (uuid x) (root_node s)\<rparr>"
      and h1: "set heap1 = unlocked_leaves (kids (root_node s1))" "distinct heap1"
      and step: "evict_loop sz s heap ev n = evict_loop sz s1 heap1 (ev @ nvalue x) (n + nlen x)"
      using evict_round[OF less.prems(1-3) True less.prems(4)] by metis
    note R = unlink_round[OF less.prems(1) x refl, folded s1]
    have I: "distinct (uuids ?cs)" "distinct (uuids (kids (root_node s1)))"
      using less.prems(1) R(1) unfolding radix_inv_def by (blast dest: tree_invD)+
    have fx: "find_kids (uuid x) ?cs = Some x" using find_kids_unique[OF I(1) x(1)] by simp
    have leaf: "leaf_at (uuid x) ?cs" unfolding leaf_at_def
      using find_kids_unique[OF I(1)] fx x(2) by (metis option.inject)
    have hx: "hnode h \<noteq> uuid x" using less.prems(5) R(3) fx x(3) by (auto simp: locked_handle_def)
    have str: "handle_str s1 h = handle_str s h"
      using path_str_del_kids_old[OF I(1) leaf hx] by (simp add: handle_str_def s1 unlink_def)
    have lock: "locked_handle s1 h"
    proof (cases "hnode h = uuid (root_node s)")
      case False
      then obtain m where m: "find_kids (hnode h) ?cs = Some m" "0 < ref_count (attr m)"
        using less.prems(5) by (auto simp: locked_handle_def)
      then have "del_node (uuid x) m \<in> set (flat (kids (root_node s1)))"
        using flat_del_kids[OF I(1) leaf] find_kids_flat[OF m(1)] hx by (auto simp: s1 unlink_def)
      from find_kids_unique[OF I(2) this] show ?thesis
        using find_kids_flat[OF m(1)] m(2) by (auto simp: locked_handle_def del_node_def)
    qed (simp add: locked_handle_def s1 unlink_def)
    have "length (ents (kids (root_node s1))) < length (ents ?cs)"
      using unlink_decreases[OF R(2,3)] by (simp add: s1)
    moreover have "int sz \<le> int (n + nlen x) + evictable_size s1" using less.prems(4) by (simp add: s1)
    ultimately have "handle_str s' h = handle_str s1 h"
      using less.hyps[OF _ R(1) h1 _ lock, of "n + nlen x" "ev @ nvalue x"] step less.prems(6) by simp
    then show ?thesis using str by simp
  qed
qed

lemma evict_keeps_handle:
  assumes inv: "radix_inv s" and "locked_handle s h" "evict sz s = Inr (s', ev)"
  shows "handle_str s' h = handle_str s h"
proof (cases "sz = 0")
  case True
  then show ?thesis using assms(3) by (simp add: evict_def)
next
  case False
  have t: "tree_inv (page_size s) (counter s) (root_node s)" using inv by (simp add: radix_inv_def)
  show ?thesis
    by (rule evict_loop_keeps_handle[OF inv collect_leave_nodes[OF t], of sz 0 h "[]"])
      (use assms False in \<open>auto simp: evict_def py_assert_eq_Inr\<close>)
qed
section \<open>What was inserted is found again\<close>

lemma path_str_split:
  assumes "path_str u cs = Some (s, vs)" "wfk ps cs" "0 < ps"
  shows "\<exists>n \<in> set cs. take ps s = page_key ps (nkey n) \<and> nlen n \<le> length s \<and>
     (u = uuid n \<and> s = nkey n \<and> vs = nvalue n \<or>
      (\<exists>s' vs'. path_str u (kids n) = Some (s', vs') \<and> s = nkey n @ s' \<and> vs = nvalue n @ vs'))"
  using assms
proof (induction u cs arbitrary: s vs rule: path_str.induct)
  case (2 w u a k v gs cs)
  have psk: "ps \<le> length k" using "2.prems"(2,3) by (auto intro: dvd_imp_le)
  consider "w = u" | q where "w \<noteq> u" "path_str w gs = Some q" | "w \<noteq> u" "path_str w gs = None"
    by (cases "path_str w gs") auto
  then show ?case
  proof cases
    case 1
    then show ?thesis using 2 by (simp add: page_key_def)
  next
    case (2 q)
    then show ?thesis using "2.prems"(1) psk by (cases q) (auto simp: page_key_def)
  next
    case 3
    then have "path_str w cs = Some (s, vs)" using "2.prems"(1) by simp
    then show ?thesis using "2.IH"(2)[OF 3] "2.prems" by fastforce
  qed
qed simp

lemma path_str_unique:
  assumes "path_str u cs = Some (s, vs)" "path_str u' cs = Some (s, vs')" "wfk ps cs" "0 < ps"
  shows "vs = vs'"
  using assms
proof (induction "length s" arbitrary: cs s vs vs' rule: less_induct)
  case less
  obtain n where n: "n \<in> set cs" "take ps s = page_key ps (nkey n)" "nlen n \<le> length s"
    "u = uuid n \<and> s = nkey n \<and> vs = nvalue n \<or>
      (\<exists>s' vs'. path_str u (kids n) = Some (s', vs') \<and> s = nkey n @ s' \<and> vs = nvalue n @ vs')"
    using path_str_split[OF less.prems(1,3,4)] by blast
  obtain n' where n': "n' \<in> set cs" "take ps s = page_key ps (nkey n')" "nlen n' \<le> length s"
    "u' = uuid n' \<and> s = nkey n' \<and> vs' = nvalue n' \<or>
      (\<exists>s' vs''. path_str u' (kids n') = Some (s', vs'') \<and> s = nkey n' @ s' \<and> vs' = nvalue n' @ vs'')"
    using path_str_split[OF less.prems(2,3,4)] by blast
  have nn: "n' = n" using wfk_page_unique[OF less.prems(3) n'(1) n(1)] n(2) n'(2) by simp
  have wn: "wfk ps [n]" using wfk_member[OF less.prems(3) n(1)] .
  then have wk: "wfk ps (kids n)" "nkey n \<noteq> []" by (cases n; simp)+
  have ne: "t \<noteq> []" if "path_str w (kids n) = Some (t, r)" for w t r
    using path_str_nonempty[OF that wk(1)] .
  show ?case
  proof (cases "s = nkey n")
    case True
    then show ?thesis using n(4) n'(4) nn ne by auto
  next
    case False
    then obtain t r r' where "path_str u (kids n) = Some (t, r)" "path_str u' (kids n) = Some (t, r')"
      "s = nkey n @ t" "vs = nvalue n @ r" "vs' = nvalue n @ r'" using n(4) n'(4) nn by auto
    then show ?thesis using less.hyps[of t "kids n" r r'] wk less.prems(4) by simp
  qed
qed

lemma insert_then_match:
  assumes inv: "radix_inv s" and len: "length indices = length ids"
    and ins: "insert_prefix tic now ids indices s = Inr (s1, l, h)"
    and m: "match_prefix tic' ids s1 = Inr (s2, h2)"
  shows "cached_len h2 = cached_len h" "handle_str s2 h2 = handle_str s1 h"
proof -
  define n where "n = insert_len s ids"
  obtain vs where I: "radix_inv s1" "page_size s1 = page_size s" "l \<le> n" "cached_len h = n"
    "mset (cache_content s1) = mset (cache_content s) + mset (seg (take l ids) (slice l n ids) (slice l n indices))"
    "handle_str s1 h = Some (take n ids, vs)" "length vs = n"
    "\<forall>i < l. (take (Suc i) ids, vs ! i) \<in> set (cache_content s)"
    using insert_prefix_correct[OF inv len, of tic now] ins unfolding n_def by auto
  obtain vs2 where M: "radix_inv s2" "page_size s2 = page_size s1" "longest_match s1 ids (cached_len h2) vs2"
    "handle_str s2 h2 = Some (take (cached_len h2) ids, vs2)"
    using match_prefix_correct[OF I(1), of tic' ids] m by auto
  have ps: "0 < page_size s" using inv unfolding radix_inv_def by (blast dest: tree_invD)
  have n: "n \<le> length ids" "page_size s dvd n" "length ids < n + page_size s"
    using ps by (simp_all add: n_def insert_len_def align_down_le align_down_gt)
  have h: "handle_str s2 h = Some (take n ids, vs)" by (rule match_keeps_handle[OF I(1) m I(6)])
  have c: "take (Suc i) ids \<in> fst ` set (cache_content s1)" if "i < n" for i
  proof -
    have "0 < n" using that by simp
    then have hn: "hnode h \<noteq> uuid (root_node s1)" using I(6) n(1) by (auto simp: handle_str_def)
    then have "path_str (hnode h) (kids (root_node s1)) = Some (take n ids, vs)" using I(6) by (simp add: handle_str_def)
    moreover have "wfk (page_size s1) (kids (root_node s1))" using I(1) unfolding radix_inv_def by (blast dest: tree_invD)
    ultimately have "([] @ take (Suc i) (take n ids), vs ! i) \<in> set (cache_content s1)"
      using path_str_content that n(1) by fastforce
    then show ?thesis using that by (force simp: min_def)
  qed
  define l2 where "l2 = cached_len h2"
  have L: "l2 \<le> length ids" "page_size s dvd l2"
    "l2 + page_size s \<le> length ids \<Longrightarrow> take (l2 + page_size s) ids \<notin> fst ` set (cache_content s1)"
    using M(3) I(2) by (simp_all add: longest_match_def l2_def)
  have "\<not> l2 < n"
  proof
    assume "l2 < n"
    then have le: "l2 + page_size s \<le> n" using dvd_step[OF L(2) n(2)] by simp
    obtain j where j: "l2 + page_size s = Suc j" using ps by (cases "l2 + page_size s") auto
    then show False using c[of j] L(3) le n(1) by simp
  qed
  moreover have "\<not> n < l2" using dvd_step[OF n(2) L(2)] L(1) n(3) by linarith
  ultimately have eq: "l2 = n" by simp
  then show "cached_len h2 = cached_len h" using I(4) by (simp add: l2_def)
  have w2: "wfk (page_size s2) (kids (root_node s2))" "0 < page_size s2"
    using M(1) unfolding radix_inv_def by (blast dest: tree_invD)+
  have "vs2 = vs"
  proof (cases "n = 0")
    case True
    then show ?thesis using I(7) M(3) eq by (simp add: longest_match_def l2_def)
  next
    case False
    then have "take n ids \<noteq> []" using n(1) by auto
    then show ?thesis using path_str_unique[OF _ _ w2] h M(4) eq
      by (auto simp: handle_str_def l2_def split: if_splits)
  qed
  then show "handle_str s2 h2 = handle_str s1 h" using M(4) I(6) eq by (simp add: l2_def)
qed
end
