(* ===== verification/Paging.thy ===== *)
theory Paging
  imports Prelude
begin

text \<open>
  Pages and tokens, as \<^verbatim>\<open>scheduler/cache.py\<close> uses them: a page is named by its first token slot
  (\<^verbatim>\<open>free_slots\<close> holds multiples of the page size), \<^verbatim>\<open>_page_to_token\<close> lists the slots of some pages,
  and \<^verbatim>\<open>indices[::page_size]\<close> goes back.
\<close>

section \<open>Tokens of a list of pages\<close>

definition page_to_token :: "nat \<Rightarrow> int list \<Rightarrow> int list" where
  "page_to_token ps pages =
     (if ps = 1 then pages else concat (map (\<lambda>p. map (\<lambda>i. p + int i) [0..<ps]) pages))"

lemma page_to_token_concat: "page_to_token ps pages = concat (map (\<lambda>p. map (\<lambda>i. p + int i) [0..<ps]) pages)"
  by (simp add: page_to_token_def)

lemma page_to_token_simps [simp]:
  "page_to_token ps [] = []"
  "page_to_token ps (p # pages) = map (\<lambda>i. p + int i) [0..<ps] @ page_to_token ps pages"
  "page_to_token ps (xs @ ys) = page_to_token ps xs @ page_to_token ps ys"
  by (simp_all add: page_to_token_concat)

lemma length_page_to_token [simp]: "length (page_to_token ps pages) = ps * length pages"
  by (induction pages) auto

lemma page_to_token_nth:
  "j < length pages \<Longrightarrow> i < ps \<Longrightarrow> page_to_token ps pages ! (ps * j + i) = pages ! j + int i"
proof (induction pages arbitrary: j)
  case (Cons p pages)
  show ?case
  proof (cases j)
    case 0
    then show ?thesis using Cons.prems by (simp add: nth_append)
  next
    case (Suc j')
    then show ?thesis using Cons by (simp add: nth_append add.assoc)
  qed
qed simp

lemma every_append_page:
  assumes "0 < p" "length xs = p"
  shows "every p (xs @ ys) = hd xs # every p ys"
  using assms by (cases xs) auto

lemma every_page_to_token [simp]: "0 < ps \<Longrightarrow> every ps (page_to_token ps pages) = pages"
  by (induction pages) (simp_all add: every_append_page hd_map)

text \<open>The token slots of whole, aligned pages.\<close>

definition paged :: "nat \<Rightarrow> int list \<Rightarrow> bool" where
  "paged ps xs \<longleftrightarrow> xs = page_to_token ps (every ps xs) \<and> (\<forall>p \<in> set (every ps xs). int ps dvd p)"

lemma paged_iff: "0 < ps \<Longrightarrow> paged ps xs \<longleftrightarrow> (\<exists>pages. xs = page_to_token ps pages \<and> (\<forall>p \<in> set pages. int ps dvd p))"
  by (auto simp: paged_def)

lemma paged_Nil [simp]: "paged ps []"
  by (simp add: paged_def)

lemma paged_append: "0 < ps \<Longrightarrow> paged ps xs \<Longrightarrow> paged ps ys \<Longrightarrow> paged ps (xs @ ys)"
  unfolding paged_iff by (metis Un_iff page_to_token_simps(3) set_append)

lemma paged_concat: "0 < ps \<Longrightarrow> (\<And>x. x \<in> set xss \<Longrightarrow> paged ps x) \<Longrightarrow> paged ps (concat xss)"
  by (induction xss) (auto intro: paged_append)

lemma take_page_to_token: "take (ps * j) (page_to_token ps pages) = page_to_token ps (take j pages)"
proof (induction pages arbitrary: j)
  case (Cons p pages)
  then show ?case by (cases j) (auto simp: algebra_simps)
qed simp

lemma drop_page_to_token: "drop (ps * j) (page_to_token ps pages) = page_to_token ps (drop j pages)"
proof (induction pages arbitrary: j)
  case (Cons p pages)
  then show ?case by (cases j) (auto simp: algebra_simps)
qed simp

lemma paged_take: "0 < ps \<Longrightarrow> paged ps xs \<Longrightarrow> ps dvd m \<Longrightarrow> paged ps (take m xs)"
  unfolding paged_iff by (elim exE conjE dvdE) (metis in_set_takeD take_page_to_token)

lemma paged_drop: "0 < ps \<Longrightarrow> paged ps xs \<Longrightarrow> ps dvd m \<Longrightarrow> paged ps (drop m xs)"
  unfolding paged_iff by (elim exE conjE dvdE) (metis in_set_dropD drop_page_to_token)

lemma paged_slice: "0 < ps \<Longrightarrow> paged ps xs \<Longrightarrow> ps dvd i \<Longrightarrow> ps dvd j \<Longrightarrow> paged ps (slice i j xs)"
  by (simp add: slice_def paged_take paged_drop)

lemma paged_length: "0 < ps \<Longrightarrow> paged ps xs \<Longrightarrow> length xs = ps * length (every ps xs)"
  by (metis length_page_to_token paged_def)

text \<open>The first slots of the pages are the slots divisible by the page size.\<close>

definition page_starts :: "nat \<Rightarrow> int list \<Rightarrow> int list" where
  "page_starts ps xs = filter (\<lambda>x. int ps dvd x) xs"

lemma page_starts_page:
  assumes "0 < ps" "int ps dvd p"
  shows "filter (\<lambda>x. int ps dvd x) (map (\<lambda>i. p + int i) [0..<ps]) = [p]"
proof -
  have "int ps dvd p + int i \<longleftrightarrow> i = 0" if "i < ps" for i
  proof -
    have "int ps dvd p + int i \<longleftrightarrow> ps dvd i" using assms(2) by (simp add: dvd_add_right_iff)
    then show ?thesis using that by (auto dest: dvd_imp_le)
  qed
  then have "filter (\<lambda>i. int ps dvd p + int i) [0..<ps] = filter (\<lambda>i. i = 0) [0..<ps]"
    by (intro filter_cong) auto
  moreover have "filter (\<lambda>i. i = 0) [0..<ps] = [0]" using assms(1) by (induction ps) auto
  ultimately show ?thesis by (simp add: filter_map comp_def)
qed

lemma page_starts_page_to_token:
  "0 < ps \<Longrightarrow> (\<And>p. p \<in> set pages \<Longrightarrow> int ps dvd p) \<Longrightarrow> page_starts ps (page_to_token ps pages) = pages"
  by (induction pages) (simp_all add: page_starts_def page_starts_page)

lemma page_starts_paged: "0 < ps \<Longrightarrow> paged ps xs \<Longrightarrow> page_starts ps xs = every ps xs"
  by (metis paged_def page_starts_page_to_token)

lemma mset_page_starts: "mset xs = mset ys \<Longrightarrow> mset (page_starts ps xs) = mset (page_starts ps ys)"
  by (simp add: page_starts_def)

lemma page_starts_append [simp]: "page_starts ps (xs @ ys) = page_starts ps xs @ page_starts ps ys"
  by (simp add: page_starts_def)

end
