(* ===== verification/Prefix_Cache.thy ===== *)
theory Prefix_Cache
  imports Radix_Handles Paging
begin

text \<open>
  The contract \<^verbatim>\<open>BasePrefixCache\<close> of \<^verbatim>\<open>kvcache/base.py\<close> as the locale \<open>prefix_cache\<close>, the trivial
  \<^verbatim>\<open>NaivePrefixCache\<close> of \<^verbatim>\<open>kvcache/naive_cache.py\<close>, and the interpretations of the contract by the
  radix cache and by the naive one. A cache with this contract never loses and never doubles a
  page: what is stored changes only by what an insertion adds and by what an eviction returns.
\<close>

section \<open>The naive cache\<close>

text \<open>It keeps no state; its handles always have length 0 and no indices.\<close>

record naive_handle =
  ncached_len :: nat

definition naive_handle_init :: naive_handle where
  "naive_handle_init = \<lparr>ncached_len = 0\<rparr>"

definition naive_get_matched_indices :: "unit \<Rightarrow> naive_handle \<Rightarrow> int list result" where
  "naive_get_matched_indices s h = Inr []"

definition naive_lock_handle :: "unit \<Rightarrow> naive_handle \<Rightarrow> bool \<Rightarrow> unit result" where
  "naive_lock_handle s h unlock = Inr s"

definition naive_match_prefix :: "int list \<Rightarrow> unit \<Rightarrow> (unit \<times> naive_handle) result" where
  "naive_match_prefix ids s = Inr (s, naive_handle_init)"

definition naive_insert_prefix :: "int list \<Rightarrow> int list \<Rightarrow> unit \<Rightarrow> (unit \<times> nat \<times> naive_handle) result" where
  "naive_insert_prefix ids indices s = Inr (s, 0, naive_handle_init)"

definition naive_evict :: "nat \<Rightarrow> unit \<Rightarrow> (unit \<times> int list) result" where
  "naive_evict sz s = (if sz = 0 then Inr (s, []) else Inl NotImplementedError)"

definition naive_size_info :: "unit \<Rightarrow> int \<times> int" where
  "naive_size_info s = (0, 0)"

section \<open>Whole pages in the tree\<close>

definition node_paged :: "nat \<Rightarrow> node list \<Rightarrow> bool" where
  "node_paged ps cs \<longleftrightarrow> (\<forall>(u, a, k, v) \<in> set (ents cs). paged ps v)"

lemma node_paged_simps [simp]:
  "node_paged ps []"
  "node_paged ps (Node u a k v gs # cs) \<longleftrightarrow> paged ps v \<and> node_paged ps gs \<and> node_paged ps cs"
  by (simp_all add: node_paged_def ball_Un)

lemma node_paged_walked:
  "walked ps tic c ids cs cs' w l c' \<Longrightarrow> 0 < ps \<Longrightarrow> node_paged ps cs \<Longrightarrow> node_paged ps cs'"
  by (induction rule: walked.induct) (auto intro: paged_take paged_drop)

lemma node_paged_tree_walk:
  assumes "tree_inv ps c root" "tree_walk ps tic c ids root = Inr (r, u, l, c')" "node_paged ps (kids root)"
  shows "node_paged ps (kids r)"
  using assms(1)
  by (cases rule: tree_walk_cases[of ps c root tic ids])
    (use assms node_paged_walked tree_invD(1)[OF assms(1)] in auto)

lemma node_paged_upd_set [simp]: "node_paged ps (upd_set S f cs) = node_paged ps cs"
  by (induction S f cs rule: upd_set.induct) auto

lemma node_paged_append [simp]: "node_paged ps (cs @ ds) \<longleftrightarrow> node_paged ps cs \<and> node_paged ps ds"
  by (simp add: node_paged_def ball_Un)

lemma node_paged_add_kids:
  "node_paged ps cs \<Longrightarrow> node_paged ps [n] \<Longrightarrow> node_paged ps (add_kids u n cs)"
  by (induction u n cs rule: add_kids.induct) auto

lemma node_paged_content:
  "node_paged ps cs \<Longrightarrow> wfk ps cs \<Longrightarrow> 0 < ps \<Longrightarrow> paged ps (map snd (content pre cs))"
proof (induction pre cs rule: content.induct)
  case (2 pre u a k v gs cs)
  then show ?case by (auto simp: seg_values intro!: paged_append)
qed simp

text \<open>The invariant of a radix cache whose nodes hold whole pages, and the pages it stores.\<close>

definition paged_inv :: "radix \<Rightarrow> bool" where
  "paged_inv s \<longleftrightarrow> radix_inv s \<and> node_paged (page_size s) (kids (root_node s))"

definition stored_pages :: "radix \<Rightarrow> int list" where
  "stored_pages s = page_starts (page_size s) (cache_values s)"


lemma paged_invD:
  assumes "paged_inv s"
  shows "radix_inv s" "0 < page_size s" "paged (page_size s) (cache_values s)"
    "tree_inv (page_size s) (counter s) (root_node s)"
proof -
  show i: "radix_inv s" and t: "tree_inv (page_size s) (counter s) (root_node s)"
    using assms by (simp_all add: paged_inv_def radix_inv_def)
  show "0 < page_size s" using tree_invD(1)[OF t] .
  show "paged (page_size s) (cache_values s)"
    using assms node_paged_content[OF _ tree_invD(2)[OF t] tree_invD(1)[OF t]] by (simp add: paged_inv_def)
qed

lemma size_info_values:
  assumes "radix_inv s"
  shows "total_size (size_info s) = int (length (cache_values s))"
    "0 \<le> evictable_size s" "0 \<le> protected_size s" "int (page_size s) dvd evictable_size s"
proof -
  have t: "tree_inv (page_size s) (counter s) (root_node s)" using assms by (simp add: radix_inv_def)
  have len: "length (content pre cs) = (\<Sum>(u, a, k, v) \<leftarrow> ents cs. length k)" for pre cs
    by (induction pre cs rule: content.induct) (auto simp: seg_def)
  have "esum evictable_tokens cs + esum protected_tokens cs = int (\<Sum>(u, a, k, v) \<leftarrow> ents cs. length k)" for cs
    unfolding esum_def by (induction cs rule: ents.induct) (auto simp: evictable_tokens_def protected_tokens_def)
  then show "total_size (size_info s) = int (length (cache_values s))"
    using assms len by (simp add: total_size_def size_info_def radix_inv_def)
  show "0 \<le> evictable_size s" "0 \<le> protected_size s"
    using assms by (auto simp: radix_inv_def esum_def evictable_tokens_def protected_tokens_def
        intro!: sum_list_nonneg_int)
  have "int ps dvd esum evictable_tokens cs" if "wfk ps cs" for ps cs
    using that by (induction ps cs rule: wfk.induct) (auto simp: esum_def evictable_tokens_def)
  then show "int (page_size s) dvd evictable_size s" using assms tree_invD(2)[OF t] by (simp add: radix_inv_def)
qed


section \<open>The contract\<close>

text \<open>
  \<open>inv\<close> is the invariant, \<open>live\<close> tells that a handle's node is in the cache, \<open>page\<close> is the page size,
  \<open>pages\<close> lists the stored pages, \<open>size\<close> is \<^verbatim>\<open>size_info\<close>.
\<close>

locale prefix_cache =
  fixes inv :: "'s \<Rightarrow> bool"
    and live :: "'s \<Rightarrow> 'h \<Rightarrow> bool"
    and page :: "'s \<Rightarrow> nat"
    and pages :: "'s \<Rightarrow> int list"
    and size :: "'s \<Rightarrow> int \<times> int"
    and clen :: "'h \<Rightarrow> nat"
    and indices_of :: "'s \<Rightarrow> 'h \<Rightarrow> int list result"
    and lock :: "'s \<Rightarrow> 'h \<Rightarrow> bool \<Rightarrow> 's result"
    and match :: "int list \<Rightarrow> 's \<Rightarrow> ('s \<times> 'h) result"
    and insert :: "int list \<Rightarrow> int list \<Rightarrow> 's \<Rightarrow> ('s \<times> nat \<times> 'h) result"
    and evict :: "nat \<Rightarrow> 's \<Rightarrow> ('s \<times> int list) result"
  assumes page_pos: "inv s \<Longrightarrow> 0 < page s"
    and size_pages: "inv s \<Longrightarrow> fst (size s) + snd (size s) = int (page s * length (pages s))"
    and size_ok: "inv s \<Longrightarrow> 0 \<le> fst (size s) \<and> 0 \<le> snd (size s) \<and> int (page s) dvd fst (size s)"
    and match_ok: "inv s \<Longrightarrow> \<exists>s' h vs. match ids s = Inr (s', h) \<and> inv s' \<and> live s' h \<and>
      page s' = page s \<and> size s' = size s \<and> mset (pages s') = mset (pages s) \<and>
      (0 < clen h \<longrightarrow> indices_of s' h = Inr vs) \<and> length vs = clen h \<and> clen h \<le> length ids \<and> page s dvd clen h \<and>
      paged (page s) vs"
    and insert_ok: "inv s \<Longrightarrow> length idx = length ids \<Longrightarrow> paged (page s) (take (align_down (length ids) (page s)) idx) \<Longrightarrow>
      \<exists>s' l h vs. insert ids idx s = Inr (s', l, h) \<and> inv s' \<and> live s' h \<and> page s' = page s \<and>
      l \<le> clen h \<and> clen h \<le> length ids \<and> page s dvd l \<and> page s dvd clen h \<and>
      size s' = (fst (size s) + int (clen h - l), snd (size s)) \<and>
      mset (pages s') = mset (pages s) + mset (every (page s) (slice l (clen h) idx)) \<and>
      (0 < clen h \<longrightarrow> indices_of s' h = Inr vs) \<and> length vs = clen h \<and> drop l vs = slice l (clen h) idx"
    and lock_ok: "inv s \<Longrightarrow> live s h \<Longrightarrow> \<exists>s'. lock s h False = Inr s' \<and> inv s' \<and> live s' h \<and>
      page s' = page s \<and> pages s' = pages s \<and> fst (size s') \<le> fst (size s) \<and>
      fst (size s') + snd (size s') = fst (size s) + snd (size s) \<and> lock s' h True = Inr s"
    and evict_ok: "inv s \<Longrightarrow> int n \<le> fst (size s) \<Longrightarrow> \<exists>s' ev. evict n s = Inr (s', ev) \<and> inv s' \<and>
      page s' = page s \<and> n \<le> length ev \<and> paged (page s) ev \<and>
      size s' = (fst (size s) - int (length ev), snd (size s)) \<and>
      mset (pages s) = mset (pages s') + mset (every (page s) ev)"
begin

text \<open>Evicting what the size info calls evictable empties an unlocked cache.\<close>

lemma evict_all:
  assumes "inv s" "snd (size s) = 0"
  shows "\<exists>s' ev. evict (nat (fst (size s))) s = Inr (s', ev) \<and> inv s' \<and> pages s' = [] \<and>
    size s' = (0, 0) \<and> mset (every (page s) ev) = mset (pages s)"
proof -
  note z = size_ok[OF assms(1)]
  obtain s' ev where e: "evict (nat (fst (size s))) s = Inr (s', ev)" "inv s'" "page s' = page s"
    "nat (fst (size s)) \<le> length ev" "size s' = (fst (size s) - int (length ev), snd (size s))"
    "mset (pages s) = mset (pages s') + mset (every (page s) ev)"
    using evict_ok[OF assms(1), of "nat (fst (size s))"] z by auto
  have "size s' = (0, 0)" using e(4,5) size_ok[OF e(2)] assms(2) by (simp add: nat_le_iff)
  then have "pages s' = []" using size_pages[OF e(2)] page_pos[OF e(2)] by simp
  then show ?thesis using e \<open>size s' = (0, 0)\<close> by simp
qed

text \<open>An eviction of whole pages frees at least as many pages.\<close>

lemma evict_pages:
  assumes "inv s" "int (page s * k) \<le> fst (size s)"
  shows "\<exists>s' ev. evict (page s * k) s = Inr (s', ev) \<and> inv s' \<and> page s' = page s \<and>
    k \<le> length (every (page s) ev) \<and> snd (size s') = snd (size s) \<and>
    fst (size s') = fst (size s) - int (page s * length (every (page s) ev)) \<and>
    mset (pages s) = mset (pages s') + mset (every (page s) ev)"
proof -
  obtain s' ev where e: "evict (page s * k) s = Inr (s', ev)" "inv s'" "page s' = page s"
    "page s * k \<le> length ev" "paged (page s) ev" "size s' = (fst (size s) - int (length ev), snd (size s))"
    "mset (pages s) = mset (pages s') + mset (every (page s) ev)"
    using evict_ok[OF assms] by auto
  have "length ev = page s * length (every (page s) ev)" using paged_length[OF page_pos e(5)] assms(1) .
  then show ?thesis using e page_pos[OF assms(1)] by simp
qed

end

section \<open>The radix cache keeps the contract\<close>

lemma path_str_paged:
  "path_str u cs = Some (ks, vs) \<Longrightarrow> node_paged ps cs \<Longrightarrow> 0 < ps \<Longrightarrow> paged ps vs"
  by (induction u cs arbitrary: ks vs rule: path_str.induct)
    (auto split: if_splits option.splits intro: paged_append)

lemma handle_str_paged:
  assumes "paged_inv s" "handle_str s h = Some (ks, vs)"
  shows "paged (page_size s) vs"
  using assms path_str_paged[of "hnode h" "kids (root_node s)"] paged_invD(2)[OF assms(1)]
  by (auto simp: handle_str_def paged_inv_def split: if_splits)

lemma stored_pages_mset:
  assumes "paged_inv s" "paged (page_size s) ev" "mset (cache_values s') = mset (cache_values s) + mset ev"
    "page_size s' = page_size s"
  shows "mset (stored_pages s') = mset (stored_pages s) + mset (every (page_size s) ev)"
proof -
  have "mset (stored_pages s') = mset (page_starts (page_size s) (cache_values s @ ev))"
    unfolding stored_pages_def assms(4) by (rule mset_page_starts) (use assms(3) in simp)
  then show ?thesis
    using page_starts_paged[OF paged_invD(2)[OF assms(1)] assms(2)] by (simp add: stored_pages_def)
qed

lemma radix_size_pages:
  assumes "paged_inv s"
  shows "fst (size_info s) + snd (size_info s) = int (page_size s * length (stored_pages s))"
  using size_info_values(1)[OF paged_invD(1)[OF assms]] paged_length[OF paged_invD(2,3)[OF assms]]
    page_starts_paged[OF paged_invD(2,3)[OF assms]]
  by (simp add: total_size_def stored_pages_def)

lemma radix_match:
  assumes "paged_inv s"
  shows "\<exists>s' h vs. match_prefix tic ids s = Inr (s', h) \<and> paged_inv s' \<and> live_handle s' h \<and>
      page_size s' = page_size s \<and> size_info s' = size_info s \<and> mset (stored_pages s') = mset (stored_pages s) \<and>
      (0 < cached_len h \<longrightarrow> get_matched_indices s' h = Inr vs) \<and> length vs = cached_len h \<and> cached_len h \<le> length ids \<and>
      page_size s dvd cached_len h \<and> paged (page_size s) vs"
proof -
  note P = paged_invD[OF assms]
  obtain s' h vs where m: "match_prefix tic ids s = Inr (s', h)" "radix_inv s'" "page_size s' = page_size s"
    "size_info s' = size_info s" "cache_content s' = cache_content s"
    "handle_str s' h = Some (take (cached_len h) ids, vs)" "longest_match s ids (cached_len h) vs"
    using match_prefix_correct[OF P(1)] by blast
  obtain r u l c' where w: "tree_walk (page_size s) tic (counter s) ids (root_node s) = Inr (r, u, l, c')"
    "s' = s\<lparr>root_node := r, counter := c'\<rparr>" using m(1) by (auto simp: match_prefix_def rbind_eq_Inr)
  have p': "paged_inv s'"
    using node_paged_tree_walk[OF P(4) w(1)] assms m(2) w(2) by (simp add: paged_inv_def)
  have "0 < cached_len h \<longrightarrow> get_matched_indices s' h = Inr vs"
    using handle_str_indices[OF m(2,6)] m(7) by (auto simp: longest_match_def)
  moreover have "live_handle s' h" using handle_str_live[OF m(2)] m(6) by simp
  ultimately show ?thesis using m(1,3-5,7) p' handle_str_paged[OF p' m(6)]
    by (auto simp: longest_match_def stored_pages_def)
qed

lemma radix_insert:
  assumes "paged_inv s" "length idx = length ids" "paged (page_size s) (take (align_down (length ids) (page_size s)) idx)"
  shows "\<exists>s' l h vs. insert_prefix tic now ids idx s = Inr (s', l, h) \<and> paged_inv s' \<and> live_handle s' h \<and>
      page_size s' = page_size s \<and> l \<le> cached_len h \<and> cached_len h \<le> length ids \<and>
      page_size s dvd l \<and> page_size s dvd cached_len h \<and>
      size_info s' = (fst (size_info s) + int (cached_len h - l), snd (size_info s)) \<and>
      mset (stored_pages s') = mset (stored_pages s) + mset (every (page_size s) (slice l (cached_len h) idx)) \<and>
      (0 < cached_len h \<longrightarrow> get_matched_indices s' h = Inr vs) \<and> length vs = cached_len h \<and> drop l vs = slice l (cached_len h) idx"
proof -
  note P = paged_invD[OF assms(1)]
  define n where "n = insert_len s ids"
  obtain s' l h vs where m: "insert_prefix tic now ids idx s = Inr (s', l, h)" "radix_inv s'"
    "page_size s' = page_size s" "l \<le> n" "page_size s dvd l" "cached_len h = n"
    "evictable_size s' = evictable_size s + int (n - l)" "protected_size s' = protected_size s"
    "mset (cache_content s') = mset (cache_content s) + mset (seg (take l ids) (slice l n ids) (slice l n idx))"
    "handle_str s' h = Some (take n ids, vs)" "length vs = n" "drop l vs = slice l n idx"
    using insert_prefix_correct[OF P(1) assms(2)] unfolding n_def by blast
  have n: "n \<le> length ids" "page_size s dvd n" by (simp_all add: n_def insert_len_def align_down_le)
  have pv: "paged (page_size s) (slice l n idx)"
    using paged_drop[OF P(2) assms(3) m(5)] by (simp add: slice_def n_def insert_len_def)
  have "length (slice l n idx) = length (slice l n ids)" using assms(2) by simp
  then have cv: "mset (cache_values s') = mset (cache_values s) + mset (slice l n idx)"
    using arg_cong[OF m(9), of "image_mset snd"] seg_values[of "slice l n idx" "slice l n ids" "take l ids"]
    by (simp flip: mset_map)
  obtain r u c' where w: "tree_walk (page_size s) tic (counter s) (take n ids) (root_node s) = Inr (r, u, l, c')"
    "root_node s' = r \<or> root_node s' = add_child u (Node c' (fresh_attr 0 now) (slice l n ids) (slice l n idx) []) r"
    using m(1) unfolding insert_prefix_def Let_def n_def insert_len_def slice_def
    by (auto simp: rbind_eq_Inr py_assert_eq_Inr split: if_splits)
  have "node_paged (page_size s) (kids r)"
    using node_paged_tree_walk[OF P(4) w(1)] assms(1) by (simp add: paged_inv_def)
  then have p': "paged_inv s'"
    using w(2) m(2,3) pv by (auto simp: paged_inv_def kids_add_child node_paged_add_kids)
  have "0 < cached_len h \<longrightarrow> get_matched_indices s' h = Inr vs"
    using handle_str_indices[OF m(2,10)] m(6,11) by auto
  moreover have "live_handle s' h" using handle_str_live[OF m(2)] m(10) by simp
  moreover have "mset (stored_pages s') = mset (stored_pages s) + mset (every (page_size s) (slice l n idx))"
    by (rule stored_pages_mset[OF assms(1) pv cv m(3)])
  ultimately show ?thesis using m(1,3-8,11,12) p' n by (auto simp: size_info_def)
qed

lemma radix_lock:
  assumes "paged_inv s" "live_handle s h"
  shows "\<exists>s'. lock_handle s h False = Inr s' \<and> paged_inv s' \<and> live_handle s' h \<and> page_size s' = page_size s \<and>
      stored_pages s' = stored_pages s \<and> fst (size_info s') \<le> fst (size_info s) \<and>
      fst (size_info s') + snd (size_info s') = fst (size_info s) + snd (size_info s) \<and>
      lock_handle s' h True = Inr s"
proof -
  note P = paged_invD[OF assms(1)]
  obtain p where p: "chain (hnode h) (root_node s) = Inr p" using live_chain[OF P(1) assms(2)] by metis
  obtain s' where s': "lock_handle s h False = Inr s'" "radix_inv s'" "page_size s' = page_size s"
    "evictable_size s' + protected_size s' = evictable_size s + protected_size s"
    "evictable_size s' \<le> evictable_size s" "cache_content s' = cache_content s"
    "root_node s' = Node (uuid (root_node s)) (attr (root_node s)) (nkey (root_node s))
        (nvalue (root_node s)) (upd_set (set p) inc_ref (kids (root_node s)))"
    using lock_handle_ok[OF P(1) assms(2)] p by blast
  have "lock_handle s' h True = Inr s" using lock_unlock_ok[OF P(1) assms(2)] s'(1) by auto
  moreover have "paged_inv s'" using s'(2,3,7) assms(1) by (simp add: paged_inv_def)
  moreover have "live_handle s' h"
    using lock_keeps_handle[OF P(1) _ s'(1), of h] assms(2) handle_str_live P(1) s'(2) by simp
  ultimately show ?thesis using s' by (auto simp: stored_pages_def size_info_def)
qed

lemma radix_evict:
  assumes "paged_inv s" "int n \<le> fst (size_info s)"
  shows "\<exists>s' ev. evict n s = Inr (s', ev) \<and> paged_inv s' \<and>
      page_size s' = page_size s \<and> n \<le> length ev \<and> paged (page_size s) ev \<and>
      size_info s' = (fst (size_info s) - int (length ev), snd (size_info s)) \<and>
      mset (stored_pages s) = mset (stored_pages s') + mset (every (page_size s) ev)"
proof -
  note P = paged_invD[OF assms(1)]
  have n: "int n \<le> evictable_size s" using assms(2) by (simp add: size_info_def)
  obtain s' ev es where e: "evict n s = Inr (s', ev)" "radix_inv s'" "page_size s' = page_size s"
    "n \<le> length ev" "size_info s' = (evictable_size s - int (length ev), protected_size s)"
    "mset (cache_values s) = mset (cache_values s') + mset ev"
    "set (ents (kids (root_node s'))) \<subseteq> set (ents (kids (root_node s)))"
    "set es \<subseteq> set (ents (kids (root_node s)))" "ev = concat (map (\<lambda>(u, a, k, v). v) es)"
    using evict_ok[OF P(1) n] by (elim exE conjE) (rule that)
  have np: "\<forall>(u, a, k, v) \<in> set (ents (kids (root_node s))). paged (page_size s) v"
    using assms(1) by (simp add: paged_inv_def node_paged_def)
  have p': "paged_inv s'" using e(2,3,7) np by (auto simp: paged_inv_def node_paged_def)
  have pe: "paged (page_size s) ev" unfolding e(9) by (rule paged_concat[OF P(2)]) (use e(8) np in auto)
  have "mset (stored_pages s) = mset (stored_pages s') + mset (every (page_size s) ev)"
    unfolding e(3)[symmetric] by (rule stored_pages_mset[OF p' _ e(6)]) (simp_all only: e(3) pe)
  then show ?thesis using e(1,3-5) p' pe by (simp add: size_info_def)
qed

interpretation rx: prefix_cache paged_inv live_handle page_size stored_pages size_info cached_len
  get_matched_indices lock_handle "match_prefix tic" "insert_prefix tic now" evict for tic now
proof (unfold_locales)
  fix s :: radix assume s: "paged_inv s"
  show "0 < page_size s" by (rule paged_invD(2)[OF s])
  show "fst (size_info s) + snd (size_info s) = int (page_size s * length (stored_pages s))"
    by (rule radix_size_pages[OF s])
  show "0 \<le> fst (size_info s) \<and> 0 \<le> snd (size_info s) \<and> int (page_size s) dvd fst (size_info s)"
    using size_info_values[OF paged_invD(1)[OF s]] by (simp add: size_info_def)
qed (rule radix_match radix_insert radix_lock radix_evict; assumption)+

interpretation nv: prefix_cache "\<lambda>s. True" "\<lambda>s h. ncached_len h = 0" "\<lambda>s. Suc n" "\<lambda>s. []" naive_size_info
  ncached_len naive_get_matched_indices naive_lock_handle naive_match_prefix naive_insert_prefix naive_evict for n
  by unfold_locales
    (simp_all add: naive_size_info_def naive_match_prefix_def naive_insert_prefix_def naive_lock_handle_def
      naive_evict_def naive_get_matched_indices_def naive_handle_init_def slice_def)

end
