(* ===== verification/Radix_Trace.thy ===== *)
theory Radix_Trace
  imports Prefix_Cache
begin

text \<open>
  \<^verbatim>\<open>RadixPrefixCache\<close> (\<^verbatim>\<open>kvcache/radix_cache.py\<close>) under arbitrary sequences of operations: a step relation
  over the cache and the locks its client holds, the exact meaning of the reference counts as
  an invariant, and the properties of the component.
\<close>

section \<open>Traces of cache operations\<close>

text \<open>
  A client's view: the cache and the handles the client holds a lock on (with repetitions). The
  client locks only live handles and unlocks only what it holds; everything else is up to it.
\<close>

inductive radix_step :: "radix \<times> handle list \<Rightarrow> radix \<times> handle list \<Rightarrow> bool" where
  match: "match_prefix tic ids s = Inr (s', h) \<Longrightarrow> radix_step (s, held) (s', held)"
| insert: "length idx = length ids \<Longrightarrow> insert_prefix tic now ids idx s = Inr (s', l, h) \<Longrightarrow>
    radix_step (s, held) (s', held)"
| lock: "live_handle s h \<Longrightarrow> lock_handle s h False = Inr s' \<Longrightarrow> radix_step (s, held) (s', h # held)"
| unlock: "h \<in> set held \<Longrightarrow> lock_handle s h True = Inr s' \<Longrightarrow> radix_step (s, held) (s', remove1 h held)"
| evict: "evict n s = Inr (s', ev) \<Longrightarrow> radix_step (s, held) (s', held)"

definition held_count :: "handle list \<Rightarrow> nat \<Rightarrow> int" where
  "held_count held u = int (count (mset (map hnode held)) u)"

text \<open>Every reference count is the sum of the counts of the children and of the handles held at
  the node itself.\<close>

definition refs_exact :: "(nat \<Rightarrow> int) \<Rightarrow> node list \<Rightarrow> bool" where
  "refs_exact f cs \<longleftrightarrow> (\<forall>n \<in> set (flat cs). ref_count (attr n) = rsum (kids n) + f (uuid n))"

lemma refs_exact_simps [simp]:
  "refs_exact f []"
  "refs_exact f (Node u a k v gs # cs) \<longleftrightarrow> ref_count a = rsum gs + f u \<and> refs_exact f gs \<and> refs_exact f cs"
  by (auto simp: refs_exact_def)

lemma refs_exact_append [simp]: "refs_exact f (cs @ ds) \<longleftrightarrow> refs_exact f cs \<and> refs_exact f ds"
  by (induction cs rule: flat.induct) auto

lemma refs_exact_walked:
  "walked ps tic c ids cs cs' w l c' \<Longrightarrow> f c = 0 \<Longrightarrow> refs_exact f cs \<Longrightarrow> refs_exact f cs' \<and> rsum cs' = rsum cs"
  by (induction rule: walked.induct) (auto simp: split_attr_def fresh_attr_def)

lemma refs_exact_add_kids:
  "refs_exact f cs \<Longrightarrow> refs_exact f [n] \<Longrightarrow> rsum [n] = 0 \<Longrightarrow>
     refs_exact f (add_kids u n cs) \<and> rsum (add_kids u n cs) = rsum cs"
  by (induction u n cs rule: add_kids.induct) auto

lemma refs_exact_cong: "(\<And>u. u \<in> set (uuids cs) \<Longrightarrow> f u = g u) \<Longrightarrow> refs_exact f cs = refs_exact g cs"
  unfolding refs_exact_def using flat_uuid by (metis (no_types, lifting))

lemma refs_exact_upd: "u \<notin> set (uuids cs) \<Longrightarrow> refs_exact (f(u := x)) cs = refs_exact f cs"
  by (rule refs_exact_cong) auto

lemma refs_exact_upd_path:
  fixes d :: int and f :: "nat \<Rightarrow> int"
  defines "add \<equiv> \<lambda>a. a\<lparr>ref_count := ref_count a + d\<rparr>"
  assumes "path_kids u cs = Some p" "distinct (uuids cs)" "refs_exact f cs"
  shows "refs_exact (f(u := f u + d)) (upd_set (set p) add cs) \<and> rsum (upd_set (set p) add cs) = rsum cs + d"
  using assms(2-)
proof (induction u cs arbitrary: p rule: path_kids.induct)
  case (2 u w a k v gs cs)
  have d: "w \<notin> set (uuids gs)" "w \<notin> set (uuids cs)" "distinct (uuids gs)" "distinct (uuids cs)"
    "set (uuids gs) \<inter> set (uuids cs) = {}" using "2.prems"(2) by auto
  show ?case
  proof (cases "u = w")
    case True
    then have "p = [w]" using 2 by simp
    moreover have "upd_set {w} add gs = gs" "upd_set {w} add cs = cs"
      using d by (auto intro!: upd_set_id)
    moreover have "refs_exact (f(u := f u + d)) gs" "refs_exact (f(u := f u + d)) cs"
      using "2.prems"(3) d(1,2) True refs_exact_upd by simp_all
    ultimately show ?thesis using "2.prems"(3) True by (simp add: add_def fun_upd_def)
  next
    case False
    show ?thesis
    proof (cases "path_kids u gs")
      case (Some q)
      then have p: "p = w # q" using "2.prems" False by simp
      have q: "set q \<subseteq> set (uuids gs)" "u \<in> set (uuids gs)" using path_kids_set[OF Some] by auto
      then have u: "u \<notin> set (uuids cs)" using d(5) by blast
      have "upd_set (set p) add gs = upd_set (set q) add gs"
        unfolding p using d(1) by (simp add: upd_set_insert_id)
      moreover have "upd_set (set p) add cs = cs"
        using p q(1) d by (intro upd_set_id) auto
      moreover have "refs_exact (f(u := f u + d)) cs" using "2.prems"(3) u refs_exact_upd by simp
      ultimately show ?thesis using "2.IH"(1)[OF False Some d(3)] "2.prems"(3) p False
        by (simp add: add_def fun_upd_def)
    next
      case None
      then have c: "path_kids u cs = Some p" using "2.prems" False by simp
      then have q: "set p \<subseteq> set (uuids cs)" "u \<in> set (uuids cs)" using path_kids_set[OF c] by auto
      then have u: "u \<notin> set (uuids gs)" using d(5) by blast
      have "upd_set (set p) add gs = gs" using q(1) d(5) by (intro upd_set_id) blast
      moreover have "w \<notin> set p" using q d(2) by blast
      moreover have "refs_exact (f(u := f u + d)) gs" using "2.prems"(3) u refs_exact_upd by simp
      ultimately show ?thesis using "2.IH"(2)[OF False None c d(4)] "2.prems"(3) False by (simp add: fun_upd_def)
    qed
  qed
qed simp

lemma refs_exact_del_kids:
  "distinct (uuids cs) \<Longrightarrow> leaf_at u cs \<Longrightarrow> (\<forall>n \<in> set (flat cs). uuid n = u \<longrightarrow> ref_count (attr n) = 0) \<Longrightarrow>
   refs_exact f cs \<Longrightarrow> refs_exact f (del_kids u cs) \<and> rsum (del_kids u cs) = rsum cs"
  by (induction u cs rule: del_kids.induct) (auto simp: del_kids_id)


lemma refs_exact_tree_walk:
  assumes "tree_inv ps c root" "tree_walk ps tic c ids root = Inr (r, u, l, c')" "refs_exact f (kids root)" "f c = 0"
  shows "refs_exact f (kids r)"
  using assms(1)
  by (cases rule: tree_walk_cases[of ps c root tic ids]) (use assms refs_exact_walked in auto)

definition trace_inv :: "radix \<times> handle list \<Rightarrow> bool" where
  "trace_inv = (\<lambda>(s, held). radix_inv s \<and> (\<forall>h \<in> set held. live_handle s h) \<and>
     refs_exact (held_count held) (kids (root_node s)))"

lemma held_count_fresh: "(\<And>h. h \<in> set held \<Longrightarrow> hnode h \<noteq> u) \<Longrightarrow> held_count held u = 0"
  by (auto simp: held_count_def count_eq_zero_iff)

lemma held_count_pos: "h \<in> set held \<Longrightarrow> 0 < held_count held (hnode h)"
  by (auto simp: held_count_def)

lemma trace_fresh:
  assumes "trace_inv (s, held)" "counter s \<le> c"
  shows "held_count held c = 0"
proof (rule held_count_fresh)
  have t: "tree_inv (page_size s) (counter s) (root_node s)" using assms(1) by (simp add: trace_inv_def radix_inv_def)
  fix h assume "h \<in> set held"
  then have "hnode h = uuid (root_node s) \<or> hnode h \<in> set (uuids (kids (root_node s)))"
    using assms(1) by (simp add: trace_inv_def live_handle_def)
  then have "hnode h < counter s" using tree_invD(8,9)[OF t] by metis
  then show "hnode h \<noteq> c" using assms(2) by simp
qed

text \<open>A node with more locks of its own than none can be unlocked.\<close>

lemma refs_exact_holds_lock:
  assumes "radix_inv s" "refs_exact f (kids (root_node s))" "live_handle s h" "0 < f (hnode h)"
  shows "holds_lock s h" "locked_handle s h"
proof -
  have "holds_lock s h \<and> locked_handle s h"
  proof (cases "hnode h = uuid (root_node s)")
    case False
    then have "hnode h \<in> set (uuids (kids (root_node s)))"
      using assms(3) by (auto simp: live_handle_def)
    then obtain n where n: "find_kids (hnode h) (kids (root_node s)) = Some n"
      using find_kids_None by (metis not_None_eq)
    have f: "n \<in> set (flat (kids (root_node s)))" "uuid n = hnode h" using find_kids_flat[OF n] by auto
    have "ref_count (attr n) = rsum (kids n) + f (hnode h)"
      using assms(2) f by (simp add: refs_exact_def)
    moreover have "0 \<le> rsum (kids n)"
    proof -
      have "refs_ok (kids (root_node s))" using assms(1) by (auto simp: radix_inv_def dest: tree_invD)
      then show ?thesis using f(1) refs_ok_flat refs_ok_nonneg by metis
    qed
    ultimately show ?thesis using n assms(4) by (auto simp: holds_lock_def locked_handle_def)
  qed (simp add: holds_lock_def locked_handle_def)
  then show "holds_lock s h" "locked_handle s h" by simp_all
qed

lemma held_holds_lock:
  assumes "trace_inv (s, held)" "h \<in> set held"
  shows "holds_lock s h" "locked_handle s h"
  using refs_exact_holds_lock[of s "held_count held" h] assms held_count_pos[OF assms(2)]
  by (simp_all add: trace_inv_def)

text \<open>Locking and unlocking a node add one to, and take one from, its own locks.\<close>

lemma lock_refs_exact:
  assumes i: "radix_inv s" and live: "live_handle s h" and m: "lock_handle s h False = Inr s'"
    and e: "refs_exact f (kids (root_node s))"
  shows "refs_exact (f(hnode h := f (hnode h) + 1)) (kids (root_node s'))"
proof -
  have d: "distinct (uuids (kids (root_node s)))" "uuid (root_node s) \<notin> set (uuids (kids (root_node s)))"
    using i unfolding radix_inv_def by (blast dest: tree_invD)+
  obtain p where p: "chain (hnode h) (root_node s) = Inr p"
    "hnode h \<noteq> uuid (root_node s) \<Longrightarrow> path_kids (hnode h) (kids (root_node s)) = Some (rev p)"
    "hnode h = uuid (root_node s) \<Longrightarrow> p = []" using live_chain[OF i live] by metis
  have r: "kids (root_node s') = upd_set (set p) inc_ref (kids (root_node s))"
    using lock_handle_ok[OF i live] m p(1) by auto
  show ?thesis
  proof (cases "hnode h = uuid (root_node s)")
    case True
    then show ?thesis using e d(2) refs_exact_upd p(3) unfolding r by (simp add: upd_set_id)
  next
    case False
    then show ?thesis using refs_exact_upd_path[OF p(2)[OF False] d(1) e, of 1] unfolding r by simp
  qed
qed

lemma unlock_refs_exact:
  assumes i: "radix_inv s" and hold: "holds_lock s h" and live: "live_handle s h" and m: "lock_handle s h True = Inr s'"
    and e: "refs_exact f (kids (root_node s))"
  shows "refs_exact (f(hnode h := f (hnode h) + - 1)) (kids (root_node s'))"
proof -
  have d: "distinct (uuids (kids (root_node s)))" "uuid (root_node s) \<notin> set (uuids (kids (root_node s)))"
    using i unfolding radix_inv_def by (blast dest: tree_invD)+
  obtain p where p: "chain (hnode h) (root_node s) = Inr p"
    "hnode h \<noteq> uuid (root_node s) \<Longrightarrow> path_kids (hnode h) (kids (root_node s)) = Some (rev p)"
    "hnode h = uuid (root_node s) \<Longrightarrow> p = []" using live_chain[OF i live] by metis
  have r: "kids (root_node s') = upd_set (set p) dec_ref (kids (root_node s))"
    using unlock_handle_ok[OF i hold] m p(1) by auto
  show ?thesis
  proof (cases "hnode h = uuid (root_node s)")
    case True
    then show ?thesis using e d(2) refs_exact_upd p(3) unfolding r by (simp add: upd_set_id)
  next
    case False
    then show ?thesis using refs_exact_upd_path[OF p(2)[OF False] d(1) e, of "- 1"] unfolding r by simp
  qed
qed
lemma live_of_str: "radix_inv s \<Longrightarrow> radix_inv s' \<Longrightarrow> (\<And>q. handle_str s h = Some q \<Longrightarrow> handle_str s' h = Some q) \<Longrightarrow>
   live_handle s h \<Longrightarrow> live_handle s' h"
  using handle_str_live by fastforce

lemma trace_match:
  assumes t: "trace_inv (s, held)" and m: "match_prefix tic ids s = Inr (s', h)"
  shows "trace_inv (s', held)"
proof -
  have i: "radix_inv s" using t by (simp add: trace_inv_def)
  have i': "radix_inv s'" using match_prefix_correct[OF i, of tic ids] m by auto
  obtain r u l c' where w: "tree_walk (page_size s) tic (counter s) ids (root_node s) = Inr (r, u, l, c')"
    "s' = s\<lparr>root_node := r, counter := c'\<rparr>" using m by (auto simp: match_prefix_def rbind_eq_Inr)
  have "refs_exact (held_count held) (kids r)"
    by (rule refs_exact_tree_walk[OF _ w(1)])
      (use t trace_fresh[OF t] in \<open>simp_all add: trace_inv_def radix_inv_def\<close>)
  then show ?thesis
    using t i' w(2) live_of_str[OF i i' match_keeps_handle[OF i m]] by (simp add: trace_inv_def)
qed

lemma trace_insert:
  assumes t: "trace_inv (s, held)" and len: "length idx = length ids"
    and m: "insert_prefix tic now ids idx s = Inr (s', l', h)"
  shows "trace_inv (s', held)"
proof -
  have i: "radix_inv s" using t by (simp add: trace_inv_def)
  have i': "radix_inv s'" using insert_prefix_correct[OF i len, of tic now] m by auto
  define ids' where "ids' = take (align_down (length ids) (page_size s)) ids"
  have ti: "tree_inv (page_size s) (counter s) (root_node s)" using i by (simp add: radix_inv_def)
  obtain r u l c' where w: "tree_walk (page_size s) tic (counter s) ids' (root_node s) = Inr (r, u, l, c')"
    "counter s \<le> c'" by (rule tree_walk_ok[OF ti, of tic ids'])
  have root: "root_node s' = r \<or> (\<exists>k v. root_node s' = add_child u (Node c' (fresh_attr 0 now) k v []) r)"
    using m w(1) unfolding insert_prefix_def Let_def ids'_def[symmetric]
    by (auto simp: py_assert_eq_Inr split: if_splits) blast
  have r: "refs_exact (held_count held) (kids r)"
    by (rule refs_exact_tree_walk[OF ti w(1)]) (use t trace_fresh[OF t] in \<open>simp_all add: trace_inv_def\<close>)
  have "refs_exact (held_count held) (kids (root_node s'))"
  proof (cases "root_node s' = r")
    case False
    then obtain k v where "root_node s' = add_child u (Node c' (fresh_attr 0 now) k v []) r" using root by blast
    then show ?thesis using r trace_fresh[OF t w(2)]
        refs_exact_add_kids[of "held_count held" "kids r" "Node c' (fresh_attr 0 now) k v []" u]
      by (simp add: kids_add_child fresh_attr_def)
  qed (use r in simp)
  then show ?thesis
    using t i' live_of_str[OF i i' insert_keeps_handle[OF i m]] by (simp add: trace_inv_def)
qed

lemma held_count_Cons: "held_count (h # held) = (held_count held)(hnode h := held_count held (hnode h) + 1)"
  by (auto simp: held_count_def)

lemma held_count_remove1:
  assumes "h \<in> set held"
  shows "held_count (remove1 h held) = (held_count held)(hnode h := held_count held (hnode h) + - 1)"
proof -
  have "mset held = add_mset h (mset (remove1 h held))" using assms by simp
  then have "mset (map hnode held) = add_mset (hnode h) (mset (map hnode (remove1 h held)))"
    by (metis image_mset_add_mset mset_map)
  then show ?thesis by (auto simp: held_count_def)
qed

lemma trace_lock:
  assumes t: "trace_inv (s, held)" and live: "live_handle s h" and m: "lock_handle s h False = Inr s'"
  shows "trace_inv (s', h # held)"
proof -
  have i: "radix_inv s" and e: "refs_exact (held_count held) (kids (root_node s))" using t by (simp_all add: trace_inv_def)
  have i': "radix_inv s'" using lock_handle_ok[OF i live] m by auto
  have "live_handle s' h'" if "live_handle s h'" for h'
    using that lock_keeps_handle[OF i _ m, of h'] live handle_str_live[OF i] handle_str_live[OF i'] by simp
  then show ?thesis using t i' live lock_refs_exact[OF i live m e] by (simp add: trace_inv_def held_count_Cons)
qed

lemma trace_unlock:
  assumes t: "trace_inv (s, held)" and h: "h \<in> set held" and m: "lock_handle s h True = Inr s'"
  shows "trace_inv (s', remove1 h held)"
proof -
  have i: "radix_inv s" and live: "live_handle s h" and e: "refs_exact (held_count held) (kids (root_node s))"
    using t h by (simp_all add: trace_inv_def)
  note hold = held_holds_lock(1)[OF t h]
  have i': "radix_inv s'" using unlock_handle_ok[OF i hold] m by auto
  have "live_handle s' h'" if "live_handle s h'" for h'
    using that lock_keeps_handle[OF i _ m, of h'] hold handle_str_live[OF i] handle_str_live[OF i'] by simp
  then show ?thesis using t i' unlock_refs_exact[OF i hold live m e] notin_set_remove1
    by (fastforce simp: trace_inv_def held_count_remove1[OF h])
qed

lemma trace_evict_loop:
  assumes "radix_inv s" "set heap = unlocked_leaves (kids (root_node s))" "distinct heap"
    "int sz \<le> int n + evictable_size s" "refs_exact f (kids (root_node s))" "evict_loop sz s heap ev n = Inr (s', ev')"
  shows "refs_exact f (kids (root_node s'))"
  using assms
proof (induction "length (ents (kids (root_node s)))" arbitrary: s heap ev n rule: less_induct)
  case less
  let ?cs = "kids (root_node s)"
  show ?case
  proof (cases "n < sz")
    case False
    then show ?thesis using less.prems(5,6) by (simp add: evict_loop.simps)
  next
    case True
    obtain x s1 heap1 where x: "x \<in> set (flat ?cs)" "kids x = []" "ref_count (attr x) = 0"
      and s1: "s1 = s\<lparr>evictable_size := evictable_size s - int (nlen x), root_node := unlink (uuid x) (root_node s)\<rparr>"
      and h1: "set heap1 = unlocked_leaves (kids (root_node s1))" "distinct heap1"
      and step: "evict_loop sz s heap ev n = evict_loop sz s1 heap1 (ev @ nvalue x) (n + nlen x)"
      using evict_round[OF less.prems(1-3) True less.prems(4)] by metis
    note R = unlink_round[OF less.prems(1) x refl, folded s1]
    have I: "distinct (uuids ?cs)" using less.prems(1) unfolding radix_inv_def by (blast dest: tree_invD)
    have same: "m = x" if "m \<in> set (flat ?cs)" "uuid m = uuid x" for m
      using find_kids_unique[OF I x(1)] find_kids_unique[OF I that(1)] that(2) by simp
    have "refs_exact f (del_kids (uuid x) ?cs)"
      by (rule refs_exact_del_kids[OF I, THEN conjunct1]) (use same x less.prems(5) in \<open>auto simp: leaf_at_def\<close>)
    then have e: "refs_exact f (kids (root_node s1))" by (simp add: s1 unlink_def)
    have "length (ents (kids (root_node s1))) < length (ents ?cs)"
      using unlink_decreases[OF R(2,3)] by (simp add: s1)
    moreover have "int sz \<le> int (n + nlen x) + evictable_size s1" using less.prems(4) by (simp add: s1)
    ultimately show ?thesis
      using less.hyps[OF _ R(1) h1 _ e, of "n + nlen x" "ev @ nvalue x"] step less.prems(6) by simp
  qed
qed

lemma trace_evict:
  assumes t: "trace_inv (s, held)" and m: "evict n s = Inr (s', ev)"
  shows "trace_inv (s', held)"
proof (cases "n = 0")
  case True
  then show ?thesis using t m by (simp add: evict_def)
next
  case False
  then have n: "int n \<le> evictable_size s" using m by (simp add: evict_def py_assert_eq_Inr)
  have i: "radix_inv s" using t by (simp add: trace_inv_def)
  have ti: "tree_inv (page_size s) (counter s) (root_node s)" using i by (simp add: radix_inv_def)
  have i': "radix_inv s'" using evict_ok[OF i n] m by auto
  have "refs_exact (held_count held) (kids (root_node s'))"
    by (rule trace_evict_loop[OF i collect_leave_nodes[OF ti], of n 0 "held_count held" "[]" s' ev])
      (use t m n False in \<open>simp_all add: trace_inv_def evict_def py_assert_eq_Inr\<close>)
  moreover have "live_handle s' h" if "h \<in> set held" for h
    using that evict_keeps_handle[OF i held_holds_lock(2)[OF t that] m] handle_str_live[OF i] handle_str_live[OF i'] t
    by (simp add: trace_inv_def)
  ultimately show ?thesis using i' by (simp add: trace_inv_def)
qed

lemma trace_step: "radix_step x y \<Longrightarrow> trace_inv x \<Longrightarrow> trace_inv y"
  by (induction rule: radix_step.induct)
    (auto intro: trace_match trace_insert trace_lock trace_unlock trace_evict)

lemma trace_init: "0 < ps \<Longrightarrow> trace_inv (radix_init ps c now, [])"
  by (simp add: trace_inv_def radix_inv_init) (simp add: radix_init_def)

lemma trace_reachable: "radix_step\<^sup>*\<^sup>* x y \<Longrightarrow> trace_inv x \<Longrightarrow> trace_inv y"
  by (induction rule: rtranclp_induct) (auto intro: trace_step)

inductive_cases radix_stepE: "radix_step (s, held) y"

lemma step_keeps_held:
  assumes t: "trace_inv (s, held)" and st: "radix_step (s, held) (s', held')" and h: "h \<in> set held"
  shows "handle_str s' h = handle_str s h"
proof -
  have i: "radix_inv s" and live: "\<exists>q. handle_str s h = Some q"
    using t h handle_str_live by (auto simp: trace_inv_def)
  from st show ?thesis
    by (cases rule: radix_step.cases)
      (use i live h match_keeps_handle[OF i] insert_keeps_handle[OF i] lock_keeps_handle[OF i, of False]
        lock_keeps_handle[OF i, of True] evict_keeps_handle[OF i held_holds_lock(2)[OF t h]] held_holds_lock(1)[OF t]
        in \<open>auto, metis+\<close>)
qed

lemma no_locks_all_evictable:
  assumes "trace_inv (s, [])"
  shows "protected_size s = 0"
proof -
  have z: "refs_exact (\<lambda>u. 0) cs \<Longrightarrow> rsum cs = 0 \<and> esum protected_tokens cs = 0" for cs
    by (induction cs rule: flat.induct) (auto simp: esum_def protected_tokens_def)
  have "held_count [] = (\<lambda>u. 0)" by (auto simp: held_count_def)
  then show ?thesis using assms z[of "kids (root_node s)"] by (simp add: trace_inv_def radix_inv_def)
qed

section \<open>Properties\<close>

text \<open>A small cache for the witnesses: four tokens on two pages of two slots, then a second
  branch that shares the first page.\<close>

definition demo_cache :: radix where
  "demo_cache = \<lparr>page_size = 2, evictable_size = 6, protected_size = 0,
     root_node = Node 0 ((fresh_attr 0 0)\<lparr>ref_count := 1\<rparr>) [] []
       [Node 2 (split_attr 3 (fresh_attr 0 2)) [5, 6] [0, 1]
          [Node 1 (fresh_attr 0 2) [7, 8] [2, 3] [],
           Node 3 (fresh_attr 0 4) [9, 9] [6, 7] []]],
     counter = 4\<rparr>"

lemma demo_cache_built:
  "rbind (insert_prefix 1 2 [5, 6, 7, 8] [0, 1, 2, 3] (radix_init 2 0 0))
     (\<lambda>(s, l, h). insert_prefix 3 4 [5, 6, 9, 9, 4] [4, 5, 6, 7, 8] s) =
   Inr (demo_cache, 2, \<lparr>cached_len = 4, hnode = 3\<rparr>)"
  by code_simp

lemma demo_cache_inv: "radix_inv demo_cache" "paged_inv demo_cache"
  by code_simp+

text \<open>C1: \<^verbatim>\<open>match_prefix\<close> succeeds on every cache that satisfies the invariant, keeps the invariant, the
  size info and the content of the cache (splitting nodes at most), and returns a handle for the
  longest cached page-aligned prefix of the input: its indices are the cached indices of
  that prefix, and the prefix that is one page longer is not cached.\<close>

theorem match_prefix_longest:
  assumes "radix_inv s"
  shows "\<exists>s' h vs. match_prefix tic ids s = Inr (s', h) \<and> radix_inv s' \<and>
     size_info s' = size_info s \<and> cache_content s' = cache_content s \<and>
     get_matched_indices s' h = (if cached_len h = 0 then Inl ValueError else Inr vs) \<and>
     longest_match s ids (cached_len h) vs"
proof -
  obtain s' h vs where m: "match_prefix tic ids s = Inr (s', h)" "radix_inv s'" "size_info s' = size_info s"
    "cache_content s' = cache_content s" "handle_str s' h = Some (take (cached_len h) ids, vs)"
    "longest_match s ids (cached_len h) vs" using match_prefix_correct[OF assms] by blast
  have "take (cached_len h) ids = [] \<longleftrightarrow> cached_len h = 0" using m(6) by (auto simp: longest_match_def)
  then show ?thesis using m handle_str_indices(1)[OF m(2,5)] by auto
qed

theorem match_prefix_longest_witness:
  "radix_inv demo_cache \<and>
   (\<exists>s' h vs. match_prefix 9 [5, 6, 7, 7] demo_cache = Inr (s', h) \<and> radix_inv s' \<and>
     size_info s' = size_info demo_cache \<and> cache_content s' = cache_content demo_cache \<and>
     get_matched_indices s' h = (if cached_len h = 0 then Inl ValueError else Inr vs) \<and>
     longest_match demo_cache [5, 6, 7, 7] (cached_len h) vs)"
  using match_prefix_longest[OF demo_cache_inv(1)] demo_cache_inv(1) by blast

text \<open>C2: \<^verbatim>\<open>insert_prefix\<close> stores the page-aligned part of the input: with \<open>l\<close> the returned length already
  cached, exactly the tokens from \<open>l\<close> to the aligned length enter the cache, with the
  given page indices and as evictable tokens; the returned handle stands for the whole
  aligned prefix.\<close>

theorem insert_prefix_adds:
  assumes "radix_inv s" "length indices = length ids"
  defines "n \<equiv> align_down (length ids) (page_size s)"
  shows "\<exists>s' l h vs. insert_prefix tic now ids indices s = Inr (s', l, h) \<and> radix_inv s' \<and>
     l \<le> n \<and> page_size s dvd l \<and> cached_len h = n \<and>
     size_info s' = (evictable_size s + int (n - l), protected_size s) \<and>
     mset (cache_content s') =
       mset (cache_content s) + mset (seg (take l ids) (slice l n ids) (slice l n indices)) \<and>
     (0 < n \<longrightarrow> get_matched_indices s' h = Inr vs) \<and> length vs = n \<and> drop l vs = slice l n indices"
proof -
  obtain s' l h vs where m: "insert_prefix tic now ids indices s = Inr (s', l, h)" "radix_inv s'"
    "l \<le> n" "page_size s dvd l" "cached_len h = n" "evictable_size s' = evictable_size s + int (n - l)"
    "protected_size s' = protected_size s"
    "mset (cache_content s') = mset (cache_content s) + mset (seg (take l ids) (slice l n ids) (slice l n indices))"
    "handle_str s' h = Some (take n ids, vs)" "length vs = n" "drop l vs = slice l n indices"
    using insert_prefix_correct[OF assms(1,2), of tic now] unfolding n_def insert_len_def by blast
  then show ?thesis using handle_str_indices[OF m(2,9)] by (auto simp: size_info_def)
qed

theorem insert_prefix_adds_witness:
  "radix_inv demo_cache \<and>
   (\<exists>s' l h vs. insert_prefix 9 9 [5, 6, 7] [20, 21, 22] demo_cache = Inr (s', l, h) \<and> radix_inv s' \<and>
     l \<le> 2 \<and> cached_len h = 2 \<and> length vs = 2 \<and> get_matched_indices s' h = Inr vs)"
proof -
  have "align_down (length [5, 6, 7 :: int]) (page_size demo_cache) = 2"
    by (simp add: demo_cache_def align_down_def)
  then show ?thesis
    using insert_prefix_adds[OF demo_cache_inv(1), of "[20, 21, 22]" "[5, 6, 7]" 9 9] demo_cache_inv(1) by auto
qed

text \<open>C3: What was inserted is matched again: a match of the same tokens right after an insertion
  returns the whole inserted length and the page indices the insertion's handle stands for.\<close>

theorem insert_match_roundtrip:
  assumes "radix_inv s" "length indices = length ids"
    "insert_prefix tic now ids indices s = Inr (s1, l, h)" "match_prefix tic' ids s1 = Inr (s2, h2)"
  shows "cached_len h2 = align_down (length ids) (page_size s) \<and>
     (\<exists>vs. handle_str s1 h = Some (take (cached_len h2) ids, vs) \<and>
        handle_str s2 h2 = Some (take (cached_len h2) ids, vs) \<and>
        drop l vs = slice l (cached_len h2) indices \<and>
        (0 < cached_len h2 \<longrightarrow> get_matched_indices s2 h2 = Inr vs))"
proof -
  obtain vs where I: "radix_inv s1" "cached_len h = insert_len s ids"
    "handle_str s1 h = Some (take (insert_len s ids) ids, vs)" "drop l vs = slice l (insert_len s ids) indices"
    using insert_prefix_correct[OF assms(1,2), of tic now] assms(3) by auto
  note R = insert_then_match[OF assms]
  have i2: "radix_inv s2" using match_prefix_correct[OF I(1), of tic' ids] assms(4) by auto
  have n: "insert_len s ids \<le> length ids" by (simp add: insert_len_def align_down_le)
  have h2: "handle_str s2 h2 = Some (take (insert_len s ids) ids, vs)" using R I by simp
  have "0 < insert_len s ids \<Longrightarrow> get_matched_indices s2 h2 = Inr vs"
    using handle_str_indices(1)[OF i2 h2] n by auto
  then show ?thesis using R I h2 by (auto simp: insert_len_def)
qed

theorem insert_match_roundtrip_witness:
  "\<exists>s1 h s2 h2. insert_prefix 1 2 [5, 6, 7, 8] [0, 1, 2, 3] (radix_init 2 0 0) = Inr (s1, 0, h) \<and>
     match_prefix 3 [5, 6, 7, 8] s1 = Inr (s2, h2) \<and> cached_len h2 = 4 \<and>
     get_matched_indices s2 h2 = Inr [0, 1, 2, 3]"
proof -
  let ?s1 = "\<lparr>page_size = 2, evictable_size = 4, protected_size = 0,
    root_node = Node 0 ((fresh_attr 0 0)\<lparr>ref_count := 1\<rparr>) [] [] [Node 1 (fresh_attr 0 2) [5, 6, 7, 8] [0, 1, 2, 3] []],
    counter = 2\<rparr>"
  let ?s2 = "\<lparr>page_size = 2, evictable_size = 4, protected_size = 0,
    root_node = Node 0 ((fresh_attr 0 0)\<lparr>ref_count := 1\<rparr>) [] [] [Node 1 ((fresh_attr 0 2)\<lparr>timestamp := 3\<rparr>) [5, 6, 7, 8] [0, 1, 2, 3] []],
    counter = 2\<rparr>"
  let ?h = "\<lparr>cached_len = 4, hnode = 1\<rparr>"
  have i: "insert_prefix 1 2 [5, 6, 7, 8] [0, 1, 2, 3] (radix_init 2 0 0) = Inr (?s1, 0, ?h)" by code_simp
  have m: "match_prefix 3 [5, 6, 7, 8] ?s1 = Inr (?s2, ?h)" by code_simp
  have "radix_inv (radix_init 2 0 0)" by (simp add: radix_inv_init)
  from insert_match_roundtrip[OF this _ i m] have "get_matched_indices ?s2 ?h = Inr [0, 1, 2, 3]"
    by (auto simp: radix_init_def align_down_def slice_def)
  then show ?thesis using i m by (intro exI[of _ ?s1] exI[of _ ?h] exI[of _ ?s2] exI[of _ ?h]) simp
qed

text \<open>C4: \<^verbatim>\<open>evict\<close> of at most the evictable size succeeds: it frees at least the requested tokens, keeps
  the invariant, takes exactly the returned page indices out of the cache, lowers only
  the evictable size, by their number, and keeps every locked node as it is.\<close>

theorem evict_frees_enough:
  assumes "radix_inv s" "int n \<le> evictable_size s"
  shows "\<exists>s' ev. evict n s = Inr (s', ev) \<and> radix_inv s' \<and> n \<le> length ev \<and>
     size_info s' = (evictable_size s - int (length ev), protected_size s) \<and>
     mset (cache_values s) = mset (cache_values s') + mset ev \<and>
     {e \<in> set (ents (kids (root_node s))). 0 < ref_count (fst (snd e))} \<subseteq> set (ents (kids (root_node s')))"
  using Radix_Evict.evict_ok[OF assms] by (elim exE conjE) (intro exI conjI)

theorem evict_frees_enough_witness:
  "radix_inv demo_cache \<and> int 3 \<le> evictable_size demo_cache \<and>
   (\<exists>s' ev. evict 3 demo_cache = Inr (s', ev) \<and> radix_inv s' \<and> 3 \<le> length ev \<and>
     mset (cache_values demo_cache) = mset (cache_values s') + mset ev)"
proof -
  have "int 3 \<le> evictable_size demo_cache" by (simp add: demo_cache_def)
  from evict_frees_enough[OF demo_cache_inv(1) this] this demo_cache_inv(1) show ?thesis by blast
qed

text \<open>C6: \<^verbatim>\<open>evict\<close> takes the least recently used unlocked leaf first, and nothing else when that leaf
  is large enough.\<close>

theorem evict_takes_lru:
  assumes "radix_inv s" "0 < n" "int n \<le> evictable_size s"
  shows "\<exists>x s' ev. evict n s = Inr (s', nvalue x @ ev) \<and> x \<in> set (flat (kids (root_node s))) \<and>
     is_leaf x \<and> ref_count (attr x) = 0 \<and> (n \<le> nlen x \<longrightarrow> ev = []) \<and>
     (\<forall>m \<in> set (flat (kids (root_node s))). is_leaf m \<and> ref_count (attr m) = 0 \<longrightarrow>
        timestamp (attr x) \<le> timestamp (attr m))"
  using evict_lru[OF assms] .

theorem evict_takes_lru_witness:
  "\<exists>x s'. evict 1 demo_cache = Inr (s', nvalue x) \<and> x \<in> set (flat (kids (root_node demo_cache))) \<and>
     is_leaf x \<and> ref_count (attr x) = 0"
proof -
  have "(0 :: nat) < 1" "int 1 \<le> evictable_size demo_cache" by (simp_all add: demo_cache_def)
  from evict_takes_lru[OF demo_cache_inv(1) this] obtain x s' ev where e: "evict 1 demo_cache = Inr (s', nvalue x @ ev)"
    "x \<in> set (flat (kids (root_node demo_cache)))" "is_leaf x" "ref_count (attr x) = 0" "1 \<le> nlen x \<longrightarrow> ev = []" by blast
  have "1 \<le> nlen x" using e(2) by (auto simp: demo_cache_def)
  then show ?thesis using e by auto
qed

text \<open>The nodes on the path to a handle's node: that node and those above it.\<close>

definition on_path_of :: "handle \<Rightarrow> node \<Rightarrow> bool" where
  "on_path_of h n \<longleftrightarrow> uuid n = hnode h \<or> hnode h \<in> set (uuids (kids n))"

lemma flat_kids_uuids: "n \<in> set (flat cs) \<Longrightarrow> set (uuids (kids n)) \<subseteq> set (uuids cs)"
  by (induction cs rule: flat.induct) auto

lemma path_kids_iff:
  "path_kids u cs = Some p \<Longrightarrow> distinct (uuids cs) \<Longrightarrow> n \<in> set (flat cs) \<Longrightarrow>
     uuid n \<in> set p \<longleftrightarrow> uuid n = u \<or> u \<in> set (uuids (kids n))"
proof (induction u cs arbitrary: p rule: path_kids.induct)
  case (2 u w a k v gs cs)
  have d: "w \<notin> set (uuids gs)" "w \<notin> set (uuids cs)" "set (uuids gs) \<inter> set (uuids cs) = {}"
    "distinct (uuids gs)" "distinct (uuids cs)" using "2.prems"(2) by auto
  consider (top) "n = Node w a k v gs" | (below) "n \<in> set (flat gs)" | (later) "n \<in> set (flat cs)"
    using "2.prems"(3) by auto
  then show ?case
  proof cases
    case top
    show ?thesis
    proof (cases "u = w")
      case True
      then show ?thesis using "2.prems"(1) top by auto
    next
      case False
      show ?thesis
      proof (cases "path_kids u gs")
        case None
        then have "path_kids u cs = Some p" using "2.prems"(1) False by simp
        then have "set p \<subseteq> set (uuids cs)" "u \<in> set (uuids cs)" using path_kids_set by blast+
        then show ?thesis using top False d by auto
      next
        case (Some q)
        then have "u \<in> set (uuids gs)" using path_kids_set by blast
        then show ?thesis using top "2.prems"(1) False Some by auto
      qed
    qed
  next
    case below
    note f = flat_uuid[OF below] flat_kids_uuids[OF below]
    show ?thesis
    proof (cases "u = w")
      case True
      then show ?thesis using "2.prems"(1) f d by auto
    next
      case False
      show ?thesis
      proof (cases "path_kids u gs")
        case None
        then have "path_kids u cs = Some p" using "2.prems"(1) False by simp
        then have "set p \<subseteq> set (uuids cs)" "u \<in> set (uuids cs)" using path_kids_set by blast+
        then show ?thesis using f d by blast
      next
        case (Some q)
        then have "p = w # q" using "2.prems"(1) False by simp
        then show ?thesis using "2.IH"(1)[OF False Some d(4) below] f d by auto
      qed
    qed
  next
    case later
    note f = flat_uuid[OF later] flat_kids_uuids[OF later]
    show ?thesis
    proof (cases "u = w")
      case True
      then show ?thesis using "2.prems"(1) f d by auto
    next
      case False
      show ?thesis
      proof (cases "path_kids u gs")
        case None
        then have "path_kids u cs = Some p" using "2.prems"(1) False by simp
        then show ?thesis using "2.IH"(2)[OF False None _ d(5) later] by blast
      next
        case (Some q)
        then have "set q \<subseteq> set (uuids gs)" "u \<in> set (uuids gs)" using path_kids_set by blast+
        moreover have "p = w # q" using "2.prems"(1) False Some by simp
        moreover have "u \<notin> set (uuids (kids n))" "uuid n \<noteq> w" "uuid n \<notin> set (uuids gs)" "uuid n \<noteq> u"
          using f d \<open>u \<in> set (uuids gs)\<close> by blast+
        ultimately show ?thesis by auto
      qed
    qed
  qed
qed simp

lemma locked_tokens:
  "\<forall>n \<in> set ns. 0 \<le> ref_count (attr n) \<Longrightarrow>
   sum_list (map protected_tokens (map (\<lambda>n. (uuid n, if P n then inc_ref (attr n) else attr n, nkey n, nvalue n)) ns)) =
   sum_list (map (\<lambda>n. protected_tokens (entry_of n)) ns) +
     sum_list (map (\<lambda>n. int (nlen n)) (filter (\<lambda>n. P n \<and> ref_count (attr n) = 0) ns))"
  by (induction ns) (auto simp: protected_tokens_def entry_of_def)

text \<open>C7: Locking a live handle succeeds and locks exactly the path to it: of the nodes at or above the handle's node the reference
  count goes up by one, no other node changes, and the tokens of those that were unlocked move from the evictable to the
  protected count; the contents stay, and the matching unlock gives back exactly the state before.\<close>

theorem lock_unlock_inverse:
  assumes "radix_inv s" "live_handle s h"
  shows "\<exists>s'. lock_handle s h False = Inr s' \<and> radix_inv s' \<and> cache_content s' = cache_content s \<and>
     ents (kids (root_node s')) =
       map (\<lambda>n. (uuid n, if on_path_of h n then (attr n)\<lparr>ref_count := ref_count (attr n) + 1\<rparr> else attr n,
              nkey n, nvalue n)) (flat (kids (root_node s))) \<and>
     protected_size s' = protected_size s +
       sum_list (map (\<lambda>n. int (nlen n))
         (filter (\<lambda>n. on_path_of h n \<and> ref_count (attr n) = 0) (flat (kids (root_node s))))) \<and>
     total_size (size_info s') = total_size (size_info s) \<and>
     lock_handle s' h True = Inr s"
proof -
  let ?ks = "kids (root_node s)"
  let ?new = "map (\<lambda>n. (uuid n, if on_path_of h n then inc_ref (attr n) else attr n, nkey n, nvalue n)) (flat ?ks)"
  obtain s' where s': "lock_handle s h False = Inr s'" "lock_handle s' h True = Inr s"
    using lock_unlock_ok[OF assms] by blast
  obtain p where p: "chain (hnode h) (root_node s) = Inr p"
    "hnode h \<noteq> uuid (root_node s) \<Longrightarrow> path_kids (hnode h) ?ks = Some (rev p)"
    "hnode h = uuid (root_node s) \<Longrightarrow> p = []"
    using live_chain[OF assms] by metis
  have l: "radix_inv s'" "cache_content s' = cache_content s" "kids (root_node s') = upd_set (set p) inc_ref ?ks"
    "evictable_size s' + protected_size s' = evictable_size s + protected_size s"
    using lock_handle_ok[OF assms] s'(1) p(1) by auto
  have d: "distinct (uuids ?ks)" "uuid (root_node s) \<notin> set (uuids ?ks)"
    using assms(1) by (auto simp: radix_inv_def tree_inv_def)
  have iff: "uuid n \<in> set p \<longleftrightarrow> on_path_of h n" if n: "n \<in> set (flat ?ks)" for n
  proof (cases "hnode h = uuid (root_node s)")
    case True
    have "hnode h \<notin> set (uuids ?ks)" using d(2) True by metis
    then have "hnode h \<notin> set (uuids (kids n))" "uuid n \<noteq> hnode h"
      using flat_uuid[OF n] flat_kids_uuids[OF n] by (blast, metis)
    then show ?thesis using p(3)[OF True] by (simp add: on_path_of_def)
  next
    case False
    then show ?thesis using path_kids_iff[OF p(2)[OF False] d(1) n] by (simp add: on_path_of_def)
  qed
  have e: "ents (kids (root_node s')) = ?new"
    unfolding l(3) ents_upd_set unfolding ents_flat
    by (simp add: comp_def entry_of_def iff)
  have nn: "\<forall>n \<in> set (flat ?ks). 0 \<le> ref_count (attr n)"
    using radix_inv_lock_inv[OF assms(1)] flat_entry by (fastforce simp: lock_inv_def entry_of_def)
  have "protected_size s' = sum_list (map protected_tokens ?new)"
    using l(1) e by (simp add: radix_inv_def esum_def)
  also have "\<dots> = sum_list (map (\<lambda>n. protected_tokens (entry_of n)) (flat ?ks)) +
      sum_list (map (\<lambda>n. int (nlen n)) (filter (\<lambda>n. on_path_of h n \<and> ref_count (attr n) = 0) (flat ?ks)))"
    by (rule locked_tokens[OF nn])
  also have "sum_list (map (\<lambda>n. protected_tokens (entry_of n)) (flat ?ks)) = protected_size s"
    using assms(1) by (simp add: radix_inv_def esum_def ents_flat comp_def)
  finally have "protected_size s' = protected_size s + sum_list (map (\<lambda>n. int (nlen n))
      (filter (\<lambda>n. on_path_of h n \<and> ref_count (attr n) = 0) (flat ?ks)))" .
  moreover have "total_size (size_info s') = total_size (size_info s)"
    using l(4) by (simp add: total_size_def size_info_def)
  ultimately show ?thesis using s' l(1,2) e by blast
qed

theorem lock_unlock_inverse_witness:
  "\<exists>s'. lock_handle demo_cache \<lparr>cached_len = 4, hnode = 3\<rparr> False = Inr s' \<and> radix_inv s' \<and>
     protected_size s' = protected_size demo_cache + 4 \<and>
     lock_handle s' \<lparr>cached_len = 4, hnode = 3\<rparr> True = Inr demo_cache"
proof -
  have l: "live_handle demo_cache \<lparr>cached_len = 4, hnode = 3\<rparr>" by (simp add: live_handle_def demo_cache_def)
  have "sum_list (map (\<lambda>n. int (nlen n)) (filter (\<lambda>n. on_path_of \<lparr>cached_len = 4, hnode = 3\<rparr> n \<and> ref_count (attr n) = 0)
      (flat (kids (root_node demo_cache))))) = 4" by code_simp
  then show ?thesis using lock_unlock_inverse[OF demo_cache_inv(1) l] by auto
qed

text \<open>C5: After any sequence of matches, insertions, evictions, locks of live handles and unlocks of
  held handles on a fresh cache: the invariant holds; unlocking a handle that is held never
  fails; the next operation, whatever it is, leaves the tokens and page indices of every held
  handle as they are; and with no lock held nothing is protected.\<close>

theorem radix_trace_safe:
  assumes "0 < ps" "radix_step\<^sup>*\<^sup>* (radix_init ps c now, []) (s, held)"
  shows "radix_inv s \<and>
     (\<forall>h \<in> set held. (\<exists>s'. lock_handle s h True = Inr s') \<and>
        (\<forall>s' held'. radix_step (s, held) (s', held') \<longrightarrow> handle_str s' h = handle_str s h)) \<and>
     (held = [] \<longrightarrow> protected_size s = 0)"
proof -
  have t: "trace_inv (s, held)" by (rule trace_reachable[OF assms(2) trace_init[OF assms(1)]])
  then have "radix_inv s" by (simp add: trace_inv_def)
  then show ?thesis
    using t held_holds_lock(1) unlock_handle_ok step_keeps_held no_locks_all_evictable by blast
qed

theorem radix_trace_safe_witness:
  "\<exists>s s'. radix_step\<^sup>*\<^sup>* (radix_init 2 0 0, []) (s, [\<lparr>cached_len = 4, hnode = 3\<rparr>]) \<and> radix_inv s \<and>
     lock_handle s \<lparr>cached_len = 4, hnode = 3\<rparr> True = Inr s'"
proof -
  let ?h = "\<lparr>cached_len = 4, hnode = 3\<rparr>"
  have live: "live_handle demo_cache ?h" by (simp add: live_handle_def demo_cache_def)
  obtain s where s: "lock_handle demo_cache ?h False = Inr s"
    using lock_handle_ok[OF demo_cache_inv(1) live] by blast
  obtain s1 l h1 where a: "insert_prefix 1 2 [5, 6, 7, 8] [0, 1, 2, 3] (radix_init 2 0 0) = Inr (s1, l, h1)"
    "insert_prefix 3 4 [5, 6, 9, 9, 4] [4, 5, 6, 7, 8] s1 = Inr (demo_cache, 2, ?h)"
    using demo_cache_built by (auto simp: rbind_eq_Inr)
  have "radix_step (radix_init 2 0 0, []) (s1, [])" by (rule radix_step.insert[OF _ a(1)]) simp
  moreover have "radix_step (s1, []) (demo_cache, [])" by (rule radix_step.insert[OF _ a(2)]) simp
  moreover have "radix_step (demo_cache, []) (s, [?h])" by (rule radix_step.lock[OF live s])
  ultimately have "radix_step\<^sup>*\<^sup>* (radix_init 2 0 0, []) (s, [?h])"
    by (meson converse_rtranclp_into_rtranclp rtranclp.rtrancl_refl)
  with radix_trace_safe[OF _ this] show ?thesis by auto
qed

end
