(* ===== verification/Radix_Refinement.thy ===== *)
theory Radix_Refinement
  imports Radix_Trace
begin

text \<open>
  An abstract specification of the prefix cache, and that \<^verbatim>\<open>RadixPrefixCache\<close> (\<^verbatim>\<open>kvcache/radix_cache.py\<close>) refines it: for its
  clients the tree is a finite map from page-aligned token prefixes to the slot of their last token, with the
  prefixes that are locked.
\<close>

section \<open>Page-aligned prefixes of a tree\<close>

definition page_entries :: "nat \<Rightarrow> (int list \<times> int) list \<Rightarrow> (int list \<times> int) list" where
  "page_entries ps es = filter (\<lambda>(p, v). ps dvd length p) es"

lemma page_entries_simps [simp]:
  "page_entries ps [] = []"
  "page_entries ps (xs @ ys) = page_entries ps xs @ page_entries ps ys"
  by (simp_all add: page_entries_def)

lemma set_page_entries [simp]: "(p, v) \<in> set (page_entries ps es) \<longleftrightarrow> (p, v) \<in> set es \<and> ps dvd length p"
  by (auto simp: page_entries_def)

lemma mset_page_entries: "mset (page_entries ps es) = filter_mset (\<lambda>(p, v). ps dvd length p) (mset es)"
  by (simp add: page_entries_def mset_filter)

lemma distinct_seg_keys: "distinct (map fst (seg pre k v))"
proof -
  have "map fst (seg pre k v) = map (\<lambda>i. pre @ take (Suc i) k) [0..<length k]" by (simp add: seg_def)
  moreover have "inj_on (\<lambda>i. pre @ take (Suc i) k) {0..<length k}"
  proof (rule inj_onI)
    fix i j assume "i \<in> {0..<length k}" "j \<in> {0..<length k}" "pre @ take (Suc i) k = pre @ take (Suc j) k"
    then have "length (take (Suc i) k) = length (take (Suc j) k)" "i < length k" "j < length k" by simp_all
    then show "i = j" by simp
  qed
  ultimately show ?thesis by (simp add: distinct_map)
qed

lemma distinct_filter_fst: "distinct (map fst xs) \<Longrightarrow> distinct (map fst (filter P xs))"
  by (simp add: distinct_map_filter)

text \<open>Two siblings differ in their first page, so a page-aligned prefix is filed once.\<close>

lemma distinct_page_keys:
  "wfk ps cs \<Longrightarrow> 0 < ps \<Longrightarrow> ps dvd length pre \<Longrightarrow> distinct (map fst (page_entries ps (content pre cs)))"
proof (induction pre cs rule: content.induct)
  case (2 pre u a k v gs cs)
  let ?n = "Node u a k v gs"
  let ?S = "fst ` set (page_entries ps (seg pre k v))"
  let ?G = "fst ` set (page_entries ps (content (pre @ k) gs))"
  let ?C = "fst ` set (page_entries ps (content pre cs))"
  have w: "wfk ps gs" "wfk ps cs" "ps dvd length k" "wfk ps [?n]" using "2.prems"(1) by simp_all
  have "distinct (map fst (page_entries ps (seg pre k v)))"
    using distinct_seg_keys unfolding page_entries_def by (rule distinct_filter_fst)
  moreover have "distinct (map fst (page_entries ps (content (pre @ k) gs)))"
    "distinct (map fst (page_entries ps (content pre cs)))"
    using "2.IH" "2.prems" w by simp_all
  moreover have "?S \<inter> ?G = {}"
  proof -
    have S: "length p \<le> length pre + length k" if "p \<in> ?S" for p using that by (auto simp: seg_def)
    have G: "length pre + length k < length p" if "p \<in> ?G" for p
      using that content_prefix[OF _ w(1), of p _ "pre @ k"] by fastforce
    have False if "p \<in> ?S" "p \<in> ?G" for p using S[OF that(1)] G[OF that(2)] by linarith
    then show ?thesis by blast
  qed
  moreover have "(?S \<union> ?G) \<inter> ?C = {}"
  proof -
    have False if p: "p \<in> ?S \<union> ?G" "p \<in> ?C" for p
    proof -
      obtain x where x: "(p, x) \<in> set (content pre cs)" "ps dvd length p" using p(2) by auto
      have "p \<in> fst ` set (content pre [?n])" using p(1) by (auto simp: image_iff)
      then obtain y where y: "(p, y) \<in> set (content pre [?n])" unfolding in_fst_image by blast
      obtain t where t: "p = pre @ t" "t \<noteq> []" using content_prefix[OF x(1) w(2)] by blast
      have "ps dvd length t" using x(2) t(1) "2.prems"(3) by (simp add: dvd_add_right_iff)
      then have pt: "ps \<le> length t" using t(2) by (simp add: dvd_imp_le)
      obtain n' where n': "n' \<in> set cs" "(p, x) \<in> set (content pre [n'])" using content_node[OF x(1)] by blast
      have "take ps t = page_key ps (nkey n')"
        by (rule content_single_page[OF n'(2)[unfolded t(1)] wfk_member[OF w(2) n'(1)] pt "2.prems"(2)])
      moreover have "take ps t = page_key ps (nkey ?n)"
        by (rule content_single_page[OF y[unfolded t(1)] w(4) pt "2.prems"(2)])
      ultimately show False using n'(1) "2.prems"(1) by auto
    qed
    then show ?thesis by blast
  qed
  ultimately show ?case by (simp add: Int_Un_distrib Int_Un_distrib2)
qed simp

lemma content_prefix_closed:
  "(p, v) \<in> set (content pre cs) \<Longrightarrow> wfk ps cs \<Longrightarrow> length pre < l \<Longrightarrow> l \<le> length p \<Longrightarrow>
     take l p \<in> fst ` set (content pre cs)"
proof (induction pre cs rule: content.induct)
  case (2 pre u a k v' gs cs)
  have w: "wfk ps gs" "wfk ps cs" "length v' = length k" using "2.prems"(2) by simp_all
  have seg: "pre @ take j k \<in> fst ` set (seg pre k v')" if j: "0 < j" "j \<le> length k" for j
  proof -
    obtain i where i: "j = Suc i" using gr0_implies_Suc[OF j(1)] by blast
    then have "(pre @ take j k, v' ! i) \<in> set (seg pre k v')"
      unfolding set_seg[OF w(3)] using \<open>j \<le> length k\<close> by auto
    then show ?thesis by (rule image_eqI[rotated]) simp
  qed
  consider "(p, v) \<in> set (seg pre k v')" | "(p, v) \<in> set (content (pre @ k) gs)" | "(p, v) \<in> set (content pre cs)"
    using "2.prems"(1) unfolding content.simps set_append Un_iff by blast
  then show ?case
  proof cases
    case 1
    then obtain i where i: "p = pre @ take (Suc i) k" "i < length k" by (auto simp: seg_def)
    moreover have "l - length pre \<le> Suc i" "length pre \<le> l"
      using "2.prems"(3,4) i by simp_all
    ultimately have "take l p = pre @ take (l - length pre) k" by (simp add: min_absorb1)
    moreover have "0 < l - length pre" "l - length pre \<le> length k"
      using "2.prems"(3,4) i by simp_all
    ultimately show ?thesis using seg by (simp add: image_Un)
  next
    case 2
    obtain t where t: "p = pre @ k @ t" using content_prefix[OF 2 w(1)] by (auto simp only: append_assoc)
    show ?thesis
    proof (cases "l \<le> length pre + length k")
      case True
      then have "take l p = pre @ take (l - length pre) k" using t "2.prems"(3) by simp
      then show ?thesis using seg[of "l - length pre"] "2.prems"(3) True by (simp add: image_Un)
    next
      case False
      then show ?thesis using "2.IH"(1)[OF 2 w(1) _ "2.prems"(4)] by (simp add: image_Un)
    qed
  next
    case 3
    then show ?thesis using "2.IH"(2)[OF 3 w(2) "2.prems"(3,4)] by (simp add: image_Un)
  qed
qed simp

text \<open>A node holds whole pages, so the tokens are the page size times the page-aligned prefixes.\<close>

lemma length_page_entries_seg:
  assumes "ps dvd length k" "ps dvd length pre" "0 < ps"
  shows "ps * length (page_entries ps (seg pre k v)) = length k"
proof -
  have c: "card {i. i < ps * m \<and> ps dvd Suc i} = m" for m
  proof -
    have "{i. i < ps * m \<and> ps dvd Suc i} = (\<lambda>j. ps * Suc j - 1) ` {..<m}" (is "?A = ?B")
    proof
      show "?A \<subseteq> ?B"
      proof
        fix i assume "i \<in> ?A"
        then obtain q where q: "Suc i = ps * q" "i < ps * m" by auto
        then obtain j where j: "q = Suc j" by (cases q) auto
        have "j < m"
        proof (rule ccontr)
          assume "\<not> j < m"
          then have "ps * m \<le> ps * j" by simp
          moreover have "ps * j + ps \<le> ps * m" using q j by simp
          ultimately show False using assms(3) by linarith
        qed
        then show "i \<in> ?B" using q(1) j by (intro image_eqI[of _ _ j]) simp_all
      qed
      show "?B \<subseteq> ?A"
      proof
        fix i assume "i \<in> ?B"
        then obtain j where j: "j < m" "i = ps * Suc j - 1" by blast
        then have "Suc i = ps * Suc j" using assms(3) by simp
        moreover have "ps * Suc j \<le> ps * m" using j(1) by (intro mult_le_mono2) simp
        ultimately show "i \<in> ?A" by (metis (mono_tags, lifting) Suc_le_lessD dvd_triv_left le_trans mem_Collect_eq order_refl)
      qed
    qed
    moreover have "inj_on (\<lambda>j. ps * Suc j - 1) {..<m}"
    proof (rule inj_onI)
      fix i j assume "ps * Suc i - 1 = ps * Suc j - 1"
      moreover have "0 < ps * Suc i" "0 < ps * Suc j" using assms(3) by simp_all
      ultimately have "ps * Suc i = ps * Suc j" by linarith
      then show "i = j" using assms(3) by simp
    qed
    ultimately show ?thesis by (simp add: card_image)
  qed
  obtain m where m: "length k = ps * m" using assms(1) by auto
  have "page_entries ps (seg pre k v) = map (\<lambda>i. (pre @ take (Suc i) k, v ! i)) (filter (\<lambda>i. ps dvd Suc i) [0..<length k])"
    unfolding page_entries_def seg_def filter_map comp_def
    by (intro arg_cong[of _ _ "map _"] filter_cong refl) (use assms(2) in \<open>simp add: dvd_add_right_iff min_absorb2 Suc_leI flip: add_Suc_right\<close>)
  then have "length (page_entries ps (seg pre k v)) = card {i. i < length k \<and> ps dvd Suc i}"
    by (simp add: length_filter_conv_card cong: conj_cong)
  then show ?thesis using c m by simp
qed

lemma length_page_entries:
  "wfk ps cs \<Longrightarrow> 0 < ps \<Longrightarrow> ps dvd length pre \<Longrightarrow> ps * length (page_entries ps (content pre cs)) = length (content pre cs)"
proof (induction pre cs rule: content.induct)
  case (2 pre u a k v gs cs)
  have "length (seg pre k v) = length k" by (simp add: seg_def)
  then show ?case using 2 length_page_entries_seg[of ps k pre v] by (simp add: distrib_left)
qed simp

section \<open>The abstraction\<close>

text \<open>The tree as a map from page-aligned prefixes to the slot of their last token, and the tokens a handle stands for.\<close>

definition prefix_map :: "radix \<Rightarrow> int list \<Rightarrow> int option" where
  "prefix_map s = map_of (page_entries (page_size s) (cache_content s))"

definition handle_tokens :: "radix \<Rightarrow> handle \<Rightarrow> int list" where
  "handle_tokens s h = (case handle_str s h of Some (p, vs) \<Rightarrow> p | None \<Rightarrow> [])"

lemma page_entries_distinct:
  assumes "radix_inv s"
  shows "distinct (map fst (page_entries (page_size s) (cache_content s)))"
proof -
  have "tree_inv (page_size s) (counter s) (root_node s)" using assms by (simp add: radix_inv_def)
  from tree_invD(2,1)[OF this] show ?thesis by (rule distinct_page_keys) simp
qed

lemma prefix_map_Some:
  "radix_inv s \<Longrightarrow> prefix_map s p = Some v \<longleftrightarrow> (p, v) \<in> set (cache_content s) \<and> page_size s dvd length p"
  unfolding prefix_map_def using map_of_eq_Some_iff[OF page_entries_distinct] set_page_entries by blast

lemma dom_prefix_map:
  "radix_inv s \<Longrightarrow> dom (prefix_map s) = {p \<in> fst ` set (cache_content s). page_size s dvd length p}"
  by (auto simp: dom_def prefix_map_Some image_iff Bex_def)

lemma card_prefix_map:
  assumes "radix_inv s"
  shows "page_size s * card (dom (prefix_map s)) = length (cache_content s)" "finite (dom (prefix_map s))"
proof -
  have t: "wfk (page_size s) (kids (root_node s))" "0 < page_size s" using assms by (auto simp: radix_inv_def dest: tree_invD)
  have d: "dom (prefix_map s) = set (map fst (page_entries (page_size s) (cache_content s)))"
    by (simp add: prefix_map_def dom_map_of_conv_image_fst)
  have "card (dom (prefix_map s)) = length (page_entries (page_size s) (cache_content s))"
    unfolding d using distinct_card[OF page_entries_distinct[OF assms]] by simp
  then show "page_size s * card (dom (prefix_map s)) = length (cache_content s)"
    using length_page_entries[OF t, of "[]"] by simp
  show "finite (dom (prefix_map s))" unfolding d by simp
qed

definition prefix_closed :: "nat \<Rightarrow> (int list \<Rightarrow> int option) \<Rightarrow> bool" where
  "prefix_closed ps M \<longleftrightarrow> (\<forall>p \<in> dom M. \<forall>l. 0 < l \<and> l \<le> length p \<and> ps dvd l \<longrightarrow> take l p \<in> dom M)"

lemma prefix_map_closed:
  assumes "radix_inv s"
  shows "prefix_closed (page_size s) (prefix_map s)"
  unfolding prefix_closed_def dom_prefix_map[OF assms]
proof (intro ballI allI impI CollectI conjI)
  fix p l assume p: "p \<in> {p \<in> fst ` set (cache_content s). page_size s dvd length p}"
    and l: "0 < l \<and> l \<le> length p \<and> page_size s dvd l"
  obtain v where v: "(p, v) \<in> set (cache_content s)" using p unfolding in_fst_image mem_Collect_eq by blast
  have w: "wfk (page_size s) (kids (root_node s))" using assms by (auto simp: radix_inv_def dest: tree_invD)
  show "take l p \<in> fst ` set (cache_content s)" using content_prefix_closed[OF v w] l by simp
  show "page_size s dvd length (take l p)" using l by (simp add: min_absorb2)
qed

lemma path_str_whole_pages: "path_str u cs = Some (t, r) \<Longrightarrow> wfk ps cs \<Longrightarrow> ps dvd length t"
  by (induction u cs arbitrary: t r rule: path_str.induct) (auto split: if_splits option.splits)

text \<open>The slots of a handle are those its prefixes are filed under.\<close>

lemma handle_str_map:
  assumes i: "radix_inv s" and h: "handle_str s h = Some (p, vs)"
  shows "page_size s dvd length p" "0 < l \<Longrightarrow> l \<le> length p \<Longrightarrow> page_size s dvd l \<Longrightarrow> prefix_map s (take l p) = Some (vs ! (l - 1))"
proof -
  have w: "wfk (page_size s) (kids (root_node s))" using i by (auto simp: radix_inv_def dest: tree_invD)
  show "page_size s dvd length p"
    using h path_str_whole_pages[OF _ w] by (auto simp: handle_str_def split: if_splits)
  assume l: "0 < l" "l \<le> length p" "page_size s dvd l"
  then have "p \<noteq> []" by auto
  then have "path_str (hnode h) (kids (root_node s)) = Some (p, vs)"
    using h by (auto simp: handle_str_def split: if_splits)
  from path_str_content[OF this w, of "l - 1" "[]"] l
  have "(take l p, vs ! (l - 1)) \<in> set (cache_content s)" by simp
  then show "prefix_map s (take l p) = Some (vs ! (l - 1))"
    using l by (simp add: prefix_map_Some[OF i] min_absorb2)
qed

section \<open>What an eviction takes out\<close>

lemma evict_loop_content:
  assumes "radix_inv s" "set heap = unlocked_leaves (kids (root_node s))" "distinct heap"
    "int sz \<le> int n + evictable_size s" "evict_loop sz s heap ev n = Inr (s', ev')"
  shows "\<exists>R e. mset (cache_content s) = mset (cache_content s') + R \<and> ev' = ev @ e \<and> image_mset snd R = mset e"
  using assms
proof (induction "length (ents (kids (root_node s)))" arbitrary: s heap ev n rule: less_induct)
  case less
  let ?cs = "kids (root_node s)"
  show ?case
  proof (cases "n < sz")
    case False
    then have "s' = s" "ev' = ev" using less.prems(5) by (simp_all add: evict_loop.simps)
    then show ?thesis by (intro exI[of _ "{#}"] exI[of _ "[]"]) simp
  next
    case True
    obtain x s1 heap1 where x: "x \<in> set (flat ?cs)" "kids x = []" "ref_count (attr x) = 0"
      and s1: "s1 = s\<lparr>evictable_size := evictable_size s - int (nlen x), root_node := unlink (uuid x) (root_node s)\<rparr>"
      and h1: "set heap1 = unlocked_leaves (kids (root_node s1))" "distinct heap1"
      and step: "evict_loop sz s heap ev n = evict_loop sz s1 heap1 (ev @ nvalue x) (n + nlen x)"
      using evict_round[OF less.prems(1-3) True less.prems(4)] by metis
    note R = unlink_round[OF less.prems(1) x refl, folded s1]
    have t: "wfk (page_size s) ?cs" "distinct (uuids ?cs)"
      using less.prems(1) unfolding radix_inv_def by (blast dest: tree_invD)+
    have leaf: "leaf_at (uuid x) ?cs"
      using find_kids_unique[OF t(2) x(1)] find_kids_unique[OF t(2)] x(2) unfolding leaf_at_def by (metis option.inject)
    have e: "(uuid x, attr x, nkey x, nvalue x) \<in> set (ents ?cs)"
      using flat_entry[OF x(1)] by (simp add: entry_of_def)
    obtain q where q: "mset (content [] ?cs) = mset (content [] (del_kids (uuid x) ?cs)) + mset (seg q (nkey x) (nvalue x))"
      using mset_content_del_kids[OF t(2) leaf e] by blast
    have sv: "image_mset snd (mset (seg q (nkey x) (nvalue x))) = mset (nvalue x)"
      using seg_values[of "nvalue x" "nkey x" q] R(6) by (simp flip: mset_map)
    have c1: "mset (cache_content s) = mset (cache_content s1) + mset (seg q (nkey x) (nvalue x))"
      using q by (simp add: s1 unlink_def)
    have less1: "length (ents (kids (root_node s1))) < length (ents ?cs)"
      using unlink_decreases[OF R(2,3)] by (simp add: s1)
    have more: "int sz \<le> int (n + nlen x) + evictable_size s1" using less.prems(4) by (simp add: s1)
    obtain R' e' where r: "mset (cache_content s1) = mset (cache_content s') + R'" "ev' = (ev @ nvalue x) @ e'"
      "image_mset snd R' = mset e'"
      using less.hyps[OF less1 R(1) h1 more, of "ev @ nvalue x"] less.prems(5) step by metis
    show ?thesis
      using c1 r sv by (intro exI[of _ "mset (seg q (nkey x) (nvalue x)) + R'"] exI[of _ "nvalue x @ e'"])
        (simp add: ac_simps)
  qed
qed

lemma evict_content:
  assumes i: "radix_inv s" and m: "evict n s = Inr (s', ev)"
  obtains R where "mset (cache_content s) = mset (cache_content s') + R" "image_mset snd R = mset ev"
proof (cases "n = 0")
  case True
  then show ?thesis using m that[of "{#}"] by (simp add: evict_def)
next
  case False
  have t: "tree_inv (page_size s) (counter s) (root_node s)" using i by (simp add: radix_inv_def)
  obtain R e where "mset (cache_content s) = mset (cache_content s') + R" "ev = [] @ e" "image_mset snd R = mset e"
    using evict_loop_content[OF i collect_leave_nodes[OF t], of n 0 "[]" s' ev] m False
    by (auto simp: evict_def py_assert_eq_Inr)
  then show ?thesis using that by simp
qed

section \<open>Simulation\<close>

text \<open>Runs of a labelled step relation, and forward simulation under an abstraction function.\<close>

inductive run :: "('s \<Rightarrow> 'e \<Rightarrow> 's \<Rightarrow> bool) \<Rightarrow> 's \<Rightarrow> 'e list \<Rightarrow> 's \<Rightarrow> bool" for step where
  run_Nil: "run step x [] x"
| run_Cons: "step x e y \<Longrightarrow> run step y es z \<Longrightarrow> run step x (e # es) z"

locale simulation =
  fixes cstep :: "'c \<Rightarrow> 'e \<Rightarrow> 'c \<Rightarrow> bool" and astep :: "'a \<Rightarrow> 'e \<Rightarrow> 'a \<Rightarrow> bool"
    and abst :: "'c \<Rightarrow> 'a" and inv :: "'c \<Rightarrow> bool"
  assumes simulates: "inv x \<Longrightarrow> cstep x e y \<Longrightarrow> astep (abst x) e (abst y)"
    and keeps_inv: "inv x \<Longrightarrow> cstep x e y \<Longrightarrow> inv y"
begin

lemma run_keeps: "run cstep x es y \<Longrightarrow> inv x \<Longrightarrow> inv y"
  by (induction rule: run.induct) (auto intro: keeps_inv)

lemma run_refines: "run cstep x es y \<Longrightarrow> inv x \<Longrightarrow> run astep (abst x) es (abst y)"
proof (induction rule: run.induct)
  case (run_Cons x e y es z)
  from run_Cons.IH[OF keeps_inv[OF run_Cons.prems run_Cons.hyps(1)]]
  show ?case by (rule run.run_Cons[where step = astep, OF simulates[OF run_Cons.prems run_Cons.hyps(1)]])
qed (rule run_Nil)

end

section \<open>The specification: a locked prefix map\<close>

text \<open>
  What a client sees of an operation: the tokens it passes and what it gets back. A match returns slots; an insertion takes tokens
  and slots and returns how many tokens were already there; an eviction takes a number and returns slots.
\<close>

datatype event =
    Match "int list" "int list"
  | Insert "int list" "int list" nat
  | Lock "int list"
  | Unlock "int list"
  | Evict nat "int list"

text \<open>The state: the map, and the prefixes that are locked, each as often as it is.\<close>

type_synonym store = "(int list \<Rightarrow> int option) \<times> int list multiset"

definition store_insert :: "nat \<Rightarrow> int list \<Rightarrow> int list \<Rightarrow> nat \<Rightarrow> (int list \<Rightarrow> int option) \<Rightarrow> int list \<Rightarrow> int option" where
  "store_insert ps ids idx l M =
     (\<lambda>p. if ps dvd length p \<and> l < length p \<and> length p \<le> length ids \<and> p = take (length p) ids
          then Some (idx ! (length p - 1)) else M p)"

text \<open>The first \<open>l\<close> tokens of \<open>ids\<close> are the longest page-aligned prefix the map holds.\<close>

definition longest_in :: "nat \<Rightarrow> (int list \<Rightarrow> int option) \<Rightarrow> int list \<Rightarrow> nat \<Rightarrow> bool" where
  "longest_in ps M ids l \<longleftrightarrow> l \<le> length ids \<and> ps dvd l \<and>
     (\<forall>j. 0 < j \<and> j \<le> l \<and> ps dvd j \<longrightarrow> take j ids \<in> dom M) \<and>
     (l + ps \<le> length ids \<longrightarrow> take (l + ps) ids \<notin> dom M)"

inductive store_step :: "nat \<Rightarrow> store \<Rightarrow> event \<Rightarrow> store \<Rightarrow> bool" for ps where
  match: "longest_in ps M ids (length vs) \<Longrightarrow>
     (\<And>j. 0 < j \<Longrightarrow> j \<le> length vs \<Longrightarrow> ps dvd j \<Longrightarrow> M (take j ids) = Some (vs ! (j - 1))) \<Longrightarrow>
     store_step ps (M, H) (Match ids vs) (M, H)"
| insert: "longest_in ps M (take (align_down (length ids) ps) ids) l \<Longrightarrow> length idx = length ids \<Longrightarrow>
     store_step ps (M, H) (Insert ids idx l) (store_insert ps ids idx l M, H)"
| lock: "p = [] \<or> p \<in> dom M \<Longrightarrow> store_step ps (M, H) (Lock p) (M, add_mset p H)"
| unlock: "p \<in># H \<Longrightarrow> store_step ps (M, H) (Unlock p) (M, H - {#p#})"
| evict: "M' \<subseteq>\<^sub>m M \<Longrightarrow> prefix_closed ps M' \<Longrightarrow> (\<forall>p \<in># H. p = [] \<or> p \<in> dom M') \<Longrightarrow>
     n \<le> length ev \<Longrightarrow> length ev = ps * card (dom M - dom M') \<Longrightarrow>
     (\<forall>p \<in> dom M - dom M'. the (M p) \<in> set ev) \<Longrightarrow>
     store_step ps (M, H) (Evict n ev) (M', H)"

text \<open>The same view of the radix cache and of the handles its client holds locked.\<close>

definition matched_slots :: "radix \<Rightarrow> handle \<Rightarrow> int list result" where
  "matched_slots s h = (if cached_len h = 0 then Inr [] else get_matched_indices s h)"

inductive cache_step :: "radix \<times> handle list \<Rightarrow> event \<Rightarrow> radix \<times> handle list \<Rightarrow> bool" where
  match: "match_prefix tic ids s = Inr (s', h) \<Longrightarrow> matched_slots s' h = Inr vs \<Longrightarrow>
     cache_step (s, held) (Match ids vs) (s', held)"
| insert: "length idx = length ids \<Longrightarrow> insert_prefix tic now ids idx s = Inr (s', l, h) \<Longrightarrow>
     cache_step (s, held) (Insert ids idx l) (s', held)"
| lock: "live_handle s h \<Longrightarrow> lock_handle s h False = Inr s' \<Longrightarrow>
     cache_step (s, held) (Lock (handle_tokens s h)) (s', h # held)"
| unlock: "h \<in> set held \<Longrightarrow> lock_handle s h True = Inr s' \<Longrightarrow>
     cache_step (s, held) (Unlock (handle_tokens s h)) (s', remove1 h held)"
| evict: "evict n s = Inr (s', ev) \<Longrightarrow> cache_step (s, held) (Evict n ev) (s', held)"

definition abs_store :: "radix \<times> handle list \<Rightarrow> store" where
  "abs_store = (\<lambda>(s, held). (prefix_map s, mset (map (handle_tokens s) held)))"

lemma cache_step_radix: "cache_step x e y \<Longrightarrow> radix_step x y"
  by (induction rule: cache_step.induct) (auto intro: radix_step.intros)

lemma tokens_stable:
  assumes t: "trace_inv (s, held)" and st: "radix_step (s, held) (s', held')"
  shows "map (handle_tokens s') held = map (handle_tokens s) held"
  using step_keeps_held[OF t st] by (simp add: handle_tokens_def)

lemma prefix_map_content: "page_size s' = page_size s \<Longrightarrow> cache_content s' = cache_content s \<Longrightarrow> prefix_map s' = prefix_map s"
  by (simp add: prefix_map_def)

lemma longest_match_in:
  assumes i: "radix_inv s" and m: "longest_match s ids l vs"
  shows "longest_in (page_size s) (prefix_map s) ids l"
    "0 < j \<Longrightarrow> j \<le> l \<Longrightarrow> page_size s dvd j \<Longrightarrow> prefix_map s (take j ids) = Some (vs ! (j - 1))"
proof -
  have M: "l \<le> length ids" "page_size s dvd l" "\<forall>i < l. (take (Suc i) ids, vs ! i) \<in> set (cache_content s)"
    "l + page_size s \<le> length ids \<longrightarrow> take (l + page_size s) ids \<notin> fst ` set (cache_content s)"
    using m by (simp_all add: longest_match_def)
  have v: "prefix_map s (take j ids) = Some (vs ! (j - 1))" if j: "0 < j" "j \<le> l" "page_size s dvd j" for j
  proof -
    have "j - 1 < l" "Suc (j - 1) = j" using j by simp_all
    then have "(take j ids, vs ! (j - 1)) \<in> set (cache_content s)" using M(3) by metis
    then show ?thesis using j M(1) by (simp add: prefix_map_Some[OF i] min_absorb2)
  qed
  then show "0 < j \<Longrightarrow> j \<le> l \<Longrightarrow> page_size s dvd j \<Longrightarrow> prefix_map s (take j ids) = Some (vs ! (j - 1))" .
  show "longest_in (page_size s) (prefix_map s) ids l"
    unfolding longest_in_def using M(1,2,4) v dom_prefix_map[OF i] by blast
qed

lemma insert_longest:
  assumes i: "radix_inv s" and m: "insert_prefix tic now ids idx s = Inr (s', l, h)"
  shows "longest_in (page_size s) (prefix_map s) (take (align_down (length ids) (page_size s)) ids) l"
proof -
  let ?ids = "take (align_down (length ids) (page_size s)) ids"
  obtain s2 h2 vs where w: "match_prefix tic ?ids s = Inr (s2, h2)" "longest_match s ?ids (cached_len h2) vs"
    using match_prefix_correct[OF i, of tic ?ids] by blast
  have "cached_len h2 = l"
    using w(1) m unfolding match_prefix_def insert_prefix_def Let_def
    by (auto simp: rbind_eq_Inr py_assert_eq_Inr split: if_splits)
  then show ?thesis using longest_match_in(1)[OF i w(2)] by simp
qed

section \<open>Every operation is an abstract step\<close>

lemma new_segment:
  assumes "l \<le> n" "n \<le> length ids" "length idx = length ids"
  shows "(p, v) \<in> set (seg (take l ids) (slice l n ids) (slice l n idx)) \<longleftrightarrow>
     (\<exists>j. l < j \<and> j \<le> n \<and> p = take j ids \<and> v = idx ! (j - 1))"
proof -
  have len: "length (slice l n ids) = n - l" "length (slice l n idx) = n - l" using assms by (simp_all add: slice_def)
  have t: "take l ids @ take (Suc i) (slice l n ids) = take (l + Suc i) ids" if "i < n - l" for i
  proof -
    have "take (Suc i) (slice l n ids) = drop l (take (l + Suc i) ids)"
      using that by (simp add: slice_def take_drop min_def add.commute)
    moreover have "take l ids = take l (take (l + Suc i) ids)" by simp
    ultimately show ?thesis by (metis append_take_drop_id)
  qed
  have s: "slice l n idx ! i = idx ! (l + i)" if "i < n - l" for i
    using that assms by (simp add: slice_def)
  show ?thesis
  proof
    assume "(p, v) \<in> set (seg (take l ids) (slice l n ids) (slice l n idx))"
    then obtain i where i: "i < n - l" "p = take l ids @ take (Suc i) (slice l n ids)" "v = slice l n idx ! i"
      unfolding seg_def using len by auto
    then have "p = take (l + Suc i) ids" "v = idx ! (l + Suc i - 1)" using t s by simp_all
    then show "\<exists>j. l < j \<and> j \<le> n \<and> p = take j ids \<and> v = idx ! (j - 1)"
      using i(1) by (intro exI[of _ "l + Suc i"]) simp
  next
    assume "\<exists>j. l < j \<and> j \<le> n \<and> p = take j ids \<and> v = idx ! (j - 1)"
    then obtain j where j: "l < j" "j \<le> n" "p = take j ids" "v = idx ! (j - 1)" by blast
    then obtain i where i: "j = l + Suc i" using less_iff_Suc_add[of l j] by auto
    have "i < n - l" using i j(2) by simp
    then show "(p, v) \<in> set (seg (take l ids) (slice l n ids) (slice l n idx))"
      unfolding seg_def set_map using t[of i] s[of i] j i len by (intro image_eqI[of _ _ i]) simp_all
  qed
qed

lemma insert_prefix_map:
  assumes i: "radix_inv s" and len: "length idx = length ids"
    and m: "insert_prefix tic now ids idx s = Inr (s', l, h)"
  shows "prefix_map s' = store_insert (page_size s) ids idx l (prefix_map s)"
proof
  fix p
  define n where "n = insert_len s ids"
  have I: "radix_inv s'" "page_size s' = page_size s" "l \<le> n"
    "mset (cache_content s') = mset (cache_content s) + mset (seg (take l ids) (slice l n ids) (slice l n idx))"
    using insert_prefix_correct[OF i len, of tic now] m unfolding n_def by auto
  have n: "n \<le> length ids" by (simp add: n_def insert_len_def align_down_le)
  have c: "(p, v) \<in> set (cache_content s') \<longleftrightarrow> (p, v) \<in> set (cache_content s) \<or> (\<exists>j. l < j \<and> j \<le> n \<and> p = take j ids \<and> v = idx ! (j - 1))" for v
    using arg_cong[OF I(4), of "\<lambda>M. (p, v) \<in># M"] new_segment[OF I(3) n len, of p v] by simp
  show "prefix_map s' p = store_insert (page_size s) ids idx l (prefix_map s) p"
  proof (cases "page_size s dvd length p \<and> l < length p \<and> length p \<le> length ids \<and> p = take (length p) ids")
    case True
    have "length p \<le> n" using True by (simp add: n_def insert_len_def align_down_ge)
    then have "prefix_map s' p = Some (idx ! (length p - 1))"
      unfolding prefix_map_Some[OF I(1)] c I(2) using True by blast
    then show ?thesis using True by (simp add: store_insert_def)
  next
    case False
    then have "prefix_map s' p = Some v \<longleftrightarrow> prefix_map s p = Some v" for v
      unfolding prefix_map_Some[OF I(1)] prefix_map_Some[OF i] c I(2) using n by (auto simp: min_absorb2)
    then have "prefix_map s' p = prefix_map s p" by (metis not_None_eq)
    then show ?thesis unfolding store_insert_def if_not_P[OF False] .
  qed
qed

lemma handle_tokens_in:
  assumes i: "radix_inv s" and live: "live_handle s h"
  shows "handle_tokens s h = [] \<or> handle_tokens s h \<in> dom (prefix_map s)"
proof -
  obtain p vs where h: "handle_str s h = Some (p, vs)" using handle_str_live[OF i] live by fastforce
  show ?thesis
    using handle_str_map(2)[OF i h, of "length p"] handle_str_map(1)[OF i h] h by (cases "p = []") (auto simp: handle_tokens_def)
qed

lemma evict_prefix_map:
  assumes i: "radix_inv s" and m: "evict n s = Inr (s', ev)"
  shows "radix_inv s'" "prefix_map s' \<subseteq>\<^sub>m prefix_map s" "n \<le> length ev"
    "length ev = page_size s * card (dom (prefix_map s) - dom (prefix_map s'))"
    "\<forall>p \<in> dom (prefix_map s) - dom (prefix_map s'). the (prefix_map s p) \<in> set ev" "page_size s' = page_size s"
proof -
  have n: "int n \<le> evictable_size s"
    using m size_info_values(2)[OF i] by (auto simp: evict_def py_assert_eq_Inr split: if_splits)
  show I: "radix_inv s'" "page_size s' = page_size s" "n \<le> length ev" using evict_ok[OF i n] m by auto
  obtain R where R: "mset (cache_content s) = mset (cache_content s') + R" "image_mset snd R = mset ev"
    using evict_content[OF i m] by blast
  have mem: "(p, v) \<in> set (cache_content s) \<longleftrightarrow> (p, v) \<in> set (cache_content s') \<or> (p, v) \<in># R" for p v
    using arg_cong[OF R(1), of "\<lambda>M. (p, v) \<in># M"] by simp
  show sub: "prefix_map s' \<subseteq>\<^sub>m prefix_map s"
    unfolding map_le_def using prefix_map_Some[OF I(1)] prefix_map_Some[OF i] mem I(2) by (metis domD)
  have "length (cache_content s) = length (cache_content s') + length ev"
    using arg_cong[OF R(1), of size] arg_cong[OF R(2), of size] by simp
  moreover have "dom (prefix_map s') \<subseteq> dom (prefix_map s)" using map_le_implies_dom_le[OF sub] .
  ultimately show "length ev = page_size s * card (dom (prefix_map s) - dom (prefix_map s'))"
    using card_prefix_map[OF i] card_prefix_map[OF I(1)] I(2)
    by (simp add: card_Diff_subset diff_mult_distrib2)
  show "\<forall>p \<in> dom (prefix_map s) - dom (prefix_map s'). the (prefix_map s p) \<in> set ev"
  proof
    fix p assume p: "p \<in> dom (prefix_map s) - dom (prefix_map s')"
    then obtain v where v: "prefix_map s p = Some v" by blast
    then have "(p, v) \<in> set (cache_content s)" "page_size s dvd length p" using prefix_map_Some[OF i] by simp_all
    moreover have "(p, v) \<notin> set (cache_content s')"
      using p prefix_map_Some[OF I(1), of p v] I(2) \<open>page_size s dvd length p\<close> by auto
    ultimately have "(p, v) \<in># R" using mem by blast
    then have "v \<in># image_mset snd R" by force
    then show "the (prefix_map s p) \<in> set ev" using R(2) v by simp
  qed
qed

lemma lock_facts:
  assumes "radix_inv s" "live_handle s h" "lock_handle s h False = Inr s'"
  shows "page_size s' = page_size s" "cache_content s' = cache_content s"
  using lock_handle_ok[OF assms(1,2)] assms(3) by (elim exE conjE, simp)+

lemma unlock_facts:
  assumes "radix_inv s" "holds_lock s h" "lock_handle s h True = Inr s'"
  shows "page_size s' = page_size s" "cache_content s' = cache_content s"
  using unlock_handle_ok[OF assms(1,2)] assms(3) by (elim exE conjE, simp)+

lemma cache_step_page_size:
  assumes "trace_inv (s, held)" "cache_step (s, held) e (s', held')"
  shows "page_size s' = page_size s"
proof -
  have i: "radix_inv s" using assms(1) by (simp add: trace_inv_def)
  from assms(2) show ?thesis
  proof (cases rule: cache_step.cases)
    case (match tic ids h vs)
    then show ?thesis using match_prefix_correct[OF i, of tic ids] by auto
  next
    case (insert idx ids tic now l h)
    then show ?thesis using insert_prefix_correct[OF i insert(3), of tic now] insert by auto
  next
    case (lock h)
    then show ?thesis using lock_facts(1)[OF i] by blast
  next
    case (unlock h)
    then show ?thesis using unlock_facts(1)[OF i held_holds_lock(1)[OF assms(1)]] by blast
  next
    case (evict n ev)
    then show ?thesis using evict_prefix_map(6)[OF i] by blast
  qed
qed


lemma cache_step_refines:
  assumes t: "trace_inv (s, held)" and st: "cache_step (s, held) e (s', held')"
  shows "store_step (page_size s) (abs_store (s, held)) e (abs_store (s', held'))"
proof -
  have i: "radix_inv s" using t by (simp add: trace_inv_def)
  have keep: "mset (map (handle_tokens s') held) = mset (map (handle_tokens s) held)"
    by (simp only: tokens_stable[OF t cache_step_radix[OF st]])
  from st show ?thesis
  proof (cases rule: cache_step.cases)
    case (match tic ids h vs)
    obtain ws where w: "radix_inv s'" "page_size s' = page_size s" "cache_content s' = cache_content s"
      "handle_str s' h = Some (take (cached_len h) ids, ws)" "longest_match s ids (cached_len h) ws"
      using match_prefix_correct[OF i, of tic ids] match(3) by auto
    have l: "length ws = cached_len h" "cached_len h \<le> length ids" using w(5) by (simp_all add: longest_match_def)
    have "vs = ws"
      using match(4) handle_str_indices(1)[OF w(1,4)] l by (auto simp: matched_slots_def split: if_splits)
    then show ?thesis
      using store_step.match[of "page_size s" "prefix_map s" ids vs "mset (map (handle_tokens s) held)"]
        longest_match_in[OF i w(5)] l prefix_map_content[OF w(2,3)] keep match(1,2)
      by (simp add: abs_store_def)
  next
    case (insert idx ids tic now l h)
    show ?thesis
      using store_step.insert[OF insert_longest[OF i insert(4)] insert(3)] insert_prefix_map[OF i insert(3,4)] keep insert(1,2)
      by (simp add: abs_store_def)
  next
    case (lock h)
    have "prefix_map s' = prefix_map s" using lock_facts[OF i lock(3,4)] by (rule prefix_map_content)
    moreover have "handle_tokens s' h = handle_tokens s h"
      using lock_keeps_handle[OF i _ lock(4), of h] lock(3) by (simp add: handle_tokens_def)
    ultimately show ?thesis
      using store_step.lock[OF handle_tokens_in[OF i lock(3)]] keep lock(1,2) by (simp add: abs_store_def)
  next
    case (unlock h)
    have "prefix_map s' = prefix_map s"
      using unlock_facts[OF i held_holds_lock(1)[OF t unlock(3)] unlock(4)] by (rule prefix_map_content)
    moreover have "image_mset (handle_tokens s') (mset (remove1 h held)) = image_mset (handle_tokens s) (mset held) - {#handle_tokens s h#}"
    proof -
      have "handle_tokens s' h = handle_tokens s h"
        using step_keeps_held[OF t cache_step_radix[OF st] unlock(3)] by (simp add: handle_tokens_def)
      then show ?thesis using keep unlock(3) by (simp add: image_mset_Diff)
    qed
    moreover have "handle_tokens s h \<in># image_mset (handle_tokens s) (mset held)" using unlock(3) by simp
    ultimately show ?thesis
      using store_step.unlock[of "handle_tokens s h" "image_mset (handle_tokens s) (mset held)" "page_size s" "prefix_map s"] unlock(1,2)
      by (simp add: abs_store_def)
  next
    case (evict n ev)
    note E = evict_prefix_map[OF i evict(3)]
    have "trace_inv (s', held)" by (rule trace_evict[OF t evict(3)])
    then have "\<forall>p \<in># mset (map (handle_tokens s') held). p = [] \<or> p \<in> dom (prefix_map s')"
      using handle_tokens_in[OF E(1)] by (auto simp: trace_inv_def)
    then have "\<forall>p \<in># mset (map (handle_tokens s) held). p = [] \<or> p \<in> dom (prefix_map s')"
      unfolding keep[symmetric] using evict(2) by simp
    then show ?thesis
      using store_step.evict[OF E(2) _ _ E(3,4,5), of "mset (map (handle_tokens s) held)"] prefix_map_closed[OF E(1)] E(6) keep evict(1,2)
      by (simp add: abs_store_def)
  qed
qed

section \<open>Refinement\<close>

text \<open>The invariant of a run: that of a client's trace, at a page size that no operation changes.\<close>

definition sim_inv :: "nat \<Rightarrow> radix \<times> handle list \<Rightarrow> bool" where
  "sim_inv ps = (\<lambda>(s, held). trace_inv (s, held) \<and> page_size s = ps)"

interpretation rc: simulation cache_step "store_step ps" abs_store "sim_inv ps" for ps
proof
  fix x e y assume x: "sim_inv ps x" "cache_step x e y"
  obtain s held s' held' where xy: "x = (s, held)" "y = (s', held')" by (cases x; cases y) auto
  have t: "trace_inv (s, held)" "page_size s = ps" using x(1) xy by (simp_all add: sim_inv_def)
  note st = x(2)[unfolded xy]
  show "store_step ps (abs_store x) e (abs_store y)" using cache_step_refines[OF t(1) st] t(2) xy by simp
  show "sim_inv ps y"
    using cache_step_page_size[OF t(1) st] trace_step[OF cache_step_radix[OF st] t(1)] t(2) xy by (simp add: sim_inv_def)
qed

lemma sim_inv_init: "0 < ps \<Longrightarrow> sim_inv ps (radix_init ps c now, [])"
  using trace_init[of ps c now] by (simp add: sim_inv_def) (simp add: radix_init_def)

lemma abs_store_init: "abs_store (radix_init ps c now, []) = (Map.empty, {#})"
  by (simp add: abs_store_def prefix_map_def radix_init_def)

text \<open>C39: \<^verbatim>\<open>RadixPrefixCache\<close> refines a locked prefix map: whatever matches, insertions, locks, unlocks of held handles and
  evictions a client runs on a fresh cache, the same operations with the same answers are a run of the abstract store, and
  at every point the tree is exactly the map: page-aligned prefixes with the slots of their last tokens, one per page.\<close>

theorem radix_refines_prefix_map:
  assumes "0 < ps" "run cache_step (radix_init ps c now, []) es (s, held)"
  shows "run (store_step ps) (Map.empty, {#}) es (prefix_map s, mset (map (handle_tokens s) held)) \<and>
     int (ps * card (dom (prefix_map s))) = total_size (size_info s) \<and>
     (\<forall>ids tic. \<exists>s' h. match_prefix tic ids s = Inr (s', h) \<and> longest_in ps (prefix_map s) ids (cached_len h))"
proof -
  note r = rc.run_refines[OF assms(2) sim_inv_init[OF assms(1)]]
  have "sim_inv ps (s, held)" by (rule rc.run_keeps[OF assms(2) sim_inv_init[OF assms(1)]])
  then have i: "radix_inv s" "page_size s = ps" by (simp_all add: sim_inv_def trace_inv_def)
  have "\<exists>s' h. match_prefix tic ids s = Inr (s', h) \<and> longest_in ps (prefix_map s) ids (cached_len h)" for ids tic
    using match_prefix_correct[OF i(1), of tic ids] longest_match_in(1)[OF i(1)] i(2) by blast
  then show ?thesis
    using r card_prefix_map(1)[OF i(1)] size_info_values(1)[OF i(1)] i(2)
    by (simp add: abs_store_init) (simp add: abs_store_def)
qed

theorem radix_refines_prefix_map_witness:
  "run cache_step (radix_init 2 0 0, [])
     [Insert [5, 6, 7, 8] [0, 1, 2, 3] 0, Insert [5, 6, 9, 9, 4] [4, 5, 6, 7, 8] 2] (demo_cache, []) \<and>
   run (store_step 2) (Map.empty, {#})
     [Insert [5, 6, 7, 8] [0, 1, 2, 3] 0, Insert [5, 6, 9, 9, 4] [4, 5, 6, 7, 8] 2] (prefix_map demo_cache, {#}) \<and>
   prefix_map demo_cache [5, 6] = Some 1 \<and> prefix_map demo_cache [5, 6, 9, 9] = Some 7"
proof -
  obtain s1 h1 h where a: "insert_prefix 1 2 [5, 6, 7, 8] [0, 1, 2, 3] (radix_init 2 0 0) = Inr (s1, 0, h1)"
    "insert_prefix 3 4 [5, 6, 9, 9, 4] [4, 5, 6, 7, 8] s1 = Inr (demo_cache, 2, h)"
  proof -
    have "insert_prefix 1 2 [5, 6, 7, 8] [0, 1, 2, 3] (radix_init 2 0 0) = Inr
      (\<lparr>page_size = 2, evictable_size = 4, protected_size = 0,
        root_node = Node 0 ((fresh_attr 0 0)\<lparr>ref_count := 1\<rparr>) [] [] [Node 1 (fresh_attr 0 2) [5, 6, 7, 8] [0, 1, 2, 3] []],
        counter = 2\<rparr>, 0, \<lparr>cached_len = 4, hnode = 1\<rparr>)" by code_simp
    then show thesis using that demo_cache_built by (auto simp: rbind_eq_Inr)
  qed
  have r: "run cache_step (radix_init 2 0 0, [])
     [Insert [5, 6, 7, 8] [0, 1, 2, 3] 0, Insert [5, 6, 9, 9, 4] [4, 5, 6, 7, 8] 2] (demo_cache, [])"
  proof (rule run_Cons)
    show "cache_step (radix_init 2 0 0, []) (Insert [5, 6, 7, 8] [0, 1, 2, 3] 0) (s1, [])"
      by (rule cache_step.insert[OF _ a(1)]) simp
    show "run cache_step (s1, []) [Insert [5, 6, 9, 9, 4] [4, 5, 6, 7, 8] 2] (demo_cache, [])"
    proof (rule run_Cons)
      show "cache_step (s1, []) (Insert [5, 6, 9, 9, 4] [4, 5, 6, 7, 8] 2) (demo_cache, [])"
        by (rule cache_step.insert[OF _ a(2)]) simp
    qed (rule run_Nil)
  qed
  have "prefix_map demo_cache [5, 6] = Some 1 \<and> prefix_map demo_cache [5, 6, 9, 9] = Some 7"
    unfolding prefix_map_def by code_simp
  then show ?thesis using r radix_refines_prefix_map[OF _ r] by simp
qed

end
