(* ===== verification/Cache_Budget.thy ===== *)
theory Cache_Budget
  imports Prelude
begin

text \<open>
  The memory budget policy of \<^verbatim>\<open>engine/cache_budget.py\<close>: how the expert cache is split into size
  classes, the commit ladder of the expert arena and its inverse, the joint arena of several
  classes, and the split of a byte budget between expert slots and KV pages. Everything is
  integer arithmetic in the code, and \<open>int\<close> here. Tensors enter through their shape and
  element size only. The product of the float \<^verbatim>\<open>memory_ratio\<close> with a byte count, truncated to an
  integer, is the parameter \<open>scale\<close>.
\<close>

section \<open>Slot bytes and size classes\<close>

record tensor =
  shape :: "nat list"
  element_size :: nat

text \<open>\<^verbatim>\<open>t[0].numel()\<close>\<close>

definition row_numel :: "tensor \<Rightarrow> int result" where
  "row_numel t = (case shape t of [] \<Rightarrow> Inl IndexError
     | n # ns \<Rightarrow> if n = 0 then Inl IndexError else Inr (int (prod_list ns)))"

definition tensor_row_bytes :: "tensor \<Rightarrow> int result" where
  "tensor_row_bytes t = rbind (row_numel t) (\<lambda>n. Inr (n * int (element_size t)))"

definition expert_bytes_per_slot :: "tensor list list \<Rightarrow> int result" where
  "expert_bytes_per_slot sources =
     rbind (rmap (\<lambda>bank. rbind (py_nth bank 0) tensor_row_bytes) sources) (\<lambda>bs. Inr (sum_list bs))"

definition expert_slot_signatures :: "tensor list list \<Rightarrow> int list list result" where
  "expert_slot_signatures banks =
     (case banks of [] \<Rightarrow> Inr []
      | bank0 # _ \<Rightarrow>
          py_assert (\<forall>bank \<in> set banks. length bank = length bank0)
            (rmap (\<lambda>layer. rmap (\<lambda>bank. rbind (py_nth bank layer) tensor_row_bytes) banks)
               [0..<length bank0]))"

text \<open>\<^verbatim>\<open>for i in range(k): capacities[i % len(capacities)] += 1\<close>, with \<open>i\<close> the loop variable.\<close>

fun round_robin :: "nat \<Rightarrow> nat \<Rightarrow> int list \<Rightarrow> int list result" where
  "round_robin 0 i caps = Inr caps"
| "round_robin (Suc k) i caps =
     (if caps = [] then Inl ZeroDivisionError
      else let j = i mod length caps in round_robin k (Suc i) (caps[j := caps ! j + 1]))"

definition gguf_class_capacities :: "int \<Rightarrow> int list \<Rightarrow> int \<Rightarrow> int \<Rightarrow> int list result" where
  "gguf_class_capacities usable layer_counts num_layers num_experts =
     (let remaining = usable - int (length layer_counts) * num_experts
      in if num_layers = 0 \<and> layer_counts \<noteq> [] then Inl ZeroDivisionError
         else let capacities = map (\<lambda>count. num_experts + remaining * count div num_layers) layer_counts
              in round_robin (nat (usable - sum_list capacities)) 0 capacities)"

text \<open>\<^verbatim>\<open>tuple(dict.fromkeys(xs))\<close>: the distinct elements in order of first occurrence.\<close>

definition dict_fromkeys :: "'a list \<Rightarrow> 'a list" where
  "dict_fromkeys xs = rev (remdups (rev xs))"

definition max_slot_bytes :: "int list list \<Rightarrow> int result" where
  "max_slot_bytes uniq =
     rbind (rmap (\<lambda>i. rbind (rmap (\<lambda>sig. py_nth sig i) uniq) (\<lambda>bs. Inr (Max (set bs))))
        [0..<length (hd uniq)]) (\<lambda>ms. Inr (sum_list ms))"

definition expert_cache_bytes :: "int \<Rightarrow> int list list \<Rightarrow> int \<Rightarrow> bool \<Rightarrow> int \<Rightarrow> int result" where
  "expert_cache_bytes cache_size signatures num_experts prefill_overlap fallback_per_expert_bytes =
     (let uniq = dict_fromkeys signatures
      in if length uniq \<le> 1 then Inr (cache_size * fallback_per_expert_bytes)
         else let reserve = (if prefill_overlap then 2 * num_experts else 0);
                  usable = cache_size - reserve
              in if usable < int (length uniq) * num_experts then Inl ValueError
                 else rbind (gguf_class_capacities usable (map (\<lambda>sig. int (count_list signatures sig)) uniq)
                        (int (length signatures)) num_experts) (\<lambda>capacities.
                      rbind (max_slot_bytes uniq) (\<lambda>m.
                      Inr (reserve * m + sum_list (map2 (\<lambda>capacity sig. capacity * sum_list sig) capacities uniq)))))"

section \<open>The commit ladder of one arena\<close>

text \<open>The loop of \<^verbatim>\<open>_arena_chunk_boundaries\<close>; the function asserts a positive step first.\<close>

function chunk_loop :: "int \<Rightarrow> int \<Rightarrow> int \<Rightarrow> int list" where
  "chunk_loop b step_slots capacity =
     (if 0 < step_slots \<and> b < capacity then b # chunk_loop (min (b + step_slots) capacity) step_slots capacity
      else [b])"
  by pat_completeness auto
termination by (relation "measure (\<lambda>(b, step, cap). nat (cap - b))") auto

declare chunk_loop.simps [simp del]

definition arena_chunk_boundaries :: "int \<Rightarrow> int \<Rightarrow> int list result" where
  "arena_chunk_boundaries capacity step_slots =
     py_assert (0 < step_slots) (Inr (chunk_loop 0 step_slots capacity))"

text \<open>\<^verbatim>\<open>granule\<close> is 2 MiB by default; the divisor is positive.\<close>

definition arena_bytes_for_usable :: "int \<Rightarrow> int \<Rightarrow> int \<Rightarrow> int list \<Rightarrow> int \<Rightarrow> int result" where
  "arena_bytes_for_usable usable_slots capacity step_slots bank_row_bytes granule =
     py_assert (0 \<le> usable_slots \<and> usable_slots \<le> capacity) (py_assert (0 < step_slots)
       (if usable_slots = 0 then Inr 0
        else let boundary = min (div_ceil usable_slots step_slots * step_slots) capacity
             in Inr (sum_list (map (\<lambda>row_bytes. div_ceil (boundary * row_bytes) granule * granule)
                                bank_row_bytes))))"

fun best_loop :: "(int \<Rightarrow> int result) \<Rightarrow> int \<Rightarrow> int \<Rightarrow> int list \<Rightarrow> int \<Rightarrow> int result" where
  "best_loop bytes_at tot target [] best = Inr best"
| "best_loop bytes_at tot target (u # us) best =
     rbind (bytes_at u) (\<lambda>b. best_loop bytes_at tot target us
       (if tot - b \<ge> target then max best u else best))"

definition usable_for_target_free_bytes :: "int \<Rightarrow> int \<Rightarrow> int \<Rightarrow> int list \<Rightarrow> int \<Rightarrow> int result" where
  "usable_for_target_free_bytes target_free_bytes capacity step_slots bank_row_bytes granule =
     rbind (arena_bytes_for_usable capacity capacity step_slots bank_row_bytes granule) (\<lambda>total_bytes.
     rbind (arena_chunk_boundaries capacity step_slots) (\<lambda>boundaries.
       best_loop (\<lambda>u. arena_bytes_for_usable u capacity step_slots bank_row_bytes granule)
         total_bytes target_free_bytes boundaries 0))"

section \<open>The joint arena of several size classes\<close>

fun joint_values :: "int \<Rightarrow> int list \<Rightarrow> int list \<Rightarrow> int set \<Rightarrow> int set result" where
  "joint_values begin_c (capacity # caps) (step # steps) values =
     rbind (arena_chunk_boundaries capacity step) (\<lambda>locals.
       joint_values (begin_c + capacity) caps steps (values \<union> (\<lambda>l. begin_c + l) ` set locals))"
| "joint_values begin_c _ _ values = Inr (insert begin_c values)"

definition joint_arena_boundaries :: "int list \<Rightarrow> int list \<Rightarrow> int list result" where
  "joint_arena_boundaries class_capacities class_step_slots =
     py_assert (length class_capacities = length class_step_slots)
       (rbind (joint_values 0 class_capacities class_step_slots {0}) (\<lambda>values.
          Inr (sorted_list_of_set values)))"

fun joint_bytes :: "int \<Rightarrow> int \<Rightarrow> int list \<Rightarrow> int list \<Rightarrow> int list list \<Rightarrow> int \<Rightarrow> int \<Rightarrow> int result" where
  "joint_bytes usable begin_c (capacity # caps) (step # steps) (row_bytes # rows) granule tot =
     (let local = min (max (usable - begin_c) 0) capacity
      in rbind (arena_bytes_for_usable local capacity step row_bytes granule) (\<lambda>b.
           joint_bytes usable (begin_c + capacity) caps steps rows granule (tot + b)))"
| "joint_bytes usable begin_c _ _ _ granule tot = Inr tot"

definition joint_arena_bytes_for_usable ::
  "int \<Rightarrow> int list \<Rightarrow> int list \<Rightarrow> int list list \<Rightarrow> int \<Rightarrow> int result" where
  "joint_arena_bytes_for_usable usable class_capacities class_step_slots class_bank_row_bytes granule =
     py_assert (length class_capacities = length class_step_slots \<and>
                length class_step_slots = length class_bank_row_bytes)
       (joint_bytes usable 0 class_capacities class_step_slots class_bank_row_bytes granule 0)"

definition joint_arena_floor :: "int list \<Rightarrow> int list \<Rightarrow> int result" where
  "joint_arena_floor class_capacities class_floors =
     py_assert (length class_capacities = length class_floors)
       (Inr (if class_capacities = [] then 0 else sum_list (butlast class_capacities) + last class_floors))"

text \<open>The binary search of \<^verbatim>\<open>plan_joint_arena_usable\<close>: \<open>fits n\<close> is the test of the loop.\<close>

function joint_search :: "(int \<Rightarrow> bool result) \<Rightarrow> int list \<Rightarrow> int \<Rightarrow> int \<Rightarrow> int \<Rightarrow> int result" where
  "joint_search fits candidates lo hi best =
     (if \<not> lo \<le> hi then Inr best
      else let mid = (lo + hi) div 2; n = candidates ! nat mid
           in case fits n of Inl e \<Rightarrow> Inl e
              | Inr True \<Rightarrow> joint_search fits candidates (mid + 1) hi n
              | Inr False \<Rightarrow> joint_search fits candidates lo (mid - 1) best)"
  by pat_completeness auto
termination by (relation "measure (\<lambda>(f, cs, lo, hi, b). nat (hi + 1 - lo))") auto

declare joint_search.simps [simp del]

definition plan_joint_arena_usable ::
  "int \<Rightarrow> int \<Rightarrow> int list \<Rightarrow> int list \<Rightarrow> int list list \<Rightarrow> int list \<Rightarrow> int result" where
  "plan_joint_arena_usable budget_bytes kv_bytes class_capacities class_step_slots class_bank_row_bytes class_floors =
     rbind (joint_arena_boundaries class_capacities class_step_slots) (\<lambda>boundaries.
     rbind (joint_arena_floor class_capacities class_floors) (\<lambda>flr.
       let candidates = filter (\<lambda>b. b \<ge> flr) boundaries;
           bytes_at = (\<lambda>n. joint_arena_bytes_for_usable n class_capacities class_step_slots
                              class_bank_row_bytes (2 * 1024 * 1024))
       in if candidates = [] then Inl ValueError
          else rbind (bytes_at (hd candidates)) (\<lambda>b0.
            if b0 + kv_bytes > budget_bytes then Inl ValueError
            else joint_search (\<lambda>n. rbind (bytes_at n) (\<lambda>b. Inr (b + kv_bytes \<le> budget_bytes)))
                   candidates 0 (int (length candidates) - 1) (hd candidates))))"

definition joint_usable_for_target_free_bytes ::
  "int \<Rightarrow> int list \<Rightarrow> int list \<Rightarrow> int list list \<Rightarrow> int \<Rightarrow> int result" where
  "joint_usable_for_target_free_bytes target_free_bytes class_capacities class_step_slots class_bank_row_bytes granule =
     rbind (joint_arena_boundaries class_capacities class_step_slots) (\<lambda>boundaries.
     rbind (joint_arena_bytes_for_usable (last boundaries) class_capacities class_step_slots
              class_bank_row_bytes granule) (\<lambda>total_bytes.
       best_loop (\<lambda>u. joint_arena_bytes_for_usable u class_capacities class_step_slots class_bank_row_bytes granule)
         total_bytes target_free_bytes boundaries 0))"

section \<open>The split of a byte budget\<close>

definition net_cache_budget_bytes :: "(int \<Rightarrow> int) \<Rightarrow> int \<Rightarrow> int \<Rightarrow> int \<Rightarrow> int \<Rightarrow> int" where
  "net_cache_budget_bytes scale baseline_free weights_bytes fixed_cache_size reserve_bytes =
     scale baseline_free - weights_bytes - fixed_cache_size - reserve_bytes"

definition required_bytes :: "int \<Rightarrow> int \<Rightarrow> int \<Rightarrow> int \<Rightarrow> int" where
  "required_bytes moe_cache_size num_pages per_expert_bytes cache_per_page =
     moe_cache_size * per_expert_bytes + num_pages * cache_per_page"

function size_search :: "(int \<Rightarrow> bool result) \<Rightarrow> int \<Rightarrow> int \<Rightarrow> int result" where
  "size_search fits low high =
     (if \<not> low < high then Inr low
      else let mid = (low + high + 1) div 2
           in case fits mid of Inl e \<Rightarrow> Inl e
              | Inr True \<Rightarrow> size_search fits mid high
              | Inr False \<Rightarrow> size_search fits low (mid - 1))"
  by pat_completeness auto
termination by (relation "measure (\<lambda>(f, lo, hi). nat (hi - lo))") auto

declare size_search.simps [simp del]

definition plan_cache_budget ::
  "int \<Rightarrow> int \<Rightarrow> int \<Rightarrow> int \<Rightarrow> int \<Rightarrow> bool \<Rightarrow> int \<Rightarrow> int \<Rightarrow> int list list \<Rightarrow> (int \<times> int \<times> bool) result" where
  "plan_cache_budget budget_bytes per_expert_bytes cache_per_page num_experts total_experts
       prefill_overlap kv_reserve_pages max_slots signatures =
     py_assert (0 < per_expert_bytes) (py_assert (0 < cache_per_page)
       (let hi = min total_experts max_slots;
            overlap0 = (prefill_overlap \<and> hi \<ge> 2 * num_experts);
            unique_signatures = dict_fromkeys signatures;
            lo = (if length unique_signatures > 1
                  then (if overlap0 then 2 * num_experts else 0) + int (length unique_signatures) * num_experts
                  else if overlap0 then 2 * num_experts else num_experts)
        in py_assert (hi \<ge> lo)
          (let cache_bytes = (\<lambda>overlap size. expert_cache_bytes size signatures num_experts overlap per_expert_bytes);
               available_for_experts = budget_bytes - kv_reserve_pages * cache_per_page
           in rbind (if length unique_signatures > 1
                     then size_search (\<lambda>mid. rbind (cache_bytes overlap0 mid) (\<lambda>b. Inr (b \<le> available_for_experts))) lo hi
                     else Inr (max lo (min (available_for_experts div per_expert_bytes) hi))) (\<lambda>moe_cache_size.
              let overlap = (overlap0 \<and> moe_cache_size \<ge> 2 * num_experts)
              in rbind (cache_bytes overlap moe_cache_size) (\<lambda>moe_bytes.
                 let num_pages = max ((budget_bytes - moe_bytes) div cache_per_page) kv_reserve_pages
                 in py_assert (moe_bytes + num_pages * cache_per_page \<le> budget_bytes)
                      (py_assert (num_pages > 1) (Inr (moe_cache_size, num_pages, overlap))))))))"

definition resolve_moe_cache_auto ::
  "(int \<Rightarrow> int) \<Rightarrow> int \<Rightarrow> int \<Rightarrow> int \<Rightarrow> int \<Rightarrow> int \<Rightarrow> int \<Rightarrow> int \<Rightarrow> bool \<Rightarrow> int \<Rightarrow> int \<Rightarrow> string \<Rightarrow>
   int list list \<Rightarrow> int option \<Rightarrow> int \<Rightarrow> (int \<times> int \<times> bool) result" where
  "resolve_moe_cache_auto scale baseline_free weights_bytes cache_per_page fixed_cache_size per_expert_bytes
       num_experts total_experts prefill_overlap kv_reserve_tokens page_size quant_format signatures max_slots
       reserve_bytes =
     (let budget_bytes = net_cache_budget_bytes scale baseline_free weights_bytes fixed_cache_size reserve_bytes;
          max_slots1 = (if max_slots = None \<and> quant_format = ''nvfp4_marlin'' then Some 992 else max_slots);
          max_slots2 = (case max_slots1 of None \<Rightarrow> total_experts | Some m \<Rightarrow> min m total_experts)
      in if page_size = 0 then Inl ZeroDivisionError
         else plan_cache_budget budget_bytes per_expert_bytes cache_per_page num_experts total_experts
                prefill_overlap (div_ceil kv_reserve_tokens page_size) max_slots2 signatures)"

section \<open>Size classes\<close>

lemma sum_list_update_int: "j < length xs \<Longrightarrow> sum_list (xs[j := x]) = sum_list xs - xs ! j + (x :: int)"
proof (induction xs arbitrary: j)
  case (Cons y xs)
  then show ?case by (cases j) auto
qed simp

lemma round_robin_ok:
  "caps \<noteq> [] \<Longrightarrow> \<exists>caps'. round_robin k i caps = Inr caps' \<and> length caps' = length caps \<and>
     sum_list caps' = sum_list caps + int k \<and> (\<forall>j < length caps. caps ! j \<le> caps' ! j)"
proof (induction k arbitrary: i caps)
  case (Suc k)
  define j where "j = i mod length caps"
  have j: "j < length caps" using Suc.prems by (simp add: j_def)
  define c1 where "c1 = caps[j := caps ! j + 1]"
  have "c1 \<noteq> []" using Suc.prems by (simp add: c1_def)
  from Suc.IH[OF this, of "Suc i"] obtain caps' where c: "round_robin k (Suc i) c1 = Inr caps'"
    "length caps' = length c1" "sum_list caps' = sum_list c1 + int k" "\<forall>j < length c1. c1 ! j \<le> caps' ! j" by blast
  have "sum_list c1 = sum_list caps + 1" using j by (simp add: c1_def sum_list_update_int)
  moreover have "caps ! m \<le> c1 ! m" if "m < length caps" for m using that j by (simp add: c1_def nth_list_update)
  ultimately show ?case using c Suc.prems order_trans by (fastforce simp: c1_def j_def Let_def)
qed simp

lemma sum_div_le:
  assumes "0 < (L::int)"
  shows "sum_list (map (\<lambda>c. r * c div L) cs) * L \<le> r * sum_list cs"
proof (induction cs)
  case (Cons c cs)
  have "r * c div L * L \<le> r * c" using assms by (metis minus_mod_eq_div_mult pos_mod_sign diff_le_self
        le_add_same_cancel1 diff_ge_0_iff_ge diff_diff_eq2 add_diff_cancel_left')
  with Cons show ?case by (simp add: algebra_simps)
qed simp

lemma gguf_class_capacities_ok:
  assumes "cs \<noteq> []" "\<forall>c \<in> set cs. 0 \<le> c" "sum_list cs \<le> L" "0 < L" "int (length cs) * E \<le> usable"
  shows "\<exists>caps. gguf_class_capacities usable cs L E = Inr caps \<and> length caps = length cs \<and>
     sum_list caps = usable \<and> (\<forall>c \<in> set caps. E \<le> c)"
proof -
  define r where "r = usable - int (length cs) * E"
  define c0 where "c0 = map (\<lambda>c. E + r * c div L) cs"
  have r0: "0 \<le> r" using assms(5) by (simp add: r_def)
  have "sum_list (map (\<lambda>c. r * c div L) cs) * L \<le> r * L"
    using sum_div_le[OF assms(4), of r cs] mult_left_mono[OF assms(3) r0] by linarith
  then have "sum_list (map (\<lambda>c. r * c div L) cs) \<le> r" using assms(4) by simp
  moreover have "sum_list c0 = int (length cs) * E + sum_list (map (\<lambda>c. r * c div L) cs)"
    by (simp add: c0_def sum_list_addf sum_list_triv)
  ultimately have le: "sum_list c0 \<le> usable" by (simp add: r_def)
  have ge: "E \<le> c0 ! j" if "j < length cs" for j
  proof -
    have "0 \<le> r * (cs ! j)" using r0 assms(2) nth_mem[OF that] by simp
    then show ?thesis using that assms(4) by (simp add: c0_def pos_imp_zdiv_nonneg_iff)
  qed
  have "c0 \<noteq> []" using assms(1) by (simp add: c0_def)
  from round_robin_ok[OF this, of "nat (usable - sum_list c0)" 0] obtain caps where
    c: "round_robin (nat (usable - sum_list c0)) 0 c0 = Inr caps" "length caps = length c0"
    "sum_list caps = usable" "\<forall>j < length c0. c0 ! j \<le> caps ! j" using le by auto
  have "E \<le> c" if "c \<in> set caps" for c
    using that c(2,4) ge by (fastforce simp: in_set_conv_nth c0_def)
  then show ?thesis using c assms(4) by (simp add: gguf_class_capacities_def Let_def r_def c0_def)
qed

section \<open>The commit ladder\<close>

lemma chunk_loop_set:
  "0 < step \<Longrightarrow> b \<le> cap \<Longrightarrow> set (chunk_loop b step cap) = {x. b \<le> x \<and> x \<le> cap \<and> (step dvd x - b \<or> x = cap)}"
proof (induction b step cap rule: chunk_loop.induct)
  case (1 b step cap)
  show ?case
  proof (cases "b < cap")
    case False
    then show ?thesis using "1.prems" by (auto simp: chunk_loop.simps)
  next
    case True
    let ?b = "min (b + step) cap"
    have "set (chunk_loop b step cap) = insert b (set (chunk_loop ?b step cap))"
      using True "1.prems" by (subst chunk_loop.simps) simp
    also have "set (chunk_loop ?b step cap) = {x. ?b \<le> x \<and> x \<le> cap \<and> (step dvd x - ?b \<or> x = cap)}"
      using "1.IH" True "1.prems" by simp
    also have "insert b \<dots> = {x. b \<le> x \<and> x \<le> cap \<and> (step dvd x - b \<or> x = cap)}"
    proof (cases "b + step \<le> cap")
      case True
      have "step dvd x - (b + step) \<longleftrightarrow> step dvd x - b" for x
      proof -
        have "x - b = (x - (b + step)) + step" by simp
        then show ?thesis using dvd_add_triv_right_iff[of step "x - (b + step)"] by (simp only:)
      qed
      moreover have "b + step \<le> x" if "step dvd x - b" "b < x" for x
        using zdvd_imp_le[OF that(1)] that(2) by simp
      ultimately show ?thesis using True "1.prems" \<open>b < cap\<close> by (auto simp: min_def)
    next
      case False
      have "x = b \<or> x = cap" if "step dvd x - b" "b \<le> x" "x \<le> cap" for x
        using zdvd_imp_le[OF that(1)] that(2,3) False by linarith
      then show ?thesis using False "1.prems" \<open>b < cap\<close> by (auto simp: min_def)
    qed
    finally show ?thesis .
  qed
qed

definition arena_bytes :: "int \<Rightarrow> int \<Rightarrow> int \<Rightarrow> int list \<Rightarrow> int \<Rightarrow> int" where
  "arena_bytes u cap step rows g =
     (if u = 0 then 0 else sum_list (map (\<lambda>r. align_ceil (min (align_ceil u step) cap * r) g) rows))"

lemma arena_bytes_for_usable_ok:
  "0 \<le> u \<Longrightarrow> u \<le> cap \<Longrightarrow> 0 < step \<Longrightarrow> arena_bytes_for_usable u cap step rows g = Inr (arena_bytes u cap step rows g)"
  by (simp add: arena_bytes_for_usable_def arena_bytes_def align_ceil_def Let_def)

lemma sum_list_map_mono: "(\<And>x. x \<in> set xs \<Longrightarrow> f x \<le> g x) \<Longrightarrow> sum_list (map f xs) \<le> sum_list (map g xs :: int list)"
  by (induction xs) (auto intro: add_mono)

lemma arena_bytes_nonneg:
  assumes "0 \<le> u" "u \<le> cap" "0 < step" "0 < g" "\<forall>r \<in> set rows. 0 \<le> r"
  shows "0 \<le> arena_bytes u cap step rows g"
proof -
  have "0 \<le> min (align_ceil u step) cap" using align_ceil_int(1)[OF assms(3), of u] assms(1,2) by auto
  then have "0 \<le> align_ceil (min (align_ceil u step) cap * r) g" if "r \<in> set rows" for r
    using align_ceil_int(1)[OF assms(4), of "min (align_ceil u step) cap * r"] assms(5) that
    by (meson mult_nonneg_nonneg order_trans)
  then show ?thesis unfolding arena_bytes_def by (auto intro!: sum_list_nonneg_int)
qed

lemma arena_bytes_mono:
  assumes "0 \<le> u" "u \<le> w" "w \<le> cap" "0 < step" "0 < g" "\<forall>r \<in> set rows. 0 \<le> r"
  shows "arena_bytes u cap step rows g \<le> arena_bytes w cap step rows g"
proof (cases "u = 0")
  case True
  then show ?thesis using arena_bytes_nonneg[of w] assms by (simp add: arena_bytes_def)
next
  case False
  have "min (align_ceil u step) cap \<le> min (align_ceil w step) cap"
    using align_ceil_mono_int[OF assms(4,2)] by auto
  then show ?thesis using False assms
    by (auto simp: arena_bytes_def intro!: sum_list_map_mono align_ceil_mono_int mult_right_mono)
qed

text \<open>The mapped bytes cover every usable slot and exceed the ladder's boundary by less than a
  granule per bank.\<close>

lemma arena_bytes_cover:
  assumes "0 \<le> u" "u \<le> cap" "0 < step" "0 < g" "\<forall>r \<in> set rows. 0 \<le> r"
  shows "u * sum_list rows \<le> arena_bytes u cap step rows g"
    "arena_bytes u cap step rows g \<le> min (u + step) cap * sum_list rows + int (length rows) * g"
proof -
  define b where "b = min (align_ceil u step) cap"
  have b: "u \<le> b" "b \<le> min (u + step) cap" "0 \<le> b"
    using align_ceil_int[OF assms(3), of u] assms(1,2) by (auto simp: b_def)
  have "u * sum_list rows = sum_list (map (\<lambda>r. u * r) rows)" by (simp add: sum_list_const_mult)
  also have "\<dots> \<le> sum_list (map (\<lambda>r. align_ceil (b * r) g) rows)"
  proof (rule sum_list_map_mono)
    fix r assume r: "r \<in> set rows"
    then have "u * r \<le> b * r" using b(1) assms(5) by (intro mult_right_mono) auto
    then show "u * r \<le> align_ceil (b * r) g" using align_ceil_int(1)[OF assms(4), of "b * r"] by linarith
  qed
  finally show "u * sum_list rows \<le> arena_bytes u cap step rows g"
    using b assms(1) by (cases "u = 0") (auto simp: arena_bytes_def b_def)
  have "sum_list (map (\<lambda>r. align_ceil (b * r) g) rows) \<le> sum_list (map (\<lambda>r. min (u + step) cap * r + g) rows)"
  proof (rule sum_list_map_mono)
    fix r assume r: "r \<in> set rows"
    then have "b * r \<le> min (u + step) cap * r" using b(2) assms(5) by (intro mult_right_mono) auto
    then show "align_ceil (b * r) g \<le> min (u + step) cap * r + g"
      using align_ceil_int(2)[OF assms(4), of "b * r"] by linarith
  qed
  also have "\<dots> = min (u + step) cap * sum_list rows + int (length rows) * g"
    by (simp add: sum_list_addf sum_list_const_mult sum_list_triv)
  finally have "sum_list (map (\<lambda>r. align_ceil (b * r) g) rows) \<le> min (u + step) cap * sum_list rows + int (length rows) * g" .
  moreover have "0 \<le> min (u + step) cap * sum_list rows + int (length rows) * g"
    using b assms(4,5) by (intro add_nonneg_nonneg mult_nonneg_nonneg sum_list_nonneg) auto
  ultimately show "arena_bytes u cap step rows g \<le> min (u + step) cap * sum_list rows + int (length rows) * g"
    by (auto simp: arena_bytes_def b_def)
qed

lemma best_loop_ok:
  assumes "\<forall>u \<in> set us. f u = Inr (b u)"
  shows "\<exists>r. best_loop f tot target us best = Inr r \<and> best \<le> r \<and>
     (r = best \<or> r \<in> set us \<and> target \<le> tot - b r) \<and> (\<forall>u \<in> set us. target \<le> tot - b u \<longrightarrow> u \<le> r)"
  using assms
proof (induction us arbitrary: best)
  case (Cons u us)
  define best1 where "best1 = (if target \<le> tot - b u then max best u else best)"
  obtain r where r: "best_loop f tot target us best1 = Inr r" "best1 \<le> r"
    "r = best1 \<or> r \<in> set us \<and> target \<le> tot - b r" "\<forall>u \<in> set us. target \<le> tot - b u \<longrightarrow> u \<le> r"
    using Cons.IH[of best1] Cons.prems by auto
  then show ?case using Cons.prems by (intro exI[of _ r]) (auto simp: best1_def max_def split: if_splits)
qed simp

lemma chunk_boundaries_ok:
  assumes "0 < step" "0 \<le> cap"
  shows "arena_chunk_boundaries cap step = Inr (chunk_loop 0 step cap)"
    "set (chunk_loop 0 step cap) = {x. 0 \<le> x \<and> x \<le> cap \<and> (step dvd x \<or> x = cap)}"
  using chunk_loop_set[OF assms] assms by (simp_all add: arena_chunk_boundaries_def)

lemma align_ceil_mult:
  assumes "0 < (b::int)"
  shows "align_ceil (q * b) b = q * b"
proof -
  have "(q * b + b - 1) div b = ((b - 1) + q * b) div b" by (simp add: algebra_simps)
  also have "\<dots> = q + (b - 1) div b" using assms by (subst div_mult_self1) auto
  also have "(b - 1) div b = 0" using assms by (simp add: div_pos_pos_trivial)
  finally show ?thesis by (simp add: align_ceil_def div_ceil_def)
qed

text \<open>A usable count and the boundary above it map the same bytes.\<close>

lemma arena_bytes_boundary:
  assumes "0 < u" "u \<le> cap" "0 < step"
  shows "arena_bytes (min (align_ceil u step) cap) cap step rows g = arena_bytes u cap step rows g"
proof -
  define b where "b = min (align_ceil u step) cap"
  have a: "u \<le> align_ceil u step" using align_ceil_int(1)[OF assms(3)] .
  then have b0: "0 < b" using assms by (auto simp: b_def)
  have idem: "align_ceil (align_ceil u step) step = align_ceil u step"
    using align_ceil_mult[OF assms(3)] unfolding align_ceil_def[of u] by simp
  have "min (align_ceil b step) cap = b"
  proof (cases "align_ceil u step \<le> cap")
    case True
    then show ?thesis by (simp add: b_def idem)
  next
    case False
    then have "b = cap" by (simp add: b_def)
    then show ?thesis using align_ceil_int(1)[OF assms(3), of cap] by simp
  qed
  then show ?thesis using b0 assms(1) unfolding b_def[symmetric] arena_bytes_def by simp
qed

lemma usable_for_target_ok:
  assumes "0 < step" "0 \<le> cap" "0 < g" "\<forall>r \<in> set rows. 0 \<le> r"
  defines "freed \<equiv> \<lambda>u. arena_bytes cap cap step rows g - arena_bytes u cap step rows g"
  defines "bs \<equiv> {x. 0 \<le> x \<and> x \<le> cap \<and> (step dvd x \<or> x = cap)}"
  shows "\<exists>r. usable_for_target_free_bytes target cap step rows g = Inr r \<and> r \<in> bs \<and>
     (if target \<le> freed 0 then target \<le> freed r \<and> (\<forall>u \<in> bs. target \<le> freed u \<longrightarrow> u \<le> r) else r = 0)"
proof -
  note B = chunk_boundaries_ok[OF assms(1,2)]
  have ok: "\<forall>u \<in> set (chunk_loop 0 step cap). arena_bytes_for_usable u cap step rows g = Inr (arena_bytes u cap step rows g)"
    using B(2) assms(1) by (auto intro: arena_bytes_for_usable_ok)
  obtain r where r: "best_loop (\<lambda>u. arena_bytes_for_usable u cap step rows g) (arena_bytes cap cap step rows g) target
      (chunk_loop 0 step cap) 0 = Inr r" "0 \<le> r" "r = 0 \<or> r \<in> bs \<and> target \<le> freed r"
      "\<forall>u \<in> bs. target \<le> freed u \<longrightarrow> u \<le> r"
    using best_loop_ok[OF ok, of "arena_bytes cap cap step rows g" target 0] B(2)
    unfolding bs_def freed_def by auto
  have "0 \<in> bs" using assms(2) by (simp add: bs_def)
  have mono: "freed u \<le> freed 0" if "u \<in> bs" for u
    using that arena_bytes_mono[of 0 u cap step g rows] assms by (auto simp: freed_def bs_def)
  have "usable_for_target_free_bytes target cap step rows g = Inr r"
    using r(1) B(1) assms(1,2) by (simp add: usable_for_target_free_bytes_def arena_bytes_for_usable_ok)
  moreover have "if target \<le> freed 0 then target \<le> freed r \<and> (\<forall>u \<in> bs. target \<le> freed u \<longrightarrow> u \<le> r) else r = 0"
    using r(3,4) mono[of r] by (auto simp: not_le)
  ultimately show ?thesis using r(3) \<open>0 \<in> bs\<close> by auto
qed

section \<open>The joint arena\<close>

fun jsum :: "int \<Rightarrow> int \<Rightarrow> int list \<Rightarrow> int list \<Rightarrow> int list list \<Rightarrow> int \<Rightarrow> int" where
  "jsum u b (c # cs) (t # ts) (r # rs) g =
     arena_bytes (min (max (u - b) 0) c) c t r g + jsum u (b + c) cs ts rs g"
| "jsum u b _ _ _ g = 0"

lemma joint_bytes_ok:
  "length cs = length ts \<Longrightarrow> length ts = length rs \<Longrightarrow> \<forall>c \<in> set cs. 0 \<le> c \<Longrightarrow> \<forall>t \<in> set ts. 0 < t \<Longrightarrow>
   joint_bytes u b cs ts rs g tot = Inr (tot + jsum u b cs ts rs g)"
  by (induction u b cs ts rs g tot rule: joint_bytes.induct)
    (auto simp: arena_bytes_for_usable_ok Let_def)

lemma jsum_mono:
  "u \<le> w \<Longrightarrow> \<forall>c \<in> set cs. 0 \<le> c \<Longrightarrow> \<forall>t \<in> set ts. 0 < t \<Longrightarrow> 0 < g \<Longrightarrow> \<forall>r \<in> set rs. \<forall>x \<in> set r. 0 \<le> x \<Longrightarrow>
   jsum u b cs ts rs g \<le> jsum w b cs ts rs g"
proof (induction u b cs ts rs g rule: jsum.induct)
  case (1 u b c cs t ts r rs g)
  have "arena_bytes (min (max (u - b) 0) c) c t r g \<le> arena_bytes (min (max (w - b) 0) c) c t r g"
    by (rule arena_bytes_mono) (use "1.prems" in auto)
  moreover have "jsum u (b + c) cs ts rs g \<le> jsum w (b + c) cs ts rs g" using 1 by simp
  ultimately show ?case by simp
qed simp_all

lemma joint_values_ok:
  "length cs = length ts \<Longrightarrow> \<forall>c \<in> set cs. 0 \<le> c \<Longrightarrow> \<forall>t \<in> set ts. 0 < t \<Longrightarrow> finite V \<Longrightarrow>
   \<exists>V'. joint_values b cs ts V = Inr V' \<and> finite V' \<and> V \<subseteq> V' \<and> b + sum_list cs \<in> V' \<and>
     (\<forall>x \<in> V' - V. b \<le> x \<and> x \<le> b + sum_list cs) \<and> b \<in> V'"
proof (induction b cs ts V rule: joint_values.induct)
  case (1 b c cs t ts V)
  have ct: "0 \<le> c" "0 < t" using "1.prems" by auto
  note B = chunk_boundaries_ok[OF ct(2,1)]
  define V1 where "V1 = V \<union> (\<lambda>l. b + l) ` set (chunk_loop 0 t c)"
  have "\<exists>V'. joint_values (b + c) cs ts V1 = Inr V' \<and> finite V' \<and> V1 \<subseteq> V' \<and> (b + c) + sum_list cs \<in> V' \<and>
     (\<forall>x \<in> V' - V1. b + c \<le> x \<and> x \<le> (b + c) + sum_list cs) \<and> b + c \<in> V'"
    unfolding V1_def by (rule "1.IH") (use "1.prems" in auto)
  then obtain V' where V': "joint_values (b + c) cs ts V1 = Inr V'" "finite V'" "V1 \<subseteq> V'"
    "(b + c) + sum_list cs \<in> V'" "\<forall>x \<in> V' - V1. b + c \<le> x \<and> x \<le> (b + c) + sum_list cs" by blast
  have "0 \<le> sum_list cs" using "1.prems"(2) by (intro sum_list_nonneg) auto
  moreover have "\<forall>x \<in> V1 - V. b \<le> x \<and> x \<le> b + c" using B(2) by (auto simp: V1_def)
  moreover have "b \<in> V1" using B(2) ct by (auto simp: V1_def image_iff)
  ultimately have *: "\<forall>x \<in> V' - V. b \<le> x \<and> x \<le> b + sum_list (c # cs)" "b \<in> V'"
    using V'(3,5) ct(1) by (force, blast)
  have "joint_values b (c # cs) (t # ts) V = Inr V'" using B(1) V'(1) by (simp add: V1_def)
  then show ?case using V' * by (intro exI[of _ V']) (auto simp: V1_def add.assoc)
qed auto

lemma joint_boundaries_ok:
  assumes "length cs = length ts" "\<forall>c \<in> set cs. 0 \<le> c" "\<forall>t \<in> set ts. 0 < t"
  shows "\<exists>bs. joint_arena_boundaries cs ts = Inr bs \<and> sorted bs \<and> distinct bs \<and>
    0 \<in> set bs \<and> sum_list cs \<in> set bs \<and> (\<forall>x \<in> set bs. 0 \<le> x \<and> x \<le> sum_list cs)"
proof -
  have "0 \<le> sum_list cs" using assms(2) by (intro sum_list_nonneg) auto
  moreover obtain V where "joint_values 0 cs ts {0} = Inr V" "finite V" "{0} \<subseteq> V" "0 + sum_list cs \<in> V"
    "\<forall>x \<in> V - {0}. 0 \<le> x \<and> x \<le> 0 + sum_list cs" using joint_values_ok[OF assms, of "{0}" 0] by auto
  ultimately show ?thesis using assms(1) by (auto simp: joint_arena_boundaries_def)
qed

lemma joint_search_ok:
  assumes "\<And>i. i < length cs \<Longrightarrow> fits (cs ! i) = Inr (P i)"
    "\<And>i j. i \<le> j \<Longrightarrow> j < length cs \<Longrightarrow> P j \<Longrightarrow> P i" "P 0" "cs \<noteq> []"
    "0 \<le> lo" "hi < int (length cs)" "lo \<le> hi + 1" "\<forall>i < nat lo. P i"
    "\<forall>i. hi < int i \<and> i < length cs \<longrightarrow> \<not> P i"
    "0 < lo \<longrightarrow> best = cs ! (nat lo - 1)"
  shows "\<exists>m < length cs. joint_search fits cs lo hi best = Inr (cs ! m) \<and> P m \<and> (\<forall>i. m < i \<and> i < length cs \<longrightarrow> \<not> P i)"
  using assms
proof (induction fits cs lo hi best rule: joint_search.induct)
  case (1 fits cs lo hi best)
  show ?case
  proof (cases "lo \<le> hi")
    case False
    then have hl: "hi = lo - 1" using "1.prems"(7) by simp
    have "lo \<noteq> 0" using hl "1.prems"(4) "1.prems"(3,9) by fastforce
    then have lo: "0 < lo" using "1.prems"(5) by simp
    have "joint_search fits cs lo hi best = Inr (cs ! (nat lo - 1))"
      using False "1.prems"(10) lo by (simp add: joint_search.simps)
    moreover have "P (nat lo - 1)" using "1.prems"(8) lo by simp
    moreover have "nat lo - 1 < length cs" using "1.prems"(6) hl lo by linarith
    moreover have "\<not> P i" if "nat lo - 1 < i" "i < length cs" for i
    proof -
      have "hi < int i" using that(1) hl lo by linarith
      then show ?thesis using "1.prems"(9) that(2) by blast
    qed
    ultimately show ?thesis by blast
  next
    case True
    define mid where "mid = (lo + hi) div 2"
    have mid: "lo \<le> mid" "mid \<le> hi" "nat mid < length cs"
      using True "1.prems"(5,6) by (auto simp: mid_def)
    have f: "fits (cs ! nat mid) = Inr (P (nat mid))" using "1.prems"(1) mid(3) by blast
    show ?thesis
    proof (cases "P (nat mid)")
      case T: True
      have all: "\<forall>i < nat (mid + 1). P i"
        using "1.prems"(2)[OF _ mid(3) T] mid(1) "1.prems"(5) by (simp add: nat_add_distrib less_Suc_eq_le)
      have "\<exists>m < length cs. joint_search fits cs (mid + 1) hi (cs ! nat mid) = Inr (cs ! m) \<and> P m \<and>
          (\<forall>i. m < i \<and> i < length cs \<longrightarrow> \<not> P i)"
        by (rule "1.IH"(1)[OF _ mid_def refl _ _ "1.prems"(1-4) _ "1.prems"(6) _ all "1.prems"(9)])
          (use True f T mid "1.prems"(5) in \<open>auto simp: nat_add_distrib\<close>)
      then show ?thesis using True f T by (subst joint_search.simps) (simp add: Let_def mid_def)
    next
      case F: False
      have none: "\<forall>i. mid - 1 < int i \<and> i < length cs \<longrightarrow> \<not> P i"
      proof (intro allI impI notI)
        fix i assume "mid - 1 < int i \<and> i < length cs" "P i"
        then have "nat mid \<le> i" "i < length cs" by linarith+
        then show False using "1.prems"(2) \<open>P i\<close> F by blast
      qed
      have "\<exists>m < length cs. joint_search fits cs lo (mid - 1) best = Inr (cs ! m) \<and> P m \<and>
          (\<forall>i. m < i \<and> i < length cs \<longrightarrow> \<not> P i)"
        by (rule "1.IH"(2)[OF _ mid_def refl _ _ "1.prems"(1-5) _ _ "1.prems"(8) none "1.prems"(10)])
          (use True f F mid "1.prems"(6) in auto)
      then show ?thesis using True f F by (subst joint_search.simps) (simp add: Let_def mid_def)
    qed
  qed
qed

text \<open>The usable count each class sees at the joint cutoff \<open>u\<close>.\<close>

fun class_usable :: "int \<Rightarrow> int \<Rightarrow> int list \<Rightarrow> int list" where
  "class_usable u b [] = []"
| "class_usable u b (c # cs) = min (max (u - b) 0) c # class_usable u (b + c) cs"

lemma class_usable_below: "u \<le> b \<Longrightarrow> \<forall>c \<in> set cs. 0 \<le> c \<Longrightarrow> class_usable u b cs = map (\<lambda>_. 0) cs"
  by (induction u b cs rule: class_usable.induct) auto

lemma floors_met_iff:
  "cs \<noteq> [] \<Longrightarrow> list_all2 (\<lambda>f c. 0 \<le> f \<and> f \<le> c) fs cs \<Longrightarrow> 0 < last fs \<Longrightarrow>
   list_all2 (\<le>) fs (class_usable u b cs) \<longleftrightarrow> b + sum_list (butlast cs) + last fs \<le> u"
proof (induction u b cs arbitrary: fs rule: class_usable.induct)
  case (2 u b c cs)
  then obtain f fs' where fs: "fs = f # fs'" "0 \<le> f" "f \<le> c" "list_all2 (\<lambda>f c. 0 \<le> f \<and> f \<le> c) fs' cs"
    by (cases fs) auto
  show ?case
  proof (cases "cs = []")
    case True
    then show ?thesis using fs 2 by auto
  next
    case False
    then have ne: "fs' \<noteq> []" using fs(4) by auto
    have IH: "list_all2 (\<le>) fs' (class_usable u (b + c) cs) \<longleftrightarrow> (b + c) + sum_list (butlast cs) + last fs' \<le> u"
      by (rule "2.IH"[OF False fs(4)]) (use "2.prems"(3) fs(1) ne in simp)
    have "\<forall>c \<in> set cs. 0 \<le> c" using fs(4) by (induction rule: list_all2_induct) auto
    then have "0 \<le> sum_list (butlast cs)" by (intro sum_list_nonneg) (auto dest: in_set_butlastD)
    moreover have "0 < last fs'" using "2.prems"(3) fs(1) ne by simp
    ultimately have "(b + c) + sum_list (butlast cs) + last fs' \<le> u \<Longrightarrow> f \<le> min (max (u - b) 0) c"
      using fs(2,3) by linarith
    then show ?thesis using IH False ne fs(1) by auto
  qed
qed simp

lemma joint_bytes_at:
  assumes "length cs = length ts" "length ts = length rs" "\<forall>c \<in> set cs. 0 \<le> c" "\<forall>t \<in> set ts. 0 < t"
  shows "joint_arena_bytes_for_usable u cs ts rs g = Inr (jsum u 0 cs ts rs g)"
  using assms joint_bytes_ok[OF assms] by (simp add: joint_arena_bytes_for_usable_def)

lemma sorted_filter_ge: "sorted xs \<Longrightarrow> sorted (filter P xs)"
  by (rule sorted_filter[where f = id, simplified])

lemma plan_joint_ok:
  fixes kv budget :: int
  assumes "length cs = length ts" "length ts = length rs" "\<forall>c \<in> set cs. 0 \<le> c" "\<forall>t \<in> set ts. 0 < t"
    "\<forall>r \<in> set rs. \<forall>x \<in> set r. 0 \<le> x" "joint_arena_boundaries cs ts = Inr bs" "joint_arena_floor cs fs = Inr f"
  defines "fits \<equiv> \<lambda>n. jsum n 0 cs ts rs (2 * 1024 * 1024) + kv \<le> budget"
  shows "if \<exists>b \<in> set bs. f \<le> b \<and> fits b
     then \<exists>r. plan_joint_arena_usable budget kv cs ts rs fs = Inr r \<and> r \<in> set bs \<and> f \<le> r \<and> fits r \<and>
            (\<forall>b \<in> set bs. f \<le> b \<and> fits b \<longrightarrow> b \<le> r)
     else plan_joint_arena_usable budget kv cs ts rs fs = Inl ValueError"
proof -
  define ca where "ca = filter (\<lambda>b. b \<ge> f) bs"
  have sb: "sorted bs" using joint_boundaries_ok[OF assms(1,3,4)] assms(6) by auto
  have sc: "sorted ca" using sorted_filter_ge[OF sb] by (simp add: ca_def)
  have anti: "fits w \<Longrightarrow> u \<le> w \<Longrightarrow> fits u" for u w
    using jsum_mono[of u w cs ts "2 * 1024 * 1024" rs 0] assms(3-5) unfolding fits_def by force
  note bytes = joint_bytes_at[OF assms(1-4)]
  have plan: "plan_joint_arena_usable budget kv cs ts rs fs =
     (if ca = [] then Inl ValueError else if \<not> fits (hd ca) then Inl ValueError
      else joint_search (\<lambda>n. Inr (fits n)) ca 0 (int (length ca) - 1) (hd ca))"
    using assms(6,7) by (simp add: plan_joint_arena_usable_def ca_def bytes fits_def Let_def not_le)
  show ?thesis
  proof (cases "ca = [] \<or> \<not> fits (hd ca)")
    case True
    have "\<not> fits b" if "b \<in> set bs" "f \<le> b" for b
    proof -
      have b: "b \<in> set ca" using that by (simp add: ca_def)
      then have "hd ca \<le> b" using sc by (cases ca) auto
      then show ?thesis using True anti b by (metis empty_iff list.set(1))
    qed
    then show ?thesis using True plan by auto
  next
    case False
    then have ne: "ca \<noteq> []" and h: "fits (hd ca)" by auto
    have "\<exists>m < length ca. joint_search (\<lambda>n. Inr (fits n)) ca 0 (int (length ca) - 1) (hd ca) = Inr (ca ! m) \<and>
        fits (ca ! m) \<and> (\<forall>i. m < i \<and> i < length ca \<longrightarrow> \<not> fits (ca ! i))"
    proof (rule joint_search_ok)
      show "fits (ca ! i)" if "i \<le> j" "j < length ca" "fits (ca ! j)" for i j
        using anti[OF that(3)] sorted_nth_mono[OF sc that(1,2)] by blast
      show "fits (ca ! 0)" using h ne by (simp add: hd_conv_nth)
    qed (use ne in auto)
    then obtain m where m: "m < length ca" "plan_joint_arena_usable budget kv cs ts rs fs = Inr (ca ! m)"
      "fits (ca ! m)" "\<forall>i. m < i \<and> i < length ca \<longrightarrow> \<not> fits (ca ! i)" using plan ne h by auto
    have mem: "ca ! m \<in> set bs" "f \<le> ca ! m" using nth_mem[OF m(1)] by (auto simp: ca_def)
    have "b \<le> ca ! m" if "b \<in> set bs" "f \<le> b" "fits b" for b
    proof -
      have "b \<in> set ca" using that by (simp add: ca_def)
      then obtain i where i: "i < length ca" "b = ca ! i" by (auto simp: in_set_conv_nth)
      then have "i \<le> m" using m(4) that(3) by (metis not_le)
      then show ?thesis using sorted_nth_mono[OF sc _ m(1)] i(2) by simp
    qed
    then show ?thesis using m mem by auto
  qed
qed

section \<open>The plan\<close>

lemma size_search_bounds:
  "size_search fits lo hi = Inr r \<Longrightarrow> lo \<le> hi \<Longrightarrow> lo \<le> r \<and> r \<le> hi"
proof (induction fits lo hi rule: size_search.induct)
  case (1 fits lo hi)
  show ?case
  proof (cases "lo < hi")
    case False
    then show ?thesis using "1.prems" by (simp add: size_search.simps)
  next
    case True
    define mid where "mid = (lo + hi + 1) div 2"
    have mid: "lo < mid" "mid \<le> hi" using True by (auto simp: mid_def)
    have r: "(case fits mid of Inl e \<Rightarrow> Inl e | Inr True \<Rightarrow> size_search fits mid hi
        | Inr False \<Rightarrow> size_search fits lo (mid - 1)) = Inr r"
      using "1.prems"(1) True by (subst (asm) size_search.simps) (simp add: Let_def flip: mid_def)
    show ?thesis
    proof (cases "fits mid")
      case (Inr b)
      then show ?thesis
        using r "1.IH"(1)[OF _ mid_def Inr] "1.IH"(2)[OF _ mid_def Inr] True mid by (cases b) auto
    qed (use r in simp)
  qed
qed

lemma length_dict_fromkeys: "length (dict_fromkeys xs) \<le> length xs"
  by (simp add: dict_fromkeys_def) (metis length_remdups_leq length_rev)

text \<open>What a plan that is returned went through.\<close>

lemma plan_cache_budgetD:
  assumes "plan_cache_budget budget per_expert per_page ne total_e overlap kv_pages max_slots sigs = Inr (m, n, ov)"
  defines "hi \<equiv> min total_e max_slots"
  defines "ov0 \<equiv> overlap \<and> 2 * ne \<le> hi"
  defines "U \<equiv> length (dict_fromkeys sigs)"
  defines "lo \<equiv> if 1 < U then (if ov0 then 2 * ne else 0) + int U * ne else if ov0 then 2 * ne else ne"
  shows "0 < per_expert" "0 < per_page" "lo \<le> hi"
    "(if 1 < U then size_search (\<lambda>mid. rbind (expert_cache_bytes mid sigs ne ov0 per_expert)
          (\<lambda>b. Inr (b \<le> budget - kv_pages * per_page))) lo hi
        else Inr (max lo (min ((budget - kv_pages * per_page) div per_expert) hi))) = Inr m"
    "ov = (ov0 \<and> 2 * ne \<le> m)"
    "\<exists>mb. expert_cache_bytes m sigs ne ov per_expert = Inr mb \<and>
        n = max ((budget - mb) div per_page) kv_pages \<and> mb + n * per_page \<le> budget \<and> 1 < n"
proof -
  note A = assms(1)[unfolded plan_cache_budget_def Let_def py_assert_eq_Inr rbind_eq_Inr,
      folded hi_def, folded ov0_def U_def, folded lo_def]
  show "0 < per_expert" "0 < per_page" "lo \<le> hi" using A by blast+
  from A obtain m' mb where B: "(if 1 < U then size_search (\<lambda>mid. rbind (expert_cache_bytes mid sigs ne ov0 per_expert)
          (\<lambda>b. Inr (b \<le> budget - kv_pages * per_page))) lo hi
        else Inr (max lo (min ((budget - kv_pages * per_page) div per_expert) hi))) = Inr m'"
    "expert_cache_bytes m' sigs ne (ov0 \<and> 2 * ne \<le> m') per_expert = Inr mb"
    "mb + max ((budget - mb) div per_page) kv_pages * per_page \<le> budget"
    "1 < max ((budget - mb) div per_page) kv_pages"
    "Inr (m', max ((budget - mb) div per_page) kv_pages, ov0 \<and> 2 * ne \<le> m') = (Inr (m, n, ov) :: _ result)"
    by blast
  from B(5) have "m' = m" "n = max ((budget - mb) div per_page) kv_pages" "ov = (ov0 \<and> 2 * ne \<le> m)" by auto
  with B show "(if 1 < U then size_search (\<lambda>mid. rbind (expert_cache_bytes mid sigs ne ov0 per_expert)
          (\<lambda>b. Inr (b \<le> budget - kv_pages * per_page))) lo hi
        else Inr (max lo (min ((budget - kv_pages * per_page) div per_expert) hi))) = Inr m"
    "ov = (ov0 \<and> 2 * ne \<le> m)"
    "\<exists>mb. expert_cache_bytes m sigs ne ov per_expert = Inr mb \<and>
        n = max ((budget - mb) div per_page) kv_pages \<and> mb + n * per_page \<le> budget \<and> 1 < n"
    by simp_all
qed

lemma plan_cache_budget_sound:
  assumes "plan_cache_budget budget per_expert per_page ne total_e overlap kv_pages max_slots sigs = Inr (m, n, ov)"
    "0 \<le> ne"
  shows "\<exists>mb. expert_cache_bytes m sigs ne ov per_expert = Inr mb \<and> mb + n * per_page \<le> budget"
    "kv_pages \<le> n" "1 < n" "ne \<le> m" "m \<le> min total_e max_slots"
    "ov \<longleftrightarrow> overlap \<and> 2 * ne \<le> min total_e max_slots" "ov \<Longrightarrow> 2 * ne \<le> m"
proof -
  note D = plan_cache_budgetD[OF assms(1)]
  define hi where "hi = min total_e max_slots"
  define ov0 where "ov0 = (overlap \<and> 2 * ne \<le> hi)"
  define U where "U = length (dict_fromkeys sigs)"
  define lo where "lo = (if 1 < U then (if ov0 then 2 * ne else 0) + int U * ne else if ov0 then 2 * ne else ne)"
  note F = D[folded hi_def, folded ov0_def U_def, folded lo_def]
  have m: "lo \<le> m \<and> m \<le> hi"
  proof (cases "1 < U")
    case True
    then show ?thesis using F(4) size_search_bounds F(3) by simp
  next
    case False
    then show ?thesis using F(3,4) by auto
  qed
  have l2: "ov0 \<Longrightarrow> 2 * ne \<le> lo" using assms(2) by (auto simp: lo_def)
  have l1: "ne \<le> lo"
  proof (cases "1 < U")
    case True
    then have "1 * ne \<le> int U * ne" using assms(2) by (intro mult_right_mono) auto
    then show ?thesis using True assms(2) by (simp add: lo_def)
  qed (use assms(2) in \<open>simp add: lo_def\<close>)
  show "\<exists>mb. expert_cache_bytes m sigs ne ov per_expert = Inr mb \<and> mb + n * per_page \<le> budget"
    "kv_pages \<le> n" "1 < n" using F(6) by auto
  show "ne \<le> m" "m \<le> min total_e max_slots" using m l1 by (auto simp: hi_def)
  show "ov \<longleftrightarrow> overlap \<and> 2 * ne \<le> min total_e max_slots" "ov \<Longrightarrow> 2 * ne \<le> m"
    using F(5) l2 m by (auto simp: ov0_def hi_def)
qed

text \<open>With one slot size the plan is optimal: no larger expert cache leaves room for the reserve,
  and no further page fits.\<close>

lemma div_step_up: "0 < q \<Longrightarrow> (a :: int) < (a div q + 1) * q"
  using pos_mod_bound[of q a] div_mult_mod_eq[of a q] unfolding distrib_right by linarith

lemma plan_cache_budget_uniform:
  assumes "plan_cache_budget budget per_expert per_page ne total_e overlap kv_pages max_slots sigs = Inr (m, n, ov)"
    "length (dict_fromkeys sigs) \<le> 1"
  shows "m < m' \<Longrightarrow> m' \<le> min total_e max_slots \<Longrightarrow> budget < m' * per_expert + kv_pages * per_page"
    "budget < m * per_expert + (n + 1) * per_page"
proof -
  note D = plan_cache_budgetD[OF assms(1)]
  have P: "0 < per_expert" "0 < per_page" using D(1,2) .
  obtain lo where m: "m = max lo (min ((budget - kv_pages * per_page) div per_expert) (min total_e max_slots))"
    using D(4) assms(2) by (auto simp: Let_def)
  have n: "n = max ((budget - m * per_expert) div per_page) kv_pages"
    using D(6) assms(2) by (auto simp: expert_cache_bytes_def Let_def)
  show "budget < m' * per_expert + kv_pages * per_page" if "m < m'" "m' \<le> min total_e max_slots"
  proof -
    have "(budget - kv_pages * per_page) div per_expert + 1 \<le> m'" using m that by linarith
    from mult_right_mono[OF this, of per_expert] div_step_up[OF P(1), of "budget - kv_pages * per_page"] P(1)
    show ?thesis by linarith
  qed
  have "(budget - m * per_expert) div per_page + 1 \<le> n + 1" using n by simp
  from mult_right_mono[OF this, of per_page] div_step_up[OF P(2), of "budget - m * per_expert"] P(2)
  show "budget < m * per_expert + (n + 1) * per_page" by linarith
qed


section \<open>Properties\<close>

text \<open>C11: \<^verbatim>\<open>gguf_class_capacities\<close> splits the usable slots exactly: for at least one class, layer counts that
  add up to at most the number of layers and at least \<^verbatim>\<open>num_experts\<close> slots per class, the
  capacities add up to \<^verbatim>\<open>usable\<close> and none is below \<^verbatim>\<open>num_experts\<close>.\<close>

theorem gguf_capacities_exact:
  assumes "cs \<noteq> []" "\<forall>c \<in> set cs. 0 \<le> c" "sum_list cs \<le> num_layers" "0 < num_layers"
    "int (length cs) * num_experts \<le> usable"
  shows "\<exists>caps. gguf_class_capacities usable cs num_layers num_experts = Inr caps \<and>
     length caps = length cs \<and> sum_list caps = usable \<and> (\<forall>c \<in> set caps. num_experts \<le> c)"
  by (rule gguf_class_capacities_ok[OF assms])

theorem gguf_capacities_exact_witness:
  "\<exists>caps. gguf_class_capacities 17 [2, 1, 2] 5 3 = Inr caps \<and> length caps = 3 \<and> sum_list caps = 17"
  using gguf_capacities_exact[of "[2, 1, 2]" 5 3 17] by auto

text \<open>The bytes of the commit ladder: they grow with the usable slots, cover every usable slot of
  every bank, exceed the linear footprint of one further step by less than a granule
  per bank, and are the same for a usable count and the chunk boundary above it.\<close>

theorem arena_bytes_ladder:
  assumes "0 \<le> u" "u \<le> w" "w \<le> capacity" "0 < step_slots" "0 < granule" "\<forall>r \<in> set rows. 0 \<le> r"
  shows "\<exists>bu bw. arena_bytes_for_usable u capacity step_slots rows granule = Inr bu \<and>
     arena_bytes_for_usable w capacity step_slots rows granule = Inr bw \<and> bu \<le> bw \<and>
     u * sum_list rows \<le> bu \<and>
     bu \<le> min (u + step_slots) capacity * sum_list rows + int (length rows) * granule \<and>
     (0 < u \<longrightarrow> arena_bytes_for_usable (min (align_ceil u step_slots) capacity) capacity step_slots rows granule = Inr bu)"
proof -
  have u: "u \<le> capacity" and w: "0 \<le> w" using assms by simp_all
  have "0 \<le> min (align_ceil u step_slots) capacity"
    using align_ceil_int(1)[OF assms(4), of u] assms(1) u by simp
  then have "0 < u \<longrightarrow> arena_bytes_for_usable (min (align_ceil u step_slots) capacity) capacity step_slots rows granule
      = Inr (arena_bytes u capacity step_slots rows granule)"
    using arena_bytes_boundary[OF _ u assms(4)] assms(4) by (simp add: arena_bytes_for_usable_ok)
  then show ?thesis
    using arena_bytes_for_usable_ok[OF assms(1) u assms(4)] arena_bytes_for_usable_ok[OF w assms(3,4)]
      arena_bytes_mono[OF assms] arena_bytes_cover[OF assms(1) u assms(4-6)] by blast
qed

theorem arena_bytes_ladder_witness:
  "\<exists>bu bw. arena_bytes_for_usable 5 10 4 [3, 5] 16 = Inr bu \<and> arena_bytes_for_usable 9 10 4 [3, 5] 16 = Inr bw \<and>
     bu \<le> bw \<and> 5 * 8 \<le> bu"
proof -
  have "\<exists>bu bw. arena_bytes_for_usable 5 10 4 [3, 5] 16 = Inr bu \<and> arena_bytes_for_usable 9 10 4 [3, 5] 16 = Inr bw \<and>
     bu \<le> bw \<and> 5 * sum_list [3, 5 :: int] \<le> bu"
    using arena_bytes_ladder[of 5 9 10 4 16 "[3, 5]"] by force
  then show ?thesis by simp
qed

text \<open>C10: \<^verbatim>\<open>usable_for_target_free_bytes\<close> is the inverse of the ladder for shrinking: it returns a chunk
  boundary; when some boundary frees the target it returns the largest one that does, so it
  gives up the fewest slots; otherwise it returns 0.\<close>

theorem shrink_target_exact:
  assumes "0 < step_slots" "0 \<le> capacity" "0 < granule" "\<forall>r \<in> set rows. 0 \<le> r"
  shows "\<exists>r bs. usable_for_target_free_bytes target capacity step_slots rows granule = Inr r \<and>
     arena_chunk_boundaries capacity step_slots = Inr bs \<and> r \<in> set bs \<and>
     (let freed = (\<lambda>u. arena_bytes capacity capacity step_slots rows granule - arena_bytes u capacity step_slots rows granule)
      in if \<exists>u \<in> set bs. target \<le> freed u
         then target \<le> freed r \<and> (\<forall>u \<in> set bs. target \<le> freed u \<longrightarrow> u \<le> r) else r = 0)"
proof -
  let ?f = "\<lambda>u. arena_bytes capacity capacity step_slots rows granule - arena_bytes u capacity step_slots rows granule"
  note B = chunk_boundaries_ok[OF assms(1,2)]
  have "?f u \<le> ?f 0" if "u \<in> set (chunk_loop 0 step_slots capacity)" for u
    using that arena_bytes_mono[of 0 u capacity step_slots granule rows] assms B(2) by auto
  moreover have "0 \<in> set (chunk_loop 0 step_slots capacity)" using B(2) assms(2) by simp
  ultimately have "(\<exists>u \<in> set (chunk_loop 0 step_slots capacity). target \<le> ?f u) \<longleftrightarrow> target \<le> ?f 0"
    by (meson order_trans)
  moreover obtain r where "usable_for_target_free_bytes target capacity step_slots rows granule = Inr r"
    "r \<in> set (chunk_loop 0 step_slots capacity)"
    "if target \<le> ?f 0 then target \<le> ?f r \<and> (\<forall>u \<in> set (chunk_loop 0 step_slots capacity). target \<le> ?f u \<longrightarrow> u \<le> r) else r = 0"
    using usable_for_target_ok[OF assms, of target] unfolding B(2)[symmetric] by blast
  ultimately show ?thesis unfolding Let_def
    by (intro exI[of _ r] exI[of _ "chunk_loop 0 step_slots capacity"] conjI B(1)) simp_all
qed

theorem shrink_target_exact_witness:
  "\<exists>r. usable_for_target_free_bytes 5 10 4 [1] 4 = Inr r \<and> r \<in> {0, 4, 8, 10}"
proof -
  have "arena_chunk_boundaries 10 4 = Inr [0, 4, 8, 10]" by code_simp
  then show ?thesis using shrink_target_exact[of 4 10 4 "[1]" 5] by auto
qed

text \<open>\<^verbatim>\<open>joint_arena_floor\<close> is the smallest joint cutoff at which every size class sees at least its
  floor, for floors between 0 and the capacities with a positive last one.\<close>

theorem joint_floor_exact:
  assumes "cs \<noteq> []" "list_all2 (\<lambda>f c. 0 \<le> f \<and> f \<le> c) fs cs" "0 < last fs"
  shows "\<exists>f. joint_arena_floor cs fs = Inr f \<and> (\<forall>u. list_all2 (\<le>) fs (class_usable u 0 cs) \<longleftrightarrow> f \<le> u)"
  using floors_met_iff[OF assms, of _ 0] assms(1) list_all2_lengthD[OF assms(2)]
  by (simp add: joint_arena_floor_def)

theorem joint_floor_exact_witness:
  "\<exists>f. joint_arena_floor [10, 7] [4, 3] = Inr f \<and> (\<forall>u. list_all2 (\<le>) [4, 3] (class_usable u 0 [10, 7]) \<longleftrightarrow> f \<le> u)"
  using joint_floor_exact[of "[10, 7]" "[4, 3]"] by simp

text \<open>C9: \<^verbatim>\<open>plan_joint_arena_usable\<close> finds the optimum by its binary search: the largest boundary that
  meets the floor and fits the budget together with the KV bytes, and it raises ValueError
  exactly when there is none.\<close>

theorem joint_plan_optimal:
  assumes "length cs = length ts" "length ts = length rs" "\<forall>c \<in> set cs. 0 \<le> c" "\<forall>t \<in> set ts. 0 < t"
    "\<forall>r \<in> set rs. \<forall>x \<in> set r. 0 \<le> x" "joint_arena_boundaries cs ts = Inr bs" "joint_arena_floor cs fs = Inr f"
  shows "let fits = (\<lambda>n. \<exists>b. joint_arena_bytes_for_usable n cs ts rs (2 * 1024 * 1024) = Inr b \<and> b + kv \<le> budget)
     in if \<exists>b \<in> set bs. f \<le> b \<and> fits b
        then \<exists>r. plan_joint_arena_usable budget kv cs ts rs fs = Inr r \<and> r \<in> set bs \<and> f \<le> r \<and> fits r \<and>
               (\<forall>b \<in> set bs. f \<le> b \<and> fits b \<longrightarrow> b \<le> r)
        else plan_joint_arena_usable budget kv cs ts rs fs = Inl ValueError"
  using plan_joint_ok[OF assms, of kv budget] unfolding Let_def joint_bytes_at[OF assms(1-4)]
  by (simp only: sum.inject simp_thms)

theorem joint_plan_optimal_witness:
  "\<exists>r. plan_joint_arena_usable 9000000 10 [10, 7] [4, 3] [[1], [2]] [4, 3] = Inr r \<and> 13 \<le> r"
proof -
  let ?g = "2 * 1024 * 1024 :: int"
  have b: "joint_arena_boundaries [10, 7] [4, 3] = Inr [0, 4, 8, 10, 13, 16, 17]" by code_simp
  have f: "joint_arena_floor [10, 7] [4, 3] = Inr 13" by code_simp
  have "joint_arena_bytes_for_usable 13 [10, 7] [4, 3] [[1], [2]] ?g = Inr (2 * ?g)" by code_simp
  then show ?thesis
    using joint_plan_optimal[of "[10, 7]" "[4, 3]" "[[1], [2]]" "[0, 4, 8, 10, 13, 16, 17]" "[4, 3]" 13 10 9000000] b f
    by (auto simp: Let_def split: if_splits)
qed

text \<open>C8: Every plan \<^verbatim>\<open>plan_cache_budget\<close> returns is within its budget and its bounds: expert bytes and
  page bytes fit, the KV reserve is met, the slots lie between \<^verbatim>\<open>num_experts\<close> and the cap, and
  prefill overlap is kept exactly when the cap has room for two layers, which the slots then have
  too. With a single slot size no larger expert cache leaves room for the reserve and no
  further page fits.\<close>

theorem plan_within_budget:
  assumes "plan_cache_budget budget per_expert per_page num_experts total_experts overlap kv_pages max_slots sigs
      = Inr (m, n, ov)" "0 \<le> num_experts"
  shows "(\<exists>mb. expert_cache_bytes m sigs num_experts ov per_expert = Inr mb \<and> mb + n * per_page \<le> budget) \<and>
     kv_pages \<le> n \<and> 1 < n \<and> num_experts \<le> m \<and> m \<le> min total_experts max_slots \<and>
     (ov \<longleftrightarrow> overlap \<and> 2 * num_experts \<le> min total_experts max_slots) \<and> (ov \<longrightarrow> 2 * num_experts \<le> m) \<and>
     (length (dict_fromkeys sigs) \<le> 1 \<longrightarrow>
        budget < m * per_expert + (n + 1) * per_page \<and>
        (\<forall>m'. m < m' \<and> m' \<le> min total_experts max_slots \<longrightarrow> budget < m' * per_expert + kv_pages * per_page))"
  using plan_cache_budget_sound[OF assms] plan_cache_budget_uniform[OF assms(1)] by blast

theorem plan_within_budget_witness:
  "plan_cache_budget 100 7 2 2 12 True 5 10 [] = Inr (10, 15, True) \<and>
   (\<exists>mb. expert_cache_bytes 10 [] 2 True 7 = Inr mb \<and> mb + 15 * 2 \<le> (100 :: int))"
proof -
  have p: "plan_cache_budget 100 7 2 2 12 True 5 10 [] = Inr (10, 15, True)" by code_simp
  from plan_within_budget[OF p] p show ?thesis by simp
qed

text \<open>For mixed slot sizes the binary search of \<^verbatim>\<open>plan_cache_budget\<close> does not solve the split exactly: the
  bytes of a split are not monotone in the number of slots, since the remainder goes
  round-robin to the first classes. With nine layers of eight experts in three sizes the plan takes 27 slots (4743 bytes)
  although 29 slots need only the 4997 bytes available to experts, while 28 need 5016.\<close>

lemma mixed_plan_not_maximal:
  "let sigs = map (\<lambda>b. [b]) [110, 273, 144, 144, 273, 144, 110, 273, 144]
   in plan_cache_budget 4999 176 1 8 72 False 2 72 sigs = Inr (27, 256, False) \<and>
      expert_cache_bytes 27 sigs 8 False 176 = Inr 4743 \<and> expert_cache_bytes 28 sigs 8 False 176 = Inr 5016 \<and>
      expert_cache_bytes 29 sigs 8 False 176 = Inr 4997 \<and> (4997 :: int) \<le> 4999 - 2 * 1"
  unfolding Let_def by (intro conjI; code_simp)

end
