(* ===== verification/Hybrid_Cache.thy ===== *)
theory Hybrid_Cache
  imports Radix_Trace "HOL-Library.Product_Lexorder"
begin

text \<open>
  \<^verbatim>\<open>HybridRadixCache\<close> of \<^verbatim>\<open>kvcache/hybrid_radix_cache.py\<close>: a radix cache with a second currency, the
  recurrent-state snapshots that nodes carry.

  The KV currency (\<^verbatim>\<open>root\<close>, \<^verbatim>\<open>page_size\<close>, \<^verbatim>\<open>full_evictable\<close>, \<^verbatim>\<open>full_protected\<close>) is a \<open>radix\<close> record, since
  the class repeats the walk, the insertion of a new node and the two locking loops of
  \<^verbatim>\<open>RadixPrefixCache\<close> line by line; \<open>full\<close> is that record. The measurement-only trace file is
  not modelled (it is off unless an environment variable is set).
\<close>

section \<open>State and operations\<close>

record hybrid =
  full :: radix
  track_chunk_size :: nat
  mamba_evictable :: int
  mamba_protected :: int

record hybrid_match =
  kv_indices :: "int list"
  m_cached_len :: nat
  m_mamba_value :: "int option"
  m_node :: nat
  sumless_len :: nat

record evict_result =
  ev_kv_indices :: "int list"
  ev_mamba_slots :: "int list"

definition hybrid_init :: "nat \<Rightarrow> nat \<Rightarrow> nat \<Rightarrow> int \<Rightarrow> hybrid result" where
  "hybrid_init ps chunk c now =
     py_assert (chunk mod ps = 0)
       (Inr \<lparr>full = radix_init ps c now, track_chunk_size = chunk, mamba_evictable = 0, mamba_protected = 0\<rparr>)"

abbreviation hroot :: "hybrid \<Rightarrow> node" where
  "hroot h \<equiv> root_node (full h)"

abbreviation set_hroot :: "node \<Rightarrow> hybrid \<Rightarrow> hybrid" where
  "set_hroot r h \<equiv> h\<lparr>full := (full h)\<lparr>root_node := r\<rparr>\<rparr>"

text \<open>The nodes a loop from node \<open>u\<close> to the root visits.\<close>

definition path_nodes :: "nat \<Rightarrow> node \<Rightarrow> node list result" where
  "path_nodes u root = rbind (chain u root) (\<lambda>p. rmap (\<lambda>w. find_node w root) p)"

definition path_len :: "nat \<Rightarrow> node \<Rightarrow> nat result" where
  "path_len u root = rbind (path_nodes u root) (\<lambda>ns. Inr (sum_list (map nlen ns)))"

definition collect_kv :: "nat \<Rightarrow> node \<Rightarrow> int list result" where
  "collect_kv u root = rbind (path_nodes u root) (\<lambda>ns. Inr (concat (rev (map nvalue ns))))"

text \<open>The loop of \<^verbatim>\<open>match_prefix\<close>, from the walked node upwards: the node it returns at, if any, the
  length up to it, and \<^verbatim>\<open>sumless_len\<close>.\<close>

fun match_loop :: "bool \<Rightarrow> node list \<Rightarrow> nat \<Rightarrow> bool \<Rightarrow> nat \<Rightarrow> node option \<times> nat \<times> nat" where
  "match_loop pooled [] end_len seen sumless = (None, 0, sumless)"
| "match_loop pooled (cur # ns) end_len seen sumless =
     (if mamba_value (attr cur) \<noteq> None then
        let sumless' = (if \<not> seen then end_len else sumless)
        in if \<not> pooled \<or> pooled_sums (attr cur) \<noteq> None then (Some cur, end_len, sumless')
           else match_loop pooled ns (end_len - nlen cur) True sumless'
      else match_loop pooled ns (end_len - nlen cur) seen sumless)"

definition hybrid_match_prefix :: "int \<Rightarrow> int list \<Rightarrow> bool \<Rightarrow> hybrid \<Rightarrow> (hybrid \<times> hybrid_match) result" where
  "hybrid_match_prefix tic ids pooled h =
     rbind (tree_walk (page_size (full h)) tic (counter (full h)) ids (hroot h)) (\<lambda>(r, u, l, c).
       let h1 = h\<lparr>full := (full h)\<lparr>root_node := r, counter := c\<rparr>\<rparr>
       in rbind (path_nodes u r) (\<lambda>ns.
          case match_loop pooled ns (sum_list (map nlen ns)) False 0 of
            (Some cur, end_len, sl) \<Rightarrow>
              rbind (collect_kv (uuid cur) r) (\<lambda>kv.
                Inr (h1, \<lparr>kv_indices = kv, m_cached_len = end_len, m_mamba_value = mamba_value (attr cur),
                          m_node = uuid cur, sumless_len = sl\<rparr>))
          | (None, _, sl) \<Rightarrow>
              Inr (h1, \<lparr>kv_indices = [], m_cached_len = 0, m_mamba_value = None,
                        m_node = uuid r, sumless_len = sl\<rparr>)))"

text \<open>\<^verbatim>\<open>insert\<close>: its first part is the insertion of the plain cache; then the snapshot is donated to the
  end node, unless that is the root or already owns one.\<close>

definition hybrid_insert ::
  "int \<Rightarrow> int \<Rightarrow> int list \<Rightarrow> int list \<Rightarrow> int \<Rightarrow> nat option \<Rightarrow> snap_kind \<Rightarrow> hybrid \<Rightarrow> (hybrid \<times> nat \<times> bool) result" where
  "hybrid_insert tic now ids kvs slot sums kind h =
     (let insert_len = align_down (length ids) (page_size (full h))
      in py_assert (sums = None \<or> insert_len = length ids)
        (rbind (insert_prefix tic now ids kvs (full h)) (\<lambda>(s, prefix_len, hd).
           let h1 = h\<lparr>full := s\<rparr>; u = hnode hd
           in if u = uuid (root_node s) then Inr (h1, prefix_len, True)
              else rbind (find_node u (root_node s)) (\<lambda>n.
                if mamba_value (attr n) \<noteq> None then
                  let f = (\<lambda>a. let a1 = (if sums \<noteq> None \<and> pooled_sums a = None
                                         then a\<lparr>pooled_sums := sums, pooled_count := insert_len\<rparr> else a)
                               in if kind \<noteq> Chunk then a1\<lparr>snapshot_kind := kind\<rparr> else a1)
                  in Inr (set_hroot (upd u f (root_node s)) h1, prefix_len, True)
                else
                  let f = (\<lambda>a. let a1 = a\<lparr>mamba_value := Some slot, snapshot_kind := kind\<rparr>
                               in if sums \<noteq> None then a1\<lparr>pooled_sums := sums, pooled_count := insert_len\<rparr> else a1);
                      h2 = set_hroot (upd u f (root_node s)) h1
                  in Inr (if mamba_ref_count (attr n) = 0 then h2\<lparr>mamba_evictable := mamba_evictable h2 + 1\<rparr> else h2,
                          prefix_len, False)))))"

definition inc_lock :: "nat \<Rightarrow> hybrid \<Rightarrow> hybrid result" where
  "inc_lock u h =
     rbind (find_node u (hroot h)) (\<lambda>n.
       let h1 = (if mamba_value (attr n) \<noteq> None
                 then set_hroot (upd u (\<lambda>a. a\<lparr>mamba_ref_count := mamba_ref_count a + 1\<rparr>) (hroot h))
                        (if mamba_ref_count (attr n) = 0
                         then h\<lparr>mamba_evictable := mamba_evictable h - 1, mamba_protected := mamba_protected h + 1\<rparr>
                         else h)
                 else h)
       in rbind (chain u (hroot h1)) (\<lambda>p.
          rbind (lock_loop p (full h1)) (\<lambda>s. Inr (h1\<lparr>full := s\<rparr>))))"

definition dec_lock :: "nat \<Rightarrow> hybrid \<Rightarrow> hybrid result" where
  "dec_lock u h =
     rbind (find_node u (hroot h)) (\<lambda>n.
       let h1 = (if mamba_value (attr n) \<noteq> None \<and> 0 < mamba_ref_count (attr n)
                 then set_hroot (upd u (\<lambda>a. a\<lparr>mamba_ref_count := mamba_ref_count a - 1\<rparr>) (hroot h))
                        (if mamba_ref_count (attr n) - 1 = 0
                         then h\<lparr>mamba_evictable := mamba_evictable h + 1, mamba_protected := mamba_protected h - 1\<rparr>
                         else h)
                 else h)
       in rbind (chain u (hroot h1)) (\<lambda>p.
          rbind (unlock_loop p (full h1)) (\<lambda>s. Inr (h1\<lparr>full := s\<rparr>))))"

text \<open>\<^verbatim>\<open>_free_node_mamba\<close>: the new state and the slots appended to \<^verbatim>\<open>out\<close>.\<close>

definition clear_snap :: "nattr \<Rightarrow> nattr" where
  "clear_snap a = a\<lparr>snapshot_kind := Chunk, mamba_value := None, pooled_sums := None, pooled_count := 0\<rparr>"

definition free_node_mamba :: "node \<Rightarrow> hybrid \<Rightarrow> hybrid \<times> int list" where
  "free_node_mamba n h =
     (case mamba_value (attr n) of
        None \<Rightarrow> (h, [])
      | Some slot \<Rightarrow>
          let h1 = set_hroot (upd (uuid n) clear_snap (hroot h)) h
          in (if mamba_ref_count (attr n) = 0 then h1\<lparr>mamba_evictable := mamba_evictable h1 - 1\<rparr> else h1, [slot]))"

text \<open>\<^verbatim>\<open>self.full_evictable -= node.length\<close> and \<^verbatim>\<open>_unlink\<close>.\<close>

definition drop_node :: "node \<Rightarrow> hybrid \<Rightarrow> hybrid" where
  "drop_node n h = h\<lparr>full := (full h)\<lparr>evictable_size := evictable_size (full h) - int (nlen n),
                                     root_node := unlink (uuid n) (hroot h)\<rparr>\<rparr>"

definition exposed_tombstone :: "node \<Rightarrow> node \<Rightarrow> bool" where
  "exposed_tombstone root n \<longleftrightarrow> mamba_value (attr n) = None \<and> is_leaf n \<and> ref_count (attr n) = 0 \<and> uuid n \<noteq> uuid root"

lemma find_node_uuid: "find_node u root = Inr n \<Longrightarrow> uuid n = u"
  using find_kids_flat by (auto simp: find_node_def split: if_splits option.splits)

lemma drop_node_decreases:
  assumes "find_node u (hroot h) = Inr n" "u \<noteq> uuid (hroot h)"
  shows "length (ents (kids (hroot (drop_node n h)))) < length (ents (kids (hroot h)))"
  using unlink_decreases[OF assms] find_node_uuid[OF assms(1)] by (simp add: drop_node_def)

text \<open>\<^verbatim>\<open>_cascade_tombstone_leaves\<close> from node \<open>p\<close>: the surviving ancestor, the pages freed and the new
  state.\<close>

function cascade :: "nat \<Rightarrow> hybrid \<Rightarrow> int list \<Rightarrow> nat \<Rightarrow> (nat \<times> hybrid \<times> int list \<times> nat) result" where
  "cascade p h kv freed =
     (case find_node p (hroot h) of Inl e \<Rightarrow> Inl e | Inr n \<Rightarrow>
      if exposed_tombstone (hroot h) n then
        (case parent_of p (hroot h) of Inl e \<Rightarrow> Inl e | Inr q \<Rightarrow>
           cascade q (drop_node n h) (kv @ nvalue n) (freed + nlen n))
      else Inr (p, h, kv, freed))"
  by pat_completeness auto
termination
  by (relation "measure (\<lambda>(p, h, kv, f). length (ents (kids (hroot h))))")
    (auto simp: exposed_tombstone_def dest: find_node_uuid intro: drop_node_decreases)

declare cascade.simps [simp del]

lemma cascade_ents:
  "cascade p h kv freed = Inr (q, h', kv', freed') \<Longrightarrow> length (ents (kids (hroot h'))) \<le> length (ents (kids (hroot h)))"
proof (induction p h kv freed rule: cascade.induct)
  case (1 p h kv freed)
  show ?case
  proof (cases "find_node p (hroot h)")
    case (Inr n)
    show ?thesis
    proof (cases "exposed_tombstone (hroot h) n")
      case True
      then obtain w where w: "parent_of p (hroot h) = Inr w"
        "cascade w (drop_node n h) (kv @ nvalue n) (freed + nlen n) = Inr (q, h', kv', freed')"
        using "1.prems" Inr by (subst (asm) cascade.simps) (auto split: sum.splits)
      have "p \<noteq> uuid (hroot h)" using True find_node_uuid[OF Inr] by (simp add: exposed_tombstone_def)
      then show ?thesis using "1.IH"[OF Inr True w] drop_node_decreases[OF Inr] by simp
    next
      case False
      then show ?thesis using "1.prems" Inr by (subst (asm) cascade.simps) simp
    qed
  qed (use "1.prems" in \<open>simp add: cascade.simps\<close>)
qed

definition leaves :: "node \<Rightarrow> node list" where
  "leaves root = filter (\<lambda>n. is_leaf n \<and> uuid n \<noteq> uuid root) (preorder [root])"

definition snapshot_nodes :: "node \<Rightarrow> node list" where
  "snapshot_nodes root = filter (\<lambda>n. mamba_value (attr n) \<noteq> None \<and> uuid n \<noteq> uuid root) (preorder [root])"

definition all_nodes :: "node \<Rightarrow> node list" where
  "all_nodes root = filter (\<lambda>n. uuid n \<noteq> uuid root) (preorder [root])"

definition hybrid_size_info :: "hybrid \<Rightarrow> int \<times> int" where
  "hybrid_size_info h = (evictable_size (full h), protected_size (full h))"

text \<open>\<^verbatim>\<open>check_integrity\<close>; the length of a node's path is that of its loop to the root.\<close>

definition check_snapshot :: "node \<Rightarrow> node \<Rightarrow> unit result" where
  "check_snapshot root n =
     py_assert (mamba_value (attr n) \<noteq> None \<and> 0 \<le> mamba_ref_count (attr n) \<and> 0 \<le> ref_count (attr n))
       (if pooled_sums (attr n) \<noteq> None
        then rbind (path_len (uuid n) root) (\<lambda>l. py_assert (pooled_count (attr n) = l) (Inr ()))
        else Inr ())"

definition hybrid_check_integrity :: "hybrid \<Rightarrow> unit result" where
  "hybrid_check_integrity h =
     rbind (rmap (check_snapshot (hroot h)) (snapshot_nodes (hroot h))) (\<lambda>_.
     rbind (rmap (\<lambda>n. py_assert (mamba_value (attr n) \<noteq> None \<or> pooled_sums (attr n) = None) (Inr ()))
              (all_nodes (hroot h))) (\<lambda>_. Inr ()))"

text \<open>The loop of \<^verbatim>\<open>evict_full\<close>.\<close>

lemma free_node_mamba_ents [simp]:
  "length (ents (kids (hroot (fst (free_node_mamba n h))))) = length (ents (kids (hroot h)))"
  "uuid (hroot (fst (free_node_mamba n h))) = uuid (hroot h)"
proof -
  have e: "length (ents (upd_kids u f cs)) = length (ents cs)" for u f cs
    by (induction u f cs rule: upd_kids.induct) auto
  show "length (ents (kids (hroot (fst (free_node_mamba n h))))) = length (ents (kids (hroot h)))"
    "uuid (hroot (fst (free_node_mamba n h))) = uuid (hroot h)"
    by (auto simp: free_node_mamba_def upd_def e Let_def split: option.splits)
qed

lemma length_heappop: "xs \<noteq> [] \<Longrightarrow> heappop f xs = (x, ys) \<Longrightarrow> Suc (length ys) = length xs"
  using heappop_in(1,2)[of xs f x ys] by (auto simp: length_remove1)

function evict_full_loop ::
  "nat \<Rightarrow> hybrid \<Rightarrow> nat list \<Rightarrow> int list \<Rightarrow> int list \<Rightarrow> nat \<Rightarrow> (hybrid \<times> evict_result) result" where
  "evict_full_loop num_tokens h lvs kv mamba freed =
     (if \<not> (freed < num_tokens \<and> lvs \<noteq> []) then Inr (h, \<lparr>ev_kv_indices = kv, ev_mamba_slots = mamba\<rparr>)
      else case heappop (stamp_of (hroot h)) lvs of (u, lvs') \<Rightarrow>
        case find_node u (hroot h) of Inl e \<Rightarrow> Inl e | Inr n \<Rightarrow>
        if ref_count (attr n) \<noteq> 0 \<or> \<not> is_leaf n \<or> u = uuid (hroot h)
        then evict_full_loop num_tokens h lvs' kv mamba freed
        else case free_node_mamba n h of (h1, slots) \<Rightarrow>
          case parent_of u (hroot h1) of Inl e \<Rightarrow> Inl e | Inr p \<Rightarrow>
          case cascade p (drop_node n h1) (kv @ nvalue n) (freed + nlen n) of Inl e \<Rightarrow> Inl e
          | Inr (q, h2, kv2, freed2) \<Rightarrow>
              case find_node q (hroot h2) of Inl e \<Rightarrow> Inl e | Inr parent \<Rightarrow>
              evict_full_loop num_tokens h2
                (if is_leaf parent \<and> ref_count (attr parent) = 0 \<and> q \<noteq> uuid (hroot h2) then lvs' @ [q] else lvs')
                kv2 (mamba @ slots) freed2)"
  by pat_completeness auto
termination
proof (relation "measure (\<lambda>(nt, h, lvs, kv, m, f). length (ents (kids (hroot h))) + length lvs)", goal_cases)
  case 1
  show ?case by simp
next
  case (2 num_tokens h lvs kv mamba freed u lvs' n)
  then show ?case using length_heappop[of lvs "stamp_of (hroot h)" u lvs'] by auto
next
  case (3 num_tokens h lvs kv mamba freed u lvs' n h1 slots p res q r1 h2 r2 kv2 freed2 parent)
  have h1: "h1 = fst (free_node_mamba n h)" using 3(5) by (metis fst_conv)
  have len: "Suc (length lvs') = length lvs"
    using 3(1,2) length_heappop[of lvs "stamp_of (hroot h)" u lvs'] by auto
  have n: "find_node u (hroot h) = Inr n" "u \<noteq> uuid (hroot h)" using 3(3,4) by auto
  have "length (ents (del_kids u (kids (hroot h1)))) < length (ents (kids (hroot h1)))"
  proof (rule length_ents_del_kids)
    have "u \<in> set (uuids (kids (hroot h)))"
      using n find_kids_None[of u "kids (hroot h)"] by (auto simp: find_node_def split: option.splits)
    moreover have "uuids (kids (hroot h1)) = uuids (kids (hroot h))"
      unfolding h1 by (simp add: free_node_mamba_def upd_def Let_def split: option.splits)
    ultimately show "u \<in> set (uuids (kids (hroot h1)))" by (simp only:)
  qed
  then have "length (ents (kids (hroot (drop_node n h1)))) < length (ents (kids (hroot h)))"
    using find_node_uuid[OF n(1)] h1 by (simp add: drop_node_def unlink_def)
  moreover have "length (ents (kids (hroot h2))) \<le> length (ents (kids (hroot (drop_node n h1))))"
    by (rule cascade_ents[of p _ "kv @ nvalue n" "freed + nlen n" q _ kv2 freed2]) (use 3(7-10) in auto)
  ultimately show ?case using len by auto
qed

declare evict_full_loop.simps [simp del]

definition evict_full :: "nat \<Rightarrow> hybrid \<Rightarrow> (hybrid \<times> evict_result) result" where
  "evict_full num_tokens h =
     evict_full_loop num_tokens h (map uuid (filter (\<lambda>n. ref_count (attr n) = 0) (leaves (hroot h)))) [] [] 0"

text \<open>The tier of a snapshot and the key of \<^verbatim>\<open>evict_mamba\<close>'s heap, fixed when the heap is built.\<close>

definition mamba_evict_rank :: "node \<Rightarrow> nat" where
  "mamba_evict_rank n =
     (if snapshot_kind (attr n) \<noteq> Chunk then 2 else if ref_count (attr n) > 0 then 1 else 0)"

definition mamba_key :: "node \<Rightarrow> nat \<Rightarrow> nat \<times> int \<times> int \<times> nat" where
  "mamba_key root u =
     (case find_node u root of Inl _ \<Rightarrow> (0, 0, 0, u)
      | Inr n \<Rightarrow> (mamba_evict_rank n, timestamp (attr n),
                 (case path_len u root of Inl _ \<Rightarrow> 0 | Inr l \<Rightarrow> - int l), u))"

function evict_mamba_loop ::
  "(nat \<Rightarrow> nat \<times> int \<times> int \<times> nat) \<Rightarrow> nat \<Rightarrow> hybrid \<Rightarrow> nat list \<Rightarrow> int list \<Rightarrow> int list \<Rightarrow> nat \<Rightarrow>
   (hybrid \<times> evict_result) result" where
  "evict_mamba_loop key num h order kv mamba freed =
     (if \<not> (freed < num \<and> order \<noteq> []) then Inr (h, \<lparr>ev_kv_indices = kv, ev_mamba_slots = mamba\<rparr>)
      else case heappop key order of (u, order') \<Rightarrow>
        case find_node u (hroot h) of Inl e \<Rightarrow> Inl e | Inr n \<Rightarrow>
        if mamba_value (attr n) = None \<or> mamba_ref_count (attr n) \<noteq> 0 \<or> u = uuid (hroot h)
        then evict_mamba_loop key num h order' kv mamba freed
        else case free_node_mamba n h of (h1, slots) \<Rightarrow>
          if is_leaf n \<and> ref_count (attr n) = 0 then
            case parent_of u (hroot h1) of Inl e \<Rightarrow> Inl e | Inr p \<Rightarrow>
            case cascade p (drop_node n h1) (kv @ nvalue n) 0 of Inl e \<Rightarrow> Inl e
            | Inr (q, h2, kv2, _) \<Rightarrow> evict_mamba_loop key num h2 order' kv2 (mamba @ slots) (freed + 1)
          else evict_mamba_loop key num h1 order' kv (mamba @ slots) (freed + 1))"
  by pat_completeness auto
termination
proof (relation "measure (\<lambda>(key, nt, h, order, kv, m, f). length order)", goal_cases)
  case 1
  show ?case by simp
next
  case (2 key num h order kv mamba freed u order' n)
  then show ?case using length_heappop[of order key u order'] by auto
next
  case (3 key num h order kv mamba freed u order' n h1 slots p res q r1 h2 r2 kv2 z)
  then show ?case using length_heappop[of order key u order'] by auto
next
  case (4 key num h order kv mamba freed u order' n h1 slots)
  then show ?case using length_heappop[of order key u order'] by auto
qed

declare evict_mamba_loop.simps [simp del]

definition evict_mamba :: "nat \<Rightarrow> hybrid \<Rightarrow> (hybrid \<times> evict_result) result" where
  "evict_mamba num h =
     evict_mamba_loop (mamba_key (hroot h)) num h
       (map uuid (filter (\<lambda>n. mamba_ref_count (attr n) = 0) (snapshot_nodes (hroot h)))) [] [] 0"

end
