(* ===== verification/Hybrid_Inv.thy ===== *)
theory Hybrid_Inv
  imports Hybrid_Cache
begin

text \<open>
  The invariant of \<^verbatim>\<open>HybridRadixCache\<close> and what \<^verbatim>\<open>match_prefix\<close>, \<^verbatim>\<open>inc_lock\<close>, \<^verbatim>\<open>dec_lock\<close> and \<^verbatim>\<open>insert\<close>
  do under it. The invariant is stated for a number of locks per node, which the code does not store.
\<close>

section \<open>Invariant\<close>

text \<open>Snapshots counted as evictable (unlocked) and as protected (locked), and the slots they hold.\<close>

definition snap_evictable :: "entry \<Rightarrow> int" where
  "snap_evictable = (\<lambda>(u, a, k, v). if mamba_value a \<noteq> None \<and> mamba_ref_count a = 0 then 1 else 0)"

definition snap_protected :: "entry \<Rightarrow> int" where
  "snap_protected = (\<lambda>(u, a, k, v). if mamba_value a \<noteq> None \<and> mamba_ref_count a \<noteq> 0 then 1 else 0)"

definition slot_list :: "node list \<Rightarrow> int list" where
  "slot_list cs = List.map_filter (\<lambda>(u, a, k, v). mamba_value a) (ents cs)"

text \<open>\<open>lk u\<close> is the number of locks taken on node \<open>u\<close> itself.\<close>

definition snap_ok :: "(nat \<Rightarrow> int) \<Rightarrow> entry \<Rightarrow> bool" where
  "snap_ok lk = (\<lambda>(u, a, k, v). 0 \<le> mamba_ref_count a \<and> mamba_ref_count a \<le> lk u \<and>
     (0 < mamba_ref_count a \<longrightarrow> mamba_value a \<noteq> None) \<and> (pooled_sums a \<noteq> None \<longrightarrow> mamba_value a \<noteq> None))"

definition pooled_len_ok :: "node list \<Rightarrow> bool" where
  "pooled_len_ok cs \<longleftrightarrow> (\<forall>(u, a, k, v) \<in> set (ents cs). pooled_sums a \<noteq> None \<longrightarrow>
     map_option (\<lambda>q. length (fst q)) (path_str u cs) = Some (pooled_count a))"

definition hybrid_inv :: "(nat \<Rightarrow> int) \<Rightarrow> hybrid \<Rightarrow> bool" where
  "hybrid_inv lk h \<longleftrightarrow> radix_inv (full h) \<and> refs_exact lk (kids (hroot h)) \<and>
     (\<forall>u. 0 \<le> lk u) \<and> (\<forall>c \<ge> counter (full h). lk c = 0) \<and>
     (\<forall>u. 0 < lk u \<longrightarrow> u = uuid (hroot h) \<or> u \<in> set (uuids (kids (hroot h)))) \<and>
     mamba_evictable h = esum snap_evictable (kids (hroot h)) \<and>
     mamba_protected h = esum snap_protected (kids (hroot h)) \<and>
     (\<forall>e \<in> set (ents (kids (hroot h))). snap_ok lk e) \<and> pooled_len_ok (kids (hroot h)) \<and>
     mamba_value (attr (hroot h)) = None"

lemma hybrid_invI:
  assumes "radix_inv (full h)" "refs_exact lk (kids (hroot h))" "\<And>u. 0 \<le> lk u" "\<And>c. counter (full h) \<le> c \<Longrightarrow> lk c = 0"
    "\<And>u. 0 < lk u \<Longrightarrow> u = uuid (hroot h) \<or> u \<in> set (uuids (kids (hroot h)))"
    "mamba_evictable h = esum snap_evictable (kids (hroot h))"
    "mamba_protected h = esum snap_protected (kids (hroot h))"
    "\<forall>e \<in> set (ents (kids (hroot h))). snap_ok lk e" "pooled_len_ok (kids (hroot h))"
    "mamba_value (attr (hroot h)) = None"
  shows "hybrid_inv lk h"
  unfolding hybrid_inv_def by (intro conjI allI impI) (fact assms(1) assms(2) assms(6-10) | erule assms | rule assms)+

lemma hybrid_invD:
  assumes "hybrid_inv lk h"
  shows "radix_inv (full h)" "refs_exact lk (kids (hroot h))" "\<And>u. 0 \<le> lk u" "\<And>c. counter (full h) \<le> c \<Longrightarrow> lk c = 0"
    "\<And>u. 0 < lk u \<Longrightarrow> u = uuid (hroot h) \<or> u \<in> set (uuids (kids (hroot h)))"
    "mamba_evictable h = esum snap_evictable (kids (hroot h))"
    "mamba_protected h = esum snap_protected (kids (hroot h))"
    "\<forall>e \<in> set (ents (kids (hroot h))). snap_ok lk e" "pooled_len_ok (kids (hroot h))"
    "mamba_value (attr (hroot h)) = None" "tree_inv (page_size (full h)) (counter (full h)) (hroot h)"
  using assms[unfolded hybrid_inv_def] radix_inv_def by blast+

lemma slot_list_simps [simp]:
  "slot_list [] = []"
  "slot_list (Node u a k v gs # cs) = (case mamba_value a of None \<Rightarrow> [] | Some x \<Rightarrow> [x]) @ slot_list gs @ slot_list cs"
  "slot_list (cs @ ds) = slot_list cs @ slot_list ds"
  by (auto simp: slot_list_def List.map_filter_def split: option.splits)

lemma hybrid_init_inv:
  assumes "0 < ps" "hybrid_init ps chunk c now = Inr h"
  shows "hybrid_inv (\<lambda>_. 0) h"
proof -
  have h: "h = \<lparr>full = radix_init ps c now, track_chunk_size = chunk, mamba_evictable = 0, mamba_protected = 0\<rparr>"
    using assms(2) by (simp add: hybrid_init_def py_assert_eq_Inr)
  show ?thesis unfolding hybrid_inv_def h using radix_inv_init[OF assms(1)]
    by (simp add: radix_init_def esum_def pooled_len_ok_def fresh_attr_def)
qed

subsection \<open>The walk\<close>

lemma additive_snap: "additive snap_evictable" "additive snap_protected"
  by (auto simp: additive_def snap_evictable_def snap_protected_def split_attr_def fresh_attr_def)

text \<open>A property of single entries that survives what a walk does to them survives the walk.\<close>

lemma walked_entries:
  assumes "walked ps tic c ids cs cs' w l c'" "\<forall>e \<in> set (ents cs). P e"
    "\<And>u a k v k' v' t. P (u, a, k, v) \<Longrightarrow> P (u, a\<lparr>timestamp := t\<rparr>, k', v')"
    "\<And>u a k v k' v'. P (u, a, k, v) \<Longrightarrow> P (u, a\<lparr>swa_uuid := None\<rparr>, k', v')"
    "\<And>u a k v k' v' t. P (u, a, k, v) \<Longrightarrow> P (c, split_attr t a, k', v')"
  shows "\<forall>e \<in> set (ents cs'). P e"
  using assms(1,2) by (induction rule: walked.induct) (use assms(3-) in \<open>auto 0 4\<close>)

lemma walked_slots: "walked ps tic c ids cs cs' w l c' \<Longrightarrow> mset (slot_list cs') = mset (slot_list cs)"
  by (induction rule: walked.induct) (auto simp: split_attr_def fresh_attr_def)

lemma walked_old_entries:
  "walked ps tic c ids cs cs' w l c' \<Longrightarrow> (u, a, k, v) \<in> set (ents cs') \<Longrightarrow> u \<noteq> c \<Longrightarrow>
     \<exists>a0 k0 v0. (u, a0, k0, v0) \<in> set (ents cs) \<and> mamba_value a = mamba_value a0 \<and>
       pooled_sums a = pooled_sums a0 \<and> pooled_count a = pooled_count a0"
  by (induction rule: walked.induct) (auto 0 5)

lemma walked_pooled:
  assumes "walked ps tic c ids cs cs' w l c'" "c \<notin> set (uuids cs)" "distinct (uuids cs)" "pooled_len_ok cs"
  shows "pooled_len_ok cs'"
proof -
  have "\<forall>e \<in> set (ents cs'). fst e = c \<longrightarrow> pooled_sums (fst (snd e)) = None"
  proof -
    have "\<forall>e \<in> set (ents cs). fst e = c \<longrightarrow> pooled_sums (fst (snd e)) = None" using assms(2) by auto
    from walked_entries[OF assms(1) this] show ?thesis by (auto simp: split_attr_def fresh_attr_def)
  qed
  moreover have "map_option (\<lambda>q. length (fst q)) (path_str u cs') = Some (pooled_count a)"
    if e: "(u, a, k, v) \<in> set (ents cs')" "u \<noteq> c" "pooled_sums a \<noteq> None" for u a k v
  proof -
    obtain a0 k0 v0 where a0: "(u, a0, k0, v0) \<in> set (ents cs)" "pooled_sums a = pooled_sums a0" "pooled_count a = pooled_count a0"
      using walked_old_entries[OF assms(1) e(1,2)] by blast
    then obtain q where "path_str u cs = Some q" "length (fst q) = pooled_count a"
      using assms(4) e(3) unfolding pooled_len_ok_def by fastforce
    then show ?thesis using walked_path_str_old[OF assms(1,2)] by simp
  qed
  ultimately show ?thesis unfolding pooled_len_ok_def by fastforce
qed

lemma tree_walk_frame:
  assumes "tree_inv ps c root" "tree_walk ps tic c ids root = Inr (r, u, l, c')"
  shows "uuid r = uuid root" "attr r = attr root" "c \<le> c'" "set (uuids (kids root)) \<subseteq> set (uuids (kids r))"
    "u = uuid r \<or> u \<in> set (uuids (kids r))"
proof -
  obtain r' u' l' c2 where w: "tree_walk ps tic c ids root = Inr (r', u', l', c2)"
    "uuid r' = uuid root" "attr r' = attr root" "c \<le> c2" "set (uuids (kids root)) \<subseteq> set (uuids (kids r'))"
    "u' = uuid r' \<and> l' = 0 \<or> u' \<noteq> uuid r' \<and> (\<exists>vs. path_str u' (kids r') = Some (take l' ids, vs) \<and> length vs = l')"
    by (rule tree_walk_ok[OF assms(1), of tic ids])
  have E: "r' = r" "u' = u" "c2 = c'" using w(1) assms(2) by simp_all
  show "uuid r = uuid root" using w(2) unfolding E .
  show "attr r = attr root" using w(3) unfolding E .
  show "c \<le> c'" using w(4) unfolding E .
  show "set (uuids (kids root)) \<subseteq> set (uuids (kids r))" using w(5) unfolding E .
  show "u = uuid r \<or> u \<in> set (uuids (kids r))"
    using w(6) path_str_None[of u "kids r"] unfolding E by (metis option.distinct(1))
qed

lemma tree_walk_transfer:
  assumes "tree_inv ps c root" "tree_walk ps tic c ids root = Inr (r, u, l, c')"
    "Q (kids root)" "\<And>cs' w l c'. walked ps tic c ids (kids root) cs' w l c' \<Longrightarrow> Q cs'"
  shows "Q (kids r)"
  using assms(1)
  by (cases rule: tree_walk_cases[of ps c root tic ids]) (use assms in auto)

lemma hybrid_walk:
  assumes inv: "hybrid_inv lk h" and w: "tree_walk (page_size (full h)) tic (counter (full h)) ids (hroot h) = Inr (r, u, l, c')"
  defines "h1 \<equiv> h\<lparr>full := (full h)\<lparr>root_node := r, counter := c'\<rparr>\<rparr>"
  shows "hybrid_inv lk h1" "mset (slot_list (kids r)) = mset (slot_list (kids (hroot h)))"
proof -
  let ?cs = "kids (hroot h)"
  have ri: "radix_inv (full h)" using inv by (simp add: hybrid_inv_def)
  then have t: "tree_inv (page_size (full h)) (counter (full h)) (hroot h)" by (simp add: radix_inv_def)
  note I = tree_invD[OF t] and F = tree_walk_frame[OF t w] and D = hybrid_invD[OF inv]
  have ri1: "radix_inv (full h1)"
    using match_prefix_correct[OF ri, of tic ids] w by (auto simp: match_prefix_def h1_def)
  have lc: "lk (counter (full h)) = 0" using inv by (simp add: hybrid_inv_def)
  have P1: "refs_exact lk (kids r)"
    by (rule refs_exact_tree_walk[OF t w]) (use inv lc in \<open>simp_all add: hybrid_inv_def\<close>)
  have P2: "esum snap_evictable (kids r) = esum snap_evictable ?cs" "esum snap_protected (kids r) = esum snap_protected ?cs"
    using tree_walk_transfer[OF t w, of "\<lambda>cs. esum snap_evictable cs = esum snap_evictable ?cs \<and> esum snap_protected cs = esum snap_protected ?cs"]
      esum_walked[OF _ I(2)] additive_snap by auto
  have P3: "\<forall>e \<in> set (ents (kids r)). snap_ok lk e"
  proof (rule tree_walk_transfer[OF t w, of "\<lambda>cs. \<forall>e \<in> set (ents cs). snap_ok lk e"])
    fix cs' w l c' assume "walked (page_size (full h)) tic (counter (full h)) ids ?cs cs' w l c'"
    then show "\<forall>e \<in> set (ents cs'). snap_ok lk e"
      by (rule walked_entries) (use inv lc in \<open>auto simp: hybrid_inv_def snap_ok_def split_attr_def fresh_attr_def\<close>)
  qed (use inv in \<open>simp add: hybrid_inv_def\<close>)
  have P4: "pooled_len_ok (kids r)"
    by (rule tree_walk_transfer[OF t w, of pooled_len_ok])
      (use inv walked_pooled[OF _ I(6,4)] in \<open>auto simp: hybrid_inv_def\<close>)
  show "mset (slot_list (kids r)) = mset (slot_list ?cs)"
    by (rule tree_walk_transfer[OF t w, of "\<lambda>cs. mset (slot_list cs) = mset (slot_list ?cs)"]) (auto dest: walked_slots)
  show "hybrid_inv lk h1"
  proof (rule hybrid_invI)
    show "x = uuid (hroot h1) \<or> x \<in> set (uuids (kids (hroot h1)))" if "0 < lk x" for x
      using D(5)[OF that] F(1,4) unfolding h1_def by (simp del: set_map) blast
  qed (use ri1 P1 P2 P3 P4 F(2,3) D in \<open>simp_all add: h1_def\<close>)
qed

subsection \<open>Changing one node\<close>

lemma find_node_kid:
  assumes "tree_inv ps c root" "find_node u root = Inr n" "u \<noteq> uuid root"
  shows "n \<in> set (flat (kids root))" "uuid n = u" "(u, attr n, nkey n, nvalue n) \<in> set (ents (kids root))"
  using find_node_entry[OF assms(2,3)] find_kids_flat by auto

lemma ents_upd_ball:
  assumes "distinct (uuids cs)" "(u, a, k, v) \<in> set (ents cs)" "\<forall>e \<in> set (ents cs). fst e \<noteq> u \<longrightarrow> P e" "P (u, f a, k, v)"
  shows "\<forall>e \<in> set (ents (upd_kids u f cs)). P e"
proof
  fix e assume "e \<in> set (ents (upd_kids u f cs))"
  then obtain w b k' v' where e: "(w, b, k', v') \<in> set (ents cs)" "e = (w, if u = w then f b else b, k', v')"
    unfolding ents_upd_kids by auto
  show "P e"
  proof (cases "u = w")
    case True
    then have "(b, k', v') = (a, k, v)" using eq_key_imp_eq_value[OF assms(1)] e(1) assms(2) by blast
    then show ?thesis using e(2) True assms(4) by simp
  next
    case False
    then show ?thesis using e assms(3) by fastforce
  qed
qed

lemma slot_list_upd:
  assumes "distinct (uuids cs)" "(u, a, k, v) \<in> set (ents cs)"
  shows "mset (slot_list (upd_kids u f cs)) + (case mamba_value a of None \<Rightarrow> {#} | Some x \<Rightarrow> {#x#}) =
     mset (slot_list cs) + (case mamba_value (f a) of None \<Rightarrow> {#} | Some x \<Rightarrow> {#x#})"
proof -
  obtain xs ys where xy: "ents cs = xs @ (u, a, k, v) # ys" using assms(2) split_list by fast
  have id: "map (\<lambda>(w, b, k, v). (w, if u = w then f b else b, k, v)) zs = zs" if "u \<notin> fst ` set zs" for zs :: "entry list"
    using that by (induction zs) auto
  have "u \<notin> fst ` set xs" "u \<notin> fst ` set ys" using assms(1) unfolding xy by auto
  then have "ents (upd_kids u f cs) = xs @ (u, f a, k, v) # ys"
    unfolding ents_upd_kids xy using id by simp
  then show ?thesis unfolding slot_list_def xy by (auto simp: List.map_filter_def split: option.splits)
qed

lemma radix_inv_upd:
  assumes "radix_inv s" "u \<noteq> uuid (root_node s)" "\<And>a. ref_count (f a) = ref_count a"
  shows "radix_inv (s\<lparr>root_node := upd u f (root_node s)\<rparr>)"
proof -
  have e: "esum g (upd_kids u f cs) = esum g cs" if "\<And>u a k v. g (u, f a, k, v) = g (u, a, k, v)" for g cs
    unfolding esum_def ents_upd_kids using that by (induction cs rule: ents.induct) auto
  have r: "refs_ok (upd_kids u f cs) = refs_ok cs \<and> rsum (upd_kids u f cs) = rsum cs" for cs
    by (induction cs rule: ents.induct) (auto simp: assms(3))
  show ?thesis using assms r e[of evictable_tokens] e[of protected_tokens]
    unfolding radix_inv_def tree_inv_def upd_def
    by (simp add: evictable_tokens_def protected_tokens_def)
qed

lemma refs_exact_upd_kids:
  assumes "\<And>a. ref_count (f a) = ref_count a"
  shows "refs_exact g (upd_kids u f cs) = refs_exact g cs \<and> rsum (upd_kids u f cs) = rsum cs"
  by (induction cs rule: ents.induct) (auto simp: assms)

subsection \<open>Paths to the root\<close>

lemma path_kids_prefix:
  "path_kids u cs = Some (p1 @ x # p2) \<Longrightarrow> distinct (uuids cs) \<Longrightarrow> path_kids x cs = Some (p1 @ [x])"
proof (induction u cs arbitrary: p1 rule: path_kids.induct)
  case (2 u w a k v gs cs)
  have d: "w \<notin> set (uuids gs)" "w \<notin> set (uuids cs)" "distinct (uuids gs)" "distinct (uuids cs)"
    "set (uuids gs) \<inter> set (uuids cs) = {}" using "2.prems"(2) by auto
  consider (here) "u = w" | (below) q where "u \<noteq> w" "path_kids u gs = Some q" | (later) "u \<noteq> w" "path_kids u gs = None"
    by (cases "path_kids u gs") auto
  then show ?case
  proof cases
    case here
    then have "p1 = []" "x = w" using "2.prems"(1) by (auto simp: Cons_eq_append_conv)
    then show ?thesis by simp
  next
    case below
    then have eq: "w # q = p1 @ x # p2" using "2.prems"(1) by simp
    show ?thesis
    proof (cases p1)
      case Nil
      then show ?thesis using eq by simp
    next
      case (Cons y p1')
      then have q: "path_kids u gs = Some (p1' @ x # p2)" "y = w" using eq below by auto
      then have "x \<in> set (uuids gs)" using path_kids_set[of u gs] by fastforce
      then have "x \<noteq> w" using d(1) by blast
      then show ?thesis using "2.IH"(1)[OF below(1) q(1) d(3)] Cons q(2) by simp
    qed
  next
    case later
    then have q: "path_kids u cs = Some (p1 @ x # p2)" using "2.prems"(1) by simp
    then have "x \<in> set (uuids cs)" using path_kids_set[of u cs] by fastforce
    then have "x \<noteq> w" "path_kids x gs = None" using d path_kids_None by blast+
    then show ?thesis using "2.IH"(2)[OF later q d(4)] by simp
  qed
qed simp

definition path_of :: "node \<Rightarrow> nat list \<Rightarrow> node list" where
  "path_of root p = map (\<lambda>w. the (find_kids w (kids root))) p"

lemma path_nodes_ok:
  assumes t: "tree_inv ps c root" and u: "u \<noteq> uuid root" and p: "path_kids u (kids root) = Some p"
  shows "path_nodes u root = Inr (path_of root (rev p))"
    "path_str u (kids root) = Some (concat (map nkey (path_of root p)), concat (map nvalue (path_of root p)))"
    "\<And>n. n \<in> set (path_of root p) \<Longrightarrow> n \<in> set (flat (kids root)) \<and> uuid n \<in> set p \<and> find_node (uuid n) root = Inr n"
proof -
  note I = tree_invD[OF t]
  have mem: "w \<in> set (uuids (kids root)) \<and> w \<noteq> uuid root" if "w \<in> set p" for w
    using path_kids_set[OF p] that I(5) by blast
  have f: "find_node w root = Inr (the (find_kids w (kids root)))" if "w \<in> set p" for w
    using mem[OF that] find_kids_None[of w "kids root"] by (auto simp: find_node_def simp del: set_map split: option.splits)
  show "path_nodes u root = Inr (path_of root (rev p))"
  proof -
    have "rmap (\<lambda>w. find_node w root) (rev p) = Inr (map (\<lambda>w. the (find_kids w (kids root))) (rev p))"
      by (rule rmap_Inr) (simp add: f)
    then show ?thesis using u p by (simp add: path_nodes_def chain_def path_of_def)
  qed
  show "path_str u (kids root) = Some (concat (map nkey (path_of root p)), concat (map nvalue (path_of root p)))"
    using path_str_path_kids[OF p I(4)] by (simp add: path_of_def comp_def)
  show "n \<in> set (flat (kids root)) \<and> uuid n \<in> set p \<and> find_node (uuid n) root = Inr n" if n: "n \<in> set (path_of root p)" for n
  proof -
    obtain w where w: "w \<in> set p" "n = the (find_kids w (kids root))" using n by (auto simp: path_of_def)
    then have "find_kids w (kids root) = Some n" using mem[OF w(1)] find_kids_None[of w "kids root"] by auto
    from find_kids_flat[OF this] show ?thesis using w f[OF w(1)] by auto
  qed
qed

lemma distinct_uuids_kids: "distinct (uuids cs) \<Longrightarrow> n \<in> set (flat cs) \<Longrightarrow> distinct (uuids (kids n))"
  by (induction cs rule: flat.induct) auto

lemma path_kids_child:
  "distinct (uuids cs) \<Longrightarrow> n \<in> set cs \<Longrightarrow> path_kids u [n] = Some p \<Longrightarrow> path_kids u cs = Some p"
proof (induction cs)
  case (Cons m cs)
  obtain w a k v gs where m: "m = Node w a k v gs" by (cases m)
  show ?case
  proof (cases "n = m")
    case True
    then show ?thesis using Cons.prems(3) m by (auto split: option.splits if_splits)
  next
    case False
    then have n: "n \<in> set cs" using Cons.prems(2) by simp
    have "u \<in> set (uuids [n])" using path_kids_set[OF Cons.prems(3)] by blast
    then have "u \<in> set (uuids cs)" using n by (induction cs) (auto simp: ents_Cons)
    then have "u \<noteq> w" "u \<notin> set (uuids gs)" using Cons.prems(1) m by auto
    then show ?thesis using Cons.IH[OF _ n Cons.prems(3)] Cons.prems(1) m path_kids_None[of u gs] by simp
  qed
qed simp

lemma path_kids_single_node:
  "path_kids u [n] = (if u = uuid n then Some [u] else map_option (Cons (uuid n)) (path_kids u (kids n)))"
  by (cases n) (auto split: option.splits)

lemma path_str_above:
  assumes "path_str x cs = Some (s, vs)" "path_str u cs = Some (s @ t, vs')" "wfk ps cs" "0 < ps" "distinct (uuids cs)"
    "path_kids u cs = Some p"
  shows "x \<in> set p"
  using assms
proof (induction "length s" arbitrary: cs s vs vs' p rule: less_induct)
  case less
  obtain n where n: "n \<in> set cs" "take ps s = page_key ps (nkey n)" "nlen n \<le> length s"
    "x = uuid n \<and> s = nkey n \<and> vs = nvalue n \<or>
      (\<exists>s' vs'. path_str x (kids n) = Some (s', vs') \<and> s = nkey n @ s' \<and> vs = nvalue n @ vs')"
    using path_str_split[OF less.prems(1,3,4)] by blast
  obtain n' where n': "n' \<in> set cs" "take ps (s @ t) = page_key ps (nkey n')"
    "u = uuid n' \<and> s @ t = nkey n' \<and> vs' = nvalue n' \<or>
      (\<exists>s' vs''. path_str u (kids n') = Some (s', vs'') \<and> s @ t = nkey n' @ s' \<and> vs' = nvalue n' @ vs'')"
    using path_str_split[OF less.prems(2,3,4)] by blast
  have wn: "wfk ps [n]" using wfk_member[OF less.prems(3) n(1)] .
  then have wk: "wfk ps (kids n)" "nkey n \<noteq> []" "ps dvd nlen n" by (cases n; simp)+
  then have "ps \<le> nlen n" by (auto intro: dvd_imp_le)
  then have "take ps (s @ t) = take ps s" using n(3) by (simp add: take_append)
  then have "page_key ps (nkey n') = page_key ps (nkey n)" using n(2) n'(2) by metis
  then have nn: "n' = n" by (rule wfk_page_unique[OF less.prems(3) n'(1) n(1)])
  have nf: "n \<in> set (flat cs)" using n(1) set_flat_self by blast
  have dk: "distinct (uuids (kids n))" using distinct_uuids_kids[OF less.prems(5) nf] .
  have first: "uuid n \<in> set p"
  proof (cases "u = uuid n")
    case True
    then have "path_kids u cs = Some [uuid n]"
      using path_kids_child[OF less.prems(5) n(1)] by (simp add: path_kids_single_node)
    then show ?thesis using less.prems(6) by simp
  next
    case False
    then obtain s' vs'' where "path_str u (kids n) = Some (s', vs'')" using n'(3) nn by auto
    then obtain q where "path_kids u (kids n) = Some q" using path_str_kids by blast
    then have "path_kids u cs = Some (uuid n # q)"
      using path_kids_child[OF less.prems(5) n(1), of u "uuid n # q"] False by (simp add: path_kids_single_node)
    then show ?thesis using less.prems(6) by simp
  qed
  show ?case
  proof (cases "s = nkey n")
    case True
    have "x = uuid n" using n(4) True path_str_nonempty[OF _ wk(1)] by auto
    then show ?thesis using first by simp
  next
    case False
    then obtain s1 vs1 where x: "path_str x (kids n) = Some (s1, vs1)" "s = nkey n @ s1" using n(4) by auto
    have "s1 \<noteq> []" using False x(2) by auto
    then have "s @ t \<noteq> nkey n" using x(2) by simp
    then obtain s2 vs2 where u: "path_str u (kids n) = Some (s2, vs2)" "s @ t = nkey n @ s2" using n'(3) nn by auto
    then have s2: "s2 = s1 @ t" using x(2) by simp
    obtain q where q: "path_kids u (kids n) = Some q" using path_str_kids[OF u(1)] by blast
    have "length s1 < length s" using x(2) wk(2) by simp
    then have xq: "x \<in> set q" using less.hyps[OF _ x(1) _ wk(1) less.prems(4) dk q] u(1) s2 by simp
    have "uuid n \<notin> set (uuids (kids n))"
    proof -
      obtain w a k v gs where nn: "n = Node w a k v gs" by (cases n)
      have "distinct (uuids cs) \<Longrightarrow> n \<in> set cs \<Longrightarrow> w \<notin> set (uuids gs)" unfolding nn
        by (induction cs) (auto simp: ents_Cons entry_of_def simp del: set_map)
      then show ?thesis using less.prems(5) n(1) nn by simp
    qed
    moreover have "u \<in> set (uuids (kids n))" using path_kids_set[OF q] by blast
    ultimately have "u \<noteq> uuid n" by metis
    then have "path_kids u cs = Some (uuid n # q)"
      using path_kids_child[OF less.prems(5) n(1), of u "uuid n # q"] q by (simp add: path_kids_single_node)
    then show ?thesis using less.prems(6) xq by simp
  qed
qed

subsection \<open>Matching\<close>

definition usable :: "bool \<Rightarrow> node \<Rightarrow> bool" where
  "usable pooled n \<longleftrightarrow> mamba_value (attr n) \<noteq> None \<and> (pooled \<longrightarrow> pooled_sums (attr n) \<noteq> None)"

lemma match_loop_ok:
  assumes "match_loop pooled ns (sum_list (map nlen ns)) seen sl = (res, e, sl')"
  shows "case res of
      None \<Rightarrow> (\<forall>n \<in> set ns. \<not> usable pooled n)
    | Some n \<Rightarrow> usable pooled n \<and> (\<exists>pre post. ns = pre @ n # post \<and> (\<forall>m \<in> set pre. \<not> usable pooled m) \<and>
        e = sum_list (map nlen (n # post)))"
  using assms
proof (induction ns arbitrary: seen sl)
  case (Cons n ns)
  show ?case
  proof (cases "usable pooled n")
    case True
    then have "res = Some n" "e = sum_list (map nlen (n # ns))"
      using Cons.prems by (auto simp: usable_def Let_def)
    then show ?thesis using True by (auto intro: exI[of _ "[]"])
  next
    case False
    have "\<exists>seen sl. match_loop pooled ns (sum_list (map nlen ns)) seen sl = (res, e, sl')"
      using False Cons.prems by (auto simp: usable_def Let_def split: if_splits)
    then obtain seen sl where "match_loop pooled ns (sum_list (map nlen ns)) seen sl = (res, e, sl')" by blast
    from Cons.IH[OF this] show ?thesis
      using False by (auto split: option.splits) (metis append_Cons set_ConsD)
  qed
qed simp

text \<open>The depth the match reports without the pooled requirement is the depth of the plain match.\<close>

lemma match_loop_sumless_seen:
  "match_loop pooled ns e True sl = (res, e', sl') \<Longrightarrow> sl' = sl"
  by (induction pooled ns e True sl rule: match_loop.induct) (auto simp: Let_def split: if_splits)

lemma match_loop_sumless:
  assumes "match_loop pooled ns e False 0 = (res, e1, sl)" "match_loop False ns e False 0 = (res', e2, sl2)"
  shows "sl = e2 \<and> sl2 = e2"
  using assms
proof (induction ns arbitrary: e)
  case (Cons n ns)
  show ?case
  proof (cases "mamba_value (attr n)")
    case None
    then show ?thesis using Cons by simp
  next
    case (Some x)
    then show ?thesis using Cons.prems match_loop_sumless_seen[of pooled ns] by (auto simp: Let_def split: if_splits)
  qed
qed simp

lemma path_str_dvd: "path_str w cs = Some (s, vs) \<Longrightarrow> wfk ps cs \<Longrightarrow> ps dvd length s"
  by (induction w cs arbitrary: s vs rule: path_str.induct) (auto split: if_splits option.splits)

lemma sum_nlen: "sum_list (map nlen ns) = length (concat (map nkey ns))"
  by (simp add: length_concat comp_def)

lemma hybrid_match_ok:
  assumes inv: "hybrid_inv lk h"
  shows "\<exists>h1 m. hybrid_match_prefix tic ids pooled h = Inr (h1, m) \<and> hybrid_inv lk h1 \<and>
     page_size (full h1) = page_size (full h) \<and> hybrid_size_info h1 = hybrid_size_info h \<and>
     cache_content (full h1) = cache_content (full h) \<and>
     mset (slot_list (kids (hroot h1))) = mset (slot_list (kids (hroot h))) \<and>
     m_cached_len m \<le> length ids \<and>
     handle_str (full h1) \<lparr>cached_len = m_cached_len m, hnode = m_node m\<rparr> = Some (take (m_cached_len m) ids, kv_indices m) \<and>
     (case m_mamba_value m of None \<Rightarrow> m_cached_len m = 0 \<and> m_node m = uuid (hroot h1)
      | Some slot \<Rightarrow> \<exists>n. find_node (m_node m) (hroot h1) = Inr n \<and> usable pooled n \<and> mamba_value (attr n) = Some slot \<and>
          m_node m \<noteq> uuid (hroot h1)) \<and>
     (\<forall>x \<in> set (flat (kids (hroot h1))). \<forall>j \<le> length ids. usable pooled x \<longrightarrow>
        (\<exists>vs. path_str (uuid x) (kids (hroot h1)) = Some (take j ids, vs)) \<longrightarrow> j \<le> m_cached_len m)"
proof -
  note D = hybrid_invD[OF inv]
  let ?ps = "page_size (full h)"
  obtain r u l c' where w: "tree_walk ?ps tic (counter (full h)) ids (hroot h) = Inr (r, u, l, c')"
    and str: "u = uuid r \<and> l = 0 \<or> u \<noteq> uuid r \<and> (\<exists>vs. path_str u (kids r) = Some (take l ids, vs) \<and> length vs = l)"
    and max: "l + ?ps \<le> length ids \<Longrightarrow> [] @ take (l + ?ps) ids \<notin> fst ` set (content [] (kids (hroot h)))"
    and ll: "l \<le> length ids" "?ps dvd l"
    by (rule tree_walk_ok[OF D(11), where tic = tic and ids = ids and pre = "[]"]) blast
  define h1 where "h1 = h\<lparr>full := (full h)\<lparr>root_node := r, counter := c'\<rparr>\<rparr>"
  have H: "hybrid_inv lk h1" "mset (slot_list (kids r)) = mset (slot_list (kids (hroot h)))"
    using hybrid_walk[OF inv w] by (simp_all add: h1_def)
  note D1 = hybrid_invD[OF H(1)]
  have t: "tree_inv ?ps c' r" using D1(11) by (simp add: h1_def)
  note I = tree_invD[OF t]
  have cont: "cache_content (full h1) = cache_content (full h)"
    using match_prefix_correct[OF D(1), of tic ids] w by (auto simp: match_prefix_def h1_def)
  have deep: "j \<le> l \<and> (\<exists>p. path_kids u (kids r) = Some p \<and> uuid x \<in> set p) \<and> u \<noteq> uuid r"
    if x: "x \<in> set (flat (kids r))" "j \<le> length ids" "path_str (uuid x) (kids r) = Some (take j ids, vs)" for x j vs
  proof -
    have j0: "0 < j" "?ps dvd j"
    proof -
      have "take j ids \<noteq> []" using path_str_nonempty[OF x(3) I(2)] .
      then show "0 < j" by auto
      have "?ps dvd length (take j ids)" by (rule path_str_dvd[OF x(3) I(2)])
      then show "?ps dvd j" using x(2) by (simp add: min_absorb2)
    qed
    have jl: "j \<le> l"
    proof (rule ccontr)
      assume "\<not> j \<le> l"
      then have le: "l + ?ps \<le> j" using dvd_step[OF ll(2) j0(2)] by simp
      obtain i where i: "l + ?ps = Suc i" using I(1) by (cases "l + ?ps") auto
      have "([] @ take (Suc i) (take j ids), vs ! i) \<in> set (content [] (kids r))"
        by (rule path_str_content[OF x(3) I(2)]) (use le i x(2) in simp)
      then have "take (l + ?ps) ids \<in> fst ` set (content [] (kids r))" using le i by (force simp: min_def)
      then show False using max le x(2) cont by (simp add: h1_def)
    qed
    then have u: "u \<noteq> uuid r" using str j0(1) by auto
    then obtain ws where ws: "path_str u (kids r) = Some (take l ids, ws)" using str by auto
    obtain p where p: "path_kids u (kids r) = Some p" using path_str_kids[OF ws] by blast
    have "take l ids = take j ids @ drop j (take l ids)" using jl by (metis append_take_drop_id min_absorb1 take_take)
    then have "uuid x \<in> set p" using path_str_above[OF x(3) _ I(2,1,4) p] ws by metis
    then show ?thesis using jl p u by blast
  qed
  have P1: "page_size (full h1) = ?ps" "hybrid_size_info h1 = hybrid_size_info h" "hroot h1 = r"
    by (simp_all add: h1_def hybrid_size_info_def)
  show ?thesis
  proof (cases "u = uuid r")
    case True
    define m where "m = \<lparr>kv_indices = [], m_cached_len = 0, m_mamba_value = None, m_node = uuid r, sumless_len = 0\<rparr>"
    have "hybrid_match_prefix tic ids pooled h = Inr (h1, m)"
      using w True by (simp add: hybrid_match_prefix_def path_nodes_def chain_def h1_def m_def)
    moreover have "handle_str (full h1) \<lparr>cached_len = 0, hnode = uuid r\<rparr> = Some ([], [])"
      by (simp add: handle_str_def P1(3))
    ultimately show ?thesis using H cont P1 deep True
      by (intro exI[of _ h1] exI[of _ m]) (simp add: m_def, blast)
  next
    case False
    then obtain ws where ws: "path_str u (kids r) = Some (take l ids, ws)" "length ws = l" using str by auto
    obtain p where p: "path_kids u (kids r) = Some p" using path_str_kids[OF ws(1)] by blast
    note N = path_nodes_ok[OF t False p]
    define ns where "ns = path_of r (rev p)"
    have ns: "ns = rev (path_of r p)" by (simp add: ns_def path_of_def rev_map)
    obtain res e sl where ml: "match_loop pooled ns (sum_list (map nlen ns)) False 0 = (res, e, sl)"
      by (cases "match_loop pooled ns (sum_list (map nlen ns)) False 0") auto
    note M = match_loop_ok[OF ml]
    have onpath: "x \<in> set ns" if "x \<in> set (flat (kids r))" "uuid x \<in> set p" for x
      using that find_kids_unique[OF I(4) that(1)] by (force simp: ns_def path_of_def)
    have walk: "hybrid_match_prefix tic ids pooled h = (case (res, e, sl) of
        (Some cur, end_len, sl) \<Rightarrow> rbind (collect_kv (uuid cur) r) (\<lambda>kv.
           Inr (h1, \<lparr>kv_indices = kv, m_cached_len = end_len, m_mamba_value = mamba_value (attr cur),
                     m_node = uuid cur, sumless_len = sl\<rparr>))
      | (None, _, sl) \<Rightarrow> Inr (h1, \<lparr>kv_indices = [], m_cached_len = 0, m_mamba_value = None,
                     m_node = uuid r, sumless_len = sl\<rparr>))"
      unfolding h1_def using w N(1) ml[unfolded ns_def] by (simp add: hybrid_match_prefix_def Let_def)
    show ?thesis
    proof (cases res)
      case None
      define m where "m = \<lparr>kv_indices = [], m_cached_len = 0, m_mamba_value = None, m_node = uuid r, sumless_len = sl\<rparr>"
      have m: "hybrid_match_prefix tic ids pooled h = Inr (h1, m)" using walk None by (simp add: m_def)
      have "\<not> usable pooled x" if "x \<in> set (flat (kids r))" "j \<le> length ids"
        "path_str (uuid x) (kids r) = Some (take j ids, vs)" for x j vs
        using deep[OF that] onpath[OF that(1)] M None p by auto
      moreover have "handle_str (full h1) \<lparr>cached_len = 0, hnode = uuid r\<rparr> = Some ([], [])"
        by (simp add: handle_str_def P1(3))
      ultimately show ?thesis using m H cont P1
        by (intro exI[of _ h1] exI[of _ m]) (simp add: m_def, blast)
    next
      case (Some n)
      then obtain pre post where pp: "usable pooled n" "ns = pre @ n # post" "\<forall>y \<in> set pre. \<not> usable pooled y"
        "e = sum_list (map nlen (n # post))" using M by auto
      have "n \<in> set (path_of r p)" using pp(2) ns by (metis in_set_conv_decomp set_rev)
      from N(3)[OF this] have n: "n \<in> set (flat (kids r))" "uuid n \<in> set p" "find_node (uuid n) r = Inr n" by auto
      have pd: "path_of r p = rev post @ n # rev pre" using pp(2) ns by (metis append.assoc append_Cons append_Nil rev.simps(2) rev_append rev_rev_ident)
      have split: "p = map uuid (rev post) @ uuid n # map uuid (rev pre)"
      proof -
        have "map uuid (path_of r p) = p"
        proof -
          have "uuid (the (find_kids w (kids r))) = w" if "w \<in> set p" for w
          proof -
            have "w \<in> set (uuids (kids r))" using path_kids_set[OF p] that by blast
            then obtain y where "find_kids w (kids r) = Some y" using find_kids_None by (metis not_None_eq)
            then show ?thesis using find_kids_flat by fastforce
          qed
          then show ?thesis by (simp add: path_of_def map_idI)
        qed
        then show ?thesis using pd by (metis list.simps(9) map_append)
      qed
      have nr: "uuid n \<noteq> uuid r" using flat_uuid[OF n(1)] I(5) by metis
      have pn: "path_kids (uuid n) (kids r) = Some (map uuid (rev post) @ [uuid n])"
        by (rule path_kids_prefix[OF _ I(4)]) (use p split in simp)
      have po: "path_of r (map uuid (rev post) @ [uuid n]) = rev post @ [n]"
        using pd unfolding split by (simp add: path_of_def)
      note Nn = path_nodes_ok[OF t nr pn]
      have strn: "path_str (uuid n) (kids r) = Some (concat (map nkey (rev post @ [n])), concat (map nvalue (rev post @ [n])))"
        using Nn(2) po by simp
      have le: "e = length (concat (map nkey (rev post @ [n])))" using pp(4) by (simp add: length_concat comp_def sum_list_rev flip: rev_map)
      have pre: "concat (map nkey (rev post @ [n])) = take e ids" "e \<le> l"
      proof -
        have "take l ids = concat (map nkey (path_of r p))" using N(2) ws(1) by simp
        also have "\<dots> = concat (map nkey (rev post @ [n])) @ concat (map nkey (rev pre))" by (simp add: pd)
        finally have a: "take l ids = concat (map nkey (rev post @ [n])) @ concat (map nkey (rev pre))" .
        have "length (take l ids) = e + length (concat (map nkey (rev pre)))" unfolding a le by simp
        then show "e \<le> l" using ll(1) by simp
        then show "concat (map nkey (rev post @ [n])) = take e ids" using a le by (metis append_eq_conv_conj min_absorb1 take_take)
      qed
      have kv: "collect_kv (uuid n) r = Inr (concat (map nvalue (rev post @ [n])))"
        using Nn(1) po by (simp add: collect_kv_def path_of_def rev_map)
      define m where "m = \<lparr>kv_indices = concat (map nvalue (rev post @ [n])), m_cached_len = e,
         m_mamba_value = mamba_value (attr n), m_node = uuid n, sumless_len = sl\<rparr>"
      have m: "hybrid_match_prefix tic ids pooled h = Inr (h1, m)" using walk Some kv by (simp add: m_def)
      have deepest: "j \<le> e" if x: "x \<in> set (flat (kids r))" "j \<le> length ids" "usable pooled x"
        "path_str (uuid x) (kids r) = Some (take j ids, vs)" for x j vs
      proof -
        have "x \<in> set ns" using onpath[OF x(1)] deep[OF x(1,2,4)] p by auto
        then have "x \<in> set (n # post)" using pp(2,3) x(3) by auto
        then have xin: "x \<in> set (rev post @ [n])" by auto
        then obtain q1 q2 where q: "rev post @ [n] = q1 @ x # q2" using split_list by metis
        have "map uuid (rev post) @ [uuid n] = map uuid (rev post @ [n])" by simp
        also have "\<dots> = map uuid q1 @ uuid x # map uuid q2" unfolding q by simp
        finally have pn': "path_kids (uuid n) (kids r) = Some (map uuid q1 @ uuid x # map uuid q2)" using pn by simp
        have "path_kids (uuid x) (kids r) = Some (map uuid q1 @ [uuid x])"
          by (rule path_kids_prefix[OF pn' I(4)])
        moreover have xr: "uuid x \<noteq> uuid r" using flat_uuid[OF x(1)] I(5) by metis
        ultimately have "take j ids = concat (map nkey (path_of r (map uuid q1 @ [uuid x])))"
          using path_nodes_ok(2)[OF t xr] x(4) by simp
        also have "path_of r (map uuid q1 @ [uuid x]) = q1 @ [x]"
        proof -
          have "path_of r (map uuid (rev post @ [n])) = rev post @ [n]" using po by simp
          then have "path_of r (map uuid (q1 @ x # q2)) = q1 @ x # q2" unfolding q .
          then show ?thesis by (simp add: path_of_def)
        qed
        finally have "j = length (concat (map nkey (q1 @ [x])))" using x(2) by (metis length_take min_absorb2)
        also have "\<dots> \<le> e" unfolding le q by simp
        finally show ?thesis .
      qed
      show ?thesis
        using m H cont P1 pre strn nr n(3) pp(1) ll(1) deepest
        by (intro exI[of _ h1] exI[of _ m]) (auto simp: m_def handle_str_def usable_def)
    qed
  qed
qed

subsection \<open>Changing one node's snapshot\<close>

text \<open>The part of the invariant about snapshots.\<close>

definition snap_inv :: "(nat \<Rightarrow> int) \<Rightarrow> hybrid \<Rightarrow> bool" where
  "snap_inv lk h \<longleftrightarrow> mamba_evictable h = esum snap_evictable (kids (hroot h)) \<and>
     mamba_protected h = esum snap_protected (kids (hroot h)) \<and>
     (\<forall>e \<in> set (ents (kids (hroot h))). snap_ok lk e) \<and> pooled_len_ok (kids (hroot h)) \<and>
     mamba_value (attr (hroot h)) = None"

lemma hybrid_inv_snap: "hybrid_inv lk h \<Longrightarrow> snap_inv lk h"
  by (simp add: hybrid_inv_def snap_inv_def)

lemma snap_inv_upd:
  assumes inv: "hybrid_inv lk h" and n: "find_node u (hroot h) = Inr n" "u \<noteq> uuid (hroot h)"
    and lk: "\<And>w. w \<noteq> u \<Longrightarrow> lk2 w = lk w" and ok: "snap_ok lk2 (u, f (attr n), nkey n, nvalue n)"
    and pool: "pooled_sums (f (attr n)) \<noteq> None \<Longrightarrow>
      map_option (\<lambda>q. length (fst q)) (path_str u (kids (hroot h))) = Some (pooled_count (f (attr n)))"
    and h': "hroot h' = upd u f (hroot h)"
    "mamba_evictable h' = mamba_evictable h - snap_evictable (u, attr n, nkey n, nvalue n) + snap_evictable (u, f (attr n), nkey n, nvalue n)"
    "mamba_protected h' = mamba_protected h - snap_protected (u, attr n, nkey n, nvalue n) + snap_protected (u, f (attr n), nkey n, nvalue n)"
  shows "snap_inv lk2 h'"
proof -
  note D = hybrid_invD[OF inv]
  note I = tree_invD[OF D(11)] and E = find_node_entry[OF n]
  have k: "kids (hroot h') = upd_kids u f (kids (hroot h))" by (simp add: h'(1) kids_upd)
  have s: "\<forall>e \<in> set (ents (kids (hroot h'))). snap_ok lk2 e"
    unfolding k
  proof (rule ents_upd_ball[OF I(4) E(1)])
    show "\<forall>e \<in> set (ents (kids (hroot h))). fst e \<noteq> u \<longrightarrow> snap_ok lk2 e"
      using D(8) lk by (auto simp: snap_ok_def)
  qed (rule ok)
  have p: "pooled_len_ok (kids (hroot h'))"
  proof -
    have "\<forall>e \<in> set (ents (kids (hroot h'))). pooled_sums (fst (snd e)) \<noteq> None \<longrightarrow>
      map_option (\<lambda>q. length (fst q)) (path_str (fst e) (kids (hroot h))) = Some (pooled_count (fst (snd e)))"
      unfolding k by (rule ents_upd_ball[OF I(4) E(1)]) (use D(9) pool in \<open>auto simp: pooled_len_ok_def\<close>)
    then show ?thesis unfolding pooled_len_ok_def k by auto
  qed
  show ?thesis unfolding snap_inv_def using s p esum_upd_kids[OF E(1) I(4), of _ f] D(6,7,10) attr_upd[OF n(2)]
    by (simp add: h' k kids_upd)
qed

lemma hybrid_upd_inv:
  assumes inv: "hybrid_inv lk h" and n: "find_node u (hroot h) = Inr n" "u \<noteq> uuid (hroot h)"
    and f: "\<And>a. ref_count (f a) = ref_count a" and full: "full h' = (full h)\<lparr>root_node := upd u f (hroot h)\<rparr>"
    and s: "snap_inv lk h'"
  shows "hybrid_inv lk h'"
proof -
  note D = hybrid_invD[OF inv]
  have "refs_exact lk (kids (hroot h'))"
    using refs_exact_upd_kids[of f lk u] f D(2) by (simp add: full kids_upd)
  moreover have "radix_inv (full h')" unfolding full by (rule radix_inv_upd[OF D(1) n(2) f])
  moreover have "x = uuid (hroot h') \<or> x \<in> set (uuids (kids (hroot h')))" if "0 < lk x" for x
    using D(5)[OF that] by (simp add: full kids_upd del: set_map)
  ultimately show ?thesis using s D(3,4) by (intro hybrid_invI) (simp_all add: snap_inv_def full del: set_map)
qed

subsection \<open>Locking\<close>

lemma upd_set_snap:
  assumes "\<And>a. mamba_value (f a) = mamba_value a \<and> mamba_ref_count (f a) = mamba_ref_count a \<and>
    pooled_sums (f a) = pooled_sums a \<and> pooled_count (f a) = pooled_count a"
  shows "esum snap_evictable (upd_set S f cs) = esum snap_evictable cs"
    "esum snap_protected (upd_set S f cs) = esum snap_protected cs"
    "(\<forall>e \<in> set (ents (upd_set S f cs)). snap_ok lk e) = (\<forall>e \<in> set (ents cs). snap_ok lk e)"
    "pooled_len_ok (upd_set S f cs) = pooled_len_ok cs" "slot_list (upd_set S f cs) = slot_list cs"
proof -
  show "esum snap_evictable (upd_set S f cs) = esum snap_evictable cs"
    "esum snap_protected (upd_set S f cs) = esum snap_protected cs"
    "slot_list (upd_set S f cs) = slot_list cs"
    by (induction cs rule: ents.induct)
      (simp_all add: esum_def snap_evictable_def snap_protected_def assms)
  show "(\<forall>e \<in> set (ents (upd_set S f cs)). snap_ok lk e) = (\<forall>e \<in> set (ents cs). snap_ok lk e)"
  proof -
    have "snap_ok lk (w, f a, k, v) = snap_ok lk (w, a, k, v)" for w a k v by (simp add: snap_ok_def assms)
    then show ?thesis by (induction cs rule: ents.induct) (simp_all add: ball_Un)
  qed
  have "pooled_sums (if P then f a else a) = pooled_sums a" "pooled_count (if P then f a else a) = pooled_count a" for P a
    using assms by auto
  then show "pooled_len_ok (upd_set S f cs) = pooled_len_ok cs"
    unfolding pooled_len_ok_def path_str_upd_set ents_upd_set by (auto simp: split_beta)
qed

lemma lock_snap:
  assumes i: "radix_inv s" and live: "live_handle s hh" and m: "lock_handle s hh unlock = Inr s'"
    and hold: "unlock \<Longrightarrow> holds_lock s hh"
    and si: "snap_inv lk (h\<lparr>full := s\<rparr>)"
  shows "snap_inv lk (h\<lparr>full := s'\<rparr>)" "uuids (kids (root_node s')) = uuids (kids (root_node s))"
    "uuid (root_node s') = uuid (root_node s)" "slot_list (kids (root_node s')) = slot_list (kids (root_node s))"
    "\<And>w. path_str w (kids (root_node s')) = path_str w (kids (root_node s))"
proof -
  obtain p where p: "chain (hnode hh) (root_node s) = Inr p" using live_chain[OF i live] by metis
  obtain f where f: "\<And>a. mamba_value (f a) = mamba_value a \<and> mamba_ref_count (f a) = mamba_ref_count a \<and>
      pooled_sums (f a) = pooled_sums a \<and> pooled_count (f a) = pooled_count a"
    and r: "root_node s' = Node (uuid (root_node s)) (attr (root_node s)) (nkey (root_node s)) (nvalue (root_node s))
          (upd_set (set p) f (kids (root_node s)))"
  proof (cases unlock)
    case True
    then show thesis using unlock_handle_ok[OF i hold[OF True]] m p that[of dec_ref] by auto
  next
    case False
    then show thesis using lock_handle_ok[OF i live] m p that[of inc_ref] by auto
  qed
  note u = upd_set_snap[of f, OF f]
  show "snap_inv lk (h\<lparr>full := s'\<rparr>)" using si u by (simp add: snap_inv_def r)
  show "uuids (kids (root_node s')) = uuids (kids (root_node s))"
    "uuid (root_node s') = uuid (root_node s)" "slot_list (kids (root_node s')) = slot_list (kids (root_node s))"
    "\<And>w. path_str w (kids (root_node s')) = path_str w (kids (root_node s))"
    using u by (simp_all add: r del: set_map)
qed

text \<open>Both lock operations change the snapshot's count on the node and then run a locking loop.\<close>

lemma lock_step_ok:
  fixes unlock :: bool
  defines "d \<equiv> (if unlock then - 1 else 1 :: int)"
  assumes inv: "hybrid_inv lk h" and live: "u = uuid (hroot h) \<or> u \<in> set (uuids (kids (hroot h)))"
    and held: "unlock \<Longrightarrow> 0 < lk u"
    and h1: "radix_inv (full h1)" "refs_exact lk (kids (hroot h1))" "snap_inv (lk(u := lk u + d)) h1"
      "uuids (kids (hroot h1)) = uuids (kids (hroot h))" "uuid (hroot h1) = uuid (hroot h)"
      "counter (full h1) = counter (full h)"
  shows "\<exists>p s. chain u (hroot h1) = Inr p \<and> (if unlock then unlock_loop p (full h1) else lock_loop p (full h1)) = Inr s \<and>
    uuids (kids (root_node s)) = uuids (kids (hroot h1)) \<and> uuid (root_node s) = uuid (hroot h1) \<and> counter s = counter (full h1) \<and>
    hybrid_inv (lk(u := lk u + d)) (h1\<lparr>full := s\<rparr>) \<and> slot_list (kids (root_node s)) = slot_list (kids (hroot h1)) \<and>
    cache_content s = cache_content (full h1) \<and>
    evictable_size s + protected_size s = evictable_size (full h1) + protected_size (full h1) \<and>
    (\<forall>w. path_str w (kids (root_node s)) = path_str w (kids (hroot h1)))"
proof -
  note D = hybrid_invD[OF inv]
  let ?lk = "lk(u := lk u + d)" and ?hd = "\<lparr>cached_len = 0, hnode = u\<rparr>"
  have live1: "live_handle (full h1) ?hd" using live h1(4,5) by (simp add: live_handle_def del: set_map)
  have hold: "holds_lock (full h1) ?hd" if unlock
    by (rule refs_exact_holds_lock(1)[OF h1(1,2) live1]) (use held[OF that] in simp)
  obtain p where p: "chain u (hroot h1) = Inr p" using live_chain[OF h1(1) live1] by auto
  have "\<exists>s. lock_handle (full h1) ?hd unlock = Inr s \<and> radix_inv s \<and> page_size s = page_size (full h1) \<and>
      counter s = counter (full h1) \<and>
      evictable_size s + protected_size s = evictable_size (full h1) + protected_size (full h1) \<and>
      cache_content s = cache_content (full h1)"
  proof (cases unlock)
    case True
    then show ?thesis using unlock_handle_ok[OF h1(1) hold] by auto
  next
    case False
    then show ?thesis using lock_handle_ok[OF h1(1) live1] by auto
  qed
  then obtain s where s: "lock_handle (full h1) ?hd unlock = Inr s" "radix_inv s" "counter s = counter (full h1)"
    "evictable_size s + protected_size s = evictable_size (full h1) + protected_size (full h1)"
    "cache_content s = cache_content (full h1)" by blast
  have si: "snap_inv ?lk (h1\<lparr>full := full h1\<rparr>)" using h1(3) by simp
  note L = lock_snap[OF h1(1) live1 s(1) hold si, simplified]
  have e: "refs_exact ?lk (kids (root_node s))"
    using unlock_refs_exact[OF h1(1) hold live1 _ h1(2)] lock_refs_exact[OF h1(1) live1 _ h1(2)] s(1)
    by (cases unlock) (simp_all add: d_def)
  have "hybrid_inv ?lk (h1\<lparr>full := s\<rparr>)"
  proof (rule hybrid_invI)
    show "0 \<le> ?lk w" for w using D(3)[of w] held by (cases "w = u"; cases unlock) (auto simp: d_def)
    have "u < counter (full h)"
      using live tree_invD(8,9)[OF D(11)] by blast
    then show "?lk c = 0" if "counter (full (h1\<lparr>full := s\<rparr>)) \<le> c" for c using D(4)[of c] that s(3) h1(6) by auto
    show "x = uuid (hroot (h1\<lparr>full := s\<rparr>)) \<or> x \<in> set (uuids (kids (hroot (h1\<lparr>full := s\<rparr>))))" if "0 < ?lk x" for x
      using D(5)[of x] live that L(2,3) h1(4,5) by (auto simp del: set_map split: if_splits)
  qed (use L(1) s(2) e in \<open>simp_all add: snap_inv_def\<close>)
  then show ?thesis using p s L by (intro exI[of _ p] exI[of _ s]) (simp add: lock_handle_def)
qed


text \<open>What the two operations keep of the cache while they change counts.\<close>

definition same_content :: "hybrid \<Rightarrow> hybrid \<Rightarrow> bool" where
  "same_content h h' \<longleftrightarrow> uuids (kids (hroot h')) = uuids (kids (hroot h)) \<and> uuid (hroot h') = uuid (hroot h) \<and>
     counter (full h') = counter (full h) \<and> mset (slot_list (kids (hroot h'))) = mset (slot_list (kids (hroot h))) \<and>
     cache_content (full h') = cache_content (full h) \<and>
     mamba_evictable h' + mamba_protected h' = mamba_evictable h + mamba_protected h \<and>
     evictable_size (full h') + protected_size (full h') = evictable_size (full h) + protected_size (full h) \<and>
     (\<forall>w. path_str w (kids (hroot h')) = path_str w (kids (hroot h)))"

lemma mref_step:
  fixes d :: int
  defines "f \<equiv> \<lambda>a. a\<lparr>mamba_ref_count := mamba_ref_count a + d\<rparr>"
  assumes inv: "hybrid_inv lk h" and n: "find_node u (hroot h) = Inr n" and mv: "mamba_value (attr n) \<noteq> None"
    and c: "0 \<le> mamba_ref_count (attr n) + d" 
    and full: "full h1 = (full h)\<lparr>root_node := upd u f (hroot h)\<rparr>"
    and e: "mamba_evictable h1 = mamba_evictable h - (if mamba_ref_count (attr n) = 0 then 1 else 0) + (if mamba_ref_count (attr n) + d = 0 then 1 else 0)"
    and p: "mamba_protected h1 = mamba_protected h - (if mamba_ref_count (attr n) = 0 then 0 else 1) + (if mamba_ref_count (attr n) + d = 0 then 0 else 1)"
  shows "radix_inv (full h1) \<and> refs_exact lk (kids (hroot h1)) \<and> snap_inv (lk(u := lk u + d)) h1 \<and> same_content h h1"
proof -
  note D = hybrid_invD[OF inv] and I = tree_invD[OF hybrid_invD(11)[OF inv]]
  have ur: "u \<noteq> uuid (hroot h)" using n D(10) mv by (auto simp: find_node_def)
  note E = find_node_entry[OF n ur]
  have ok: "snap_ok lk (u, attr n, nkey n, nvalue n)" using D(8) E(1) by blast
  have "snap_inv (lk(u := lk u + d)) h1"
  proof (rule snap_inv_upd[OF inv n ur, where f = f])
    show "map_option (\<lambda>q. length (fst q)) (path_str u (kids (hroot h))) = Some (pooled_count (f (attr n)))"
      if "pooled_sums (f (attr n)) \<noteq> None" using D(9) E(1) that by (fastforce simp: pooled_len_ok_def f_def)
  qed (use ok mv c e p full in \<open>auto simp: snap_ok_def f_def snap_evictable_def snap_protected_def\<close>)
  moreover have "mset (slot_list (upd_kids u f (kids (hroot h)))) = mset (slot_list (kids (hroot h)))"
    using slot_list_upd[OF I(4) E(1), of f] by (simp add: f_def)
  ultimately show ?thesis
    using radix_inv_upd[OF D(1) ur, of f] refs_exact_upd_kids[of f lk u] D(2) e p
    by (simp add: full kids_upd f_def same_content_def)
qed

lemma live_find_node:
  assumes "hybrid_inv lk h" "u = uuid (hroot h) \<or> u \<in> set (uuids (kids (hroot h)))"
  obtains n where "find_node u (hroot h) = Inr n"
  using assms(2) find_node_ex[of u "hroot h"] tree_invD(5)[OF hybrid_invD(11)[OF assms(1)]]
  by (cases "u = uuid (hroot h)") (auto simp: find_node_def)

lemma inc_lock_ok:
  assumes inv: "hybrid_inv lk h" and live: "u = uuid (hroot h) \<or> u \<in> set (uuids (kids (hroot h)))"
  shows "\<exists>h'. inc_lock u h = Inr h' \<and> hybrid_inv (lk(u := lk u + 1)) h' \<and> same_content h h'"
proof -
  note D = hybrid_invD[OF inv]
  let ?lk = "lk(u := lk u + 1)"
  let ?f = "\<lambda>a. a\<lparr>mamba_ref_count := mamba_ref_count a + 1\<rparr>"
  obtain n where n: "find_node u (hroot h) = Inr n" by (rule live_find_node[OF inv live])
  define h1 where "h1 = (if mamba_value (attr n) \<noteq> None
                 then set_hroot (upd u ?f (hroot h))
                        (if mamba_ref_count (attr n) = 0
                         then h\<lparr>mamba_evictable := mamba_evictable h - 1, mamba_protected := mamba_protected h + 1\<rparr>
                         else h)
                 else h)"
  have P: "radix_inv (full h1) \<and> refs_exact lk (kids (hroot h1)) \<and> snap_inv ?lk h1 \<and> same_content h h1"
  proof (cases "mamba_value (attr n) = None")
    case True
    have "\<forall>e \<in> set (ents (kids (hroot h))). snap_ok ?lk e" using D(8) by (fastforce simp: snap_ok_def)
    then show ?thesis using True D by (simp add: h1_def snap_inv_def same_content_def)
  next
    case False
    then have "u \<noteq> uuid (hroot h)" using n D(10) by (auto simp: find_node_def)
    then have "0 \<le> mamba_ref_count (attr n)" using D(8) find_node_entry(1)[OF n] by (fastforce simp: snap_ok_def)
    then show ?thesis by (intro mref_step[OF inv n False]) (auto simp: h1_def False)
  qed
  from lock_step_ok[OF inv live, of False h1] P
  obtain p s where ps: "chain u (hroot h1) = Inr p" "lock_loop p (full h1) = Inr s"
    "hybrid_inv ?lk (h1\<lparr>full := s\<rparr>)" "same_content h (h1\<lparr>full := s\<rparr>)"
    by (auto simp: same_content_def)
  have "inc_lock u h = Inr (h1\<lparr>full := s\<rparr>)" using n ps(1,2) by (simp add: inc_lock_def h1_def Let_def)
  then show ?thesis using ps by blast
qed

lemma dec_lock_ok:
  assumes inv: "hybrid_inv lk h" and live: "u = uuid (hroot h) \<or> u \<in> set (uuids (kids (hroot h)))" and held: "0 < lk u"
  shows "\<exists>h'. dec_lock u h = Inr h' \<and> hybrid_inv (lk(u := lk u - 1)) h' \<and> same_content h h'"
proof -
  note D = hybrid_invD[OF inv]
  let ?lk = "lk(u := lk u - 1)"
  let ?f = "\<lambda>a. a\<lparr>mamba_ref_count := mamba_ref_count a - 1\<rparr>"
  obtain n where n: "find_node u (hroot h) = Inr n" by (rule live_find_node[OF inv live])
  define h1 where "h1 = (if mamba_value (attr n) \<noteq> None \<and> 0 < mamba_ref_count (attr n)
                 then set_hroot (upd u ?f (hroot h))
                        (if mamba_ref_count (attr n) - 1 = 0
                         then h\<lparr>mamba_evictable := mamba_evictable h + 1, mamba_protected := mamba_protected h - 1\<rparr>
                         else h)
                 else h)"
  have P: "radix_inv (full h1) \<and> refs_exact lk (kids (hroot h1)) \<and> snap_inv ?lk h1 \<and> same_content h h1"
  proof (cases "mamba_value (attr n) \<noteq> None \<and> 0 < mamba_ref_count (attr n)")
    case False
    then have z: "u = uuid (hroot h) \<or> mamba_ref_count (attr n) = 0" 
      using D(8) find_node_entry(1)[OF n] by (fastforce simp: snap_ok_def)
    have "\<forall>e \<in> set (ents (kids (hroot h))). snap_ok ?lk e"
    proof
      fix e assume e: "e \<in> set (ents (kids (hroot h)))"
      show "snap_ok ?lk e"
      proof (cases "fst e = u")
        case True
        obtain a k v where ek: "e = (u, a, k, v)" using True by (cases e) auto
        have "u \<in> set (uuids (kids (hroot h)))" using e True by force
        then have ur: "u \<noteq> uuid (hroot h)" using tree_invD(5)[OF D(11)] by metis
        have "a = attr n"
          using eq_key_imp_eq_value[OF tree_invD(4)[OF D(11)] e[unfolded ek] find_node_entry(1)[OF n ur]] by simp
        then show ?thesis using D(8) e held z ur by (fastforce simp: snap_ok_def ek)
      next
        case False
        then show ?thesis using D(8) e by (fastforce simp: snap_ok_def)
      qed
    qed
    moreover have "h1 = h" unfolding h1_def using False by (rule if_not_P)
    ultimately show ?thesis using D by (simp add: snap_inv_def same_content_def)
  next
    case True
    then show ?thesis by (intro mref_step[OF inv n, of "- 1", simplified]) (auto simp: h1_def)
  qed
  note L = lock_step_ok[OF inv live, of True h1, simplified]
  from L[OF held] P
  obtain p s where ps: "chain u (hroot h1) = Inr p" "unlock_loop p (full h1) = Inr s"
    "hybrid_inv ?lk (h1\<lparr>full := s\<rparr>)" "same_content h (h1\<lparr>full := s\<rparr>)"
    unfolding same_content_def by auto
  have "dec_lock u h = Inr (h1\<lparr>full := s\<rparr>)" using n ps(1,2) by (simp add: dec_lock_def h1_def Let_def)
  then show ?thesis using ps by blast
qed

subsection \<open>Insertion\<close>

lemma mset_ents_add_child:
  assumes "tree_inv ps c r" "u = uuid r \<or> u \<in> set (uuids (kids r))"
  shows "mset (ents (kids (add_child u (Node w a k v []) r))) = add_mset (w, a, k, v) (mset (ents (kids r)))"
  using assms(2) mset_ents_add_kids[OF tree_invD(4)[OF assms(1)], of u]
  by (cases "u = uuid r") (simp_all add: kids_add_child del: set_map)

definition slot_of :: "entry \<Rightarrow> int multiset" where
  "slot_of = (\<lambda>(u, a, k, v). case mamba_value a of None \<Rightarrow> {#} | Some x \<Rightarrow> {#x#})"

lemma mset_slot_list: "mset (slot_list cs) = \<Sum>\<^sub># (image_mset slot_of (mset (ents cs)))"
  by (induction cs rule: ents.induct) (auto simp: slot_of_def split: option.splits)

lemma hybrid_insert_prefix:
  assumes inv: "hybrid_inv lk h" and len: "length kvs = length ids"
    and m: "insert_prefix tic now ids kvs (full h) = Inr (s, l', hd')"
  shows "hybrid_inv lk (h\<lparr>full := s\<rparr>)" "mset (slot_list (kids (root_node s))) = mset (slot_list (kids (hroot h)))"
proof -
  note D = hybrid_invD[OF inv]
  define ids' where "ids' = take (align_down (length ids) (page_size (full h))) ids"
  obtain r u l c' where w: "tree_walk (page_size (full h)) tic (counter (full h)) ids' (hroot h) = Inr (r, u, l, c')"
    "tree_inv (page_size (full h)) c' r"
    by (rule tree_walk_ok[OF D(11), of tic ids'])
  let ?h1 = "h\<lparr>full := (full h)\<lparr>root_node := r, counter := c'\<rparr>\<rparr>"
  note W = hybrid_walk[OF inv w(1)] and F = tree_walk_frame[OF D(11) w(1)]
  note E = hybrid_invD[OF W(1), simplified]
  have ri: "radix_inv s" using insert_prefix_correct[OF D(1) len, of tic now] m by auto
  have "root_node s = r \<and> counter s = c' \<or>
    (\<exists>k v. root_node s = add_child u (Node c' (fresh_attr 0 now) k v []) r \<and> counter s = Suc c')"
    using m w(1) unfolding insert_prefix_def Let_def ids'_def[symmetric]
    by (fastforce simp: py_assert_eq_Inr split: if_splits)
  then have "hybrid_inv lk (h\<lparr>full := s\<rparr>) \<and> mset (slot_list (kids (root_node s))) = mset (slot_list (kids (hroot h)))"
  proof (elim disjE exE conjE)
    assume s: "root_node s = r" "counter s = c'"
    have "hybrid_inv lk (h\<lparr>full := s\<rparr>)" by (rule hybrid_invI) (use E ri s in simp_all)
    then show ?thesis using W(2) s by simp
  next
    fix k v assume s: "root_node s = add_child u (Node c' (fresh_attr 0 now) k v []) r" "counter s = Suc c'"
    note M = mset_ents_add_child[OF w(2) F(5), of c' "fresh_attr 0 now" k v, folded s(1)]
    have set: "set (ents (kids (root_node s))) = insert (c', fresh_attr 0 now, k, v) (set (ents (kids r)))"
      using M by (metis set_mset_add_mset_insert set_mset_mset)
    have c0: "lk c' = 0" using E(4) by blast
    have sum: "esum f (kids (root_node s)) = f (c', fresh_attr 0 now, k, v) + esum f (kids r)" for f
      unfolding esum_mset M by simp
    have re: "refs_exact lk (kids (root_node s))"
      using refs_exact_add_kids[OF E(2), of "Node c' (fresh_attr 0 now) k v []" u] E(2) c0
      by (simp add: s kids_add_child fresh_attr_def)
    have pl: "pooled_len_ok (kids (root_node s))"
      unfolding pooled_len_ok_def set
    proof (rule ballI, simp only: split_paired_all prod.case, rule impI)
      fix w a b v' assume e: "(w, a, b, v') \<in> insert (c', fresh_attr 0 now, k, v) (set (ents (kids r)))" "pooled_sums a \<noteq> None"
      then have e': "(w, a, b, v') \<in> set (ents (kids r))" by (auto simp: fresh_attr_def)
      then have "w \<in> set (uuids (kids r))" by force
      then have "w \<noteq> c'" using tree_invD(6)[OF w(2)] by metis
      then have "path_str w (kids (root_node s)) = path_str w (kids r)"
        unfolding s by (intro path_str_add_child_old) auto
      then show "map_option (\<lambda>q. length (fst q)) (path_str w (kids (root_node s))) = Some (pooled_count a)"
        using E(9) e' e(2) by (fastforce simp: pooled_len_ok_def)
    qed
    have so: "\<forall>e \<in> set (ents (kids (root_node s))). snap_ok lk e"
      unfolding set using E(8) c0 by (simp add: snap_ok_def fresh_attr_def)
    have "hybrid_inv lk (h\<lparr>full := s\<rparr>)"
    proof (rule hybrid_invI)
      show "x = uuid (hroot (h\<lparr>full := s\<rparr>)) \<or> x \<in> set (uuids (kids (hroot (h\<lparr>full := s\<rparr>))))" if "0 < lk x" for x
        using E(5)[OF that] set by (auto simp: s(1) add_child_def simp del: kids_add_child)
    qed (use E ri s(2) re sum so pl in \<open>simp_all add: snap_evictable_def snap_protected_def fresh_attr_def s(1) add_child_def\<close>)
    moreover have "mset (slot_list (kids (root_node s))) = mset (slot_list (kids r))"
      unfolding mset_slot_list M by (simp add: slot_of_def fresh_attr_def)
    ultimately show ?thesis using W(2) by simp
  qed
  then show "hybrid_inv lk (h\<lparr>full := s\<rparr>)" "mset (slot_list (kids (root_node s))) = mset (slot_list (kids (hroot h)))" by auto
qed


lemma find_kids_upd_kids:
  "find_kids w (upd_kids u f cs) = map_option (\<lambda>n. Node (uuid n) (if u = uuid n then f (attr n) else attr n)
      (nkey n) (nvalue n) (upd_kids u f (kids n))) (find_kids w cs)"
  by (induction u f cs rule: upd_kids.induct) (auto split: option.splits if_splits)

lemma hybrid_donate:
  assumes inv: "hybrid_inv lk h" and n: "find_node u (hroot h) = Inr n" "u \<noteq> uuid (hroot h)"
    and keep: "\<And>a. ref_count (f a) = ref_count a \<and> mamba_ref_count (f a) = mamba_ref_count a"
    and mv: "mamba_value (f (attr n)) \<noteq> None" 
    and ps: "path_str u (kids (hroot h)) = Some (s, vs)"
    and pool: "pooled_sums (f (attr n)) \<noteq> None \<Longrightarrow> pooled_sums (attr n) = pooled_sums (f (attr n)) \<and> pooled_count (attr n) = pooled_count (f (attr n)) \<or>
       pooled_count (f (attr n)) = length s"
    and full: "full h' = (full h)\<lparr>root_node := upd u f (hroot h)\<rparr>"
    and e: "mamba_evictable h' = mamba_evictable h + (if mamba_value (attr n) = None \<and> mamba_ref_count (attr n) = 0 then 1 else 0)"
    and p: "mamba_protected h' = mamba_protected h"
  shows "hybrid_inv lk h'"
    "mset (slot_list (kids (hroot h'))) + (case mamba_value (attr n) of None \<Rightarrow> {#} | Some x \<Rightarrow> {#x#}) =
       mset (slot_list (kids (hroot h))) + {#the (mamba_value (f (attr n)))#}"
    "\<exists>m. find_node u (hroot h') = Inr m \<and> attr m = f (attr n)"
proof -
  note D = hybrid_invD[OF inv] and I = tree_invD[OF hybrid_invD(11)[OF inv]] and E = find_node_entry[OF n]
  have ok: "snap_ok lk (u, attr n, nkey n, nvalue n)" using D(8) E(1) by blast
  have z: "mamba_value (attr n) = None \<Longrightarrow> mamba_ref_count (attr n) = 0" using ok by (auto simp: snap_ok_def)
  have "snap_inv lk h'"
  proof (rule snap_inv_upd[OF inv n, where f = f])
    show "map_option (\<lambda>q. length (fst q)) (path_str u (kids (hroot h))) = Some (pooled_count (f (attr n)))"
      if "pooled_sums (f (attr n)) \<noteq> None"
    proof (cases "pooled_count (f (attr n)) = length s")
      case False
      then have "pooled_sums (attr n) \<noteq> None" "pooled_count (attr n) = pooled_count (f (attr n))" using pool[OF that] that by auto
      then show ?thesis using D(9) E(1) by (fastforce simp: pooled_len_ok_def)
    qed (simp add: ps)
  qed (use ok z mv keep full e p in \<open>auto simp: snap_ok_def snap_evictable_def snap_protected_def\<close>)
  then show "hybrid_inv lk h'" using keep by (intro hybrid_upd_inv[OF inv n _ full]) auto
  show "mset (slot_list (kids (hroot h'))) + (case mamba_value (attr n) of None \<Rightarrow> {#} | Some x \<Rightarrow> {#x#}) =
       mset (slot_list (kids (hroot h))) + {#the (mamba_value (f (attr n)))#}"
    using slot_list_upd[OF I(4) E(1), of f] mv by (auto simp: full kids_upd split: option.splits)
  show "\<exists>m. find_node u (hroot h') = Inr m \<and> attr m = f (attr n)"
    using E(2) n(2) find_node_uuid[OF n(1)] by (auto simp: full find_node_def kids_upd find_kids_upd_kids)
qed

lemma hybrid_insert_ok:
  assumes inv: "hybrid_inv lk h" and len: "length kvs = length ids"
    and sums: "sums = None \<or> page_size (full h) dvd length ids"
  defines "n \<equiv> insert_len (full h) ids"
  shows "\<exists>h' l ex. hybrid_insert tic now ids kvs slot sums kind h = Inr (h', l, ex) \<and> hybrid_inv lk h' \<and>
     l \<le> n \<and> evictable_size (full h') = evictable_size (full h) + int (n - l) \<and> protected_size (full h') = protected_size (full h) \<and>
     mset (cache_content (full h')) =
       mset (cache_content (full h)) + mset (seg (take l ids) (slice l n ids) (slice l n kvs)) \<and>
     mset (slot_list (kids (hroot h'))) = mset (slot_list (kids (hroot h))) + (if ex then {#} else {#slot#}) \<and>
     (n = 0 \<longrightarrow> ex) \<and>
     (n \<noteq> 0 \<longrightarrow> (\<exists>m vs. find_node (uuid m) (hroot h') = Inr m \<and> path_str (uuid m) (kids (hroot h')) = Some (take n ids, vs) \<and>
        usable (sums \<noteq> None) m \<and> (\<not> ex \<longrightarrow> mamba_value (attr m) = Some slot)))"
proof -
  note D = hybrid_invD[OF inv]
  obtain s l hd' vs where I: "insert_prefix tic now ids kvs (full h) = Inr (s, l, hd')" "radix_inv s" "l \<le> n"
    "evictable_size s = evictable_size (full h) + int (n - l)" "protected_size s = protected_size (full h)"
    "mset (cache_content s) = mset (cache_content (full h)) + mset (seg (take l ids) (slice l n ids) (slice l n kvs))"
    "handle_str s hd' = Some (take n ids, vs)" "length vs = n" "cached_len hd' = n"
    using insert_prefix_correct[OF D(1) len, of tic now] unfolding n_def by blast
  note H = hybrid_insert_prefix[OF inv len I(1)]
  have ti: "tree_inv (page_size s) (counter s) (root_node s)" using I(2) by (simp add: radix_inv_def)
  have nl: "n \<le> length ids" by (simp add: n_def insert_len_def align_down_le)
  have al: "sums \<noteq> None \<Longrightarrow> n = length ids" using sums tree_invD(1)[OF D(11)] by (auto simp: n_def insert_len_def align_down_def)
  have il: "align_down (length ids) (page_size (full h)) = n" by (simp add: n_def insert_len_def)
  let ?u = "hnode hd'" and ?h1 = "h\<lparr>full := s\<rparr>"
  have as: "hybrid_insert tic now ids kvs slot sums kind h =
     (if ?u = uuid (root_node s) then Inr (?h1, l, True)
      else rbind (find_node ?u (root_node s)) (\<lambda>n'.
                if mamba_value (attr n') \<noteq> None then
                  Inr (set_hroot (upd ?u (\<lambda>a. let a1 = (if sums \<noteq> None \<and> pooled_sums a = None
                                         then a\<lparr>pooled_sums := sums, pooled_count := n\<rparr> else a)
                               in if kind \<noteq> Chunk then a1\<lparr>snapshot_kind := kind\<rparr> else a1) (root_node s)) ?h1, l, True)
                else
                  let h2 = set_hroot (upd ?u (\<lambda>a. let a1 = a\<lparr>mamba_value := Some slot, snapshot_kind := kind\<rparr>
                               in if sums \<noteq> None then a1\<lparr>pooled_sums := sums, pooled_count := n\<rparr> else a1) (root_node s)) ?h1
                  in Inr (if mamba_ref_count (attr n') = 0 then h2\<lparr>mamba_evictable := mamba_evictable h2 + 1\<rparr> else h2,
                          l, False)))"
  proof -
    have g: "(sums = None \<or> n = length ids) = True" using al by blast
    show ?thesis unfolding hybrid_insert_def il Let_def I(1) g by simp
  qed
  show ?thesis
  proof (cases "?u = uuid (root_node s)")
    case True
    then have "n = 0" using I(7) nl by (auto simp: handle_str_def)
    then show ?thesis using as True H I by (intro exI[of _ ?h1] exI[of _ l] exI[of _ True]) simp
  next
    case False
    then have ps: "path_str ?u (kids (root_node s)) = Some (take n ids, vs)" using I(7) by (simp add: handle_str_def)
    have n0: "n \<noteq> 0" using path_str_nonempty[OF ps tree_invD(2)[OF ti]] by auto
    obtain m where m: "find_node ?u (root_node s) = Inr m"
      using ps find_node_ex[OF _ tree_invD(5)[OF ti], of ?u] path_str_None[of ?u "kids (root_node s)"] by (metis option.distinct(1))
    have m1: "find_node ?u (hroot ?h1) = Inr m" "?u \<noteq> uuid (hroot ?h1)" "path_str ?u (kids (hroot ?h1)) = Some (take n ids, vs)"
      using m False ps by simp_all
    define f1 :: "nattr \<Rightarrow> nattr" where "f1 = (\<lambda>a. let a1 = (if sums \<noteq> None \<and> pooled_sums a = None
                                         then a\<lparr>pooled_sums := sums, pooled_count := n\<rparr> else a)
                               in if kind \<noteq> Chunk then a1\<lparr>snapshot_kind := kind\<rparr> else a1)"
    define f2 :: "nattr \<Rightarrow> nattr" where "f2 = (\<lambda>a. let a1 = a\<lparr>mamba_value := Some slot, snapshot_kind := kind\<rparr>
                               in if sums \<noteq> None then a1\<lparr>pooled_sums := sums, pooled_count := n\<rparr> else a1)"
    have keep1: "ref_count (f1 a) = ref_count a \<and> mamba_ref_count (f1 a) = mamba_ref_count a"
      "mamba_value (f1 a) = mamba_value a" for a by (simp_all add: f1_def Let_def)
    have keep2: "ref_count (f2 a) = ref_count a \<and> mamba_ref_count (f2 a) = mamba_ref_count a"
      "mamba_value (f2 a) = Some slot" for a by (simp_all add: f2_def Let_def)
    show ?thesis
    proof (cases "mamba_value (attr m)")
      case (Some x)
      define h' where "h' = set_hroot (upd ?u f1 (root_node s)) ?h1"
      have res: "hybrid_insert tic now ids kvs slot sums kind h = Inr (h', l, True)"
        unfolding as h'_def f1_def using m False Some by simp
      have B: "hybrid_inv lk h'"
        "mset (slot_list (kids (hroot h'))) + (case mamba_value (attr m) of None \<Rightarrow> {#} | Some x \<Rightarrow> {#x#}) =
         mset (slot_list (kids (hroot ?h1))) + {#the (mamba_value (f1 (attr m)))#}"
        "\<exists>m'. find_node ?u (hroot h') = Inr m' \<and> attr m' = f1 (attr m)"
        by (rule hybrid_donate[OF H(1) m1(1,2), where f = f1, OF keep1(1) _ m1(3)];
            use Some nl in \<open>auto simp: keep1 h'_def f1_def min_def Let_def\<close>)+
      then obtain m' where m': "find_node ?u (hroot h') = Inr m'" "attr m' = f1 (attr m)" by blast
      have us: "usable (sums \<noteq> None) m'" using Some m'(2) by (simp add: usable_def f1_def Let_def)
      have "mset (slot_list (kids (hroot h'))) = mset (slot_list (kids (hroot h)))" using B(2) H(2) Some keep1(2) by simp
      moreover have "path_str ?u (kids (hroot h')) = Some (take n ids, vs)" using ps by (simp add: h'_def kids_upd)
      moreover have "cache_content (full h') = cache_content s" by (simp add: h'_def kids_upd)
      moreover have "evictable_size (full h') = evictable_size s" "protected_size (full h') = protected_size s"
        by (simp_all add: h'_def)
      ultimately show ?thesis using res B(1) I(3-6) us n0 m' find_node_uuid[OF m'(1)]
        by (intro exI[of _ h'] exI[of _ l] exI[of _ True]) (simp, metis)
    next
      case None
      define h' where "h' = (let h2 = set_hroot (upd ?u f2 (root_node s)) ?h1
          in if mamba_ref_count (attr m) = 0 then h2\<lparr>mamba_evictable := mamba_evictable h2 + 1\<rparr> else h2)"
      have res: "hybrid_insert tic now ids kvs slot sums kind h = Inr (h', l, False)"
        unfolding as h'_def f2_def using m False None by (simp add: Let_def)
      have B: "hybrid_inv lk h'"
        "mset (slot_list (kids (hroot h'))) + (case mamba_value (attr m) of None \<Rightarrow> {#} | Some x \<Rightarrow> {#x#}) =
         mset (slot_list (kids (hroot ?h1))) + {#the (mamba_value (f2 (attr m)))#}"
        "\<exists>m'. find_node ?u (hroot h') = Inr m' \<and> attr m' = f2 (attr m)"
        by (rule hybrid_donate[OF H(1) m1(1,2), where f = f2, OF keep2(1) _ m1(3)];
            use None nl in \<open>auto simp: keep2 h'_def f2_def min_def Let_def\<close>)+
      then obtain m' where m': "find_node ?u (hroot h') = Inr m'" "attr m' = f2 (attr m)" by blast
      have us: "usable (sums \<noteq> None) m'" "mamba_value (attr m') = Some slot" using m'(2) by (simp_all add: usable_def f2_def Let_def)
      have "mset (slot_list (kids (hroot h'))) = mset (slot_list (kids (hroot h))) + {#slot#}" using B(2) H(2) None keep2(2) by simp
      moreover have "path_str ?u (kids (hroot h')) = Some (take n ids, vs)" using ps by (simp add: h'_def kids_upd Let_def)
      moreover have "cache_content (full h') = cache_content s" by (simp add: h'_def kids_upd Let_def)
      moreover have "evictable_size (full h') = evictable_size s" "protected_size (full h') = protected_size s"
        by (simp_all add: h'_def Let_def)
      ultimately show ?thesis using res B(1) I(3-6) us n0 m' find_node_uuid[OF m'(1)]
        by (intro exI[of _ h'] exI[of _ l] exI[of _ False]) (simp, metis)
    qed
  qed
qed

end
