(* ===== verification/Hybrid_Evict.thy ===== *)
theory Hybrid_Evict
  imports Hybrid_Inv
begin

text \<open>
  Both evictions of \<^verbatim>\<open>HybridRadixCache\<close>, its integrity check, the traces of a client and the
  properties of the class.
\<close>

subsection \<open>Eviction\<close>

abbreviation kv_pages :: "hybrid \<Rightarrow> int multiset" where
  "kv_pages h \<equiv> mset (map snd (cache_content (full h)))"

abbreviation slots_held :: "hybrid \<Rightarrow> int multiset" where
  "slots_held h \<equiv> mset (slot_list (kids (hroot h)))"

abbreviation keeps_locked :: "(nat \<Rightarrow> int) \<Rightarrow> hybrid \<Rightarrow> hybrid \<Rightarrow> bool" where
  "keeps_locked lk h h' \<equiv> (\<forall>u. 0 < lk u \<longrightarrow> path_str u (kids (hroot h')) = path_str u (kids (hroot h)))"

lemma lk_le_ref:
  assumes inv: "hybrid_inv lk h" and n: "n \<in> set (flat (kids (hroot h)))"
  shows "lk (uuid n) \<le> ref_count (attr n)"
proof -
  note D = hybrid_invD[OF inv]
  have "ref_count (attr n) = rsum (kids n) + lk (uuid n)" using D(2) n by (simp add: refs_exact_def)
  moreover have "0 \<le> rsum (kids n)" using refs_ok_flat[OF tree_invD(3)[OF D(11)] n] refs_ok_nonneg by blast
  ultimately show ?thesis by simp
qed

lemma drop_node_ok:
  assumes inv: "hybrid_inv lk h" and n: "n \<in> set (flat (kids (hroot h)))" "kids n = []" "ref_count (attr n) = 0"
    "mamba_value (attr n) = None"
  shows "hybrid_inv lk (drop_node n h)" "kv_pages h = kv_pages (drop_node n h) + mset (nvalue n)"
    "slots_held (drop_node n h) = slots_held h"
    "\<And>w. w \<noteq> uuid n \<Longrightarrow> path_str w (kids (hroot (drop_node n h))) = path_str w (kids (hroot h))"
    "\<And>e. e \<in> set (ents (kids (hroot h))) \<Longrightarrow> mamba_value (fst (snd e)) \<noteq> None \<Longrightarrow> e \<in> set (ents (kids (hroot (drop_node n h))))"
    "length (nvalue n) = nlen n" "lk (uuid n) = 0"
    "node_paged ps (kids (hroot h)) \<Longrightarrow> node_paged ps (kids (hroot (drop_node n h))) \<and> paged ps (nvalue n)"
proof -
  note D = hybrid_invD[OF inv] and I = tree_invD[OF hybrid_invD(11)[OF inv]]
  let ?u = "uuid n" and ?cs = "kids (hroot h)" and ?h = "drop_node n h"
  note R = unlink_round[OF D(1) n(1-3) refl]
  have F: "full ?h = (full h)\<lparr>evictable_size := evictable_size (full h) - int (nlen n), root_node := unlink ?u (hroot h)\<rparr>"
    by (simp add: drop_node_def)
  have find: "find_kids ?u ?cs = Some n" using find_kids_unique[OF I(4) n(1)] by simp
  have same: "m = n" if "m \<in> set (flat ?cs)" "uuid m = ?u" for m using find_kids_unique[OF I(4) that(1)] that(2) find by simp
  have leaf: "leaf_at ?u ?cs" unfolding leaf_at_def using same n(2) by blast
  have k: "kids (hroot ?h) = del_kids ?u ?cs" by (simp add: F unlink_def)
  have e: "(?u, attr n, nkey n, nvalue n) \<in> set (ents ?cs)" using flat_entry[OF n(1)] by (simp add: entry_of_def)
  have uniq: "w = (?u, attr n, nkey n, nvalue n)" if "w \<in> set (ents ?cs)" "fst w = ?u" for w
    using eq_key_imp_eq_value[OF I(4) _ e] that by (cases w) auto
  have ents: "ents (kids (hroot ?h)) = filter (\<lambda>e. fst e \<noteq> ?u) (ents ?cs)" using R(5) by (simp add: F)
  show keep: "path_str w (kids (hroot ?h)) = path_str w ?cs" if "w \<noteq> ?u" for w
    unfolding k by (rule path_str_del_kids_old[OF I(4) leaf that])
  show "node_paged ps (kids (hroot ?h)) \<and> paged ps (nvalue n)" if "node_paged ps ?cs"
    using that e unfolding node_paged_def ents by auto
  show lk0: "lk ?u = 0" using lk_le_ref[OF inv n(1)] n(3) D(3)[of ?u] by simp
  show "length (nvalue n) = nlen n" by (rule R(6))
  show "kv_pages h = kv_pages ?h + mset (nvalue n)" using R(4) by (simp add: F)
  show "e \<in> set (ents (kids (hroot ?h)))" if "e \<in> set (ents ?cs)" "mamba_value (fst (snd e)) \<noteq> None" for e
    using that uniq[OF that(1)] n(4) by (auto simp: ents)
  obtain xs ys where xy: "ents ?cs = xs @ (?u, attr n, nkey n, nvalue n) # ys" using e split_list by fast
  have "?u \<notin> fst ` set xs" "?u \<notin> fst ` set ys" using I(4) unfolding xy by auto
  then have "filter (\<lambda>e. fst e \<noteq> ?u) xs = xs" "filter (\<lambda>e. fst e \<noteq> ?u) ys = ys" by (force simp: filter_id_conv)+
  then have "ents (kids (hroot ?h)) = xs @ ys" unfolding ents xy by simp
  then show "slots_held ?h = slots_held h" unfolding mset_slot_list xy using n(4) by (simp add: slot_of_def)
  have sum: "esum f (kids (hroot ?h)) = esum f ?cs - f (?u, attr n, nkey n, nvalue n)" for f
    unfolding k by (rule esum_del_kids[OF I(4) leaf e])
  show "hybrid_inv lk ?h"
  proof (rule hybrid_invI)
    show "radix_inv (full ?h)" unfolding F by (rule R(1))
    show "refs_exact lk (kids (hroot ?h))"
      unfolding k using refs_exact_del_kids[OF I(4) leaf _ D(2)] n(3) same by blast
    show "x = uuid (hroot ?h) \<or> x \<in> set (uuids (kids (hroot ?h)))" if "0 < lk x" for x
      using D(5)[OF that] that lk0 unfolding ents by (auto simp: F unlink_def)
    show "pooled_len_ok (kids (hroot ?h))"
      using D(9) keep unfolding pooled_len_ok_def ents by fastforce
    show "\<forall>e \<in> set (ents (kids (hroot ?h))). snap_ok lk e" using D(8) unfolding ents by simp
  qed (use D sum n(4) in \<open>auto simp: snap_evictable_def snap_protected_def drop_node_def unlink_def\<close>)
qed

lemma free_node_mamba_ok:
  assumes inv: "hybrid_inv lk h" and n: "find_node u (hroot h) = Inr n" "u \<noteq> uuid (hroot h)" "mamba_ref_count (attr n) = 0"
    and f: "free_node_mamba n h = (h1, sl)"
  shows "hybrid_inv lk h1" "sl = (case mamba_value (attr n) of None \<Rightarrow> [] | Some x \<Rightarrow> [x])"
    "slots_held h = slots_held h1 + mset sl" "mamba_evictable h1 = mamba_evictable h - int (length sl)"
    "mamba_protected h1 = mamba_protected h"
    "kids (hroot h1) = (if mamba_value (attr n) = None then kids (hroot h) else upd_kids u clear_snap (kids (hroot h)))"
    "uuid (hroot h1) = uuid (hroot h)" "evictable_size (full h1) = evictable_size (full h)"
    "protected_size (full h1) = protected_size (full h)"
proof -
  note D = hybrid_invD[OF inv] and I = tree_invD[OF hybrid_invD(11)[OF inv]] and E = find_node_entry[OF n(1,2)]
  have nu: "uuid n = u" by (rule find_node_uuid[OF n(1)])
  have "hybrid_inv lk h1 \<and> sl = (case mamba_value (attr n) of None \<Rightarrow> [] | Some x \<Rightarrow> [x]) \<and>
    slots_held h = slots_held h1 + mset sl \<and> mamba_evictable h1 = mamba_evictable h - int (length sl) \<and>
    mamba_protected h1 = mamba_protected h \<and>
    kids (hroot h1) = (if mamba_value (attr n) = None then kids (hroot h) else upd_kids u clear_snap (kids (hroot h))) \<and>
    uuid (hroot h1) = uuid (hroot h) \<and> evictable_size (full h1) = evictable_size (full h) \<and>
    protected_size (full h1) = protected_size (full h)"
  proof (cases "mamba_value (attr n)")
    case None
    then show ?thesis using f inv by (auto simp: free_node_mamba_def)
  next
    case (Some x)
    have h1: "h1 = (set_hroot (upd u clear_snap (hroot h)) h)\<lparr>mamba_evictable := mamba_evictable h - 1\<rparr>" and sl: "sl = [x]"
      using f Some n(3) nu by (auto simp: free_node_mamba_def Let_def)
    have full: "full h1 = (full h)\<lparr>root_node := upd u clear_snap (hroot h)\<rparr>" by (simp add: h1)
    have "snap_inv lk h1"
      by (rule snap_inv_upd[OF inv n(1,2), where f = clear_snap])
        (use D(3)[of u] n(3) Some in \<open>simp_all add: h1 clear_snap_def snap_ok_def snap_evictable_def snap_protected_def\<close>)
    then have "hybrid_inv lk h1" by (intro hybrid_upd_inv[OF inv n(1,2) _ full]) (simp_all add: clear_snap_def)
    moreover have "slots_held h = slots_held h1 + mset sl"
      using slot_list_upd[OF I(4) E(1), of clear_snap] Some by (simp add: full kids_upd sl clear_snap_def)
    ultimately show ?thesis using Some by (simp add: sl full kids_upd) (simp add: h1)
  qed
  then show "hybrid_inv lk h1" "sl = (case mamba_value (attr n) of None \<Rightarrow> [] | Some x \<Rightarrow> [x])"
    "slots_held h = slots_held h1 + mset sl" "mamba_evictable h1 = mamba_evictable h - int (length sl)"
    "mamba_protected h1 = mamba_protected h"
    "kids (hroot h1) = (if mamba_value (attr n) = None then kids (hroot h) else upd_kids u clear_snap (kids (hroot h)))"
    "uuid (hroot h1) = uuid (hroot h)" "evictable_size (full h1) = evictable_size (full h)"
    "protected_size (full h1) = protected_size (full h)" by blast+
qed

text \<open>The cascade gives back exactly the pages of the tombstone leaves it unlinks.\<close>

definition live_node :: "nat \<Rightarrow> hybrid \<Rightarrow> bool" where
  "live_node u h \<longleftrightarrow> u = uuid (hroot h) \<or> u \<in> set (uuids (kids (hroot h)))"

lemma live_node_find: "hybrid_inv lk h \<Longrightarrow> live_node u h \<Longrightarrow> \<exists>n. find_node u (hroot h) = Inr n"
  unfolding live_node_def by (metis live_find_node)

lemma find_live_node: "find_node u (hroot h) = Inr n \<Longrightarrow> live_node u h"
  using find_kids_None[of u "kids (hroot h)"] unfolding live_node_def find_node_def
  by (auto simp del: set_map split: if_splits option.splits)

lemma cascade_ok:
  assumes "hybrid_inv lk h" "live_node p h"
  shows "\<exists>q h' ks. cascade p h kv freed = Inr (q, h', kv @ ks, freed + length ks) \<and> hybrid_inv lk h' \<and> live_node q h' \<and>
     kv_pages h = kv_pages h' + mset ks \<and> slots_held h' = slots_held h \<and> keeps_locked lk h h' \<and>
     mamba_evictable h' = mamba_evictable h \<and> mamba_protected h' = mamba_protected h \<and>
     uuid (hroot h') = uuid (hroot h) \<and>
     evictable_size (full h') = evictable_size (full h) - int (length ks) \<and> protected_size (full h') = protected_size (full h) \<and>
     unlocked_leaves (kids (hroot h')) - {q} = unlocked_leaves (kids (hroot h)) - {p} \<and>
     (0 < ps \<longrightarrow> node_paged ps (kids (hroot h)) \<longrightarrow> node_paged ps (kids (hroot h')) \<and> paged ps (ks)) \<and>
     (\<forall>e \<in> set (ents (kids (hroot h))). mamba_value (fst (snd e)) \<noteq> None \<longrightarrow> e \<in> set (ents (kids (hroot h'))))"
  using assms
proof (induction "length (ents (kids (hroot h)))" arbitrary: p h kv freed rule: less_induct)
  case less
  note inv = less.prems(1) and D = hybrid_invD[OF less.prems(1)]
  obtain n where n: "find_node p (hroot h) = Inr n" using live_node_find[OF less.prems] by blast
  have nu: "uuid n = p" by (rule find_node_uuid[OF n])
  show ?case
  proof (cases "exposed_tombstone (hroot h) n")
    case False
    then have "cascade p h kv freed = Inr (p, h, kv @ [], freed + length [])" using n by (simp add: cascade.simps)
    then show ?thesis using less.prems by (intro exI[of _ p] exI[of _ h] exI[of _ "[]"]) simp
  next
    case True
    then have pr: "p \<noteq> uuid (hroot h)" and nn: "kids n = []" "ref_count (attr n) = 0" "mamba_value (attr n) = None"
      using nu by (auto simp: exposed_tombstone_def is_leaf_def)
    have nf: "n \<in> set (flat (kids (hroot h)))" by (rule find_node_kid(1)[OF D(11) n pr])
    let ?h = "drop_node n h"
    note R = drop_node_ok[OF inv nf nn]
    obtain q qn where q: "parent_of p (hroot h) = Inr q" "find_node q (unlink p (hroot h)) = Inr qn"
      "unlocked_leaves (kids (unlink p (hroot h))) = (unlocked_leaves (kids (hroot h)) - {p}) \<union>
        (if is_leaf qn \<and> ref_count (attr qn) = 0 then {q} else {})" "q \<notin> unlocked_leaves (kids (hroot h))"
      using unlink_leaf[OF D(11) nf nn(1,2) nu] by blast
    have rt: "hroot ?h = unlink p (hroot h)" by (simp add: drop_node_def nu)
    have ul: "unlocked_leaves (kids (hroot ?h)) - {q} = unlocked_leaves (kids (hroot h)) - {p}"
      unfolding rt q(3) using q(4) by auto
    have lq: "live_node q ?h" by (rule find_live_node) (use q(2) rt in simp)
    from less.hyps[OF drop_node_decreases[OF n pr] R(1) lq, of "kv @ nvalue n" "freed + nlen n"]
    obtain q' h' ks where C: "cascade q ?h (kv @ nvalue n) (freed + nlen n) = Inr (q', h', (kv @ nvalue n) @ ks, freed + nlen n + length ks)"
      "hybrid_inv lk h'" "live_node q' h'" "kv_pages ?h = kv_pages h' + mset ks" "slots_held h' = slots_held ?h"
      "keeps_locked lk ?h h'" "mamba_evictable h' = mamba_evictable ?h" "mamba_protected h' = mamba_protected ?h"
      "uuid (hroot h') = uuid (hroot ?h)"
      "evictable_size (full h') = evictable_size (full ?h) - int (length ks)" "protected_size (full h') = protected_size (full ?h)"
      "unlocked_leaves (kids (hroot h')) - {q'} = unlocked_leaves (kids (hroot ?h)) - {q}"
      "0 < ps \<longrightarrow> node_paged ps (kids (hroot ?h)) \<longrightarrow> node_paged ps (kids (hroot h')) \<and> paged ps ks"
      "\<forall>e \<in> set (ents (kids (hroot ?h))). mamba_value (fst (snd e)) \<noteq> None \<longrightarrow> e \<in> set (ents (kids (hroot h')))"
      by (elim exE conjE) (rule that)
    have res: "cascade p h kv freed = Inr (q', h', kv @ (nvalue n @ ks), freed + length (nvalue n @ ks))"
      using n True q(1) C(1) R(6) by (subst cascade.simps) simp
    have np: "0 < ps \<longrightarrow> node_paged ps (kids (hroot h)) \<longrightarrow> node_paged ps (kids (hroot h')) \<and> paged ps (nvalue n @ ks)"
      using R(8)[of ps] C(13) paged_append by blast
    have kl: "keeps_locked lk h h'" using C(6) R(4,7) by (metis less_irrefl)
    have dn: "mamba_evictable ?h = mamba_evictable h" "mamba_protected ?h = mamba_protected h" "uuid (hroot ?h) = uuid (hroot h)"
      "evictable_size (full ?h) = evictable_size (full h) - int (nlen n)" "protected_size (full ?h) = protected_size (full h)"
      by (simp_all add: drop_node_def unlink_def)
    show ?thesis
      by (rule exI[of _ q'], rule exI[of _ h'], rule exI[of _ "nvalue n @ ks"], intro conjI)
        (use res C(1-12,14) kl dn ul R(1-7) np in simp_all)
  qed
qed

lemma flat_upd_kids: "flat (upd_kids u f cs) =
   map (\<lambda>n. Node (uuid n) (if u = uuid n then f (attr n) else attr n) (nkey n) (nvalue n) (upd_kids u f (kids n))) (flat cs)"
  by (induction u f cs rule: upd_kids.induct) auto

lemma node_paged_upd_kids [simp]: "node_paged ps (upd_kids u f cs) = node_paged ps cs"
  by (induction u f cs rule: upd_kids.induct) auto

lemma unlocked_leaves_upd:
  assumes "\<And>a. ref_count (f a) = ref_count a"
  shows "unlocked_leaves (upd_kids u f cs) = unlocked_leaves cs"
proof -
  have e: "upd_kids u f ds = [] \<longleftrightarrow> ds = []" for ds by (cases ds rule: ents.cases) auto
  have r: "ref_count (if P then f a else a) = ref_count a" for P a using assms by simp
  have "unlocked_leaves ds = set (map uuid (filter (\<lambda>n. kids n = [] \<and> ref_count (attr n) = 0) (flat ds)))" for ds
    by (auto simp: unlocked_leaves_def)
  then show ?thesis by (simp add: flat_upd_kids filter_map comp_def e r del: set_map set_filter)
qed

text \<open>One leaf evicted: its snapshot, its pages and those of the tombstones above it.\<close>

lemma evict_leaf_round:
  assumes inv: "hybrid_inv lk h" and n: "find_node u (hroot h) = Inr n" "u \<noteq> uuid (hroot h)" "kids n = []" "ref_count (attr n) = 0"
    and f: "free_node_mamba n h = (h1, sl)"
  shows "\<exists>p q h2 ks. parent_of u (hroot h1) = Inr p \<and>
     cascade p (drop_node n h1) (kv @ nvalue n) fr = Inr (q, h2, (kv @ nvalue n) @ ks, fr + length ks) \<and>
     hybrid_inv lk h2 \<and> live_node q h2 \<and> kv_pages h = kv_pages h2 + mset (nvalue n @ ks) \<and>
     slots_held h = slots_held h2 + mset sl \<and> keeps_locked lk h h2 \<and>
     mamba_evictable h2 = mamba_evictable h - int (length sl) \<and> mamba_protected h2 = mamba_protected h \<and>
     uuid (hroot h2) = uuid (hroot h) \<and>
     evictable_size (full h2) = evictable_size (full h) - int (length (nvalue n @ ks)) \<and>
     protected_size (full h2) = protected_size (full h) \<and> length (nvalue n) = nlen n \<and>
     unlocked_leaves (kids (hroot h2)) - {q} = unlocked_leaves (kids (hroot h)) - {u} \<and>
     (0 < ps \<longrightarrow> node_paged ps (kids (hroot h)) \<longrightarrow> node_paged ps (kids (hroot h2)) \<and> paged ps (nvalue n @ ks)) \<and>
     (\<forall>e \<in> set (ents (kids (hroot h))). mamba_value (fst (snd e)) \<noteq> None \<longrightarrow> fst e \<noteq> u \<longrightarrow> e \<in> set (ents (kids (hroot h2))))"
proof -
  note D = hybrid_invD[OF inv]
  have nu: "uuid n = u" by (rule find_node_uuid[OF n(1)])
  have nf: "n \<in> set (flat (kids (hroot h)))" by (rule find_node_kid(1)[OF D(11) n(1,2)])
  have "snap_ok lk (u, attr n, nkey n, nvalue n)" using D(8) find_node_entry(1)[OF n(1,2)] by blast
  then have m0: "mamba_ref_count (attr n) = 0"
    using lk_le_ref[OF inv nf] n(4) nu by (simp add: snap_ok_def)
  note F = free_node_mamba_ok[OF inv n(1,2) m0 f] and D1 = hybrid_invD[OF free_node_mamba_ok(1)[OF inv n(1,2) m0 f]]
  define n1 where "n1 = (if mamba_value (attr n) = None then n else Node u (clear_snap (attr n)) (nkey n) (nvalue n) [])"
  have n1: "n1 \<in> set (flat (kids (hroot h1)))"
  proof (cases "mamba_value (attr n)")
    case None
    then show ?thesis using F(6) nf by (simp add: n1_def)
  next
    case (Some x)
    have "n1 = Node (uuid n) (if u = uuid n then clear_snap (attr n) else attr n) (nkey n) (nvalue n) (upd_kids u clear_snap (kids n))"
      using Some nu n(3) by (simp add: n1_def)
    then show ?thesis using Some F(6) nf by (simp add: flat_upd_kids)
  qed
  have n1': "kids n1 = []" "ref_count (attr n1) = 0" "mamba_value (attr n1) = None" "uuid n1 = u" "nvalue n1 = nvalue n" "nlen n1 = nlen n"
    using n(3,4) nu by (simp_all add: n1_def clear_snap_def)
  have dn: "drop_node n h1 = drop_node n1 h1" by (simp add: drop_node_def n1' nu)
  have str: "path_str w (kids (hroot h1)) = path_str w (kids (hroot h))" for w by (simp add: F(6))
  have cont: "kv_pages h1 = kv_pages h" by (simp add: F(6))
  have ul1: "unlocked_leaves (kids (hroot h1)) = unlocked_leaves (kids (hroot h))"
    by (simp add: F(6) unlocked_leaves_upd clear_snap_def)
  have en1: "e \<in> set (ents (kids (hroot h1)))" if "e \<in> set (ents (kids (hroot h)))" "fst e \<noteq> u" for e
  proof -
    obtain w a k v where e: "e = (w, a, k, v)" by (cases e)
    have "(w, if u = w then clear_snap a else a, k, v) \<in> set (ents (upd_kids u clear_snap (kids (hroot h))))"
      unfolding ents_upd_kids using that(1) e by force
    then show ?thesis using that F(6) e by (simp split: if_splits)
  qed
  note R = drop_node_ok[OF F(1) n1 n1'(1-3)]
  obtain p pn where p: "parent_of u (hroot h1) = Inr p" "find_node p (unlink u (hroot h1)) = Inr pn"
    "unlocked_leaves (kids (unlink u (hroot h1))) = (unlocked_leaves (kids (hroot h1)) - {u}) \<union>
      (if is_leaf pn \<and> ref_count (attr pn) = 0 then {p} else {})" "p \<notin> unlocked_leaves (kids (hroot h1))"
    using unlink_leaf[OF D1(11) n1 n1'(1,2,4)] by blast
  let ?h = "drop_node n1 h1"
  have rt: "hroot ?h = unlink u (hroot h1)" by (simp add: drop_node_def n1')
  have ul: "unlocked_leaves (kids (hroot ?h)) - {p} = unlocked_leaves (kids (hroot h)) - {u}"
    unfolding rt p(3) using p(4) ul1 by auto
  have lp: "live_node p ?h" by (rule find_live_node) (use p(2) rt in simp)
  from cascade_ok[OF R(1) lp, where ps = ps and kv = "kv @ nvalue n" and freed = fr]
  obtain q h2 ks where C: "cascade p ?h (kv @ nvalue n) fr = Inr (q, h2, (kv @ nvalue n) @ ks, fr + length ks)"
    "hybrid_inv lk h2" "live_node q h2" "kv_pages ?h = kv_pages h2 + mset ks" "slots_held h2 = slots_held ?h"
    "keeps_locked lk ?h h2" "mamba_evictable h2 = mamba_evictable ?h" "mamba_protected h2 = mamba_protected ?h"
    "uuid (hroot h2) = uuid (hroot ?h)"
    "evictable_size (full h2) = evictable_size (full ?h) - int (length ks)" "protected_size (full h2) = protected_size (full ?h)"
    "unlocked_leaves (kids (hroot h2)) - {q} = unlocked_leaves (kids (hroot ?h)) - {p}"
    "0 < ps \<longrightarrow> node_paged ps (kids (hroot ?h)) \<longrightarrow> node_paged ps (kids (hroot h2)) \<and> paged ps ks"
    "\<forall>e \<in> set (ents (kids (hroot ?h))). mamba_value (fst (snd e)) \<noteq> None \<longrightarrow> e \<in> set (ents (kids (hroot h2)))"
    by (elim exE conjE) (rule that)
  have kl: "keeps_locked lk h h2" using C(6) R(4,7) str by (metis less_irrefl)
  have dd: "mamba_evictable ?h = mamba_evictable h1" "mamba_protected ?h = mamba_protected h1" "uuid (hroot ?h) = uuid (hroot h1)"
    "evictable_size (full ?h) = evictable_size (full h1) - int (nlen n)" "protected_size (full ?h) = protected_size (full h1)"
    by (simp_all add: drop_node_def unlink_def n1')
  have en: "\<forall>e \<in> set (ents (kids (hroot h))). mamba_value (fst (snd e)) \<noteq> None \<longrightarrow> fst e \<noteq> u \<longrightarrow> e \<in> set (ents (kids (hroot h2)))"
    using C(14) R(5) en1 by blast
  have np1: "node_paged ps (kids (hroot h1)) = node_paged ps (kids (hroot h))" by (simp add: F(6))
  have np: "0 < ps \<longrightarrow> node_paged ps (kids (hroot h)) \<longrightarrow> node_paged ps (kids (hroot h2)) \<and> paged ps (nvalue n @ ks)"
    using R(8)[of ps] C(13) paged_append[of ps "nvalue n" ks] np1 n1'(5) by metis
  have ln: "length (nvalue n) = nlen n" using R(6) n1' by simp
  have kp: "kv_pages h = kv_pages h2 + mset (nvalue n @ ks)" using R(2) C(4) cont n1'(5) by (simp add: ac_simps)
  show ?thesis
    by (rule exI[of _ p], rule exI[of _ q], rule exI[of _ h2], rule exI[of _ ks], intro conjI)
      (use p(1) C(1-3,5,7-12) kl dd en ln kp ul R(3) F dn np in simp_all)
qed


lemma unlocked_leaf_iff:
  assumes "hybrid_inv lk h" "find_node q (hroot h) = Inr qn"
  shows "q \<in> unlocked_leaves (kids (hroot h)) \<longleftrightarrow> is_leaf qn \<and> ref_count (attr qn) = 0 \<and> q \<noteq> uuid (hroot h)"
proof -
  note I = tree_invD[OF hybrid_invD(11)[OF assms(1)]]
  show ?thesis
  proof
    assume "q \<in> unlocked_leaves (kids (hroot h))"
    then obtain n where n: "n \<in> set (flat (kids (hroot h)))" "kids n = []" "ref_count (attr n) = 0" "uuid n = q"
      by (auto simp: unlocked_leaves_def)
    have "q \<noteq> uuid (hroot h)" using flat_uuid[OF n(1)] n(4) I(5) by metis
    moreover have "qn = n" using find_node_entry(2)[OF assms(2)] calculation find_kids_unique[OF I(4) n(1)] n(4) by simp
    ultimately show "is_leaf qn \<and> ref_count (attr qn) = 0 \<and> q \<noteq> uuid (hroot h)" using n by (simp add: is_leaf_def)
  next
    assume a: "is_leaf qn \<and> ref_count (attr qn) = 0 \<and> q \<noteq> uuid (hroot h)"
    then have "qn \<in> set (flat (kids (hroot h)))" "uuid qn = q"
      using find_node_kid[OF hybrid_invD(11)[OF assms(1)] assms(2)] by auto
    then show "q \<in> unlocked_leaves (kids (hroot h))" using a by (auto simp: unlocked_leaves_def is_leaf_def)
  qed
qed

lemma free_drop_decreases:
  assumes "find_node u (hroot h) = Inr n" "u \<noteq> uuid (hroot h)" "free_node_mamba n h = (h1, sl)"
  shows "length (ents (kids (hroot (drop_node n h1)))) < length (ents (kids (hroot h)))"
proof -
  have h1: "h1 = fst (free_node_mamba n h)" using assms(3) by simp
  have "u \<in> set (uuids (kids (hroot h)))" using find_live_node[OF assms(1)] assms(2) by (simp add: live_node_def del: set_map)
  moreover have "uuids (kids (hroot h1)) = uuids (kids (hroot h))"
    unfolding h1 by (simp add: free_node_mamba_def upd_def Let_def split: option.splits)
  ultimately have "length (ents (del_kids u (kids (hroot h1)))) < length (ents (kids (hroot h1)))"
    using length_ents_del_kids by metis
  then show ?thesis using find_node_uuid[OF assms(1)] h1 by (simp add: drop_node_def unlink_def)
qed

lemma evict_full_loop_ok:
  assumes "hybrid_inv lk h" "set lvs = unlocked_leaves (kids (hroot h))" "distinct lvs"
  shows "\<exists>h' ks sl. evict_full_loop num h lvs kv mamba freed = Inr (h', \<lparr>ev_kv_indices = kv @ ks, ev_mamba_slots = mamba @ sl\<rparr>) \<and>
     hybrid_inv lk h' \<and> kv_pages h = kv_pages h' + mset ks \<and> slots_held h = slots_held h' + mset sl \<and>
     keeps_locked lk h h' \<and> mamba_evictable h' = mamba_evictable h - int (length sl) \<and> mamba_protected h' = mamba_protected h \<and>
     evictable_size (full h') = evictable_size (full h) - int (length ks) \<and> protected_size (full h') = protected_size (full h) \<and>
     (num \<le> freed + length ks \<or> evictable_size (full h') = 0) \<and>
     (0 < ps \<longrightarrow> node_paged ps (kids (hroot h)) \<longrightarrow> node_paged ps (kids (hroot h')) \<and> paged ps (ks))"
  using assms
proof (induction "length (ents (kids (hroot h)))" arbitrary: h lvs kv mamba freed rule: less_induct)
  case less
  note inv = less.prems(1) and D = hybrid_invD[OF less.prems(1)]
  show ?case
  proof (cases "freed < num \<and> lvs \<noteq> []")
    case False
    have "num \<le> freed \<or> evictable_size (full h) = 0"
    proof (cases "freed < num")
      case True
      then have "unlocked_leaves (kids (hroot h)) = {}" using False less.prems(2) by simp
      then have "\<not> 0 < esum evictable_tokens (kids (hroot h))"
        using unlocked_leaf_ex[OF tree_invD(3)[OF D(11)]] esum_pos_entry by fastforce
      moreover have "0 \<le> esum evictable_tokens (kids (hroot h))"
        unfolding esum_def by (intro sum_list_nonneg) (auto simp: evictable_tokens_def)
      ultimately show ?thesis using D(1) by (simp add: radix_inv_def)
    qed simp
    then show ?thesis using False inv
      by (intro exI[of _ h] exI[of _ "[]"]) (subst evict_full_loop.simps, auto)
  next
    case True
    obtain u lvs' where pop: "heappop (stamp_of (hroot h)) lvs = (u, lvs')" by fastforce
    note P = heappop_in[OF conjunct2[OF True] pop]
    obtain n where n: "n \<in> set (flat (kids (hroot h)))" "kids n = []" "ref_count (attr n) = 0" "uuid n = u"
      using P(1) less.prems(2) unfolding unlocked_leaves_def by auto
    have find: "find_node u (hroot h) = Inr n" "u \<noteq> uuid (hroot h)"
      using unlink_round(2,3)[OF D(1) n] by auto
    obtain h1 sl where f: "free_node_mamba n h = (h1, sl)" by fastforce
    from evict_leaf_round[OF inv find n(2,3) f, where ps = ps and kv = kv and fr = "freed + nlen n"]
    obtain p q h2 ks where R: "parent_of u (hroot h1) = Inr p"
      "cascade p (drop_node n h1) (kv @ nvalue n) (freed + nlen n) = Inr (q, h2, (kv @ nvalue n) @ ks, freed + nlen n + length ks)"
      "hybrid_inv lk h2" "live_node q h2" "kv_pages h = kv_pages h2 + mset (nvalue n @ ks)"
      "slots_held h = slots_held h2 + mset sl" "keeps_locked lk h h2"
      "mamba_evictable h2 = mamba_evictable h - int (length sl)" "mamba_protected h2 = mamba_protected h"
      "uuid (hroot h2) = uuid (hroot h)"
      "evictable_size (full h2) = evictable_size (full h) - int (length (nvalue n @ ks))"
      "protected_size (full h2) = protected_size (full h)" "length (nvalue n) = nlen n"
      "unlocked_leaves (kids (hroot h2)) - {q} = unlocked_leaves (kids (hroot h)) - {u}"
      "0 < ps \<longrightarrow> node_paged ps (kids (hroot h)) \<longrightarrow> node_paged ps (kids (hroot h2)) \<and> paged ps (nvalue n @ ks)"
      by (elim exE conjE) (rule that)
    obtain qn where qn: "find_node q (hroot h2) = Inr qn" using live_node_find[OF R(3,4)] by blast
    define lvs2 where "lvs2 = (if is_leaf qn \<and> ref_count (attr qn) = 0 \<and> q \<noteq> uuid (hroot h2) then lvs' @ [q] else lvs')"
    have step: "evict_full_loop num h lvs kv mamba freed = evict_full_loop num h2 lvs2 (kv @ nvalue n @ ks) (mamba @ sl) (freed + nlen n + length ks)"
      using True pop find n f R(1,2) qn by (subst evict_full_loop.simps) (simp add: is_leaf_def lvs2_def)
    have qul: "q \<in> unlocked_leaves (kids (hroot h2)) \<longleftrightarrow> is_leaf qn \<and> ref_count (attr qn) = 0 \<and> q \<noteq> uuid (hroot h2)"
      by (rule unlocked_leaf_iff[OF R(3) qn])
    have s': "set lvs' = unlocked_leaves (kids (hroot h)) - {u}" "distinct lvs'" using P(2) less.prems(2,3) by auto
    have set2: "set lvs2 = unlocked_leaves (kids (hroot h2))" "distinct lvs2"
      using s' R(14) qul unfolding lvs2_def by auto
    have dec: "length (ents (kids (hroot h2))) < length (ents (kids (hroot h)))"
      using cascade_ents[OF R(2)] free_drop_decreases[OF find f] by simp
    from less.hyps[OF dec R(3) set2, of "kv @ nvalue n @ ks" "mamba @ sl" "freed + nlen n + length ks"]
    obtain h' ks' sl' where I: "evict_full_loop num h2 lvs2 (kv @ nvalue n @ ks) (mamba @ sl) (freed + nlen n + length ks) =
        Inr (h', \<lparr>ev_kv_indices = (kv @ nvalue n @ ks) @ ks', ev_mamba_slots = (mamba @ sl) @ sl'\<rparr>)"
      "hybrid_inv lk h'" "kv_pages h2 = kv_pages h' + mset ks'" "slots_held h2 = slots_held h' + mset sl'"
      "keeps_locked lk h2 h'" "mamba_evictable h' = mamba_evictable h2 - int (length sl')" "mamba_protected h' = mamba_protected h2"
      "evictable_size (full h') = evictable_size (full h2) - int (length ks')" "protected_size (full h') = protected_size (full h2)"
      "num \<le> freed + nlen n + length ks + length ks' \<or> evictable_size (full h') = 0"
      "0 < ps \<longrightarrow> node_paged ps (kids (hroot h2)) \<longrightarrow> node_paged ps (kids (hroot h')) \<and> paged ps ks'"
      by (elim exE conjE) (rule that)
    have np: "0 < ps \<longrightarrow> node_paged ps (kids (hroot h)) \<longrightarrow> node_paged ps (kids (hroot h')) \<and> paged ps (nvalue n @ ks @ ks')"
      using R(15) I(11) paged_append[of ps "nvalue n @ ks" ks'] by (metis append.assoc)
    show ?thesis
      by (rule exI[of _ h'], rule exI[of _ "nvalue n @ ks @ ks'"], rule exI[of _ "sl @ sl'"], intro conjI)
        (use step I(1-10) R(1-14) np in \<open>simp_all add: ac_simps\<close>)
  qed
qed

lemma evict_full_leaves:
  assumes t: "tree_inv ps c root"
  shows "map uuid (filter (\<lambda>n. ref_count (attr n) = 0) (leaves root)) = collect_leave_nodes_for_evict root"
proof -
  note I = tree_invD[OF t]
  have "uuid n \<noteq> uuid root" if "n \<in> set (flat (kids root))" for n using flat_uuid[OF that] I(5) by metis
  then have "(is_leaf n \<and> uuid n \<noteq> uuid root) \<and> ref_count (attr n) = 0 \<longleftrightarrow> is_leaf n \<and> ref_count (attr n) = 0"
    if "n \<in> set (preorder [root])" for n
    using that I(10) unfolding set_preorder by (cases root) auto
  then show ?thesis unfolding leaves_def collect_leave_nodes_for_evict_def filter_filter
    by (intro arg_cong[where f = "map uuid"] filter_cong) (auto simp del: preorder.simps)
qed

lemma evict_full_ok:
  assumes inv: "hybrid_inv lk h"
  shows "\<exists>h' r. evict_full num h = Inr (h', r) \<and> hybrid_inv lk h' \<and>
     kv_pages h = kv_pages h' + mset (ev_kv_indices r) \<and> slots_held h = slots_held h' + mset (ev_mamba_slots r) \<and>
     keeps_locked lk h h' \<and> mamba_protected h' = mamba_protected h \<and>
     evictable_size (full h') = evictable_size (full h) - int (length (ev_kv_indices r)) \<and>
     protected_size (full h') = protected_size (full h) \<and>
     (num \<le> length (ev_kv_indices r) \<or> evictable_size (full h') = 0) \<and>
     (0 < ps \<longrightarrow> node_paged ps (kids (hroot h)) \<longrightarrow> node_paged ps (kids (hroot h')) \<and> paged ps (ev_kv_indices r))"
proof -
  note t = hybrid_invD(11)[OF inv]
  obtain h' ks sl where "evict_full_loop num h (collect_leave_nodes_for_evict (hroot h)) [] [] 0 =
      Inr (h', \<lparr>ev_kv_indices = [] @ ks, ev_mamba_slots = [] @ sl\<rparr>)"
    "hybrid_inv lk h'" "kv_pages h = kv_pages h' + mset ks" "slots_held h = slots_held h' + mset sl"
    "keeps_locked lk h h'" "mamba_protected h' = mamba_protected h"
    "evictable_size (full h') = evictable_size (full h) - int (length ks)"
    "protected_size (full h') = protected_size (full h)" "num \<le> 0 + length ks \<or> evictable_size (full h') = 0"
    "0 < ps \<longrightarrow> node_paged ps (kids (hroot h)) \<longrightarrow> node_paged ps (kids (hroot h')) \<and> paged ps ks"
    using evict_full_loop_ok[OF inv collect_leave_nodes[OF t], where ps = ps and num = num and kv = "[]" and mamba = "[]" and freed = 0]
    by (elim exE conjE) (rule that)
  then show ?thesis unfolding evict_full_def evict_full_leaves[OF t]
    by (intro exI[of _ h'] exI[of _ "\<lparr>ev_kv_indices = ks, ev_mamba_slots = sl\<rparr>"]) simp
qed

text \<open>With distinct keys, popping the least element round by round is taking a prefix of the sorted list.\<close>

lemma heappop_sort:
  assumes "xs \<noteq> []" "distinct xs" "inj_on key (set xs)" "heappop key xs = (x, ys)"
  shows "sort_key key xs = x # sort_key key ys" "x \<in> set xs" "set ys = set xs - {x}" "distinct ys"
proof -
  note P = heappop_in[OF assms(1,4)]
  show ys: "x \<in> set xs" "set ys = set xs - {x}" "distinct ys" using P assms(2) by auto
  have "mset xs = mset (x # sort_key key ys)" using P(1,2) by simp
  moreover have "sorted (map key (x # sort_key key ys))" using P(3) ys(2) by auto
  ultimately show "sort_key key xs = x # sort_key key ys"
    using assms(3) by (intro sort_key_inj_key_eq) auto
qed

text \<open>The candidates that still wait in the heap keep their snapshots.\<close>

definition waiting :: "hybrid \<Rightarrow> (nat \<Rightarrow> int) \<Rightarrow> nat list \<Rightarrow> bool" where
  "waiting h slotf order \<longleftrightarrow> (\<forall>u \<in> set order. \<exists>a k v. (u, a, k, v) \<in> set (ents (kids (hroot h))) \<and>
     mamba_value a = Some (slotf u) \<and> mamba_ref_count a = 0)"

lemma waiting_keep:
  assumes "waiting h slotf order" "set order' \<subseteq> set order - {u}"
    "\<forall>e \<in> set (ents (kids (hroot h))). mamba_value (fst (snd e)) \<noteq> None \<longrightarrow> fst e \<noteq> u \<longrightarrow> e \<in> set (ents (kids (hroot h')))"
  shows "waiting h' slotf order'"
  unfolding waiting_def
proof
  fix w assume w: "w \<in> set order'"
  then have wu: "w \<in> set order" "w \<noteq> u" using assms(2) by auto
  then obtain a k v where e: "(w, a, k, v) \<in> set (ents (kids (hroot h)))" "mamba_value a = Some (slotf w)" "mamba_ref_count a = 0"
    using assms(1) unfolding waiting_def by blast
  have "(w, a, k, v) \<in> set (ents (kids (hroot h')))" using bspec[OF assms(3) e(1)] e(2) wu(2) by simp
  then show "\<exists>a k v. (w, a, k, v) \<in> set (ents (kids (hroot h'))) \<and> mamba_value a = Some (slotf w) \<and> mamba_ref_count a = 0"
    using e by blast
qed

lemma waiting_node:
  assumes inv: "hybrid_inv lk h" and w: "waiting h slotf order" "u \<in> set order"
  obtains n where "find_node u (hroot h) = Inr n" "u \<noteq> uuid (hroot h)" "mamba_value (attr n) = Some (slotf u)"
    "mamba_ref_count (attr n) = 0"
proof -
  note I = tree_invD[OF hybrid_invD(11)[OF inv]]
  obtain a k v where e: "(u, a, k, v) \<in> set (ents (kids (hroot h)))" "mamba_value a = Some (slotf u)" "mamba_ref_count a = 0"
    using w by (auto simp: waiting_def)
  have "u \<in> set (uuids (kids (hroot h)))" using e(1) by force
  then have ur: "u \<noteq> uuid (hroot h)" "live_node u h" using I(5) by (auto simp only: live_node_def)
  obtain n where n: "find_node u (hroot h) = Inr n" using live_node_find[OF inv ur(2)] by blast
  have "attr n = a" using eq_key_imp_eq_value[OF I(4) find_node_entry(1)[OF n ur(1)] e(1)] by simp
  then show thesis using that[OF n ur(1)] e by simp
qed

lemma free_keeps_ents:
  assumes "hybrid_inv lk h" "find_node u (hroot h) = Inr n" "u \<noteq> uuid (hroot h)" "mamba_ref_count (attr n) = 0"
    "free_node_mamba n h = (h1, sl)" "e \<in> set (ents (kids (hroot h)))" "fst e \<noteq> u"
  shows "e \<in> set (ents (kids (hroot h1)))"
proof -
  obtain w a k v where e: "e = (w, a, k, v)" by (cases e)
  have "(w, if u = w then clear_snap a else a, k, v) \<in> set (ents (upd_kids u clear_snap (kids (hroot h))))"
    unfolding ents_upd_kids using assms(6) e by force
  then show ?thesis using assms(6,7) free_node_mamba_ok(6)[OF assms(1-5)] e by (simp split: if_splits)
qed


text \<open>One round of \<^verbatim>\<open>evict_mamba\<close>.\<close>

lemma evict_mamba_round:
  assumes inv: "hybrid_inv lk h" and w: "waiting h slotf order" "distinct order" "inj_on key (set order)"
    and go: "freed < num" "order \<noteq> []" and pop: "heappop key order = (u, order')"
  shows "\<exists>h2 ks. evict_mamba_loop key num h order kv mamba freed =
        evict_mamba_loop key num h2 order' (kv @ ks) (mamba @ [slotf u]) (freed + 1) \<and>
     hybrid_inv lk h2 \<and> waiting h2 slotf order' \<and> kv_pages h = kv_pages h2 + mset ks \<and>
     slots_held h = add_mset (slotf u) (slots_held h2) \<and> keeps_locked lk h h2 \<and>
     mamba_evictable h2 = mamba_evictable h - 1 \<and> mamba_protected h2 = mamba_protected h \<and>
     evictable_size (full h2) = evictable_size (full h) - int (length ks) \<and> protected_size (full h2) = protected_size (full h) \<and>
     (0 < ps \<longrightarrow> node_paged ps (kids (hroot h)) \<longrightarrow> node_paged ps (kids (hroot h2)) \<and> paged ps (ks))"
proof -
  note P = heappop_sort[OF go(2) w(2,3) pop]
  obtain n where n: "find_node u (hroot h) = Inr n" "u \<noteq> uuid (hroot h)" "mamba_value (attr n) = Some (slotf u)"
    "mamba_ref_count (attr n) = 0" by (rule waiting_node[OF inv w(1) P(2)])
  obtain h1 sl where f: "free_node_mamba n h = (h1, sl)" by fastforce
  note F = free_node_mamba_ok[OF inv n(1,2,4) f]
  have sl: "sl = [slotf u]" using F(2) n(3) by simp
  have sub: "set order' \<subseteq> set order - {u}" using P(3) by simp
  show ?thesis
  proof (cases "is_leaf n \<and> ref_count (attr n) = 0")
    case True
    then have l: "kids n = []" "ref_count (attr n) = 0" by (simp_all add: is_leaf_def)
    from evict_leaf_round[OF inv n(1,2) l f, where ps = ps and kv = kv and fr = 0]
    obtain p q h2 ks where R: "parent_of u (hroot h1) = Inr p"
      "cascade p (drop_node n h1) (kv @ nvalue n) 0 = Inr (q, h2, (kv @ nvalue n) @ ks, 0 + length ks)"
      "hybrid_inv lk h2" "live_node q h2" "kv_pages h = kv_pages h2 + mset (nvalue n @ ks)"
      "slots_held h = slots_held h2 + mset sl" "keeps_locked lk h h2"
      "mamba_evictable h2 = mamba_evictable h - int (length sl)" "mamba_protected h2 = mamba_protected h"
      "uuid (hroot h2) = uuid (hroot h)"
      "evictable_size (full h2) = evictable_size (full h) - int (length (nvalue n @ ks))"
      "protected_size (full h2) = protected_size (full h)" "length (nvalue n) = nlen n"
      "unlocked_leaves (kids (hroot h2)) - {q} = unlocked_leaves (kids (hroot h)) - {u}"
      "0 < ps \<longrightarrow> node_paged ps (kids (hroot h)) \<longrightarrow> node_paged ps (kids (hroot h2)) \<and> paged ps (nvalue n @ ks)"
      "\<forall>e \<in> set (ents (kids (hroot h))). mamba_value (fst (snd e)) \<noteq> None \<longrightarrow> fst e \<noteq> u \<longrightarrow> e \<in> set (ents (kids (hroot h2)))"
      by (elim exE conjE) (rule that)
    have step: "evict_mamba_loop key num h order kv mamba freed =
        evict_mamba_loop key num h2 order' (kv @ (nvalue n @ ks)) (mamba @ [slotf u]) (freed + 1)"
      using go pop n True f sl R(1,2) by (subst evict_mamba_loop.simps) simp
    show ?thesis
      by (rule exI[of _ h2], rule exI[of _ "nvalue n @ ks"], intro conjI)
        (use step R(1-14) R(15)[rule_format] sl waiting_keep[OF w(1) sub R(16)] in simp_all)
  next
    case False
    have step: "evict_mamba_loop key num h order kv mamba freed =
        evict_mamba_loop key num h1 order' (kv @ []) (mamba @ [slotf u]) (freed + 1)"
      using go pop n False f sl by (subst evict_mamba_loop.simps) (simp del: de_Morgan_conj)
    have wk: "waiting h1 slotf order'"
      by (rule waiting_keep[OF w(1) sub]) (use free_keeps_ents[OF inv n(1,2,4) f] in blast)
    have k: "kv_pages h1 = kv_pages h" "keeps_locked lk h h1" "node_paged ps (kids (hroot h1)) = node_paged ps (kids (hroot h))"
      using F(6) n(3) by simp_all
    show ?thesis
      by (rule exI[of _ h1], rule exI[of _ "[]"], intro conjI) (use step F(1,3,4,5,8,9) sl wk k in simp_all)
  qed
qed

lemma evict_mamba_loop_ok:
  assumes "hybrid_inv lk h" "waiting h slotf order" "distinct order" "inj_on key (set order)"
  shows "\<exists>h' ks. evict_mamba_loop key num h order kv mamba freed = Inr (h', \<lparr>ev_kv_indices = kv @ ks,
        ev_mamba_slots = mamba @ map slotf (take (num - freed) (sort_key key order))\<rparr>) \<and>
     hybrid_inv lk h' \<and> kv_pages h = kv_pages h' + mset ks \<and>
     slots_held h = slots_held h' + mset (map slotf (take (num - freed) (sort_key key order))) \<and> keeps_locked lk h h' \<and>
     mamba_evictable h' = mamba_evictable h - int (min (num - freed) (length order)) \<and> mamba_protected h' = mamba_protected h \<and>
     evictable_size (full h') = evictable_size (full h) - int (length ks) \<and> protected_size (full h') = protected_size (full h) \<and>
     (0 < ps \<longrightarrow> node_paged ps (kids (hroot h)) \<longrightarrow> node_paged ps (kids (hroot h')) \<and> paged ps (ks))"
  using assms
proof (induction "length order" arbitrary: h order kv mamba freed)
  case 0
  then show ?case by (intro exI[of _ h] exI[of _ "[]"]) (subst evict_mamba_loop.simps, simp)
next
  case (Suc m)
  show ?case
  proof (cases "freed < num")
    case False
    then show ?thesis using Suc.prems by (intro exI[of _ h] exI[of _ "[]"]) (subst evict_mamba_loop.simps, simp)
  next
    case True
    have ne: "order \<noteq> []" using Suc.hyps(2) by auto
    obtain u order' where pop: "heappop key order = (u, order')" by fastforce
    note P = heappop_sort[OF ne Suc.prems(3,4) pop] and L = length_heappop[OF ne pop]
    have nf: "num - freed = Suc (num - (freed + 1))" using True by simp
    from evict_mamba_round[OF Suc.prems True ne pop, where ps = ps and kv = kv and mamba = mamba]
    obtain h2 ks where R: "evict_mamba_loop key num h order kv mamba freed =
        evict_mamba_loop key num h2 order' (kv @ ks) (mamba @ [slotf u]) (freed + 1)"
      "hybrid_inv lk h2" "waiting h2 slotf order'" "kv_pages h = kv_pages h2 + mset ks"
      "slots_held h = add_mset (slotf u) (slots_held h2)" "keeps_locked lk h h2"
      "mamba_evictable h2 = mamba_evictable h - 1" "mamba_protected h2 = mamba_protected h"
      "evictable_size (full h2) = evictable_size (full h) - int (length ks)" "protected_size (full h2) = protected_size (full h)"
      "0 < ps \<longrightarrow> node_paged ps (kids (hroot h)) \<longrightarrow> node_paged ps (kids (hroot h2)) \<and> paged ps ks"
      by (elim exE conjE) (rule that)
    have io: "inj_on key (set order')" using Suc.prems(4) P(3) by (simp add: inj_on_diff)
    have lm: "m = length order'" using Suc.hyps(2) L by simp
    from Suc.hyps(1)[OF lm R(2,3) P(4) io, of "kv @ ks" "mamba @ [slotf u]" "freed + 1"]
    obtain h' ks' where I: "evict_mamba_loop key num h2 order' (kv @ ks) (mamba @ [slotf u]) (freed + 1) = Inr (h', \<lparr>ev_kv_indices = (kv @ ks) @ ks',
        ev_mamba_slots = (mamba @ [slotf u]) @ map slotf (take (num - (freed + 1)) (sort_key key order'))\<rparr>)"
      "hybrid_inv lk h'" "kv_pages h2 = kv_pages h' + mset ks'"
      "slots_held h2 = slots_held h' + mset (map slotf (take (num - (freed + 1)) (sort_key key order')))"
      "keeps_locked lk h2 h'" "mamba_evictable h' = mamba_evictable h2 - int (min (num - (freed + 1)) (length order'))"
      "mamba_protected h' = mamba_protected h2" "evictable_size (full h') = evictable_size (full h2) - int (length ks')"
      "protected_size (full h') = protected_size (full h2)"
      "0 < ps \<longrightarrow> node_paged ps (kids (hroot h2)) \<longrightarrow> node_paged ps (kids (hroot h')) \<and> paged ps ks'"
      by (elim exE conjE) (rule that)
    have mn: "int (min (num - freed) (length order)) = 1 + int (min (num - (freed + 1)) (length order'))"
      unfolding nf L[symmetric] by simp
    have np: "0 < ps \<longrightarrow> node_paged ps (kids (hroot h)) \<longrightarrow> node_paged ps (kids (hroot h')) \<and> paged ps (ks @ ks')"
      using R(11) I(10) paged_append[of ps ks ks'] by blast
    show ?thesis unfolding nf P(1) take_Suc_Cons mn[unfolded nf]
      by (rule exI[of _ h'], rule exI[of _ "ks @ ks'"], intro conjI) (use R(1-10) I(1-9) np in \<open>simp_all add: ac_simps\<close>)
  qed
qed


text \<open>The candidates of \<^verbatim>\<open>evict_mamba\<close>, and the slot each holds.\<close>

definition mamba_cands :: "hybrid \<Rightarrow> nat list" where
  "mamba_cands h = map uuid (filter (\<lambda>n. mamba_ref_count (attr n) = 0) (snapshot_nodes (hroot h)))"

definition slot_at :: "hybrid \<Rightarrow> nat \<Rightarrow> int" where
  "slot_at h u = (case find_node u (hroot h) of Inl _ \<Rightarrow> 0 | Inr n \<Rightarrow> (case mamba_value (attr n) of None \<Rightarrow> 0 | Some x \<Rightarrow> x))"

lemma preorder_root: "mset (preorder [root]) = add_mset root (mset (flat (kids root)))"
  by (cases root) (simp only: mset_preorder flat.simps append_Nil2 mset.simps node.sel)

lemma preorder_kids:
  assumes t: "tree_inv ps c root"
  shows "mset (filter (\<lambda>n. P n \<and> uuid n \<noteq> uuid root) (preorder [root])) = mset (filter P (flat (kids root)))"
proof -
  have "uuid n \<noteq> uuid root" if "n \<in> set (flat (kids root))" for n using flat_uuid[OF that] tree_invD(5)[OF t] by metis
  then have "filter (\<lambda>n. P n \<and> uuid n \<noteq> uuid root) (flat (kids root)) = filter P (flat (kids root))" by (auto intro: filter_cong)
  then show ?thesis unfolding mset_filter preorder_root by (simp flip: mset_filter)
qed

lemma mamba_cands_ok:
  assumes inv: "hybrid_inv lk h"
  shows "waiting h (slot_at h) (mamba_cands h)" "distinct (mamba_cands h)" "int (length (mamba_cands h)) = mamba_evictable h"
    "set (mamba_cands h) = {u. \<exists>n. find_node u (hroot h) = Inr n \<and> u \<noteq> uuid (hroot h) \<and> mamba_value (attr n) \<noteq> None \<and> mamba_ref_count (attr n) = 0}"
proof -
  note D = hybrid_invD[OF inv] and I = tree_invD[OF hybrid_invD(11)[OF inv]]
  let ?P = "\<lambda>n. mamba_ref_count (attr n) = 0 \<and> mamba_value (attr n) \<noteq> None"
  have eq: "mamba_cands h = map uuid (filter (\<lambda>n. ?P n \<and> uuid n \<noteq> uuid (hroot h)) (preorder [hroot h]))"
    unfolding mamba_cands_def snapshot_nodes_def filter_filter
    by (intro arg_cong[where f = "map uuid"] filter_cong) auto
  have ms: "mset (mamba_cands h) = mset (map uuid (filter ?P (flat (kids (hroot h)))))"
    unfolding eq mset_map preorder_kids[OF D(11)] ..
  have du: "distinct (map uuid (flat (kids (hroot h))))" using I(4) by (simp add: ents_flat comp_def entry_of_def)
  show "distinct (mamba_cands h)"
    using mset_eq_imp_distinct_iff[OF ms] distinct_map_filter[OF du] by blast
  have st: "set (mamba_cands h) = uuid ` {n \<in> set (flat (kids (hroot h))). ?P n}"
    using mset_eq_setD[OF ms] by simp
  show set': "set (mamba_cands h) = {u. \<exists>n. find_node u (hroot h) = Inr n \<and> u \<noteq> uuid (hroot h) \<and> mamba_value (attr n) \<noteq> None \<and> mamba_ref_count (attr n) = 0}"
  proof -
    have "find_node (uuid n) (hroot h) = Inr n \<and> uuid n \<noteq> uuid (hroot h)" if "n \<in> set (flat (kids (hroot h)))" for n
    proof -
      have "uuid n \<noteq> uuid (hroot h)" using flat_uuid[OF that] I(5) by metis
      then show ?thesis using find_kids_unique[OF I(4) that] by (simp add: find_node_def)
    qed
    then show ?thesis unfolding st using find_node_kid[OF D(11)] by fastforce
  qed
  show "waiting h (slot_at h) (mamba_cands h)"
    unfolding waiting_def
  proof
    fix u assume "u \<in> set (mamba_cands h)"
    then obtain n where n: "find_node u (hroot h) = Inr n" "u \<noteq> uuid (hroot h)" "mamba_value (attr n) \<noteq> None" "mamba_ref_count (attr n) = 0"
      unfolding set' by blast
    have "mamba_value (attr n) = Some (slot_at h u)" using n(1,3) by (auto simp: slot_at_def)
    then show "\<exists>a k v. (u, a, k, v) \<in> set (ents (kids (hroot h))) \<and> mamba_value a = Some (slot_at h u) \<and> mamba_ref_count a = 0"
      using find_node_entry(1)[OF n(1,2)] n(4) by blast
  qed
  have "esum snap_evictable cs = int (length (filter ?P (flat cs)))" for cs
    by (induction cs rule: ents.induct) (auto simp: esum_def snap_evictable_def)
  moreover have "length (mamba_cands h) = length (filter ?P (flat (kids (hroot h))))"
    using mset_eq_length[OF ms] by (simp only: length_map)
  ultimately show "int (length (mamba_cands h)) = mamba_evictable h" unfolding D(6) by presburger
qed

lemma mamba_key_inj: "inj (mamba_key root)"
  by (auto simp: inj_def mamba_key_def split: sum.splits)

lemma evict_mamba_ok:
  assumes inv: "hybrid_inv lk h"
  shows "\<exists>h' r. evict_mamba num h = Inr (h', r) \<and> hybrid_inv lk h' \<and>
     ev_mamba_slots r = map (slot_at h) (take num (sort_key (mamba_key (hroot h)) (mamba_cands h))) \<and>
     int (length (ev_mamba_slots r)) = min (int num) (mamba_evictable h) \<and>
     kv_pages h = kv_pages h' + mset (ev_kv_indices r) \<and> slots_held h = slots_held h' + mset (ev_mamba_slots r) \<and>
     keeps_locked lk h h' \<and> mamba_protected h' = mamba_protected h \<and>
     evictable_size (full h') = evictable_size (full h) - int (length (ev_kv_indices r)) \<and>
     protected_size (full h') = protected_size (full h) \<and>
     (0 < ps \<longrightarrow> node_paged ps (kids (hroot h)) \<longrightarrow> node_paged ps (kids (hroot h')) \<and> paged ps (ev_kv_indices r))"
proof -
  note M = mamba_cands_ok[OF inv]
  have io: "inj_on (mamba_key (hroot h)) (set (mamba_cands h))" using mamba_key_inj inj_on_subset by blast
  let ?sl = "map (slot_at h) (take num (sort_key (mamba_key (hroot h)) (mamba_cands h)))"
  obtain h' ks where E: "evict_mamba_loop (mamba_key (hroot h)) num h (mamba_cands h) [] [] 0 = Inr (h', \<lparr>ev_kv_indices = [] @ ks,
        ev_mamba_slots = [] @ map (slot_at h) (take (num - 0) (sort_key (mamba_key (hroot h)) (mamba_cands h)))\<rparr>)"
     "hybrid_inv lk h'" "kv_pages h = kv_pages h' + mset ks"
     "slots_held h = slots_held h' + mset (map (slot_at h) (take (num - 0) (sort_key (mamba_key (hroot h)) (mamba_cands h))))" "keeps_locked lk h h'"
     "mamba_evictable h' = mamba_evictable h - int (min (num - 0) (length (mamba_cands h)))" "mamba_protected h' = mamba_protected h"
     "evictable_size (full h') = evictable_size (full h) - int (length ks)" "protected_size (full h') = protected_size (full h)"
     "0 < ps \<longrightarrow> node_paged ps (kids (hroot h)) \<longrightarrow> node_paged ps (kids (hroot h')) \<and> paged ps ks"
    using evict_mamba_loop_ok[OF inv M(1,2) io, where ps = ps and num = num and kv = "[]" and mamba = "[]" and freed = 0] by (elim exE conjE) (rule that)
  have em: "evict_mamba num h = evict_mamba_loop (mamba_key (hroot h)) num h (mamba_cands h) [] [] 0"
    by (simp add: evict_mamba_def mamba_cands_def)
  have ln: "int (length ?sl) = min (int num) (mamba_evictable h)" using M(3) by simp
  show ?thesis
    by (rule exI[of _ h'], rule exI[of _ "\<lparr>ev_kv_indices = ks, ev_mamba_slots = ?sl\<rparr>"], intro conjI)
      (use em E ln in simp_all)
qed

subsection \<open>The integrity check\<close>

lemma path_len_ok:
  assumes inv: "hybrid_inv lk h" and n: "n \<in> set (flat (kids (hroot h)))"
  shows "\<exists>s vs. path_str (uuid n) (kids (hroot h)) = Some (s, vs) \<and> path_len (uuid n) (hroot h) = Inr (length s)"
proof -
  note I = tree_invD[OF hybrid_invD(11)[OF inv]]
  have u: "uuid n \<in> set (uuids (kids (hroot h)))" "uuid n \<noteq> uuid (hroot h)" using flat_uuid[OF n] I(5) by metis+
  obtain p where p: "path_kids (uuid n) (kids (hroot h)) = Some p" using path_kids_None u(1) by (metis not_None_eq)
  note N = path_nodes_ok[OF hybrid_invD(11)[OF inv] u(2) p]
  show ?thesis using N(1,2) by (simp add: path_len_def path_of_def length_concat comp_def sum_list_rev flip: rev_map)
qed

lemma hybrid_check_integrity_ok:
  assumes inv: "hybrid_inv lk h"
  shows "hybrid_check_integrity h = Inr ()"
proof -
  note D = hybrid_invD[OF inv] and I = tree_invD[OF hybrid_invD(11)[OF inv]]
  have mem: "n \<in> set (flat (kids (hroot h)))" if "n \<in> set (all_nodes (hroot h))" for n
    using that mset_eq_setD[OF preorder_root[of "hroot h", folded mset.simps]]
    by (auto simp: all_nodes_def simp del: preorder.simps)
  have ent: "(uuid n, attr n, nkey n, nvalue n) \<in> set (ents (kids (hroot h)))" if "n \<in> set (all_nodes (hroot h))" for n
    using flat_entry[OF mem[OF that]] by (simp add: entry_of_def)
  have ok: "snap_ok lk (uuid n, attr n, nkey n, nvalue n)" if "n \<in> set (all_nodes (hroot h))" for n
    using bspec[OF D(8) ent[OF that]] .
  have "check_snapshot (hroot h) n = Inr ()" if "n \<in> set (snapshot_nodes (hroot h))" for n
  proof -
    have a: "n \<in> set (all_nodes (hroot h))" and mv: "mamba_value (attr n) \<noteq> None"
      using that by (auto simp: snapshot_nodes_def all_nodes_def)
    have "0 \<le> ref_count (attr n)" using lk_le_ref[OF inv mem[OF a]] D(3)[of "uuid n"] by simp
    moreover have "0 \<le> mamba_ref_count (attr n)" using ok[OF a] by (simp add: snap_ok_def)
    moreover obtain s vs where p: "path_str (uuid n) (kids (hroot h)) = Some (s, vs)" "path_len (uuid n) (hroot h) = Inr (length s)"
      using path_len_ok[OF inv mem[OF a]] by blast
    moreover have "pooled_count (attr n) = length s" if "pooled_sums (attr n) \<noteq> None"
      using D(9) ent[OF a] that p(1) unfolding pooled_len_ok_def by fastforce
    ultimately show ?thesis using mv by (simp add: check_snapshot_def)
  qed
  moreover have "mamba_value (attr n) \<noteq> None \<or> pooled_sums (attr n) = None" if "n \<in> set (all_nodes (hroot h))" for n
    using ok[OF that] by (auto simp: snap_ok_def)
  ultimately show ?thesis
    using rmap_Inr[of "snapshot_nodes (hroot h)" "check_snapshot (hroot h)" "\<lambda>_. ()"]
      rmap_Inr[of "all_nodes (hroot h)" "\<lambda>n. py_assert (mamba_value (attr n) \<noteq> None \<or> pooled_sums (attr n) = None) (Inr ())" "\<lambda>_. ()"]
    by (simp add: hybrid_check_integrity_def)
qed

section \<open>Traces\<close>

text \<open>What a client does with the cache, with the number of locks it holds on each node. It locks nodes
  that are in the tree and unlocks only what it locked.\<close>

inductive hybrid_step :: "hybrid \<times> (nat \<Rightarrow> int) \<Rightarrow> hybrid \<times> (nat \<Rightarrow> int) \<Rightarrow> bool" where
  match: "hybrid_match_prefix tic ids pooled h = Inr (h', m) \<Longrightarrow> hybrid_step (h, lk) (h', lk)"
| insert: "length kvs = length ids \<Longrightarrow> hybrid_insert tic now ids kvs slot sums kind h = Inr (h', l, ex) \<Longrightarrow>
    hybrid_step (h, lk) (h', lk)"
| lock: "live_node u h \<Longrightarrow> inc_lock u h = Inr h' \<Longrightarrow> hybrid_step (h, lk) (h', lk(u := lk u + 1))"
| unlock: "0 < lk u \<Longrightarrow> dec_lock u h = Inr h' \<Longrightarrow> hybrid_step (h, lk) (h', lk(u := lk u - 1))"
| evict_full: "evict_full k h = Inr (h', r) \<Longrightarrow> hybrid_step (h, lk) (h', lk)"
| evict_mamba: "evict_mamba k h = Inr (h', r) \<Longrightarrow> hybrid_step (h, lk) (h', lk)"

lemma hybrid_insert_sums:
  assumes "hybrid_inv lk h" "hybrid_insert tic now ids kvs slot sums kind h = Inr x"
  shows "sums = None \<or> page_size (full h) dvd length ids"
proof -
  have "sums = None \<or> align_down (length ids) (page_size (full h)) = length ids"
    using assms(2) by (simp add: hybrid_insert_def Let_def py_assert_eq_Inr)
  then show ?thesis by (metis align_down_dvd)
qed

lemma hybrid_step_inv:
  assumes "hybrid_step x y" "hybrid_inv (snd x) (fst x)"
  shows "hybrid_inv (snd y) (fst y)"
  using assms
proof (induction rule: hybrid_step.induct)
  case (match tic ids pooled h h' m lk)
  then show ?case using hybrid_match_ok[of lk h tic ids pooled] by auto
next
  case (insert kvs ids tic now slot sums kind h h' l ex lk)
  then have inv: "hybrid_inv lk h" by simp
  obtain h2 l2 ex2 where "hybrid_insert tic now ids kvs slot sums kind h = Inr (h2, l2, ex2)" "hybrid_inv lk h2"
    using hybrid_insert_ok[OF inv insert(1) hybrid_insert_sums[OF inv insert(2)], of tic now slot kind]
    by (elim exE conjE) (rule that)
  then show ?case using insert(2) by simp
next
  case (lock u h h' lk)
  then obtain h2 where "inc_lock u h = Inr h2" "hybrid_inv (lk(u := lk u + 1)) h2"
    using inc_lock_ok[of lk h u] unfolding live_node_def fst_conv snd_conv by blast
  then show ?case using lock(2) by (simp add: fun_upd_def)
next
  case (unlock lk u h h')
  then have inv: "hybrid_inv lk h" by simp
  obtain h2 where "dec_lock u h = Inr h2" "hybrid_inv (lk(u := lk u - 1)) h2"
    using dec_lock_ok[OF inv hybrid_invD(5)[OF inv unlock(1)] unlock(1)] by blast
  then show ?case using unlock(2) by (simp add: fun_upd_def)
next
  case (evict_full k h h' r lk)
  then show ?case using evict_full_ok[of lk h k] by auto
next
  case (evict_mamba k h h' r lk)
  then show ?case using evict_mamba_ok[of lk h k] by auto
qed

lemma hybrid_reachable: "hybrid_step\<^sup>*\<^sup>* x y \<Longrightarrow> hybrid_inv (snd x) (fst x) \<Longrightarrow> hybrid_inv (snd y) (fst y)"
  by (induction rule: rtranclp_induct) (auto intro: hybrid_step_inv)


section \<open>Properties\<close>

text \<open>A cache with one prompt of four tokens, whose first two end at a snapshot of their own.\<close>

definition demo_hybrid :: hybrid where
  "demo_hybrid = \<lparr>full = \<lparr>page_size = 2, evictable_size = 4, protected_size = 0,
      root_node = Node 0 ((fresh_attr 0 0)\<lparr>ref_count := 1\<rparr>) [] []
        [Node 1 ((fresh_attr 3 3)\<lparr>mamba_value := Some 7\<rparr>) [5, 6] [0, 1]
          [Node 2 ((fresh_attr 4 4)\<lparr>mamba_value := Some 8, snapshot_kind := End\<rparr>) [7, 8] [2, 3] []]],
      counter = 3\<rparr>, track_chunk_size = 4, mamba_evictable = 2, mamba_protected = 0\<rparr>"

definition demo_hybrid0 :: hybrid where
  "demo_hybrid0 = \<lparr>full = radix_init 2 0 0, track_chunk_size = 4, mamba_evictable = 0, mamba_protected = 0\<rparr>"

lemma demo_hybrid_built:
  "hybrid_init 2 4 0 0 = Inr demo_hybrid0"
  "rbind (hybrid_insert 1 2 [5, 6] [0, 1] 7 None Chunk demo_hybrid0) (\<lambda>(h, _).
     hybrid_insert 3 4 [5, 6, 7, 8] [0, 1, 2, 3] 8 None End h) = Inr (demo_hybrid, 2, False)"
  by code_simp+

lemma demo_hybrid_reachable: "hybrid_step\<^sup>*\<^sup>* (demo_hybrid0, \<lambda>_. 0) (demo_hybrid, \<lambda>_. 0)"
proof -
  obtain h1 l1 e1 where a: "hybrid_insert 1 2 [5, 6] [0, 1] 7 None Chunk demo_hybrid0 = Inr (h1, l1, e1)"
    "hybrid_insert 3 4 [5, 6, 7, 8] [0, 1, 2, 3] 8 None End h1 = Inr (demo_hybrid, 2, False)"
    using demo_hybrid_built(2) by (auto simp: rbind_eq_Inr)
  have "hybrid_step (demo_hybrid0, \<lambda>_. 0) (h1, \<lambda>_. 0)" by (rule hybrid_step.insert[OF _ a(1)]) simp
  moreover have "hybrid_step (h1, \<lambda>_. 0) (demo_hybrid, \<lambda>_. 0)" by (rule hybrid_step.insert[OF _ a(2)]) simp
  ultimately show ?thesis by (meson r_into_rtranclp rtranclp.rtrancl_into_rtrancl)
qed

lemma demo_hybrid_inv: "hybrid_inv (\<lambda>_. 0) demo_hybrid"
  using hybrid_reachable[OF demo_hybrid_reachable] hybrid_init_inv[OF _ demo_hybrid_built(1)] by simp


lemma slot_count: "esum snap_evictable cs + esum snap_protected cs = int (length (slot_list cs))"
  by (induction cs rule: ents.induct) (auto simp: esum_def snap_evictable_def snap_protected_def)

text \<open>C16: \<^verbatim>\<open>HybridRadixCache.match_prefix\<close> succeeds on every cache that satisfies the invariant and keeps the
  invariant, the sizes, the cached pages and the snapshots. What it returns stands for a prefix of
  the input with the cached pages of that prefix; unless it is empty it ends at a node with a live
  snapshot (with pooled sums, for a pooled request), whose slot it returns, and no usable
  snapshot lies deeper on the input.\<close>

theorem hybrid_match_deepest:
  assumes "hybrid_inv lk h"
  shows "\<exists>h1 m. hybrid_match_prefix tic ids pooled h = Inr (h1, m) \<and> hybrid_inv lk h1 \<and>
     hybrid_size_info h1 = hybrid_size_info h \<and> cache_content (full h1) = cache_content (full h) \<and>
     slots_held h1 = slots_held h \<and> m_cached_len m \<le> length ids \<and>
     handle_str (full h1) \<lparr>cached_len = m_cached_len m, hnode = m_node m\<rparr> = Some (take (m_cached_len m) ids, kv_indices m) \<and>
     (case m_mamba_value m of None \<Rightarrow> m_cached_len m = 0 \<and> m_node m = uuid (hroot h1)
      | Some slot \<Rightarrow> \<exists>n. find_node (m_node m) (hroot h1) = Inr n \<and> usable pooled n \<and>
          mamba_value (attr n) = Some slot \<and> m_node m \<noteq> uuid (hroot h1)) \<and>
     (\<forall>x \<in> set (flat (kids (hroot h1))). \<forall>j \<le> length ids. usable pooled x \<longrightarrow>
        (\<exists>vs. path_str (uuid x) (kids (hroot h1)) = Some (take j ids, vs)) \<longrightarrow> j \<le> m_cached_len m)"
proof -
  obtain h1 m where "hybrid_match_prefix tic ids pooled h = Inr (h1, m)" "hybrid_inv lk h1"
    "hybrid_size_info h1 = hybrid_size_info h" "cache_content (full h1) = cache_content (full h)"
    "slots_held h1 = slots_held h" "m_cached_len m \<le> length ids"
    "handle_str (full h1) \<lparr>cached_len = m_cached_len m, hnode = m_node m\<rparr> = Some (take (m_cached_len m) ids, kv_indices m)"
    "case m_mamba_value m of None \<Rightarrow> m_cached_len m = 0 \<and> m_node m = uuid (hroot h1)
      | Some slot \<Rightarrow> \<exists>n. find_node (m_node m) (hroot h1) = Inr n \<and> usable pooled n \<and>
          mamba_value (attr n) = Some slot \<and> m_node m \<noteq> uuid (hroot h1)"
    "\<forall>x \<in> set (flat (kids (hroot h1))). \<forall>j \<le> length ids. usable pooled x \<longrightarrow>
        (\<exists>vs. path_str (uuid x) (kids (hroot h1)) = Some (take j ids, vs)) \<longrightarrow> j \<le> m_cached_len m"
    using hybrid_match_ok[OF assms, of tic ids pooled] by (elim exE conjE) (rule that)
  then show ?thesis by (intro exI conjI)
qed

theorem hybrid_match_deepest_witness:
  "hybrid_inv (\<lambda>_. 0) demo_hybrid \<and>
   (\<exists>h1 m. hybrid_match_prefix 9 [5, 6, 7, 9] False demo_hybrid = Inr (h1, m) \<and> hybrid_inv (\<lambda>_. 0) h1 \<and> m_cached_len m \<le> 4)"
  using hybrid_match_deepest[OF demo_hybrid_inv, of 9 "[5, 6, 7, 9]" False] demo_hybrid_inv by fastforce

text \<open>C17: \<^verbatim>\<open>HybridRadixCache.insert\<close>, whose pooled sums cover whole pages, adds exactly the pages of the part of
  the aligned prompt that was not cached, as evictable tokens, and keeps the invariant. It takes the
  donated slot exactly when it answers that no snapshot existed; a non-empty aligned prompt then ends at a node
  with a snapshot, which serves pooled requests too when sums were given.\<close>

theorem hybrid_insert_donates:
  assumes "hybrid_inv lk h" "length kvs = length ids" "sums = None \<or> page_size (full h) dvd length ids"
  defines "n \<equiv> insert_len (full h) ids"
  shows "\<exists>h' l ex. hybrid_insert tic now ids kvs slot sums kind h = Inr (h', l, ex) \<and> hybrid_inv lk h' \<and>
     l \<le> n \<and> evictable_size (full h') = evictable_size (full h) + int (n - l) \<and> protected_size (full h') = protected_size (full h) \<and>
     mset (cache_content (full h')) =
       mset (cache_content (full h)) + mset (seg (take l ids) (slice l n ids) (slice l n kvs)) \<and>
     slots_held h' = slots_held h + (if ex then {#} else {#slot#}) \<and> (n = 0 \<longrightarrow> ex) \<and>
     (n \<noteq> 0 \<longrightarrow> (\<exists>m vs. find_node (uuid m) (hroot h') = Inr m \<and> path_str (uuid m) (kids (hroot h')) = Some (take n ids, vs) \<and>
        usable (sums \<noteq> None) m \<and> (\<not> ex \<longrightarrow> mamba_value (attr m) = Some slot)))"
  unfolding n_def by (rule hybrid_insert_ok[OF assms(1-3)])

theorem hybrid_insert_donates_witness:
  "hybrid_inv (\<lambda>_. 0) demo_hybrid \<and>
   (\<exists>h' l ex. hybrid_insert 9 9 [5, 6, 1, 2] [0, 1, 4, 5] 3 (Some 1) End demo_hybrid = Inr (h', l, ex) \<and> hybrid_inv (\<lambda>_. 0) h')"
proof -
  have "Some 1 = None \<or> page_size (full demo_hybrid) dvd length [5, 6, 1, 2 :: int]" by (simp add: demo_hybrid_def)
  then show ?thesis
    using hybrid_insert_donates[OF demo_hybrid_inv, of "[0, 1, 4, 5]" "[5, 6, 1, 2]" "Some 1" 9 9 3 End] demo_hybrid_inv by auto
qed

text \<open>C15: In every state a client reaches from a new cache, by matches, insertions, locks, unlocks of what it
  locked and both evictions, the invariant holds, \<^verbatim>\<open>check_integrity\<close> passes, the two snapshot counters
  are non-negative and count every slot the tree holds, and every lock held can be released.\<close>

theorem hybrid_trace_integrity:
  assumes "0 < ps" "hybrid_init ps chunk c now = Inr h0" "hybrid_step\<^sup>*\<^sup>* (h0, \<lambda>_. 0) (h, lk)"
  shows "hybrid_inv lk h \<and> hybrid_check_integrity h = Inr () \<and> 0 \<le> mamba_evictable h \<and> 0 \<le> mamba_protected h \<and>
     mamba_evictable h + mamba_protected h = int (size (slots_held h)) \<and>
     (\<forall>u. 0 < lk u \<longrightarrow> (\<exists>h'. dec_lock u h = Inr h'))"
proof -
  have inv: "hybrid_inv lk h" using hybrid_reachable[OF assms(3)] hybrid_init_inv[OF assms(1,2)] by simp
  note D = hybrid_invD[OF inv]
  have "0 \<le> mamba_evictable h" "0 \<le> mamba_protected h"
    unfolding D(6,7) esum_def by (intro sum_list_nonneg; auto simp: snap_evictable_def snap_protected_def)+
  moreover have "mamba_evictable h + mamba_protected h = int (size (slots_held h))"
    unfolding D(6,7) slot_count by simp
  moreover have "\<exists>h'. dec_lock u h = Inr h'" if "0 < lk u" for u
    using dec_lock_ok[OF inv D(5)[OF that] that] by blast
  ultimately show ?thesis using inv hybrid_check_integrity_ok[OF inv] by blast
qed

theorem hybrid_trace_integrity_witness:
  "hybrid_init 2 4 0 0 = Inr demo_hybrid0 \<and> hybrid_step\<^sup>*\<^sup>* (demo_hybrid0, \<lambda>_. 0) (demo_hybrid, \<lambda>_. 0) \<and>
   hybrid_check_integrity demo_hybrid = Inr ()"
  using hybrid_trace_integrity[OF _ demo_hybrid_built(1) demo_hybrid_reachable] demo_hybrid_built(1) demo_hybrid_reachable by simp

text \<open>C19: \<^verbatim>\<open>evict_full\<close> never fails under the invariant and keeps it. The pages and slots it returns are exactly
  those that left the tree, locked paths are untouched, the evictable count falls by the pages returned, and it
  stops short of the request only when nothing evictable is left.\<close>

theorem evict_full_frees:
  assumes "hybrid_inv lk h"
  shows "\<exists>h' r. evict_full num h = Inr (h', r) \<and> hybrid_inv lk h' \<and>
     kv_pages h = kv_pages h' + mset (ev_kv_indices r) \<and> slots_held h = slots_held h' + mset (ev_mamba_slots r) \<and>
     keeps_locked lk h h' \<and> mamba_protected h' = mamba_protected h \<and>
     evictable_size (full h') = evictable_size (full h) - int (length (ev_kv_indices r)) \<and>
     protected_size (full h') = protected_size (full h) \<and>
     (num \<le> length (ev_kv_indices r) \<or> evictable_size (full h') = 0)"
  using evict_full_ok[OF assms, where num = num] by blast

theorem evict_full_frees_witness:
  "hybrid_inv (\<lambda>_. 0) demo_hybrid \<and>
   (\<exists>h' r. evict_full 1 demo_hybrid = Inr (h', r) \<and> kv_pages demo_hybrid = kv_pages h' + mset (ev_kv_indices r))"
  using evict_full_frees[OF demo_hybrid_inv, of 1] demo_hybrid_inv by blast

text \<open>C18: \<^verbatim>\<open>evict_mamba\<close> never fails under the invariant and keeps it. It frees as many unlocked snapshots as asked,
  or all of them, in exactly the order of tier, time stamp, depth (deepest first) and uuid; the slots
  and pages it returns are those that left the tree, and locked paths are untouched.\<close>

theorem evict_mamba_tiers:
  assumes "hybrid_inv lk h"
  shows "\<exists>h' r. evict_mamba num h = Inr (h', r) \<and> hybrid_inv lk h' \<and>
     ev_mamba_slots r = map (slot_at h) (take num (sort_key (mamba_key (hroot h)) (mamba_cands h))) \<and>
     int (length (ev_mamba_slots r)) = min (int num) (mamba_evictable h) \<and>
     kv_pages h = kv_pages h' + mset (ev_kv_indices r) \<and> slots_held h = slots_held h' + mset (ev_mamba_slots r) \<and>
     keeps_locked lk h h' \<and> mamba_protected h' = mamba_protected h \<and>
     evictable_size (full h') = evictable_size (full h) - int (length (ev_kv_indices r)) \<and>
     protected_size (full h') = protected_size (full h)"
  using evict_mamba_ok[OF assms, where num = num] by blast

theorem evict_mamba_tiers_witness:
  "hybrid_inv (\<lambda>_. 0) demo_hybrid \<and>
   (\<exists>h' r. evict_mamba 1 demo_hybrid = Inr (h', r) \<and> int (length (ev_mamba_slots r)) = 1)"
proof -
  have "mamba_evictable demo_hybrid = 2" by (simp add: demo_hybrid_def)
  then show ?thesis using evict_mamba_tiers[OF demo_hybrid_inv, of 1] demo_hybrid_inv by fastforce
qed

end
