(* ===== verification/Multimodal.thy ===== *)
theory Multimodal
  imports Prelude "HOL-Library.AList" "HOL-Library.Product_Lexorder"
begin

text \<open>
  Image items: the spans of \<^verbatim>\<open>MMItem\<close> (\<^verbatim>\<open>message/backend.py\<close>), the planning of \<^verbatim>\<open>scheduler/mm.py\<close>, the embedding cache
  \<^verbatim>\<open>mm/encoder_cache.py\<close> and the encode and gather step \<^verbatim>\<open>_run_mm_encoder\<close> of \<^verbatim>\<open>engine/engine.py\<close>.
\<close>

section \<open>Items and chunk ends\<close>

text \<open>\<^verbatim>\<open>MMItem\<close>: its content hash and its half-open spans in the prompt; features and embeddings are tensors the
  scheduler only passes on.\<close>

record mm_item =
  mm_hash :: int
  offsets :: "(nat \<times> nat) list"

definition num_tokens :: "mm_item \<Rightarrow> nat" where
  "num_tokens item = sum_list (map (\<lambda>(lo, hi). hi - lo) (offsets item))"

definition mm_validate :: "mm_item \<Rightarrow> bool \<Rightarrow> bool \<Rightarrow> unit result" where
  "mm_validate item feature precomputed =
     (if offsets item = [] \<or> (\<exists>(lo, hi) \<in> set (offsets item). hi \<le> lo) then Inl ValueError
      else if (\<not> feature) = (\<not> precomputed) then Inl ValueError
      else Inr ())"

definition mm_rows_after :: "mm_item \<Rightarrow> nat \<Rightarrow> nat" where
  "mm_rows_after item clen = sum_list (map (\<lambda>(lo, hi). hi - max lo clen) (offsets item))"

definition all_spans :: "mm_item list \<Rightarrow> (nat \<times> nat) list" where
  "all_spans items = concat (map offsets items)"

fun mm_cut_loop :: "nat \<Rightarrow> nat \<Rightarrow> nat \<Rightarrow> (nat \<times> nat) list \<Rightarrow> nat \<Rightarrow> nat" where
  "mm_cut_loop chunk_lo e al [] pos = pos"
| "mm_cut_loop chunk_lo e al ((lo, hi) # spans) pos =
     (if lo < pos \<and> pos < hi then
        if lo \<le> chunk_lo then e
        else let c = align_down lo al
             in if c \<le> chunk_lo then e else mm_cut_loop chunk_lo e al spans c
      else mm_cut_loop chunk_lo e al spans pos)"

definition mm_chunk_end :: "mm_item list \<Rightarrow> nat \<Rightarrow> nat \<Rightarrow> nat \<Rightarrow> nat" where
  "mm_chunk_end items chunk_lo e al = mm_cut_loop chunk_lo e al (rev (sort (all_spans items))) e"

section \<open>The embedding cache\<close>

text \<open>\<^verbatim>\<open>EncoderCache\<close>: dictionaries are association lists in insertion order; an embedding is the list of its rows, a copy of
  it to another device the same list.\<close>

record 'e enc_entry =
  enc_tensor :: "'e list option"
  remaining :: "(int \<times> int) list"

type_synonym 'e encoder_cache = "(int \<times> 'e enc_entry) list"

definition enc_register :: "int \<Rightarrow> int \<Rightarrow> int \<Rightarrow> 'e encoder_cache \<Rightarrow> 'e encoder_cache" where
  "enc_register h u rows c =
     (if rows \<le> 0 then c
      else let entry = (case map_of c h of Some e \<Rightarrow> e | None \<Rightarrow> \<lparr>enc_tensor = None, remaining = []\<rparr>);
               old = (case map_of (remaining entry) u of Some k \<Rightarrow> k | None \<Rightarrow> 0)
           in AList.update h (entry\<lparr>remaining := AList.update u (old + rows) (remaining entry)\<rparr>) c)"

definition enc_has :: "int \<Rightarrow> 'e encoder_cache \<Rightarrow> bool" where
  "enc_has h c = (case map_of c h of Some e \<Rightarrow> enc_tensor e \<noteq> None | None \<Rightarrow> False)"

definition enc_put :: "int \<Rightarrow> 'e list \<Rightarrow> 'e encoder_cache \<Rightarrow> 'e encoder_cache result" where
  "enc_put h embedding c =
     (case map_of c h of
        None \<Rightarrow> Inl AssertionError
      | Some e \<Rightarrow> if enc_tensor e \<noteq> None then Inr c else Inr (AList.update h (e\<lparr>enc_tensor := Some embedding\<rparr>) c))"

definition enc_get_slice :: "int \<Rightarrow> nat \<Rightarrow> nat \<Rightarrow> 'e encoder_cache \<Rightarrow> 'e list result" where
  "enc_get_slice h lo hi c =
     (case map_of c h of
        None \<Rightarrow> Inl KeyError
      | Some e \<Rightarrow> (case enc_tensor e of None \<Rightarrow> Inl TypeError | Some t \<Rightarrow> Inr (slice lo hi t)))"

definition enc_consume :: "int \<Rightarrow> int \<Rightarrow> int \<Rightarrow> 'e encoder_cache \<Rightarrow> 'e encoder_cache result" where
  "enc_consume h u rows c =
     (case map_of c h of
        None \<Rightarrow> Inl KeyError
      | Some e \<Rightarrow> (case map_of (remaining e) u of
          None \<Rightarrow> Inl KeyError
        | Some k \<Rightarrow> py_assert (0 \<le> k - rows)
            (if k - rows \<noteq> 0 then Inr (AList.update h (e\<lparr>remaining := AList.update u (k - rows) (remaining e)\<rparr>) c)
             else let rest = AList.delete u (remaining e)
                  in Inr (if rest = [] then AList.delete h c else AList.update h (e\<lparr>remaining := rest\<rparr>) c))))"

fun enc_release :: "int \<Rightarrow> int list \<Rightarrow> 'e encoder_cache \<Rightarrow> 'e encoder_cache" where
  "enc_release u [] c = c"
| "enc_release u (h # hashes) c =
     (case map_of c h of
        None \<Rightarrow> enc_release u hashes c
      | Some e \<Rightarrow> let rest = AList.delete u (remaining e)
          in enc_release u hashes (if rest = [] then AList.delete h c else AList.update h (e\<lparr>remaining := rest\<rparr>) c))"

definition enc_stats :: "nat \<Rightarrow> 'e encoder_cache \<Rightarrow> nat \<times> nat" where
  "enc_stats row_bytes c =
     (let stored = concat (map (\<lambda>(h, e). case enc_tensor e of None \<Rightarrow> [] | Some t \<Rightarrow> [t]) c)
      in (length stored, sum_list (map (\<lambda>t. length t * row_bytes) stored)))"

section \<open>The gather plan of a chunk\<close>

text \<open>A plan row: the request, the hash, the embedding rows \<open>[row_lo, row_hi)\<close>, the item's tokens and the chunk position.\<close>

type_synonym plan_row = "int \<times> int \<times> nat \<times> nat \<times> nat \<times> nat"

type_synonym plan_state = "mm_item list \<times> int list \<times> plan_row list"

fun plan_spans :: "int \<Rightarrow> mm_item \<Rightarrow> nat \<Rightarrow> nat \<Rightarrow> (nat \<times> nat) list \<Rightarrow> nat \<Rightarrow> bool \<Rightarrow> plan_state \<Rightarrow> plan_state" where
  "plan_spans u item w_lo w_hi [] row_base needs st = st"
| "plan_spans u item w_lo w_hi ((s_lo, s_hi) # spans) row_base needs (jobs, queued, plan) =
     (let lo = max s_lo w_lo; hi = min s_hi w_hi
      in if lo < hi then
           plan_spans u item w_lo w_hi spans (row_base + (s_hi - s_lo)) False
             (if needs then jobs @ [item] else jobs, if needs then mm_hash item # queued else queued,
              plan @ [(u, mm_hash item, row_base + lo - s_lo, row_base + hi - s_lo, num_tokens item, lo - w_lo)])
         else plan_spans u item w_lo w_hi spans (row_base + (s_hi - s_lo)) needs (jobs, queued, plan))"

fun plan_items :: "int \<Rightarrow> nat \<Rightarrow> nat \<Rightarrow> 'e encoder_cache option \<Rightarrow> mm_item list \<Rightarrow> plan_state \<Rightarrow> plan_state" where
  "plan_items u w_lo w_hi enc [] st = st"
| "plan_items u w_lo w_hi enc (item # items) (jobs, queued, plan) =
     (let needs = (mm_hash item \<notin> set queued \<and> (case enc of None \<Rightarrow> True | Some c \<Rightarrow> \<not> enc_has (mm_hash item) c))
      in plan_items u w_lo w_hi enc items (plan_spans u item w_lo w_hi (offsets item) 0 needs (jobs, queued, plan)))"

definition plan_mm_chunk :: "int \<Rightarrow> mm_item list \<Rightarrow> nat \<Rightarrow> nat \<Rightarrow> 'e encoder_cache option \<Rightarrow> mm_item list \<times> plan_row list" where
  "plan_mm_chunk u items w_lo w_hi enc = (case plan_items u w_lo w_hi enc items ([], [], []) of (jobs, _, plan) \<Rightarrow> (jobs, plan))"

section \<open>Lemmas\<close>

lemma mm_cut_loop_ok:
  assumes "sorted_wrt (\<lambda>x y. fst y \<le> fst x) spans" "chunk_lo < pos" "pos \<le> e" "0 < al"
    "mm_cut_loop chunk_lo e al spans pos = r"
  shows "chunk_lo < r \<and> r \<le> e \<and>
    ((r = pos \<or> al dvd r \<and> (\<exists>x \<in> set spans. r \<le> fst x)) \<and> (\<forall>(lo, hi) \<in> set spans. \<not> (lo < r \<and> r < hi)) \<or>
     r = e \<and> (\<exists>(lo, hi) \<in> set spans. align_down lo al \<le> chunk_lo \<and> chunk_lo < hi))"
  using assms
proof (induction chunk_lo e al spans pos rule: mm_cut_loop.induct)
  case (2 chunk_lo e al lo hi spans pos)
  have s: "sorted_wrt (\<lambda>x y. fst y \<le> fst x) spans" and le: "\<And>x. x \<in> set spans \<Longrightarrow> fst x \<le> lo" using "2.prems"(1) by auto
  show ?case
  proof (cases "lo < pos \<and> pos < hi")
    case False
    then have r: "mm_cut_loop chunk_lo e al spans pos = r" using "2.prems"(5) by auto
    have "\<not> (lo < r \<and> r < hi)" if "r = pos \<or> al dvd r \<and> (\<exists>x \<in> set spans. r \<le> fst x)"
      using that False le by fastforce
    then show ?thesis using "2.IH"(2)[OF False s "2.prems"(2,3,4) r] by fastforce
  next
    case True
    have ad: "align_down lo al \<le> lo" by (rule align_down_le)
    show ?thesis
    proof (cases "align_down lo al \<le> chunk_lo")
      case small: True
      then have "r = e" using "2.prems"(5) True by (auto simp: Let_def split: if_splits)
      then show ?thesis using small True "2.prems"(2,3) by auto
    next
      case big: False
      then have lo: "\<not> lo \<le> chunk_lo" using ad by simp
      then have r: "mm_cut_loop chunk_lo e al spans (align_down lo al) = r" using "2.prems"(5) True big by (simp add: Let_def)
      have b: "chunk_lo < align_down lo al" "align_down lo al \<le> e" using big ad True "2.prems"(3) by simp_all
      have dv: "al dvd align_down lo al" by (simp add: align_down_def)
      have "r \<le> lo" if "r = align_down lo al \<or> al dvd r \<and> (\<exists>x \<in> set spans. r \<le> fst x)"
        using that ad le by fastforce
      then show ?thesis using "2.IH"(1)[OF True lo refl big s b "2.prems"(4) r] dv by fastforce
    qed
  qed
qed simp

lemma rev_sort_desc: "sorted_wrt (\<lambda>x y. fst y \<le> fst x) (rev (sort (xs :: (nat \<times> nat) list)))"
proof -
  have s: "sorted_wrt (\<le>) (sort xs)" by simp
  have "sorted_wrt (\<lambda>x y. fst x \<le> fst y) (sort xs)"
    by (rule sorted_wrt_mono_rel[OF _ s]) (auto simp: less_eq_prod_def)
  then show ?thesis by (simp add: sorted_wrt_rev)
qed

text \<open>The rows of an item that a window of the prompt gathers; they add up over adjacent windows.\<close>

definition window_rows :: "nat \<Rightarrow> nat \<Rightarrow> mm_item \<Rightarrow> nat" where
  "window_rows a b item = sum_list (map (\<lambda>(lo, hi). min hi b - max lo a) (offsets item))"

lemma window_rows_add:
  assumes "a \<le> b" "b \<le> c"
  shows "window_rows a b item + window_rows b c item = window_rows a c item"
proof -
  have "sum_list (map (\<lambda>(lo, hi). min hi b - max lo a) sp) + sum_list (map (\<lambda>(lo, hi). min hi c - max lo b) sp) =
      sum_list (map (\<lambda>(lo, hi). min hi c - max lo a) sp)" for sp
  proof (induction sp)
    case (Cons s sp)
    obtain lo hi where s: "s = (lo, hi)" by fastforce
    have "(min hi b - max lo a) + (min hi c - max lo b) = min hi c - max lo a"
      using assms by (auto simp: min_def max_def)
    then show ?case using Cons s by simp
  qed simp
  then show ?thesis by (simp add: window_rows_def)
qed

lemma window_rows_all: "\<forall>(lo, hi) \<in> set (offsets item). hi \<le> n \<Longrightarrow> window_rows a n item = mm_rows_after item a"
  unfolding window_rows_def mm_rows_after_def by (intro arg_cong[of _ _ sum_list] map_cong) auto

definition plan_rows :: "int \<Rightarrow> plan_row list \<Rightarrow> nat" where
  "plan_rows h plan = sum_list (map (\<lambda>(u, h', a, b, n, pos). b - a) (filter (\<lambda>(u, h', _). h' = h) plan))"

lemma piece_len:
  "lo \<le> m \<Longrightarrow> m < k \<Longrightarrow> base + k - lo - (base + m - lo) = k - (m :: nat)"
  "lo \<le> m \<Longrightarrow> m < k \<Longrightarrow> base + m - lo < base + k - (lo :: nat)"
  by arith+

lemma plan_rows_snoc: "plan_rows h (plan @ [(u, h', a, b, n, pos)]) = plan_rows h plan + (if h' = h then b - a else 0)"
  by (simp add: plan_rows_def)

lemma plan_spans_rows:
  assumes "plan_spans u item w_lo w_hi spans base needs (jobs, queued, plan) = (jobs', queued', plan')"
  shows "plan_rows h plan' = plan_rows h plan + (if mm_hash item = h then sum_list (map (\<lambda>(lo, hi). min hi w_hi - max lo w_lo) spans) else 0)"
  using assms
proof (induction spans arbitrary: base needs jobs queued plan)
  case (Cons s spans)
  obtain lo hi where s: "s = (lo, hi)" by fastforce
  show ?case
  proof (cases "max lo w_lo < min hi w_hi")
    case True
    have sub: "base + min hi w_hi - lo - (base + max lo w_lo - lo) = min hi w_hi - max lo w_lo"
      by (rule piece_len(1)[OF max.cobounded1 True])
    show ?thesis unfolding Cons.IH[OF Cons.prems[unfolded s plan_spans.simps Let_def if_P[OF True]]] plan_rows_snoc sub s by simp
  next
    case False
    have z: "min hi w_hi - max lo w_lo = 0" using False unfolding not_less by (rule diff_is_0_eq[THEN iffD2])
    show ?thesis unfolding Cons.IH[OF Cons.prems[unfolded s plan_spans.simps Let_def if_not_P[OF False]]] s by (simp add: z)
  qed
qed simp

lemma plan_items_rows:
  assumes "plan_items u a b enc items (jobs, queued, plan) = (jobs', queued', plan')"
  shows "plan_rows h plan' = plan_rows h plan + sum_list (map (window_rows a b) (filter (\<lambda>i. mm_hash i = h) items))"
  using assms
proof (induction items arbitrary: jobs queued plan)
  case (Cons item items)
  let ?needs = "mm_hash item \<notin> set queued \<and> (case enc of None \<Rightarrow> True | Some c \<Rightarrow> \<not> enc_has (mm_hash item) c)"
  obtain j q p where p: "plan_spans u item a b (offsets item) 0 ?needs (jobs, queued, plan) = (j, q, p)" by (metis prod_cases3)
  have "plan_items u a b enc items (j, q, p) = (jobs', queued', plan')" using Cons.prems p by (simp add: Let_def)
  from Cons.IH[OF this] plan_spans_rows[OF p, of h] show ?case by (simp add: window_rows_def)
qed simp

text \<open>Every planned row is a non-empty piece of the request's own items, and its embedding is cached or a job of the chunk.\<close>

definition plan_good :: "int \<Rightarrow> (int \<Rightarrow> bool) \<Rightarrow> plan_state \<Rightarrow> bool" where
  "plan_good u hav = (\<lambda>(jobs, queued, plan). (\<forall>h \<in> set queued. h \<in> mm_hash ` set jobs) \<and>
     (\<forall>item \<in> set jobs. \<exists>x \<in> set plan. fst (snd x) = mm_hash item) \<and>
     (\<forall>(u', h, a, b, n, pos) \<in> set plan. u' = u \<and> a < b \<and> (hav h \<or> h \<in> mm_hash ` set jobs)))"

lemma plan_spans_good:
  assumes "plan_good u hav (jobs, queued, plan)" "needs \<or> hav (mm_hash item) \<or> mm_hash item \<in> set queued"
    "plan_spans u item w_lo w_hi spans base needs (jobs, queued, plan) = st'"
  shows "plan_good u hav st'"
  using assms
proof (induction spans arbitrary: base needs jobs queued plan)
  case (Cons s spans)
  obtain lo hi where s: "s = (lo, hi)" by fastforce
  show ?case
  proof (cases "max lo w_lo < min hi w_hi")
    case True
    have lt: "base + max lo w_lo - lo < base + min hi w_hi - lo" by (rule piece_len(2)[OF max.cobounded1 True])
    let ?jobs = "if needs then jobs @ [item] else jobs" and ?queued = "if needs then mm_hash item # queued else queued"
    let ?plan = "plan @ [(u, mm_hash item, base + max lo w_lo - lo, base + min hi w_hi - lo, num_tokens item, max lo w_lo - w_lo)]"
    have g: "plan_good u hav (?jobs, ?queued, ?plan)"
      using Cons.prems(1,2) lt unfolding plan_good_def by (cases needs) (auto simp del: add_diff_assoc)
    show ?thesis
      by (rule Cons.IH[OF g _ Cons.prems(3)[unfolded s plan_spans.simps Let_def if_P[OF True]]]) (use Cons.prems(2) in auto)
  next
    case False
    show ?thesis
      by (rule Cons.IH[OF Cons.prems(1,2) Cons.prems(3)[unfolded s plan_spans.simps Let_def if_not_P[OF False]]])
  qed
qed simp

lemma plan_items_good:
  assumes "plan_good u (\<lambda>h. case enc of None \<Rightarrow> False | Some c \<Rightarrow> enc_has h c) st" "plan_items u a b enc items st = st'"
  shows "plan_good u (\<lambda>h. case enc of None \<Rightarrow> False | Some c \<Rightarrow> enc_has h c) st'"
  using assms
proof (induction items arbitrary: st)
  case (Cons item items)
  obtain jobs queued plan where st: "st = (jobs, queued, plan)" by (metis prod_cases3)
  let ?needs = "mm_hash item \<notin> set queued \<and> (case enc of None \<Rightarrow> True | Some c \<Rightarrow> \<not> enc_has (mm_hash item) c)"
  have "plan_good u (\<lambda>h. case enc of None \<Rightarrow> False | Some c \<Rightarrow> enc_has h c) (plan_spans u item a b (offsets item) 0 ?needs (jobs, queued, plan))"
    by (rule plan_spans_good[OF _ _ refl]) (use Cons.prems(1) st in \<open>auto split: option.splits\<close>)
  then show ?case by (rule Cons.IH) (use Cons.prems(2) st in \<open>simp add: Let_def\<close>)
qed simp

section \<open>Encoding and gathering a chunk\<close>

text \<open>\<^verbatim>\<open>Engine._run_mm_encoder\<close>: encode the jobs that are not cached, then gather and account the planned rows. That an
  encoded item drops its features is left out, since they are not modelled. The model's
  \<^verbatim>\<open>encode\<close> (or the precomputed embedding) is the parameter \<open>encode\<close>.\<close>

fun encode_jobs :: "(mm_item \<Rightarrow> 'e list) \<Rightarrow> mm_item list \<Rightarrow> 'e encoder_cache \<Rightarrow> 'e encoder_cache result" where
  "encode_jobs encode [] c = Inr c"
| "encode_jobs encode (item # jobs) c =
     rbind (if \<not> enc_has (mm_hash item) c then enc_put (mm_hash item) (encode item) c else Inr c) (encode_jobs encode jobs)"

fun gather_rows :: "plan_row list \<Rightarrow> 'e encoder_cache \<Rightarrow> ('e encoder_cache \<times> 'e list) result" where
  "gather_rows [] c = Inr (c, [])"
| "gather_rows ((u, h, lo, hi, _, _) # plan) c =
     rbind (enc_get_slice h lo hi c) (\<lambda>part.
     rbind (enc_consume h u (int hi - int lo) c) (\<lambda>c'.
     rbind (gather_rows plan c') (\<lambda>(c'', parts). Inr (c'', part @ parts))))"

definition run_mm_encoder ::
  "(mm_item \<Rightarrow> 'e list) \<Rightarrow> mm_item list \<Rightarrow> plan_row list \<Rightarrow> 'e encoder_cache \<Rightarrow> ('e encoder_cache \<times> 'e list) result" where
  "run_mm_encoder encode jobs plan c =
     py_assert (\<forall>item \<in> set jobs. mm_hash item \<in> set (map (\<lambda>row. fst (snd row)) plan))
       (rbind (encode_jobs encode jobs c) (gather_rows plan))"

section \<open>Claims\<close>

definition entry_ok :: "'e enc_entry \<Rightarrow> bool" where
  "entry_ok e \<longleftrightarrow> distinct (map fst (remaining e)) \<and> remaining e \<noteq> [] \<and> (\<forall>u k. map_of (remaining e) u = Some k \<longrightarrow> 0 < k)"

definition enc_inv :: "'e encoder_cache \<Rightarrow> bool" where
  "enc_inv c \<longleftrightarrow> distinct (map fst c) \<and> (\<forall>h e. map_of c h = Some e \<longrightarrow> entry_ok e)"

definition claim :: "'e encoder_cache \<Rightarrow> int \<Rightarrow> int \<Rightarrow> int" where
  "claim c h u = (case map_of c h of None \<Rightarrow> 0 | Some e \<Rightarrow> (case map_of (remaining e) u of None \<Rightarrow> 0 | Some k \<Rightarrow> k))"

lemma claim_Some: "claim c h u \<noteq> 0 \<Longrightarrow> \<exists>e. map_of c h = Some e \<and> map_of (remaining e) u = Some (claim c h u)"
  by (auto simp: claim_def split: option.splits)

lemma claim_nonneg: "enc_inv c \<Longrightarrow> 0 \<le> claim c h u"
  by (auto simp: claim_def enc_inv_def entry_ok_def order_less_imp_le split: option.splits)

lemma update_ne_Nil: "AList.update k v xs \<noteq> []"
  by (cases xs) auto

lemma enc_inv_update: "enc_inv c \<Longrightarrow> entry_ok e \<Longrightarrow> enc_inv (AList.update h e c)"
  by (auto simp: enc_inv_def update_conv' distinct_update simp del: map_of_eq_Some_iff split: if_splits)

lemma enc_inv_delete: "enc_inv c \<Longrightarrow> enc_inv (AList.delete h c)"
  by (auto simp: enc_inv_def delete_conv' distinct_delete simp del: map_of_eq_Some_iff split: if_splits)

lemma entry_ok_update:
  "distinct (map fst (remaining e)) \<Longrightarrow> \<forall>u k. map_of (remaining e) u = Some k \<longrightarrow> 0 < k \<Longrightarrow> 0 < k \<Longrightarrow>
   entry_ok (e\<lparr>remaining := AList.update u k (remaining e)\<rparr>)"
  by (auto simp: entry_ok_def update_conv' distinct_update update_ne_Nil simp del: map_of_eq_Some_iff split: if_splits)

lemma entry_ok_delete: "entry_ok e \<Longrightarrow> AList.delete u (remaining e) \<noteq> [] \<Longrightarrow> entry_ok (e\<lparr>remaining := AList.delete u (remaining e)\<rparr>)"
  by (auto simp: entry_ok_def delete_conv' distinct_delete simp del: map_of_eq_Some_iff split: if_splits)

lemma enc_register_ok:
  assumes "enc_inv c" "0 \<le> rows"
  shows "enc_inv (enc_register h u rows c)"
    "claim (enc_register h u rows c) h' u' = claim c h' u' + (if h' = h \<and> u' = u then rows else 0)"
proof -
  define entry where "entry = (case map_of c h of Some e \<Rightarrow> e | None \<Rightarrow> \<lparr>enc_tensor = None, remaining = []\<rparr>)"
  define old where "old = (case map_of (remaining entry) u of Some k \<Rightarrow> k | None \<Rightarrow> 0)"
  have old: "0 \<le> old" "distinct (map fst (remaining entry))" "\<forall>u k. map_of (remaining entry) u = Some k \<longrightarrow> 0 < k"
    using assms by (auto simp: old_def entry_def enc_inv_def entry_ok_def order_less_imp_le split: option.splits)
  have r: "enc_register h u rows c = (if rows \<le> 0 then c else AList.update h (entry\<lparr>remaining := AList.update u (old + rows) (remaining entry)\<rparr>) c)"
    by (simp add: enc_register_def entry_def old_def Let_def)
  have e: "entry_ok (entry\<lparr>remaining := AList.update u (old + rows) (remaining entry)\<rparr>)" if "0 < rows"
    by (rule entry_ok_update[OF old(2,3)]) (use old(1) that in simp)
  show "enc_inv (enc_register h u rows c)"
    using assms(1) enc_inv_update[OF assms(1) e] unfolding r by (cases "rows \<le> 0") simp_all
  show "claim (enc_register h u rows c) h' u' = claim c h' u' + (if h' = h \<and> u' = u then rows else 0)"
    using assms(2) unfolding r by (auto simp: claim_def update_conv' entry_def old_def split: option.splits)
qed

lemma enc_put_ok:
  assumes "enc_inv c" "claim c h u \<noteq> 0"
  shows "\<exists>c'. enc_put h emb c = Inr c' \<and> enc_inv c' \<and> (\<forall>h u. claim c' h u = claim c h u) \<and> enc_has h c' \<and>
    (\<forall>h. enc_has h c \<longrightarrow> enc_has h c')"
proof -
  obtain e where e: "map_of c h = Some e" using claim_Some[OF assms(2)] by blast
  let ?c = "AList.update h (e\<lparr>enc_tensor := Some emb\<rparr>) c"
  show ?thesis
  proof (cases "enc_tensor e = None")
    case True
    have "enc_inv ?c" using assms(1) e by (intro enc_inv_update) (auto simp: enc_inv_def entry_ok_def)
    moreover have "claim ?c h' u' = claim c h' u'" for h' u' using e by (auto simp: claim_def update_conv')
    ultimately show ?thesis using True e by (auto simp: enc_put_def enc_has_def update_conv')
  qed (use assms(1) e in \<open>auto simp: enc_put_def enc_has_def\<close>)
qed

lemma enc_consume_ok:
  assumes i: "enc_inv c" and k: "0 < rows" "rows \<le> claim c h u"
  shows "\<exists>c'. enc_consume h u rows c = Inr c' \<and> enc_inv c' \<and>
    (\<forall>h' u'. claim c' h' u' = claim c h' u' - (if h' = h \<and> u' = u then rows else 0)) \<and>
    (\<forall>h'. enc_has h' c \<longrightarrow> claim c' h' u \<noteq> 0 \<longrightarrow> enc_has h' c')"
proof -
  obtain e where e: "map_of c h = Some e" "map_of (remaining e) u = Some (claim c h u)" using claim_Some[of c h u] k by auto
  have ok: "entry_ok e" using i e(1) by (simp add: enc_inv_def)
  let ?k = "claim c h u - rows"
  show ?thesis
  proof (cases "?k = 0")
    case False
    let ?c = "AList.update h (e\<lparr>remaining := AList.update u ?k (remaining e)\<rparr>) c"
    have "enc_consume h u rows c = Inr ?c" using e k False by (simp add: enc_consume_def)
    moreover have "enc_inv ?c" using i ok False k(2)
      by (intro enc_inv_update entry_ok_update) (auto simp: entry_ok_def simp del: map_of_eq_Some_iff)
    moreover have "claim ?c h' u' = claim c h' u' - (if h' = h \<and> u' = u then rows else 0)" for h' u'
      using e by (auto simp: claim_def update_conv')
    moreover have "enc_has h' ?c" if "enc_has h' c" for h' using that e(1) by (auto simp: enc_has_def update_conv')
    ultimately show ?thesis by blast
  next
    case True
    let ?rest = "AList.delete u (remaining e)"
    let ?c = "if ?rest = [] then AList.delete h c else AList.update h (e\<lparr>remaining := ?rest\<rparr>) c"
    have "enc_consume h u rows c = Inr ?c" using e True by (simp add: enc_consume_def Let_def)
    moreover have "enc_inv ?c" using enc_inv_delete[OF i] enc_inv_update[OF i entry_ok_delete[OF ok]] by simp
    moreover have "claim ?c h' u' = claim c h' u' - (if h' = h \<and> u' = u then rows else 0)" for h' u'
    proof -
      have "map_of (remaining e) w = None" if "?rest = []" "w \<noteq> u" for w
        using that delete_conv'[of u "remaining e"] by (metis fun_upd_apply map_of.simps(1))
      then show ?thesis using e True by (auto simp: claim_def update_conv' delete_conv' split: option.splits)
    qed
    moreover have "enc_has h' ?c" if "enc_has h' c" "claim ?c h' u \<noteq> 0" for h'
      using that e(1) by (auto simp: enc_has_def claim_def update_conv' delete_conv' split: if_splits option.splits)
    ultimately show ?thesis by blast
  qed
qed

lemma encode_jobs_ok:
  assumes "enc_inv c" "\<forall>item \<in> set jobs. claim c (mm_hash item) u \<noteq> 0"
  shows "\<exists>c'. encode_jobs encode jobs c = Inr c' \<and> enc_inv c' \<and> (\<forall>h u. claim c' h u = claim c h u) \<and>
    (\<forall>h. enc_has h c \<or> h \<in> mm_hash ` set jobs \<longrightarrow> enc_has h c')"
  using assms
proof (induction jobs arbitrary: c)
  case (Cons item jobs)
  obtain c1 where c1: "(if \<not> enc_has (mm_hash item) c then enc_put (mm_hash item) (encode item) c else Inr c) = Inr c1"
    "enc_inv c1" "\<forall>h u. claim c1 h u = claim c h u" "enc_has (mm_hash item) c1" "\<forall>h. enc_has h c \<longrightarrow> enc_has h c1"
    using enc_put_ok[OF Cons.prems(1), of "mm_hash item" u "encode item"] Cons.prems by (cases "enc_has (mm_hash item) c") auto
  have "\<forall>i \<in> set jobs. claim c1 (mm_hash i) u \<noteq> 0" using Cons.prems(2) c1(3) by simp
  then obtain c' where "encode_jobs encode jobs c1 = Inr c'" "enc_inv c'" "\<forall>h u. claim c' h u = claim c1 h u"
    "\<forall>h. enc_has h c1 \<or> h \<in> mm_hash ` set jobs \<longrightarrow> enc_has h c'" using Cons.IH[OF c1(2)] by blast
  then show ?case using c1 by auto
qed simp

lemma gather_rows_ok:
  assumes "enc_inv c" "\<forall>(u', h, a, b, n, pos) \<in> set plan. u' = u \<and> a < b \<and> enc_has h c" "\<forall>h. int (plan_rows h plan) \<le> claim c h u"
  shows "\<exists>c' parts. gather_rows plan c = Inr (c', parts) \<and> enc_inv c' \<and>
    (\<forall>h u'. claim c' h u' = claim c h u' - (if u' = u then int (plan_rows h plan) else 0))"
  using assms
proof (induction plan arbitrary: c)
  case Nil
  then show ?case by (simp add: plan_rows_def)
next
  case (Cons x plan)
  obtain u' h a b n pos where "x = (u', h, a, b, n, pos)" by (metis prod_cases6)
  then have x: "x = (u, h, a, b, n, pos)" "a < b" "enc_has h c" using Cons.prems(2) by auto
  have pr: "plan_rows g (x # plan) = (if g = h then b - a else 0) + plan_rows g plan" for g using x(1) by (simp add: plan_rows_def)
  have kk: "0 < int b - int a" "int b - int a \<le> claim c h u" using x(2) Cons.prems(3)[rule_format, of h] pr[of h] by auto
  obtain c1 where c1: "enc_consume h u (int b - int a) c = Inr c1" "enc_inv c1"
    "\<forall>h' u'. claim c1 h' u' = claim c h' u' - (if h' = h \<and> u' = u then int b - int a else 0)"
    "\<forall>h'. enc_has h' c \<longrightarrow> claim c1 h' u \<noteq> 0 \<longrightarrow> enc_has h' c1" using enc_consume_ok[OF Cons.prems(1) kk] by blast
  obtain part where part: "enc_get_slice h a b c = Inr part"
    using x(3) by (auto simp: enc_has_def enc_get_slice_def split: option.splits)
  have le: "\<forall>g. int (plan_rows g plan) \<le> claim c1 g u"
  proof
    fix g
    show "int (plan_rows g plan) \<le> claim c1 g u"
      using Cons.prems(3)[rule_format, of g] pr[of g] c1(3) x(2) by (cases "g = h") auto
  qed
  have has: "\<forall>(u', g, a, b, n, pos) \<in> set plan. u' = u \<and> a < b \<and> enc_has g c1"
  proof
    fix y assume y: "y \<in> set plan"
    obtain v g a' b' n' pos' where yy: "y = (v, g, a', b', n', pos')" by (metis prod_cases6)
    have p: "v = u" "a' < b'" "enc_has g c" using Cons.prems(2) y yy by auto
    have "b' - a' \<le> plan_rows g plan" using y yy unfolding plan_rows_def
      by (intro member_le_sum_list) force+
    then have "0 < plan_rows g plan" using p(2) by linarith
    then have "claim c1 g u \<noteq> 0" using le[rule_format, of g] by linarith
    then show "case y of (u', g, a, b, n, pos) \<Rightarrow> u' = u \<and> a < b \<and> enc_has g c1" using p c1(4) yy by auto
  qed
  obtain c' parts where g: "gather_rows plan c1 = Inr (c', parts)" "enc_inv c'"
    "\<forall>h u'. claim c' h u' = claim c1 h u' - (if u' = u then int (plan_rows h plan) else 0)"
    using Cons.IH[OF c1(2) has le] by blast
  have "claim c' g v = claim c g v - (if v = u then int (plan_rows g (x # plan)) else 0)" for g v
    using g(3) c1(3) pr[of g] x(2) by auto
  then show ?case using x(1) part c1(1) g(1,2) by auto
qed

lemma window_rows_sum:
  assumes "a \<le> b" "b \<le> n" "\<forall>item \<in> set items. \<forall>(lo, hi) \<in> set (offsets item). hi \<le> n"
  shows "sum_list (map (window_rows a b) items) + sum_list (map (\<lambda>i. mm_rows_after i b) items) = sum_list (map (\<lambda>i. mm_rows_after i a) items)"
  using assms(3)
proof (induction items)
  case (Cons i items)
  have "window_rows a b i + mm_rows_after i b = mm_rows_after i a"
    using window_rows_add[OF assms(1,2), of i] window_rows_all[of i n] Cons.prems by simp
  then show ?case using Cons by simp
qed simp

lemma mm_chunk_end_ok:
  assumes "chunk_lo < e" "0 < al" "mm_chunk_end items chunk_lo e al = r"
  shows "chunk_lo < r \<and> r \<le> e \<and>
    ((r = e \<or> al dvd r) \<and> (\<forall>(lo, hi) \<in> set (all_spans items). \<not> (lo < r \<and> r < hi)) \<or>
     r = e \<and> (\<exists>(lo, hi) \<in> set (all_spans items). align_down lo al \<le> chunk_lo \<and> chunk_lo < hi))"
  using mm_cut_loop_ok[OF rev_sort_desc assms(1) order.refl assms(2,3)[unfolded mm_chunk_end_def]] by auto

lemma mm_cut_loop_greatest:
  assumes "sorted_wrt (\<lambda>x y. fst y \<le> fst x) spans" "0 < al" "chunk_lo < p" "p \<le> pos" "p = pos \<or> al dvd p"
    "\<forall>(lo, hi) \<in> set spans. \<not> (lo < p \<and> p < hi)"
  shows "p \<le> mm_cut_loop chunk_lo e al spans pos \<and> mm_cut_loop chunk_lo e al spans pos \<le> pos \<and>
    (\<forall>(lo, hi) \<in> set spans. \<not> (lo < mm_cut_loop chunk_lo e al spans pos \<and> mm_cut_loop chunk_lo e al spans pos < hi)) \<and>
    (mm_cut_loop chunk_lo e al spans pos = pos \<or>
     al dvd mm_cut_loop chunk_lo e al spans pos \<and> (\<exists>x \<in> set spans. mm_cut_loop chunk_lo e al spans pos \<le> fst x))"
  using assms
proof (induction chunk_lo e al spans pos rule: mm_cut_loop.induct)
  case (2 chunk_lo e al lo hi spans pos)
  have s: "sorted_wrt (\<lambda>x y. fst y \<le> fst x) spans" and le: "\<And>x. x \<in> set spans \<Longrightarrow> fst x \<le> lo" using "2.prems"(1) by auto
  have un: "\<forall>(lo, hi) \<in> set spans. \<not> (lo < p \<and> p < hi)" "\<not> (lo < p \<and> p < hi)" using "2.prems"(6) by simp_all
  let ?R = "mm_cut_loop chunk_lo e al ((lo, hi) # spans) pos"
  show ?case
  proof (cases "lo < pos \<and> pos < hi")
    case False
    have e: "?R = mm_cut_loop chunk_lo e al spans pos" using False by auto
    note I = "2.IH"(2)[OF False s "2.prems"(2-5) un(1), folded e]
    have "\<not> (lo < ?R \<and> ?R < hi)" if "?R = pos \<or> al dvd ?R \<and> (\<exists>x \<in> set spans. ?R \<le> fst x)"
      using that False le by fastforce
    then have "\<not> (lo < ?R \<and> ?R < hi)" using I by blast
    moreover have "?R = pos \<or> al dvd ?R \<and> (\<exists>x \<in> set ((lo, hi) # spans). ?R \<le> fst x)" using I by (metis list.set_intros(2))
    ultimately show ?thesis using I unfolding list.set ball_simps by blast
  next
    case True
    have "p \<noteq> pos" using un(2) True by blast
    then have p: "al dvd p" "p < pos" using "2.prems"(4,5) by auto
    have plo: "p \<le> lo" using p(2) un(2) True by linarith
    have ad: "align_down lo al \<le> lo" by (rule align_down_le)
    have pa: "p \<le> align_down lo al"
    proof -
      obtain k where k: "p = al * k" using p(1) by (elim dvdE)
      have "k \<le> lo div al" using plo k "2.prems"(2) by (metis div_le_mono nonzero_mult_div_cancel_left less_numeral_extra(3))
      then show ?thesis using k by (simp add: align_down_def mult.commute)
    qed
    have big: "\<not> align_down lo al \<le> chunk_lo" and lo: "\<not> lo \<le> chunk_lo" using pa plo "2.prems"(3) by linarith+
    have e: "?R = mm_cut_loop chunk_lo e al spans (align_down lo al)" using True big lo by (simp add: Let_def)
    note I = "2.IH"(1)[OF True lo refl big s "2.prems"(2,3) pa disjI2[OF p(1)] un(1), folded e]
    have dv: "al dvd align_down lo al" by (simp add: align_down_def)
    have "?R \<le> lo" using I ad by linarith
    then show ?thesis using I dv True by auto
  qed
qed simp

section \<open>The rows a chunk gathers\<close>

text \<open>The prompt positions an item's embedding rows belong to, in order, and the rows of those in a window.\<close>

definition span_positions :: "(nat \<times> nat) list \<Rightarrow> nat list" where
  "span_positions spans = concat (map (\<lambda>(lo, hi). [lo..<hi]) spans)"

definition in_window :: "nat \<Rightarrow> nat \<Rightarrow> nat \<Rightarrow> bool" where
  "in_window a b p \<longleftrightarrow> a \<le> p \<and> p < b"

definition window_of :: "nat \<Rightarrow> nat \<Rightarrow> (nat \<times> nat) list \<Rightarrow> 'e list \<Rightarrow> 'e list" where
  "window_of a b spans rows = map snd (filter (\<lambda>(p, x). in_window a b p) (zip (span_positions spans) rows))"

lemma zip_window:
  "map snd (filter (\<lambda>(p, x). in_window a b p) (zip [lo..<lo + length xs] xs)) =
     slice (max lo a - lo) (min (lo + length xs) b - lo) xs"
proof (induction xs arbitrary: lo)
  case (Cons x xs)
  have u: "[lo..<lo + length (x # xs)] = lo # [Suc lo..<Suc lo + length xs]"
    by (subst upt_conv_Cons) (simp_all del: upt_Suc)
  have IH: "map snd (filter (\<lambda>(p, x). in_window a b p) (zip [Suc lo..<Suc lo + length xs] xs)) =
     slice (max (Suc lo) a - Suc lo) (min (Suc lo + length xs) b - Suc lo) xs" by (rule Cons.IH)
  consider "lo < a" | "a \<le> lo" "lo < b" | "a \<le> lo" "b \<le> lo" by linarith
  then show ?case
  proof cases
    case 1
    then have m: "max (Suc lo) a - Suc lo = a - Suc lo" "max lo a - lo = Suc (a - Suc lo)" by auto
    show ?thesis
    proof (cases "lo < b")
      case True
      then have "min (lo + length (x # xs)) b - lo = Suc (min (Suc lo + length xs) b - Suc lo)" by auto
      then show ?thesis using IH 1 unfolding u m by (simp add: in_window_def slice_def)
    next
      case False
      then show ?thesis using IH 1 unfolding u m by (simp add: in_window_def slice_def)
    qed
  next
    case 2
    then have "min (lo + length (x # xs)) b - lo = Suc (min (Suc lo + length xs) b - Suc lo)" by auto
    then show ?thesis using IH 2 unfolding u by (simp add: in_window_def slice_def)
  next
    case 3
    then show ?thesis using IH unfolding u by (simp add: in_window_def slice_def)
  qed
qed (simp add: slice_def)

lemma window_of_Cons:
  assumes "hi - lo \<le> length rows"
  shows "window_of a b ((lo, hi) # spans) rows =
    slice (max lo a - lo) (min hi b - lo) rows @ window_of a b spans (drop (hi - lo) rows)"
proof (cases "lo < hi")
  case True
  have l: "length (take (hi - lo) rows) = hi - lo" using assms by simp
  have z: "zip (span_positions ((lo, hi) # spans)) rows =
      zip [lo..<lo + length (take (hi - lo) rows)] (take (hi - lo) rows) @ zip (span_positions spans) (drop (hi - lo) rows)"
    using True assms by (simp add: span_positions_def zip_append1)
  have sl: "slice (max lo a - lo) (min hi b - lo) (take (hi - lo) rows) = slice (max lo a - lo) (min hi b - lo) rows"
  proof -
    have "min (min hi b - lo) (hi - lo) = min hi b - lo" by auto
    then show ?thesis by (simp add: slice_def)
  qed
  have hi: "lo + length (take (hi - lo) rows) = hi" using l True by simp
  show ?thesis unfolding window_of_def z filter_append map_append zip_window unfolding hi sl ..
qed (simp add: window_of_def span_positions_def slice_def)

definition plan_parts :: "(int \<Rightarrow> 'e list) \<Rightarrow> plan_row list \<Rightarrow> 'e list" where
  "plan_parts E plan = concat (map (\<lambda>(u, h, lo, hi, n, pos). slice lo hi (E h)) plan)"

definition plan_positions :: "plan_row list \<Rightarrow> nat list" where
  "plan_positions plan = concat (map (\<lambda>(u, h, lo, hi, n, pos). [pos..<pos + (hi - lo)]) plan)"

lemma shift_upt: "a \<le> x \<Longrightarrow> x \<le> y \<Longrightarrow> map (\<lambda>p. p - a) [x..<y] = [x - a..<x - a + (y - x)]"
  by (intro nth_equalityI) simp_all

lemma filter_upt: "filter (in_window a b) [lo..<hi] = [max lo a..<min hi b]"
proof (induction hi)
  case (Suc hi)
  then show ?case by (auto simp: in_window_def not_le not_less)
qed simp

lemma plan_spans_parts:
  assumes "plan_spans u item a b spans base needs (jobs, queued, plan) = (jobs', queued', plan')"
    "base + sum_list (map (\<lambda>(lo, hi). hi - lo) spans) \<le> length (E (mm_hash item))"
  shows "plan_parts E plan' = plan_parts E plan @ window_of a b spans (drop base (E (mm_hash item))) \<and>
    plan_positions plan' = plan_positions plan @ map (\<lambda>p. p - a) (filter (in_window a b) (span_positions spans)) \<and>
    set jobs' \<subseteq> insert item (set jobs)"
  using assms
proof (induction spans arbitrary: base needs jobs queued plan)
  case Nil
  then show ?case by (auto simp: window_of_def span_positions_def)
next
  case (Cons s spans)
  obtain lo hi where s: "s = (lo, hi)" by fastforce
  have len: "base + (hi - lo) + sum_list (map (\<lambda>(lo, hi). hi - lo) spans) \<le> length (E (mm_hash item))"
    "hi - lo \<le> length (drop base (E (mm_hash item)))" using Cons.prems(2) s by simp_all
  note p = Cons.prems
    have w: "window_of a b (s # spans) (drop base (E (mm_hash item))) =
        slice (base + max lo a - lo) (base + min hi b - lo) (E (mm_hash item)) @ window_of a b spans (drop (base + (hi - lo)) (E (mm_hash item)))"
      if "max lo a < min hi b"
    proof -
      have i: "base + max lo a - lo = base + (max lo a - lo)" "base + min hi b - lo = (min hi b - lo) + base" using that by auto
      show ?thesis unfolding s window_of_Cons[OF len(2)] i by (simp add: slice_def take_drop add.commute)
    qed
    show ?case
    proof (cases "max lo a < min hi b")
      case True
      note I = Cons.IH[OF p(1)[unfolded s plan_spans.simps Let_def if_P[OF True]] len(1)]
      note I1 = conjunct1[OF I] and I2 = conjunct1[OF conjunct2[OF I]] and I3 = conjunct2[OF conjunct2[OF I]]
      have ps: "map (\<lambda>p. p - a) [max lo a..<min hi b] = [max lo a - a..<max lo a - a + (min hi b - max lo a)]"
        by (rule shift_upt) (use True in simp_all)
      have pp: "plan_positions (plan @ [(u, mm_hash item, base + max lo a - lo, base + min hi b - lo, num_tokens item, max lo a - a)]) =
          plan_positions plan @ [max lo a - a..<max lo a - a + (min hi b - max lo a)]"
        unfolding plan_positions_def
        by (simp only: map_append concat_append list.map concat.simps prod.case piece_len(1)[OF max.cobounded1 True] append_Nil2)
      show ?thesis
      proof (intro conjI)
        show "plan_parts E plan' = plan_parts E plan @ window_of a b (s # spans) (drop base (E (mm_hash item)))"
          unfolding I1 w[OF True] by (simp add: plan_parts_def)
        show "plan_positions plan' = plan_positions plan @ map (\<lambda>p. p - a) (filter (in_window a b) (span_positions (s # spans)))"
          unfolding I2 pp by (simp add: s span_positions_def filter_upt ps del: upt.simps)
        show "set jobs' \<subseteq> insert item (set jobs)" using I3 by (auto split: if_splits)
      qed
    next
      case False
      note I = Cons.IH[OF p(1)[unfolded s plan_spans.simps Let_def if_not_P[OF False]] len(1)]
      have e: "[max lo a..<min hi b] = []" by (rule upt_conv_Nil) (use False in \<open>simp only: not_less\<close>)
      have "slice (max lo a - lo) (min hi b - lo) (drop base (E (mm_hash item))) = []"
      proof -
        have "min hi b - lo \<le> max lo a - lo" using False by arith
        then show ?thesis by (simp add: slice_def min.coboundedI2)
      qed
      then show ?thesis using I unfolding s window_of_Cons[OF len(2)]
        by (simp add: span_positions_def filter_upt e add.commute del: upt.simps)
    qed
qed

lemma plan_items_parts:
  assumes "plan_items u a b enc items (jobs, queued, plan) = (jobs', queued', plan')"
    "\<forall>item \<in> set items. num_tokens item \<le> length (E (mm_hash item))"
  shows "plan_parts E plan' = plan_parts E plan @ concat (map (\<lambda>item. window_of a b (offsets item) (E (mm_hash item))) items) \<and>
    plan_positions plan' = plan_positions plan @
      map (\<lambda>p. p - a) (filter (in_window a b) (concat (map (\<lambda>item. span_positions (offsets item)) items))) \<and>
    set jobs' \<subseteq> set items \<union> set jobs"
  using assms
proof (induction items arbitrary: jobs queued plan)
  case (Cons item items)
  let ?needs = "mm_hash item \<notin> set queued \<and> (case enc of None \<Rightarrow> True | Some c \<Rightarrow> \<not> enc_has (mm_hash item) c)"
  obtain j q p where p: "plan_spans u item a b (offsets item) 0 ?needs (jobs, queued, plan) = (j, q, p)" by (metis prod_cases3)
  have r: "plan_items u a b enc items (j, q, p) = (jobs', queued', plan')" using Cons.prems(1) p by (simp add: Let_def)
  have l: "0 + sum_list (map (\<lambda>(lo, hi). hi - lo) (offsets item)) \<le> length (E (mm_hash item))"
    using Cons.prems(2) by (simp add: num_tokens_def)
  have e: "\<forall>item \<in> set items. num_tokens item \<le> length (E (mm_hash item))" using Cons.prems(2) by simp
  note S = plan_spans_parts[where E = E, OF p l]
  from Cons.IH[OF r e] S show ?case by auto
qed simp

text \<open>The tensors a cache tensors_hold are the embeddings \<open>E\<close> of their hashes.\<close>

definition tensors_hold :: "(int \<Rightarrow> 'e list) \<Rightarrow> 'e encoder_cache \<Rightarrow> bool" where
  "tensors_hold E c \<longleftrightarrow> (\<forall>h e t. map_of c h = Some e \<longrightarrow> enc_tensor e = Some t \<longrightarrow> t = E h)"

lemma encode_jobs_holds:
  assumes "encode_jobs encode jobs c = Inr c'" "tensors_hold E c" "\<forall>item \<in> set jobs. encode item = E (mm_hash item)"
  shows "tensors_hold E c'"
  using assms
proof (induction jobs arbitrary: c)
  case (Cons item jobs)
  obtain c1 where c1: "(if \<not> enc_has (mm_hash item) c then enc_put (mm_hash item) (encode item) c else Inr c) = Inr c1"
    "encode_jobs encode jobs c1 = Inr c'" using Cons.prems(1) by (auto simp: rbind_eq_Inr)
  have "tensors_hold E c1" using c1(1) Cons.prems(2,3)
    by (auto simp: enc_put_def tensors_hold_def update_conv' simp del: map_of_eq_Some_iff split: if_splits option.splits)
  then show ?case using Cons c1(2) by simp
qed simp

lemma enc_consume_holds: "enc_consume h u k c = Inr c' \<Longrightarrow> distinct (map fst c) \<Longrightarrow> tensors_hold E c \<Longrightarrow> tensors_hold E c'"
  by (auto simp: enc_consume_def tensors_hold_def Let_def py_assert_eq_Inr update_conv' delete_conv' simp del: map_of_eq_Some_iff
      split: if_splits option.splits)

lemma enc_consume_distinct: "enc_consume h u k c = Inr c' \<Longrightarrow> distinct (map fst c) \<Longrightarrow> distinct (map fst c')"
  by (auto simp: enc_consume_def Let_def py_assert_eq_Inr distinct_update distinct_delete split: if_splits option.splits)

lemma gather_rows_parts:
  assumes "gather_rows plan c = Inr (c', parts)" "distinct (map fst c)" "tensors_hold E c"
  shows "parts = plan_parts E plan"
  using assms
proof (induction plan arbitrary: c parts)
  case Nil
  then show ?case by (simp add: plan_parts_def)
next
  case (Cons x plan)
  obtain u h a b n pos where x: "x = (u, h, a, b, n, pos)" by (metis prod_cases6)
  obtain part c1 rest where g: "enc_get_slice h a b c = Inr part" "enc_consume h u (int b - int a) c = Inr c1"
    "gather_rows plan c1 = Inr (c', rest)" "parts = part @ rest" using Cons.prems(1) x by (auto simp: rbind_eq_Inr)
  have "part = slice a b (E h)" using g(1) Cons.prems(3) by (auto simp: enc_get_slice_def tensors_hold_def split: option.splits)
  moreover have "rest = plan_parts E plan"
    by (rule Cons.IH[OF g(3) enc_consume_distinct[OF g(2) Cons.prems(2)] enc_consume_holds[OF g(2) Cons.prems(2,3)]])
  ultimately show ?case using g(4) x by (simp add: plan_parts_def)
qed

lemma encode_jobs_distinct: "encode_jobs encode jobs c = Inr c' \<Longrightarrow> distinct (map fst c) \<Longrightarrow> distinct (map fst c')"
proof (induction jobs arbitrary: c)
  case (Cons item jobs)
  obtain c1 where c1: "(if \<not> enc_has (mm_hash item) c then enc_put (mm_hash item) (encode item) c else Inr c) = Inr c1"
    "encode_jobs encode jobs c1 = Inr c'" using Cons.prems(1) by (auto simp: rbind_eq_Inr)
  have "distinct (map fst c1)" using c1(1) Cons.prems(2)
    by (auto simp: enc_put_def distinct_update split: if_splits option.splits)
  then show ?case using Cons.IH c1(2) by blast
qed simp

lemma mm_rows_claims:
  assumes inv: "enc_inv c" and le: "a \<le> b" "b \<le> n"
    and spans: "\<forall>item \<in> set items. \<forall>(lo, hi) \<in> set (offsets item). hi \<le> n"
    and claims: "\<forall>h. claim c h u = int (sum_list (map (\<lambda>i. mm_rows_after i a) (filter (\<lambda>i. mm_hash i = h) items)))"
    and plan: "plan_mm_chunk u items a b (Some c) = (jobs, plan)"
  shows "\<exists>c' parts. run_mm_encoder encode jobs plan c = Inr (c', parts) \<and> enc_inv c' \<and>
    (\<forall>h. claim c' h u = int (sum_list (map (\<lambda>i. mm_rows_after i b) (filter (\<lambda>i. mm_hash i = h) items)))) \<and>
    (\<forall>h v. v \<noteq> u \<longrightarrow> claim c' h v = claim c h v)"
proof -
  obtain q where q: "plan_items u a b (Some c) items ([], [], []) = (jobs, q, plan)"
    using plan by (auto simp: plan_mm_chunk_def split: prod.splits)
  have "plan_good u (\<lambda>h. case Some c of None \<Rightarrow> False | Some c \<Rightarrow> enc_has h c) ([], [], [])" by (simp add: plan_good_def)
  from plan_items_good[OF this q] have g: "\<forall>item \<in> set jobs. \<exists>x \<in> set plan. fst (snd x) = mm_hash item"
    "\<forall>(u', h, a, b, n, pos) \<in> set plan. u' = u \<and> a < b \<and> (enc_has h c \<or> h \<in> mm_hash ` set jobs)" by (simp_all add: plan_good_def)
  have rows: "plan_rows h plan = sum_list (map (window_rows a b) (filter (\<lambda>i. mm_hash i = h) items))" for h
    using plan_items_rows[OF q, of h] by (simp add: plan_rows_def)
  have add: "plan_rows h plan + sum_list (map (\<lambda>i. mm_rows_after i b) (filter (\<lambda>i. mm_hash i = h) items)) =
      sum_list (map (\<lambda>i. mm_rows_after i a) (filter (\<lambda>i. mm_hash i = h) items))" for h
    unfolding rows by (rule window_rows_sum[OF le]) (use spans in auto)
  have pos: "claim c h u \<noteq> 0" if "(v, h, x, y, k, p) \<in> set plan" for v h x y k p
  proof -
    have "x < y" using g(2) that by auto
    moreover have "y - x \<le> plan_rows h plan" using that unfolding plan_rows_def by (intro member_le_sum_list) force+
    ultimately have "0 < plan_rows h plan" by linarith
    then have "0 < sum_list (map (\<lambda>i. mm_rows_after i a) (filter (\<lambda>i. mm_hash i = h) items))" using add[of h] by linarith
    then show ?thesis unfolding claims[rule_format] by linarith
  qed
  have "\<forall>item \<in> set jobs. claim c (mm_hash item) u \<noteq> 0" using g(1) pos by fastforce
  then obtain c1 where c1: "encode_jobs encode jobs c = Inr c1" "enc_inv c1" "\<forall>h u. claim c1 h u = claim c h u"
    "\<forall>h. enc_has h c \<or> h \<in> mm_hash ` set jobs \<longrightarrow> enc_has h c1" using encode_jobs_ok[OF inv, of jobs u encode] by blast
  have has: "\<forall>(u', h, a, b, n, pos) \<in> set plan. u' = u \<and> a < b \<and> enc_has h c1" using g(2) c1(4) by fastforce
  have "\<forall>h. int (plan_rows h plan) \<le> claim c1 h u" using claims add c1(3) by (metis of_nat_le_iff le_add1)
  from gather_rows_ok[OF c1(2) has this] obtain c' parts where r: "gather_rows plan c1 = Inr (c', parts)" "enc_inv c'"
    "\<forall>h u'. claim c' h u' = claim c1 h u' - (if u' = u then int (plan_rows h plan) else 0)" by blast
  have "\<forall>item \<in> set jobs. mm_hash item \<in> set (map (\<lambda>row. fst (snd row)) plan)" using g(1) by force
  then have "run_mm_encoder encode jobs plan c = Inr (c', parts)" unfolding run_mm_encoder_def using c1(1) r(1) by (simp add: py_assert_def)
  moreover have "claim c' h u = int (sum_list (map (\<lambda>i. mm_rows_after i b) (filter (\<lambda>i. mm_hash i = h) items)))" for h
  proof -
    have "claim c' h u = claim c h u - int (plan_rows h plan)" using r(3) c1(3) by simp
    then show ?thesis unfolding claims[rule_format] add[of h, symmetric] by simp
  qed
  ultimately show ?thesis using r(2,3) c1(3) by auto
qed

section \<open>Properties\<close>

text \<open>C38: The end of a multimodal prefill chunk. Among the ends of the chunk \<open>(chunk_lo, e]\<close> that are the wanted end or a multiple of
  the alignment and that fall inside no image span, \<^verbatim>\<open>mm_chunk_end\<close> returns the greatest; when there is none it returns the
  wanted end, and that end cuts an image. The image need not be longer than the chunk: it is enough that no aligned position
  lies between the chunk's start and the image's.\<close>

theorem mm_chunk_end_greatest:
  fixes items :: "mm_item list"
  assumes "chunk_lo < e" "0 < al"
  defines "whole \<equiv> \<lambda>p. chunk_lo < p \<and> p \<le> e \<and> (p = e \<or> al dvd p) \<and> (\<forall>(lo, hi) \<in> set (all_spans items). \<not> (lo < p \<and> p < hi))"
  shows "if \<exists>p. whole p then whole (mm_chunk_end items chunk_lo e al) \<and> (\<forall>p. whole p \<longrightarrow> p \<le> mm_chunk_end items chunk_lo e al)
    else mm_chunk_end items chunk_lo e al = e"
proof -
  let ?spans = "rev (sort (all_spans items))" and ?r = "mm_chunk_end items chunk_lo e al"
  have S: "set ?spans = set (all_spans items)" by simp
  show ?thesis
  proof (cases "\<exists>p. whole p")
    case True
    have "whole ?r \<and> p \<le> ?r" if "whole p" for p
    proof -
      have un: "\<forall>(lo, hi) \<in> set ?spans. \<not> (lo < p \<and> p < hi)" using that unfolding whole_def S by blast
      have w: "chunk_lo < p" "p \<le> e" "p = e \<or> al dvd p" using that by (simp_all add: whole_def)
      from mm_cut_loop_greatest[OF rev_sort_desc assms(2) w un, of e, folded mm_chunk_end_def] w(1)
      show ?thesis unfolding whole_def S by auto
    qed
    then show ?thesis using True by auto
  next
    case False
    have "?r = e \<or> whole ?r" using mm_chunk_end_ok[OF assms(1,2) refl, of items] by (auto simp: whole_def)
    then show ?thesis using False by auto
  qed
qed

theorem mm_chunk_end_greatest_witness:
  "mm_chunk_end [\<lparr>mm_hash = 1, offsets = [(3, 9), (20, 30)]\<rparr>] 0 25 4 = 20 \<and> mm_chunk_end [\<lparr>mm_hash = 1, offsets = [(6, 13)]\<rparr>] 4 12 8 = 12"
proof
  let ?i = "[\<lparr>mm_hash = 1, offsets = [(3, 9), (20, 30)]\<rparr>]" and ?j = "[\<lparr>mm_hash = 1, offsets = [(6, 13)]\<rparr>]"
  have w: "\<exists>p. 0 < p \<and> p \<le> 25 \<and> (p = 25 \<or> 4 dvd p) \<and> (\<forall>(lo, hi) \<in> set (all_spans ?i). \<not> (lo < p \<and> p < hi))"
    by (rule exI[of _ 20]) (simp add: all_spans_def)
  have "(0 :: nat) < 25" "(0 :: nat) < 4" by simp_all
  note T = mm_chunk_end_greatest[OF this, of ?i, unfolded if_P[OF w]]
  have "20 \<le> mm_chunk_end ?i 0 25 4" by (rule conjunct2[OF T, rule_format]) (simp add: all_spans_def)
  moreover have "mm_chunk_end ?i 0 25 4 \<le> 25" "\<not> (20 < mm_chunk_end ?i 0 25 4 \<and> mm_chunk_end ?i 0 25 4 < 30)"
    using conjunct1[OF T] unfolding all_spans_def by auto
  ultimately show "mm_chunk_end ?i 0 25 4 = 20" by linarith
  have n: "\<not> (\<exists>p. 4 < p \<and> p \<le> 12 \<and> (p = 12 \<or> 8 dvd p) \<and> (\<forall>(lo, hi) \<in> set (all_spans ?j). \<not> (lo < p \<and> p < hi)))"
    by (simp add: all_spans_def) presburger
  have "(4 :: nat) < 12" "(0 :: nat) < 8" by simp_all
  from mm_chunk_end_greatest[OF this, of ?j] show "mm_chunk_end ?j 4 12 8 = 12" unfolding if_not_P[OF n] .
qed

text \<open>C37: The embedding rows of a request are claimed and gathered exactly once. Before the chunk \<open>[a, b)\<close> let the request's claim on
  each image be the rows from \<open>a\<close> on, as \<^verbatim>\<open>register\<close> of \<^verbatim>\<open>mm_rows_after\<close> leaves it. Then planning the chunk
  and running its encoder jobs and gathers never raises, whatever the model returns. The rows it returns are, item by item, the
  rows of the item's embedding that belong to the positions of the chunk, in order (when the model gives one row per token and
  the cached tensors are those of their hashes), and the plan places them at those positions of the chunk. Afterwards the claims are
  the rows from \<open>b\<close> on, so they are gone after the last chunk; nobody else's claims change.\<close>

theorem mm_rows_gathered_once:
  assumes inv: "enc_inv c" and le: "a \<le> b" "b \<le> n"
    and spans: "\<forall>item \<in> set items. \<forall>(lo, hi) \<in> set (offsets item). hi \<le> n"
    and claims: "\<forall>h. claim c h u = int (sum_list (map (\<lambda>i. mm_rows_after i a) (filter (\<lambda>i. mm_hash i = h) items)))"
    and plan: "plan_mm_chunk u items a b (Some c) = (jobs, plan)"
  shows "\<exists>c' parts. run_mm_encoder encode jobs plan c = Inr (c', parts) \<and> enc_inv c' \<and>
    (\<forall>h. claim c' h u = int (sum_list (map (\<lambda>i. mm_rows_after i b) (filter (\<lambda>i. mm_hash i = h) items)))) \<and>
    (\<forall>h v. v \<noteq> u \<longrightarrow> claim c' h v = claim c h v) \<and>
    plan_positions plan = map (\<lambda>p. p - a) (filter (in_window a b) (concat (map (\<lambda>item. span_positions (offsets item)) items))) \<and>
    (\<forall>E. tensors_hold E c \<and> (\<forall>item \<in> set items. encode item = E (mm_hash item) \<and> length (encode item) = num_tokens item) \<longrightarrow>
      parts = concat (map (\<lambda>item. map snd (filter (\<lambda>(p, x). in_window a b p) (zip (span_positions (offsets item)) (encode item)))) items))"
proof -
  obtain c' parts where r: "run_mm_encoder encode jobs plan c = Inr (c', parts)" "enc_inv c'"
    "\<forall>h. claim c' h u = int (sum_list (map (\<lambda>i. mm_rows_after i b) (filter (\<lambda>i. mm_hash i = h) items)))"
    "\<forall>h v. v \<noteq> u \<longrightarrow> claim c' h v = claim c h v"
    using mm_rows_claims[OF inv le spans claims plan] by blast
  obtain q where q: "plan_items u a b (Some c) items ([], [], []) = (jobs, q, plan)"
    using plan by (auto simp: plan_mm_chunk_def split: prod.splits)
  have long: "\<forall>item \<in> set items. num_tokens item \<le> length (replicate (sum_list (map num_tokens items)) (0 :: nat))"
    by (simp add: member_le_sum_list)
  have pos: "plan_positions plan = map (\<lambda>p. p - a) (filter (in_window a b) (concat (map (\<lambda>item. span_positions (offsets item)) items)))"
    "set jobs \<subseteq> set items"
    using plan_items_parts[where E = "\<lambda>_. replicate (sum_list (map num_tokens items)) (0 :: nat)", OF q long]
    by (simp_all add: plan_positions_def)
  obtain c1 where c1: "encode_jobs encode jobs c = Inr c1" "gather_rows plan c1 = Inr (c', parts)"
    using r(1) by (auto simp: run_mm_encoder_def py_assert_eq_Inr rbind_eq_Inr)
  have d: "distinct (map fst c1)" using encode_jobs_distinct[OF c1(1)] inv by (simp add: enc_inv_def)
  have rows: "parts = concat (map (\<lambda>item. map snd (filter (\<lambda>(p, x). in_window a b p) (zip (span_positions (offsets item)) (encode item)))) items)"
    if E: "tensors_hold E c" "\<forall>item \<in> set items. encode item = E (mm_hash item) \<and> length (encode item) = num_tokens item" for E
  proof -
    have len: "\<forall>item \<in> set items. num_tokens item \<le> length (E (mm_hash item))" using E(2) by (metis order.refl)
    have "tensors_hold E c1" by (rule encode_jobs_holds[OF c1(1) E(1)]) (use pos(2) E(2) in blast)
    then have "parts = plan_parts E plan" using gather_rows_parts[OF c1(2) d] by blast
    also have "\<dots> = concat (map (\<lambda>item. window_of a b (offsets item) (E (mm_hash item))) items)"
      using plan_items_parts[OF q len] by (simp add: plan_parts_def)
    also have "\<dots> = concat (map (\<lambda>item. map snd (filter (\<lambda>(p, x). in_window a b p) (zip (span_positions (offsets item)) (encode item)))) items)"
      by (intro arg_cong[of _ _ concat] map_cong refl) (use E(2) in \<open>simp add: window_of_def\<close>)
    finally show ?thesis .
  qed
  show ?thesis by (intro exI[of _ c'] exI[of _ parts] conjI r pos(1) allI impI) (elim conjE, rule rows)
qed

theorem mm_rows_gathered_once_witness:
  "\<exists>c' jobs plan. plan_mm_chunk 5 [\<lparr>mm_hash = 1, offsets = [(2, 4), (7, 9)]\<rparr>] 3 8 (Some (enc_register 1 5 3 ([] :: nat encoder_cache))) = (jobs, plan) \<and>
     run_mm_encoder (\<lambda>_. [10, 11, 12, 13 :: nat]) jobs plan (enc_register 1 5 3 []) = Inr (c', [11, 12]) \<and>
     plan_positions plan = [0, 4] \<and> claim c' 1 5 = 1"
proof -
  let ?item = "\<lparr>mm_hash = 1, offsets = [(2, 4), (7, 9)]\<rparr>" and ?c = "enc_register 1 5 3 ([] :: nat encoder_cache)"
  have e: "enc_inv ([] :: nat encoder_cache)" by (simp add: enc_inv_def)
  have cl: "\<forall>h. claim ?c h 5 = int (sum_list (map (\<lambda>i. mm_rows_after i 3) (filter (\<lambda>i. mm_hash i = h) [?item])))"
    using enc_register_ok(2)[OF e, of 3 1 5] by (simp add: mm_rows_after_def claim_def)
  have h: "tensors_hold (\<lambda>_. [10, 11, 12, 13]) ?c" by (simp add: tensors_hold_def enc_register_def)
  obtain jobs plan where p: "plan_mm_chunk 5 [?item] 3 8 (Some ?c) = (jobs, plan)" by fastforce
  have w: "concat (map (\<lambda>item. map snd (filter (\<lambda>(p, x). in_window 3 8 p) (zip (span_positions (offsets item)) [10, 11, 12, 13 :: nat]))) [?item]) = [11, 12]"
    "map (\<lambda>p. p - 3) (filter (in_window 3 8) (concat (map (\<lambda>item. span_positions (offsets item)) [?item]))) = [0, 4]" by code_simp+
  have s: "\<forall>item \<in> set [?item]. \<forall>(lo, hi) \<in> set (offsets item). hi \<le> 9" "(3 :: nat) \<le> 8" "(8 :: nat) \<le> 9" "(0 :: int) \<le> 3" by simp_all
  obtain c' parts where c': "run_mm_encoder (\<lambda>_. [10, 11, 12, 13 :: nat]) jobs plan ?c = Inr (c', parts)" "plan_positions plan = [0, 4]"
    "\<forall>h. claim c' h 5 = int (sum_list (map (\<lambda>i. mm_rows_after i 8) (filter (\<lambda>i. mm_hash i = h) [?item])))"
    "\<forall>E. tensors_hold E ?c \<and> (\<forall>item \<in> set [?item]. [10, 11, 12, 13 :: nat] = E (mm_hash item) \<and> length [10, 11, 12, 13 :: nat] = num_tokens item) \<longrightarrow> parts = [11, 12]"
    using mm_rows_gathered_once[OF enc_register_ok(1)[OF e s(4)] s(2,3,1) cl p, of "\<lambda>_. [10, 11, 12, 13]", unfolded w]
    by (elim exE conjE) (rule that)
  have "parts = [11, 12]" using c'(4)[rule_format, of "\<lambda>_. [10, 11, 12, 13]"] h by (simp add: num_tokens_def)
  note c' = c'(1-3)[unfolded this]
  then show ?thesis using p by (intro exI[of _ c'] exI[of _ jobs] exI[of _ plan]) (simp add: mm_rows_after_def)
qed

end
