(* ===== verification/Requests.thy ===== *)
theory Requests
  imports Hybrid_Evict Multimodal
begin

text \<open>
  Requests and their bookkeeping: \<^verbatim>\<open>Req\<close> of \<^verbatim>\<open>core.py\<close>, the page-table rows of
  \<^verbatim>\<open>scheduler/table.py\<close> and the running set of \<^verbatim>\<open>scheduler/decode.py\<close>.
\<close>

section \<open>Handles\<close>

text \<open>\<^verbatim>\<open>HybridCacheHandle\<close>, and the three kinds of handle a request can hold.\<close>

record hybrid_handle =
  hh_cached_len :: nat
  hh_node :: nat
  hh_kv_indices :: "int list"
  hh_sumless_len :: nat

datatype cache_handle = NaiveH naive_handle | RadixH handle | HybridH hybrid_handle

fun handle_len :: "cache_handle \<Rightarrow> nat" where
  "handle_len (NaiveH h) = ncached_len h"
| "handle_len (RadixH h) = cached_len h"
| "handle_len (HybridH h) = hh_cached_len h"

section \<open>Requests\<close>

text \<open>
  \<^verbatim>\<open>Req\<close>: the fields the scheduler's caches use. \<open>req_id\<close> is the identity of the Python object (the class has
  \<^verbatim>\<open>eq=False\<close>); \<^verbatim>\<open>table_idx == -1\<close> is \<open>None\<close>; \<open>sums_at\<close> is the method of \<^verbatim>\<open>pooled_capture\<close>, constantly
  \<open>None\<close> for a request without one; \<^verbatim>\<open>mm_items is None\<close> is the empty list, which the code treats the same.
\<close>

record hidden_spec =
  pooling :: bool
  has_directory :: bool

record req =
  req_id :: nat
  uid :: int
  input_ids :: "int list"
  table_idx :: "nat option"
  req_cached_len :: nat
  device_len :: nat
  max_device_len :: nat
  req_handle :: cache_handle
  session_id :: "string option"
  sums_at :: "nat \<Rightarrow> nat option"
  linear_slot_idx :: "nat option"
  mamba_ping_pong :: "(nat \<times> nat) option"
  mamba_next_track_idx :: bool
  mamba_last_track_seqlen :: "nat option"
  toolcall_anchor_len :: "nat option"
  spec_scratch_slot :: "nat option"
  mamba_boundary_copy :: "nat option"
  mamba_restore_src :: "int option"
  prefix_boundary :: "nat option"
  hidden_states :: "hidden_spec option"
  no_prefix_cache :: bool
  pin_key :: "string option"
  mm_items :: "mm_item list"

definition req_init :: "nat \<Rightarrow> int \<Rightarrow> int list \<Rightarrow> nat option \<Rightarrow> nat \<Rightarrow> nat \<Rightarrow> cache_handle \<Rightarrow> string option \<Rightarrow> req result" where
  "req_init i u ids t cached output_len hh sid =
     py_assert (cached < length ids)
       (Inr \<lparr>req_id = i, uid = u, input_ids = ids, table_idx = t, req_cached_len = cached, device_len = length ids,
          max_device_len = length ids + output_len, req_handle = hh, session_id = sid, sums_at = (\<lambda>_. None),
          linear_slot_idx = None, mamba_ping_pong = None, mamba_next_track_idx = False, mamba_last_track_seqlen = None,
          toolcall_anchor_len = None, spec_scratch_slot = None, mamba_boundary_copy = None, mamba_restore_src = None,
          prefix_boundary = None, hidden_states = None, no_prefix_cache = False, pin_key = None, mm_items = []\<rparr>)"

definition remain_len :: "req \<Rightarrow> int" where
  "remain_len r = int (max_device_len r) - int (device_len r)"

definition extend_len :: "req \<Rightarrow> int" where
  "extend_len r = int (device_len r) - int (req_cached_len r)"

definition complete_one :: "req \<Rightarrow> req" where
  "complete_one r = r\<lparr>req_cached_len := device_len r, device_len := device_len r + 1\<rparr>"

definition append_host :: "int list \<Rightarrow> req \<Rightarrow> req result" where
  "append_host next_token r =
     py_assert (length (input_ids r) + length next_token \<le> max_device_len r)
       (Inr (r\<lparr>input_ids := input_ids r @ next_token\<rparr>))"

definition can_decode :: "req \<Rightarrow> bool" where
  "can_decode r \<longleftrightarrow> 0 < remain_len r"

text \<open>One decode step of a request: the forward advances the lengths and the sampled token is appended.\<close>

fun decode_steps :: "int list \<Rightarrow> req \<Rightarrow> req result" where
  "decode_steps [] r = Inr r"
| "decode_steps (t # ts) r =
     (if can_decode r then rbind (append_host [t] (complete_one r)) (decode_steps ts) else Inr r)"

section \<open>Table rows\<close>

text \<open>\<^verbatim>\<open>TableManager\<close>: the free rows of the page table and the token ids of the rows; \<^verbatim>\<open>list.pop\<close> on an empty list raises.
  The page table is the tensor the cache manager holds.\<close>

record table_manager =
  max_running_reqs :: nat
  free_rows :: "nat list"
  token_pool :: "int list list"

definition zeros_like :: "int list list \<Rightarrow> int list list" where
  "zeros_like table = map (map (\<lambda>_. 0)) table"

definition table_init :: "nat \<Rightarrow> int list list \<Rightarrow> table_manager" where
  "table_init n table = \<lparr>max_running_reqs = n, free_rows = [0..<n], token_pool = zeros_like table\<rparr>"

definition table_available :: "table_manager \<Rightarrow> nat" where
  "table_available t = length (free_rows t)"

definition table_allocate :: "table_manager \<Rightarrow> (table_manager \<times> nat) result" where
  "table_allocate t =
     (if free_rows t = [] then Inl IndexError
      else Inr (t\<lparr>free_rows := butlast (free_rows t)\<rparr>, last (free_rows t)))"

definition table_free :: "nat \<Rightarrow> table_manager \<Rightarrow> table_manager" where
  "table_free row t = t\<lparr>free_rows := free_rows t @ [row]\<rparr>"

definition table_rebuild :: "int list list \<Rightarrow> table_manager \<Rightarrow> table_manager" where
  "table_rebuild table t = t\<lparr>token_pool := zeros_like table, free_rows := [0..<max_running_reqs t]\<rparr>"

section \<open>Running requests\<close>

text \<open>\<^verbatim>\<open>DecodeManager\<close>. The set of running requests is a list with distinct object identities; its order stands for
  the iteration order of the Python set.\<close>

record decode_manager =
  dm_page_size :: nat
  running_reqs :: "req list"

definition add_new :: "req list \<Rightarrow> req list \<Rightarrow> req list" where
  "add_new rs reqs = fold (\<lambda>r acc. if req_id r \<in> req_id ` set acc then acc else acc @ [r]) reqs rs"

definition filter_reqs :: "req list \<Rightarrow> decode_manager \<Rightarrow> decode_manager" where
  "filter_reqs reqs d = d\<lparr>running_reqs := filter can_decode (add_new (running_reqs d) reqs)\<rparr>"

definition remove_req :: "req \<Rightarrow> decode_manager \<Rightarrow> decode_manager" where
  "remove_req r d = d\<lparr>running_reqs := filter (\<lambda>x. req_id x \<noteq> req_id r) (running_reqs d)\<rparr>"

definition abort_req :: "int \<Rightarrow> decode_manager \<Rightarrow> decode_manager \<times> req option" where
  "abort_req u d =
     (case List.find (\<lambda>r. uid r = u) (running_reqs d) of
        None \<Rightarrow> (d, None)
      | Some r \<Rightarrow> (remove_req r d, Some r))"

definition inflight_tokens :: "decode_manager \<Rightarrow> int" where
  "inflight_tokens d =
     (let tokens_reserved = (int (dm_page_size d) - 1) * int (length (running_reqs d))
      in sum_list (map remain_len (running_reqs d)) + tokens_reserved)"

definition runnable :: "decode_manager \<Rightarrow> bool" where
  "runnable d \<longleftrightarrow> running_reqs d \<noteq> []"

definition schedule_next_batch :: "decode_manager \<Rightarrow> req list option" where
  "schedule_next_batch d = (if \<not> runnable d then None else Some (sort_key uid (running_reqs d)))"

section \<open>Lemmas\<close>

definition dm_ok :: "decode_manager \<Rightarrow> bool" where
  "dm_ok d \<longleftrightarrow> distinct (map req_id (running_reqs d)) \<and> (\<forall>r \<in> set (running_reqs d). can_decode r)"

lemma add_new_ok:
  "distinct (map req_id rs) \<Longrightarrow> distinct (map req_id (add_new rs reqs)) \<and>
     req_id ` set (add_new rs reqs) = req_id ` set rs \<union> req_id ` set reqs \<and> set rs \<subseteq> set (add_new rs reqs) \<and>
     set (add_new rs reqs) \<subseteq> set rs \<union> set reqs"
proof (induction reqs arbitrary: rs)
  case (Cons r reqs)
  show ?case
  proof (cases "req_id r \<in> req_id ` set rs")
    case True
    then show ?thesis using Cons.IH[OF Cons.prems] by (auto simp: add_new_def insert_absorb)
  next
    case False
    then have "distinct (map req_id (rs @ [r]))" using Cons.prems by auto
    from Cons.IH[OF this] False show ?thesis by (auto simp: add_new_def)
  qed
qed (simp add: add_new_def)

lemma filter_reqs_ok:
  assumes "dm_ok d"
  shows "dm_ok (filter_reqs reqs d)" "dm_ok (remove_req r d)" "dm_ok (fst (abort_req u d))"
    "req_id ` set (running_reqs (filter_reqs reqs d)) \<subseteq> req_id ` (set (running_reqs d) \<union> set reqs)"
  using add_new_ok[of "running_reqs d" reqs] assms
  by (auto simp: dm_ok_def filter_reqs_def remove_req_def abort_req_def distinct_map_filter split: option.splits)

lemma inflight_tokens_ok:
  "dm_ok d \<Longrightarrow> 0 < dm_page_size d \<Longrightarrow> int (length (running_reqs d)) * int (dm_page_size d) \<le> inflight_tokens d"
proof -
  assume d: "dm_ok d" and p: "0 < dm_page_size d"
  have "int (length rs) \<le> sum_list (map remain_len rs)" if "\<forall>r \<in> set rs. can_decode r" for rs
    using that by (induction rs) (auto simp: can_decode_def)
  then have "int (length (running_reqs d)) \<le> sum_list (map remain_len (running_reqs d))" using d by (simp add: dm_ok_def)
  then show ?thesis by (simp add: inflight_tokens_def algebra_simps)
qed

lemma decode_steps_ok:
  assumes "length (input_ids r) = device_len r" "device_len r \<le> max_device_len r"
  shows "\<exists>r'. decode_steps ts r = Inr r' \<and> length (input_ids r') = device_len r' \<and> device_len r' \<le> max_device_len r' \<and>
     max_device_len r' = max_device_len r \<and> device_len r' = min (device_len r + length ts) (max_device_len r) \<and>
     input_ids r' = input_ids r @ take (max_device_len r - device_len r) ts \<and>
     (device_len r' \<noteq> device_len r \<longrightarrow> extend_len r' = 1)"
  using assms
proof (induction ts arbitrary: r)
  case (Cons t ts)
  show ?case
  proof (cases "can_decode r")
    case False
    then have "device_len r = max_device_len r" using Cons.prems by (simp add: can_decode_def remain_len_def)
    then show ?thesis using False Cons.prems by simp
  next
    case True
    define r1 where "r1 = (complete_one r)\<lparr>input_ids := input_ids r @ [t]\<rparr>"
    have lt: "device_len r < max_device_len r" using True by (simp add: can_decode_def remain_len_def)
    have a: "append_host [t] (complete_one r) = Inr r1"
      using lt Cons.prems by (simp add: append_host_def complete_one_def r1_def)
    have p: "length (input_ids r1) = device_len r1" "device_len r1 \<le> max_device_len r1"
      "device_len r1 = Suc (device_len r)" "max_device_len r1 = max_device_len r" "extend_len r1 = 1"
      using lt Cons.prems by (simp_all add: r1_def complete_one_def extend_len_def)
    obtain r' where r': "decode_steps ts r1 = Inr r'" "length (input_ids r') = device_len r'" "device_len r' \<le> max_device_len r'"
      "max_device_len r' = max_device_len r1" "device_len r' = min (device_len r1 + length ts) (max_device_len r1)"
      "input_ids r' = input_ids r1 @ take (max_device_len r1 - device_len r1) ts"
      "device_len r' \<noteq> device_len r1 \<longrightarrow> extend_len r' = 1"
      using Cons.IH[OF p(1,2)] by blast
    have e1: "extend_len r' = 1"
    proof (cases "device_len r' = device_len r1")
      case True
      have "ts = [] \<or> \<not> can_decode r1"
        using True r'(5) p lt by (auto simp: can_decode_def remain_len_def min_def split: if_splits)
      then have "r' = r1" using r'(1) by (cases ts) auto
      then show ?thesis using p(5) by simp
    qed (use r'(7) in simp)
    have "max_device_len r - device_len r = Suc (max_device_len r - Suc (device_len r))" using lt by simp
    then show ?thesis using True a r' p e1 by (simp add: r1_def)
  qed
qed simp

definition rows_ok :: "table_manager \<times> nat list \<Rightarrow> bool" where
  "rows_ok = (\<lambda>(t, held). mset (free_rows t) + mset held = mset [0..<max_running_reqs t])"

inductive table_step :: "table_manager \<times> nat list \<Rightarrow> table_manager \<times> nat list \<Rightarrow> bool" where
  alloc: "table_allocate t = Inr (t', row) \<Longrightarrow> table_step (t, held) (t', row # held)"
| free: "row \<in> set held \<Longrightarrow> table_step (t, held) (table_free row t, remove1 row held)"
| rebuild: "table_step (t, []) (table_rebuild table t, [])"

lemma table_step_ok: "table_step x y \<Longrightarrow> rows_ok x \<Longrightarrow> rows_ok y"
proof (induction rule: table_step.induct)
  case (alloc t t' row held)
  then have "free_rows t \<noteq> []" "t' = t\<lparr>free_rows := butlast (free_rows t)\<rparr>" "row = last (free_rows t)"
    by (auto simp: table_allocate_def split: if_splits)
  moreover from this have "mset (free_rows t) = add_mset (last (free_rows t)) (mset (butlast (free_rows t)))"
    by (metis append_butlast_last_id mset.simps(1,2) mset_append union_mset_add_mset_right add.right_neutral)
  ultimately show ?case using alloc.prems by (simp add: rows_ok_def)
next
  case (free row held t)
  have "mset (free_rows (table_free row t)) + mset (remove1 row held) = mset (free_rows t) + mset held"
    using free.hyps by (simp add: table_free_def insert_DiffM flip: union_mset_add_mset_right)
  then show ?case using free.prems by (simp add: rows_ok_def) (simp add: table_free_def)
qed (simp add: rows_ok_def table_rebuild_def)

lemma table_reachable: "table_step\<^sup>*\<^sup>* x y \<Longrightarrow> rows_ok x \<Longrightarrow> rows_ok y"
  by (induction rule: rtranclp_induct) (auto intro: table_step_ok)

lemma table_step_max: "table_step x y \<Longrightarrow> max_running_reqs (fst y) = max_running_reqs (fst x)"
  by (induction rule: table_step.induct)
    (auto simp: table_allocate_def table_free_def table_rebuild_def split: if_splits)

lemma table_max: "table_step\<^sup>*\<^sup>* x y \<Longrightarrow> max_running_reqs (fst y) = max_running_reqs (fst x)"
  by (induction rule: rtranclp_induct) (auto dest: table_step_max)

section \<open>Properties\<close>

text \<open>C31: A page-table row is never held by two requests: over any sequence of allocations and releases of held rows from a
  new manager, the free and the held rows are together the rows below \<^verbatim>\<open>max_running_reqs\<close>, each once, and an
  allocation fails (\<^verbatim>\<open>IndexError\<close>) exactly when all of them are held.\<close>

theorem table_rows_exclusive:
  assumes "table_step\<^sup>*\<^sup>* (table_init n table, []) (t, held)"
  shows "distinct (free_rows t @ held) \<and> set (free_rows t) \<union> set held = {..<n} \<and>
     table_available t + length held = n \<and>
     (if length held = n then table_allocate t = Inl IndexError
      else \<exists>t' row. table_allocate t = Inr (t', row) \<and> row < n \<and> row \<notin> set held)"
proof -
  have "rows_ok (table_init n table, [])" by (simp add: rows_ok_def table_init_def)
  from table_reachable[OF assms this] have ok: "rows_ok (t, held)" .
  have "max_running_reqs t = n" using table_max[OF assms] by (simp add: table_init_def)
  then have m: "mset (free_rows t @ held) = mset [0..<n]" using ok by (simp add: rows_ok_def)
  have d: "distinct (free_rows t @ held)" "set (free_rows t @ held) = {..<n}" "length (free_rows t @ held) = n"
    using mset_eq_imp_distinct_iff[OF m] mset_eq_setD[OF m] mset_eq_length[OF m] by auto
  moreover have "\<exists>t' row. table_allocate t = Inr (t', row) \<and> row < n \<and> row \<notin> set held" if "length held \<noteq> n"
  proof -
    have ne: "free_rows t \<noteq> []" using that d(3) by auto
    then have "last (free_rows t) \<in> set (free_rows t)" by simp
    then have "last (free_rows t) < n" "last (free_rows t) \<notin> set held" using d(1,2) by auto
    then show ?thesis using ne by (simp add: table_allocate_def)
  qed
  ultimately show ?thesis by (auto simp: table_available_def table_allocate_def)
qed

theorem table_rows_exclusive_witness:
  "\<exists>t. table_step\<^sup>*\<^sup>* (table_init 2 [], []) (t, [1]) \<and> table_available t = 1"
proof -
  have s: "table_step\<^sup>*\<^sup>* (table_init 2 [], []) (\<lparr>max_running_reqs = 2, free_rows = [0], token_pool = []\<rparr>, [1])"
    by (intro r_into_rtranclp table_step.alloc) (simp add: table_allocate_def table_init_def zeros_like_def upt_rec)
  show ?thesis using table_rows_exclusive[OF s] s by auto
qed

text \<open>A request decodes exactly its output budget: whatever tokens are sampled, decoding a new request for \<open>k\<close> steps never
  trips an assertion, appends the first \<open>min k output_len\<close> of them, leaves one token to forward, and from then on
  \<^verbatim>\<open>can_decode\<close> is true exactly while budget is left.\<close>

theorem decode_fills_budget:
  assumes "req_init i u ids t cached output_len hh sid = Inr r"
  shows "\<exists>r'. decode_steps ts r = Inr r' \<and> input_ids r' = ids @ take output_len ts \<and>
     device_len r' = length (input_ids r') \<and> (can_decode r' \<longleftrightarrow> length ts < output_len) \<and>
     (0 < length ts \<and> 0 < output_len \<longrightarrow> extend_len r' = 1)"
proof -
  have r: "length (input_ids r) = device_len r" "device_len r \<le> max_device_len r" "device_len r = length ids"
    "max_device_len r = length ids + output_len" "input_ids r = ids"
    using assms by (auto simp: req_init_def py_assert_eq_Inr)
  obtain r' where "decode_steps ts r = Inr r'" "length (input_ids r') = device_len r'" "max_device_len r' = max_device_len r"
    "device_len r' = min (device_len r + length ts) (max_device_len r)"
    "input_ids r' = input_ids r @ take (max_device_len r - device_len r) ts"
    "device_len r' \<noteq> device_len r \<longrightarrow> extend_len r' = 1"
    using decode_steps_ok[OF r(1,2), of ts] by blast
  then show ?thesis using r by (intro exI[of _ r']) (auto simp: can_decode_def remain_len_def min_def)
qed

definition demo_req :: req where
  "demo_req = (case req_init 0 7 [1, 2, 3] (Some 0) 0 2 (NaiveH naive_handle_init) None of Inr r \<Rightarrow> r | Inl _ \<Rightarrow> undefined)"

lemma demo_req_init: "req_init 0 7 [1, 2, 3] (Some 0) 0 2 (NaiveH naive_handle_init) None = Inr demo_req"
  by (simp add: demo_req_def req_init_def)

theorem decode_fills_budget_witness:
  "\<exists>r'. decode_steps [8, 9, 10] demo_req = Inr r' \<and> input_ids r' = [1, 2, 3, 8, 9] \<and> \<not> can_decode r'"
  using decode_fills_budget[OF demo_req_init, of "[8, 9, 10]"] by auto

end
