(* ===== verification/Prefix_Pins.thy ===== *)
theory Prefix_Pins
  imports Hybrid_Evict "HOL-Library.AList"
begin

text \<open>
  The ledger of pinned prefixes of \<^verbatim>\<open>CacheManager\<close> (\<^verbatim>\<open>scheduler/cache.py\<close>) on the hybrid tree, with the counters of
  \<^verbatim>\<open>PrefixCounters\<close> (\<^verbatim>\<open>scheduler/counters.py\<close>): the operations, the skeleton of the tree that locks leave alone, the invariant
  of the ledger, and that pinning keeps it and stays within its budgets.
\<close>

section \<open>The ledger\<close>

text \<open>\<^verbatim>\<open>_PrefixPin\<close> and \<^verbatim>\<open>PrefixCounters\<close>; nodes are named by their uuid.\<close>

record pin =
  pin_node :: nat
  last_match :: int
  pin_snapshots :: "nat list option"

record prefix_counters =
  hits :: nat
  misses :: nat
  hit_tokens :: nat
  miss_tokens :: nat
  pooled_hits :: nat
  pooled_hit_tokens :: nat
  pooled_sumless_misses :: nat
  pooled_sumless_miss_tokens :: nat
  pinned_prefixes :: nat
  pinned_tokens :: nat
  pinned_slots :: nat
  pin_evictions :: nat
  pin_budget_refusals :: nat
  pin_admission_releases :: nat

definition note_admitted :: "nat \<Rightarrow> nat \<Rightarrow> bool \<Rightarrow> nat \<Rightarrow> prefix_counters \<Rightarrow> prefix_counters" where
  "note_admitted prompt_tokens clen pooled sumless c =
     (let c1 = (if clen > 0
                then let c0 = c\<lparr>hits := hits c + 1, hit_tokens := hit_tokens c + clen\<rparr>
                     in if pooled
                        then c0\<lparr>pooled_hits := pooled_hits c0 + 1, pooled_hit_tokens := pooled_hit_tokens c0 + clen\<rparr>
                        else c0
                else c\<lparr>misses := misses c + 1, miss_tokens := miss_tokens c + prompt_tokens\<rparr>)
      in if pooled \<and> sumless > clen
         then c1\<lparr>pooled_sumless_misses := pooled_sumless_misses c1 + 1,
                pooled_sumless_miss_tokens := pooled_sumless_miss_tokens c1 + (sumless - clen)\<rparr>
         else c1)"

text \<open>The pin fields of \<^verbatim>\<open>CacheManager\<close>: the settings, \<^verbatim>\<open>_pins\<close> and \<^verbatim>\<open>_pin_locked\<close> in insertion order, and the counters.\<close>

record pin_ledger =
  pin_prefix_min_tokens :: nat
  pin_prefix_max_tokens :: nat
  pin_prefix_max_slots :: int
  pin_working_set_slots :: nat
  pin_prefix_scope :: string
  pins :: "(nat \<times> pin) list"
  pin_locked :: "(nat \<times> bool) list"
  pin_counts :: prefix_counters

definition pin_prefix_scope_error :: "string \<Rightarrow> nat \<Rightarrow> bool" where
  "pin_prefix_scope_error scope max_tokens \<longleftrightarrow> scope \<notin> {''shared'', ''session''} \<or> scope = ''session'' \<and> max_tokens = 0"

definition zero_prefix_counters :: prefix_counters where
  "zero_prefix_counters = \<lparr>hits = 0, misses = 0, hit_tokens = 0, miss_tokens = 0, pooled_hits = 0, pooled_hit_tokens = 0,
     pooled_sumless_misses = 0, pooled_sumless_miss_tokens = 0, pinned_prefixes = 0, pinned_tokens = 0, pinned_slots = 0,
     pin_evictions = 0, pin_budget_refusals = 0, pin_admission_releases = 0\<rparr>"

text \<open>The pin settings of \<^verbatim>\<open>CacheManager.__init__\<close>; a quarter of the pool is the most the pins may hold.\<close>

definition ledger_init :: "int \<Rightarrow> int \<Rightarrow> int \<Rightarrow> int \<Rightarrow> string \<Rightarrow> nat \<Rightarrow> pin_ledger result" where
  "ledger_init min_tokens max_tokens max_slots working_set scope pool_tokens =
     (let requested = nat max_tokens; cap = max 1 (pool_tokens div 4) in
      if pin_prefix_scope_error scope requested then Inl ValueError
      else Inr \<lparr>pin_prefix_min_tokens = nat min_tokens,
        pin_prefix_max_tokens = (if requested = 0 \<or> requested > cap then cap else requested),
        pin_prefix_max_slots = max_slots, pin_working_set_slots = nat working_set, pin_prefix_scope = scope, pins = [], pin_locked = [],
        pin_counts = zero_prefix_counters\<rparr>)"

definition reset_pins :: "pin_ledger \<Rightarrow> pin_ledger" where
  "reset_pins p = p\<lparr>pins := [], pin_locked := [], pin_counts := (pin_counts p)\<lparr>pinned_prefixes := 0, pinned_tokens := 0, pinned_slots := 0\<rparr>\<rparr>"

text \<open>\<^verbatim>\<open>pin_slot_budget\<close> on a pool of \<open>pool_slots\<close> slots.\<close>

definition pin_slot_budget :: "nat \<Rightarrow> pin_ledger \<Rightarrow> int" where
  "pin_slot_budget pool_slots p =
     (if pin_prefix_max_slots p \<ge> 0 then pin_prefix_max_slots p
      else max 0 (int pool_slots - int (pin_working_set_slots p) - 1 - 2))"

definition session_pin_slot_cap :: "int \<Rightarrow> pin_ledger \<Rightarrow> nat option" where
  "session_pin_slot_cap budget p = (if pin_prefix_scope p \<noteq> ''session'' then None else Some (nat (max 1 (budget div 2))))"

definition pin_over_budget :: "int \<Rightarrow> nat \<Rightarrow> nat \<Rightarrow> pin_ledger \<Rightarrow> bool" where
  "pin_over_budget budget new_tokens new_slots p \<longleftrightarrow>
     new_slots > 0 \<and> int (pinned_slots (pin_counts p) + new_slots) > budget \<or>
     pin_prefix_max_tokens p > 0 \<and> pinned_tokens (pin_counts p) + new_tokens > pin_prefix_max_tokens p"

section \<open>Nodes held\<close>

definition has_snapshot :: "node \<Rightarrow> bool" where
  "has_snapshot n \<longleftrightarrow> mamba_value (attr n) \<noteq> None"

text \<open>\<^verbatim>\<open>_pin_covered_nodes\<close>: each pinned node and its ancestors, up to the first one already covered.\<close>

fun pin_covered :: "nat list \<Rightarrow> nat list \<Rightarrow> node \<Rightarrow> nat list result" where
  "pin_covered [] covered root = Inr covered"
| "pin_covered (u # us) covered root =
     rbind (chain u root) (\<lambda>p. pin_covered us (covered @ takeWhile (\<lambda>w. w \<notin> set covered) p) root)"

definition recount_pins :: "hybrid \<Rightarrow> pin_ledger \<Rightarrow> pin_ledger result" where
  "recount_pins h p =
     rbind (pin_covered (map fst (pins p)) [] (hroot h)) (\<lambda>covered.
     rbind (rmap (\<lambda>u. find_node u (hroot h)) covered) (\<lambda>ns.
       Inr (p\<lparr>pin_counts := (pin_counts p)\<lparr>pinned_prefixes := length (pins p), pinned_tokens := sum_list (map nlen ns),
                pinned_slots := length (filter snd (pin_locked p))\<rparr>\<rparr>)))"

text \<open>The locks a pin needs: its node, and the snapshots it chose or those of all ancestors.\<close>

definition pin_needs :: "hybrid \<Rightarrow> pin \<Rightarrow> nat list result" where
  "pin_needs h q =
     (case pin_snapshots q of
        Some l \<Rightarrow> Inr (pin_node q # l)
      | None \<Rightarrow> rbind (path_nodes (pin_node q) (hroot h)) (\<lambda>ns.
          if ns = [] then Inl AssertionError else Inr (pin_node q # map uuid (filter has_snapshot (tl ns)))))"

fun unlock_nodes :: "nat list \<Rightarrow> hybrid \<Rightarrow> hybrid result" where
  "unlock_nodes [] h = Inr h"
| "unlock_nodes (u # us) h = rbind (dec_lock u h) (unlock_nodes us)"

fun lock_nodes :: "nat list \<Rightarrow> hybrid \<Rightarrow> hybrid result" where
  "lock_nodes [] h = Inr h"
| "lock_nodes (u # us) h = rbind (inc_lock u h) (lock_nodes us)"

definition release_pin :: "nat \<Rightarrow> hybrid \<Rightarrow> pin_ledger \<Rightarrow> (hybrid \<times> pin_ledger) result" where
  "release_pin u h p =
     (let p1 = p\<lparr>pins := AList.delete u (pins p)\<rparr> in
      rbind (rmap (pin_needs h) (map snd (pins p1))) (\<lambda>needed.
      rbind (unlock_nodes (filter (\<lambda>n. n \<notin> set (concat needed)) (map fst (pin_locked p1))) h) (\<lambda>h'.
      rbind (recount_pins h' (p1\<lparr>pin_locked := filter (\<lambda>(n, _). n \<in> set (concat needed)) (pin_locked p1)\<rparr>)) (\<lambda>p2.
        Inr (h', p2)))))"

text \<open>The first pin with the least \<^verbatim>\<open>last_match\<close>; \<^verbatim>\<open>min\<close> of no pins raises.\<close>

fun oldest_pin :: "pin list \<Rightarrow> pin result" where
  "oldest_pin [] = Inl ValueError"
| "oldest_pin (q # qs) = Inr (fold (\<lambda>x best. if last_match x < last_match best then x else best) qs q)"

section \<open>Pinning\<close>

text \<open>The loop of \<^verbatim>\<open>pin_prefix\<close>. It leaves with the nodes to lock, or with nothing to do. Each round but the last releases a
  pin, so \<open>fuel\<close> above the number of pins is enough; without fuel the loop is cut.\<close>

fun pin_loop :: "nat \<Rightarrow> int \<Rightarrow> nat \<Rightarrow> nat list \<Rightarrow> node list \<Rightarrow> hybrid \<Rightarrow> pin_ledger \<Rightarrow> (hybrid \<times> pin_ledger \<times> node list option) result" where
  "pin_loop 0 budget u held path h p = Inl RuntimeError"
| "pin_loop (Suc fuel) budget u held path h p =
     (let need = filter (\<lambda>n. (uuid n = u \<or> uuid n \<in> set held) \<and> uuid n \<notin> set (map fst (pin_locked p))) path;
          new_slots = length (filter has_snapshot need)
      in rbind (pin_covered (map fst (pins p)) [] (hroot h)) (\<lambda>covered.
         let new_tokens = sum_list (map nlen (filter (\<lambda>n. uuid n \<notin> set covered) path)) in
         if new_tokens = 0 \<and> new_slots = 0 then Inr (h, p, None)
         else if \<not> pin_over_budget budget new_tokens new_slots p then Inr (h, p, Some need)
         else rbind (oldest_pin (map snd (pins p))) (\<lambda>victim.
              rbind (release_pin (pin_node victim) h p) (\<lambda>(h', p').
              pin_loop fuel budget u held path h'
                (p'\<lparr>pin_counts := (pin_counts p')\<lparr>pin_evictions := pin_evictions (pin_counts p') + 1\<rparr>\<rparr>)))))"

definition pin_prefix :: "int \<Rightarrow> int \<Rightarrow> nat \<Rightarrow> hybrid \<Rightarrow> pin_ledger \<Rightarrow> (hybrid \<times> pin_ledger \<times> bool) result" where
  "pin_prefix now budget u h p =
     (if u = uuid (hroot h) then Inr (h, p, True)
      else case map_of (pins p) u of
        Some q \<Rightarrow> Inr (h, p\<lparr>pins := AList.update u (q\<lparr>last_match := now\<rparr>) (pins p)\<rparr>, True)
      | None \<Rightarrow>
          rbind (path_nodes u (hroot h)) (\<lambda>path.
          let all_snaps = filter has_snapshot path; cap = session_pin_slot_cap budget p;
              snaps = map uuid (case cap of None \<Rightarrow> all_snaps | Some k \<Rightarrow> take k all_snaps);
              all_tokens = sum_list (map nlen path)
          in if int (length snaps) > budget \<or> pin_prefix_max_tokens p > 0 \<and> all_tokens > pin_prefix_max_tokens p
             then Inr (h, p\<lparr>pin_counts := (pin_counts p)\<lparr>pin_budget_refusals := pin_budget_refusals (pin_counts p) + 1\<rparr>\<rparr>, False)
             else rbind (pin_loop (Suc (length (pins p))) budget u snaps path h p) (\<lambda>(h1, p1, need).
               case need of
                 None \<Rightarrow> Inr (h1, p1, True)
               | Some ns \<Rightarrow>
                   rbind (lock_nodes (map uuid ns) h1) (\<lambda>h2.
                   rbind (recount_pins h2 (p1\<lparr>pin_locked := fold (\<lambda>n. AList.update (uuid n) (has_snapshot n)) ns (pin_locked p1),
                       pins := AList.update u \<lparr>pin_node = u, last_match = now, pin_snapshots = map_option (\<lambda>_. snaps) cap\<rparr> (pins p1)\<rparr>)) (\<lambda>p2.
                     Inr (h2, p2, True))))))"

text \<open>\<^verbatim>\<open>_shared_pin_target\<close>: the nodes from the root down, each remembering at most two session keys.\<close>

fun pin_scan :: "string \<Rightarrow> nat \<Rightarrow> node list \<Rightarrow> nat \<Rightarrow> nat option \<Rightarrow> node \<Rightarrow> node \<times> nat option" where
  "pin_scan key min_tokens [] offset target root = (root, target)"
| "pin_scan key min_tokens (n # ns) offset target root =
     (let offset' = offset + nlen n; seen = pin_sessions (attr n);
          seen' = (if key \<notin> set seen \<and> length seen < 2 then seen @ [key] else seen);
          root' = upd (uuid n) (\<lambda>a. a\<lparr>pin_sessions := seen'\<rparr>) root;
          target' = (if length seen' \<ge> 2 \<and> offset' \<ge> min_tokens then Some (uuid n) else target)
      in pin_scan key min_tokens ns offset' target' root')"

definition shared_pin_target :: "nat \<Rightarrow> string option \<Rightarrow> hybrid \<Rightarrow> pin_ledger \<Rightarrow> (hybrid \<times> nat option) result" where
  "shared_pin_target u session_key h p =
     (case session_key of
        None \<Rightarrow> Inr (h, None)
      | Some key \<Rightarrow>
          if key = [] then Inr (h, None)
          else rbind (path_nodes u (hroot h)) (\<lambda>path.
            case pin_scan key (pin_prefix_min_tokens p) (rev path) 0 None (hroot h) of
              (root, target) \<Rightarrow> Inr (set_hroot root h, target)))"

text \<open>\<^verbatim>\<open>_touch_pins_through\<close>: the pins on the hit's path, and those whose path goes through the hit.\<close>

definition touch_pins_through :: "int \<Rightarrow> nat \<Rightarrow> hybrid \<Rightarrow> pin_ledger \<Rightarrow> pin_ledger result" where
  "touch_pins_through now u h p =
     (if pins p = [] then Inr p
      else rbind (chain u (hroot h)) (\<lambda>hit_path.
           rbind (rmap (\<lambda>(k, q). rbind (chain (pin_node q) (hroot h)) (\<lambda>path.
                   Inr (k, if pin_node q \<in> set hit_path \<or> u \<in> set path then q\<lparr>last_match := now\<rparr> else q))) (pins p)) (\<lambda>ps.
             Inr (p\<lparr>pins := ps\<rparr>))))"

definition unpin_all :: "hybrid \<Rightarrow> pin_ledger \<Rightarrow> (hybrid \<times> pin_ledger \<times> nat \<times> nat) result" where
  "unpin_all h p =
     rbind (unlock_nodes (map fst (pin_locked p)) h) (\<lambda>h'.
       Inr (h', reset_pins p, pinned_prefixes (pin_counts p), pinned_tokens (pin_counts p)))"

section \<open>What a lock leaves of the tree\<close>

text \<open>The skeleton of a tree: its nodes, the path of each to the root, its length and whether it has a snapshot.\<close>

definition path_up :: "node \<Rightarrow> nat \<Rightarrow> nat list" where
  "path_up root u = (case chain u root of Inr p \<Rightarrow> p | Inl e \<Rightarrow> [])"

definition node_facts :: "node \<Rightarrow> nat \<Rightarrow> (nat \<times> bool) option" where
  "node_facts root u = (case find_node u root of Inr n \<Rightarrow> Some (nlen n, has_snapshot n) | Inl e \<Rightarrow> None)"

definition len_at :: "node \<Rightarrow> nat \<Rightarrow> nat" where
  "len_at root u = (case node_facts root u of Some (l, s) \<Rightarrow> l | None \<Rightarrow> 0)"

definition snap_at :: "node \<Rightarrow> nat \<Rightarrow> bool" where
  "snap_at root u = (case node_facts root u of Some (l, s) \<Rightarrow> s | None \<Rightarrow> False)"

definition same_skel :: "node \<Rightarrow> node \<Rightarrow> bool" where
  "same_skel r r' \<longleftrightarrow> uuid r' = uuid r \<and> uuids (kids r') = uuids (kids r) \<and> (\<forall>u. chain u r' = chain u r) \<and>
     (\<forall>u. node_facts r' u = node_facts r u)"

lemma same_skel_refl [simp]: "same_skel r r"
  by (simp add: same_skel_def)

lemma same_skel_trans: "same_skel a b \<Longrightarrow> same_skel b c \<Longrightarrow> same_skel a c"
  by (simp add: same_skel_def)

lemma same_skel_at: "same_skel r r' \<Longrightarrow> path_up r' = path_up r" "same_skel r r' \<Longrightarrow> len_at r' = len_at r" "same_skel r r' \<Longrightarrow> snap_at r' = snap_at r"
  by (auto simp: same_skel_def path_up_def len_at_def snap_at_def fun_eq_iff)

lemma upd_skel:
  assumes "\<And>a. mamba_value (f a) = mamba_value a"
  shows "same_skel r (upd u f r)"
proof -
  have "chain w (upd u f r) = chain w r" for w by (simp add: chain_def kids_upd)
  moreover have "node_facts (upd u f r) w = node_facts r w" for w
    using assms by (auto simp: node_facts_def find_node_def kids_upd find_kids_upd_kids has_snapshot_def upd_def split: option.splits)
  ultimately show ?thesis by (simp add: same_skel_def kids_upd)
qed

lemma ref_skel: "same_skel r (upd u inc_ref r)" "same_skel r (upd u dec_ref r)"
  by (rule upd_skel; simp)+

lemma lock_loop_skel: "lock_loop us s = Inr s' \<Longrightarrow> same_skel (root_node s) (root_node s')"
proof (induction us arbitrary: s)
  case (Cons u us)
  then obtain s1 where "lock_loop us s1 = Inr s'" "root_node s1 = upd u inc_ref (root_node s)"
    by (auto simp: rbind_eq_Inr Let_def split: if_splits)
  then show ?case using Cons.IH[of s1] ref_skel(1)[of "root_node s" u] same_skel_trans by metis
qed simp

lemma unlock_loop_skel: "unlock_loop us s = Inr s' \<Longrightarrow> same_skel (root_node s) (root_node s')"
proof (induction us arbitrary: s)
  case (Cons u us)
  then obtain s1 where "unlock_loop us s1 = Inr s'" "root_node s1 = upd u dec_ref (root_node s)"
    by (auto simp: rbind_eq_Inr py_assert_eq_Inr Let_def split: if_splits)
  then show ?case using Cons.IH[of s1] ref_skel(2)[of "root_node s" u] same_skel_trans by metis
qed simp

lemma mref_skel: "same_skel r (upd u (\<lambda>a. a\<lparr>mamba_ref_count := g a\<rparr>) r)"
  by (rule upd_skel) simp

lemma inc_lock_skel:
  assumes "inc_lock u h = Inr h'"
  shows "same_skel (hroot h) (hroot h')"
proof -
  obtain n h1 p s where h1: "h1 = (if mamba_value (attr n) \<noteq> None
                 then set_hroot (upd u (\<lambda>a. a\<lparr>mamba_ref_count := mamba_ref_count a + 1\<rparr>) (hroot h))
                        (if mamba_ref_count (attr n) = 0
                         then h\<lparr>mamba_evictable := mamba_evictable h - 1, mamba_protected := mamba_protected h + 1\<rparr>
                         else h)
                 else h)" and l: "lock_loop p (full h1) = Inr s" "h' = h1\<lparr>full := s\<rparr>"
    using assms unfolding inc_lock_def Let_def by (auto elim!: rbindE)
  have "same_skel (hroot h) (hroot h1)" by (simp add: h1 mref_skel)
  then show ?thesis using lock_loop_skel[OF l(1)] l(2) same_skel_trans by auto
qed

lemma dec_lock_skel:
  assumes "dec_lock u h = Inr h'"
  shows "same_skel (hroot h) (hroot h')"
proof -
  obtain n h1 p s where h1: "h1 = (if mamba_value (attr n) \<noteq> None \<and> 0 < mamba_ref_count (attr n)
                 then set_hroot (upd u (\<lambda>a. a\<lparr>mamba_ref_count := mamba_ref_count a - 1\<rparr>) (hroot h))
                        (if mamba_ref_count (attr n) - 1 = 0
                         then h\<lparr>mamba_evictable := mamba_evictable h + 1, mamba_protected := mamba_protected h - 1\<rparr>
                         else h)
                 else h)" and l: "unlock_loop p (full h1) = Inr s" "h' = h1\<lparr>full := s\<rparr>"
    using assms unfolding dec_lock_def Let_def by (auto elim!: rbindE)
  have "same_skel (hroot h) (hroot h1)" by (simp add: h1 mref_skel)
  then show ?thesis using unlock_loop_skel[OF l(1)] l(2) same_skel_trans by auto
qed

section \<open>Paths\<close>

text \<open>The nodes below the root, each with its path: the node first, then its ancestors, whose paths are the tails.\<close>

lemma path_up_ok:
  assumes "hybrid_inv lk h" "u \<in> set (uuids (kids (hroot h)))"
  shows "chain u (hroot h) = Inr (path_up (hroot h) u)" "distinct (path_up (hroot h) u)" "set (path_up (hroot h) u) \<subseteq> set (uuids (kids (hroot h)))"
    "u \<in> set (path_up (hroot h) u)" "hd (path_up (hroot h) u) = u"
    "\<And>w ys xs. path_up (hroot h) u = xs @ w # ys \<Longrightarrow> path_up (hroot h) w = w # ys"
proof -
  note I = tree_invD[OF hybrid_invD(11)[OF assms(1)]]
  have ur: "u \<noteq> uuid (hroot h)" using assms(2) I(5) by metis
  obtain p where p: "path_kids u (kids (hroot h)) = Some p" using path_kids_None[of u "kids (hroot h)"] assms(2) by (cases "path_kids u (kids (hroot h))") auto
  note S = path_kids_set[OF p]
  have c: "chain u (hroot h) = Inr (rev p)" using p ur by (simp add: chain_def)
  then have up: "path_up (hroot h) u = rev p" by (simp add: path_up_def)
  show "chain u (hroot h) = Inr (path_up (hroot h) u)" using c up by simp
  show "distinct (path_up (hroot h) u)" using path_kids_distinct[OF p I(4)] up by simp
  show "set (path_up (hroot h) u) \<subseteq> set (uuids (kids (hroot h)))" "u \<in> set (path_up (hroot h) u)" using S up by (simp_all only: up set_rev)
  show "hd (path_up (hroot h) u) = u" using S up by (simp add: hd_rev)
  fix w xs ys
  assume e: "path_up (hroot h) u = xs @ w # ys"
  then have "p = rev ys @ w # rev xs" using up by (metis rev_append rev.simps(2) append_assoc append_Cons append_Nil rev_rev_ident)
  then have q: "path_kids w (kids (hroot h)) = Some (rev ys @ [w])" using path_kids_prefix[OF _ I(4)] p by blast
  have "w \<in> set (uuids (kids (hroot h)))" using S e up by (metis (no_types) in_set_conv_decomp set_rev subsetD)
  then have "w \<noteq> uuid (hroot h)" using I(5) by metis
  then show "path_up (hroot h) w = w # ys" using q by (simp add: path_up_def chain_def)
qed

lemma node_at:
  assumes "hybrid_inv lk h" "u \<in> set (uuids (kids (hroot h)))"
  obtains n where "find_node u (hroot h) = Inr n" "uuid n = u" "nlen n = len_at (hroot h) u" "has_snapshot n = snap_at (hroot h) u" "0 < nlen n"
proof -
  note I = tree_invD[OF hybrid_invD(11)[OF assms(1)]]
  have ur: "u \<noteq> uuid (hroot h)" using assms(2) I(5) by metis
  obtain n where n: "find_node u (hroot h) = Inr n" using live_find_node[OF assms(1)] assms(2) by blast
  have "nkey n \<noteq> []" using wfk_entry[OF I(2) find_node_entry(1)[OF n ur]] by simp
  then show thesis using n by (intro that[OF n]) (auto simp: find_node_uuid len_at_def snap_at_def node_facts_def)
qed

lemma path_nodes_facts:
  assumes "hybrid_inv lk h" "u \<in> set (uuids (kids (hroot h)))"
  obtains ns where "path_nodes u (hroot h) = Inr ns" "map uuid ns = path_up (hroot h) u"
    "\<And>n. n \<in> set ns \<Longrightarrow> nlen n = len_at (hroot h) (uuid n) \<and> has_snapshot n = snap_at (hroot h) (uuid n) \<and> 0 < nlen n"
proof -
  let ?g = "\<lambda>w. (case find_node w (hroot h) of Inr n \<Rightarrow> n | Inl e \<Rightarrow> hroot h)"
  note P = path_up_ok[OF assms]
  have N: "find_node w (hroot h) = Inr (?g w) \<and> uuid (?g w) = w \<and> nlen (?g w) = len_at (hroot h) w \<and> has_snapshot (?g w) = snap_at (hroot h) w \<and> 0 < nlen (?g w)"
    if "w \<in> set (path_up (hroot h) u)" for w
  proof -
    have "w \<in> set (uuids (kids (hroot h)))" using that P(3) by blast
    then obtain n where "find_node w (hroot h) = Inr n" "uuid n = w" "nlen n = len_at (hroot h) w" "has_snapshot n = snap_at (hroot h) w" "0 < nlen n"
      by (rule node_at[OF assms(1)])
    then show ?thesis by simp
  qed
  show thesis
  proof (rule that)
    show "path_nodes u (hroot h) = Inr (map ?g (path_up (hroot h) u))"
      unfolding path_nodes_def P(1) rbind_simps by (rule rmap_Inr) (use N in blast)
    show "map uuid (map ?g (path_up (hroot h) u)) = path_up (hroot h) u" using N by (simp add: map_idI)
    show "nlen n = len_at (hroot h) (uuid n) \<and> has_snapshot n = snap_at (hroot h) (uuid n) \<and> 0 < nlen n" if "n \<in> set (map ?g (path_up (hroot h) u))" for n
      using that N by auto
  qed
qed

section \<open>The nodes the pins cover\<close>

definition covered_by :: "node \<Rightarrow> nat set \<Rightarrow> nat set" where
  "covered_by root K = (\<Union>k \<in> K. set (path_up root k))"

lemma takeWhile_up_closed:
  assumes "\<And>xs w ys. p = xs @ w # ys \<Longrightarrow> w \<in> C \<Longrightarrow> set ys \<subseteq> C"
  shows "C \<union> set (takeWhile (\<lambda>w. w \<notin> C) p) = C \<union> set p"
proof (cases "dropWhile (\<lambda>w. w \<notin> C) p")
  case Nil
  then show ?thesis by (metis takeWhile_dropWhile_id append_Nil2)
next
  case (Cons w ys)
  have "p = takeWhile (\<lambda>w. w \<notin> C) p @ w # ys" using takeWhile_dropWhile_id[of "\<lambda>w. w \<notin> C" p] Cons by simp
  moreover have "w \<in> C" using hd_dropWhile[of "\<lambda>w. w \<notin> C" p] Cons by auto
  ultimately have "set ys \<subseteq> C" "set p = set (takeWhile (\<lambda>w. w \<notin> C) p) \<union> insert w (set ys)" using assms by (blast, metis set_append list.simps(15))
  then show ?thesis using \<open>w \<in> C\<close> by auto
qed

lemma pin_covered_ok:
  assumes inv: "hybrid_inv lk h" and us: "set us \<subseteq> set (uuids (kids (hroot h)))" and K: "K \<subseteq> set (uuids (kids (hroot h)))"
    and acc: "distinct acc" "set acc = covered_by (hroot h) K"
  shows "\<exists>cov. pin_covered us acc (hroot h) = Inr cov \<and> distinct cov \<and> set cov = covered_by (hroot h) (K \<union> set us)"
  using us K acc
proof (induction us arbitrary: acc K)
  case (Cons u us)
  note P = path_up_ok[OF inv, of u]
  have u: "u \<in> set (uuids (kids (hroot h)))" using Cons.prems(1) by (metis insert_subset list.simps(15))
  let ?acc = "acc @ takeWhile (\<lambda>w. w \<notin> set acc) (path_up (hroot h) u)"
  have up: "set ys \<subseteq> set acc" if e: "path_up (hroot h) u = xs @ w # ys" and wa: "w \<in> set acc" for xs w ys
  proof -
    obtain k where k: "k \<in> K" "w \<in> set (path_up (hroot h) k)" using wa Cons.prems(4) by (auto simp: covered_by_def)
    obtain as bs where "path_up (hroot h) k = as @ w # bs" using k(2) by (meson split_list)
    then have "path_up (hroot h) w = w # bs" using path_up_ok(6)[OF inv] k(1) Cons.prems(2) by blast
    moreover have "path_up (hroot h) w = w # ys" using P(6)[OF u e] .
    ultimately have "set ys \<subseteq> set (path_up (hroot h) k)" using \<open>path_up (hroot h) k = as @ w # bs\<close> by auto
    then show ?thesis using k(1) Cons.prems(4) by (auto simp: covered_by_def)
  qed
  have "set ?acc = covered_by (hroot h) (insert u K)"
    using takeWhile_up_closed[of "path_up (hroot h) u" "set acc", OF up] Cons.prems(4) by (auto simp: covered_by_def)
  moreover have "distinct ?acc" using Cons.prems(3) P(2)[OF u] by (auto dest: set_takeWhileD)
  ultimately have "\<exists>cov. pin_covered us ?acc (hroot h) = Inr cov \<and> distinct cov \<and> set cov = covered_by (hroot h) (insert u K \<union> set us)"
    using Cons.prems(1,2) u by (intro Cons.IH) (auto simp del: set_map)
  then show ?case using P(1)[OF u] by simp
qed auto

lemma covered_nodes:
  assumes inv: "hybrid_inv lk h" and K: "K \<subseteq> set (uuids (kids (hroot h)))"
  shows "covered_by (hroot h) K \<subseteq> set (uuids (kids (hroot h)))"
  using path_up_ok(3)[OF inv] K unfolding covered_by_def by blast

lemma recount_ok:
  assumes inv: "hybrid_inv lk h" and K: "fst ` set (pins p) \<subseteq> set (uuids (kids (hroot h)))"
  shows "recount_pins h p = Inr (p\<lparr>pin_counts := (pin_counts p)\<lparr>pinned_prefixes := length (pins p),
     pinned_tokens := (\<Sum>u \<in> covered_by (hroot h) (fst ` set (pins p)). len_at (hroot h) u),
     pinned_slots := length (filter snd (pin_locked p))\<rparr>\<rparr>)"
proof -
  obtain cov where c: "pin_covered (map fst (pins p)) [] (hroot h) = Inr cov" "distinct cov" "set cov = covered_by (hroot h) (fst ` set (pins p))"
    using pin_covered_ok[OF inv, of "map fst (pins p)" "{}" "[]"] K by (auto simp: covered_by_def simp del: set_map) (auto simp: covered_by_def)
  let ?g = "\<lambda>w. (case find_node w (hroot h) of Inr n \<Rightarrow> n | Inl e \<Rightarrow> hroot h)"
  have N: "find_node w (hroot h) = Inr (?g w) \<and> nlen (?g w) = len_at (hroot h) w" if "w \<in> set cov" for w
  proof -
    have "w \<in> set (uuids (kids (hroot h)))" using that c(3) covered_nodes[OF inv K] by blast
    then show ?thesis by (rule node_at[OF inv]) simp
  qed
  have "rmap (\<lambda>u. find_node u (hroot h)) cov = Inr (map ?g cov)" by (rule rmap_Inr) (use N in blast)
  moreover have "sum_list (map nlen (map ?g cov)) = (\<Sum>u \<in> set cov. len_at (hroot h) u)"
    using N c(2) by (simp add: comp_def sum_list_distinct_conv_sum_set cong: map_cong)
  ultimately show ?thesis using c(1,3) by (simp add: recount_pins_def)
qed

section \<open>Locks taken and released\<close>

definition with_locks :: "(nat \<Rightarrow> int) \<Rightarrow> nat set \<Rightarrow> nat \<Rightarrow> int" where
  "with_locks ext L u = ext u + (if u \<in> L then 1 else 0)"

lemma unlock_nodes_ok:
  assumes "hybrid_inv (with_locks ext L) h" "distinct us" "set us \<subseteq> L" "\<forall>u. 0 \<le> ext u"
  shows "\<exists>h'. unlock_nodes us h = Inr h' \<and> hybrid_inv (with_locks ext (L - set us)) h' \<and> same_skel (hroot h) (hroot h')"
  using assms
proof (induction us arbitrary: L h)
  case (Cons u us)
  have pos: "0 < with_locks ext L u" using Cons.prems(3,4) by (simp add: with_locks_def add_nonneg_pos)
  obtain h1 where h1: "dec_lock u h = Inr h1" "hybrid_inv ((with_locks ext L)(u := with_locks ext L u - 1)) h1"
    using dec_lock_ok[OF Cons.prems(1) hybrid_invD(5)[OF Cons.prems(1) pos] pos] by blast
  have "(with_locks ext L)(u := with_locks ext L u - 1) = with_locks ext (L - {u})"
    using Cons.prems(3) by (auto simp: with_locks_def fun_eq_iff)
  then have "\<exists>h'. unlock_nodes us h1 = Inr h' \<and> hybrid_inv (with_locks ext (L - {u} - set us)) h' \<and> same_skel (hroot h1) (hroot h')"
    using Cons.prems h1(2) by (intro Cons.IH) auto
  moreover have "L - {u} - set us = L - set (u # us)" by auto
  ultimately show ?case using h1(1) dec_lock_skel[OF h1(1)] same_skel_trans by (auto simp: rbind_simps)
qed auto

lemma lock_nodes_ok:
  assumes "hybrid_inv (with_locks ext L) h" "distinct us" "set us \<inter> L = {}" "set us \<subseteq> set (uuids (kids (hroot h)))"
  shows "\<exists>h'. lock_nodes us h = Inr h' \<and> hybrid_inv (with_locks ext (L \<union> set us)) h' \<and> same_skel (hroot h) (hroot h')"
  using assms
proof (induction us arbitrary: L h)
  case (Cons u us)
  have live: "u \<in> set (uuids (kids (hroot h)))" using Cons.prems(4) by (metis insert_subset list.simps(15))
  obtain h1 where h1: "inc_lock u h = Inr h1" "hybrid_inv ((with_locks ext L)(u := with_locks ext L u + 1)) h1"
    using inc_lock_ok[OF Cons.prems(1) disjI2[OF live]] by blast
  have "(with_locks ext L)(u := with_locks ext L u + 1) = with_locks ext (insert u L)"
    using Cons.prems(3) by (auto simp: with_locks_def fun_eq_iff)
  moreover have sk: "same_skel (hroot h) (hroot h1)" by (rule inc_lock_skel[OF h1(1)])
  then have "set us \<subseteq> set (uuids (kids (hroot h1)))" using Cons.prems(4) unfolding same_skel_def by (metis insert_subset list.simps(15))
  ultimately have "\<exists>h'. lock_nodes us h1 = Inr h' \<and> hybrid_inv (with_locks ext (insert u L \<union> set us)) h' \<and> same_skel (hroot h1) (hroot h')"
    using Cons.prems(2,3) h1(2) by (intro Cons.IH) auto
  moreover have "insert u L \<union> set us = L \<union> set (u # us)" by auto
  ultimately show ?case using h1(1) sk same_skel_trans by auto
qed auto

section \<open>The invariant of the ledger\<close>

text \<open>The locks a pin wants: its node, and the snapshots it chose or those of all its ancestors.\<close>

definition pin_wants :: "node \<Rightarrow> pin \<Rightarrow> nat set" where
  "pin_wants root q = insert (pin_node q)
     (case pin_snapshots q of Some l \<Rightarrow> set l | None \<Rightarrow> {w \<in> set (tl (path_up root (pin_node q))). snap_at root w})"

abbreviation pinned :: "pin_ledger \<Rightarrow> nat set" where
  "pinned p \<equiv> fst ` set (pins p)"

abbreviation held_locks :: "pin_ledger \<Rightarrow> nat set" where
  "held_locks p \<equiv> fst ` set (pin_locked p)"

definition covered_tokens :: "node \<Rightarrow> nat set \<Rightarrow> nat" where
  "covered_tokens root K = (\<Sum>u \<in> covered_by root K. len_at root u)"

text \<open>The ledger and the tree agree: every lock of the ledger is one lock of the tree, on top of the locks \<open>ext\<close> of others, is
  wanted by some pin, and is recorded with whether it holds a snapshot; every pinned node is locked.\<close>

definition ledger_core :: "(nat \<Rightarrow> int) \<Rightarrow> hybrid \<Rightarrow> pin_ledger \<Rightarrow> bool" where
  "ledger_core ext h p \<longleftrightarrow> (\<forall>u. 0 \<le> ext u) \<and> hybrid_inv (with_locks ext (held_locks p)) h \<and>
     distinct (map fst (pins p)) \<and> (\<forall>(k, q) \<in> set (pins p). pin_node q = k) \<and> pinned p \<subseteq> set (uuids (kids (hroot h))) \<and>
     pinned p \<subseteq> held_locks p \<and> distinct (map fst (pin_locked p)) \<and> (\<forall>(u, t) \<in> set (pin_locked p). t = snap_at (hroot h) u) \<and>
     held_locks p \<subseteq> (\<Union>q \<in> snd ` set (pins p). pin_wants (hroot h) q)"

text \<open>The gauges are exact and within the budgets.\<close>

definition ledger_counts :: "int \<Rightarrow> hybrid \<Rightarrow> pin_ledger \<Rightarrow> bool" where
  "ledger_counts budget h p \<longleftrightarrow> pinned_prefixes (pin_counts p) = length (pins p) \<and>
     pinned_slots (pin_counts p) = length (filter snd (pin_locked p)) \<and>
     pinned_tokens (pin_counts p) = covered_tokens (hroot h) (pinned p) \<and>
     int (pinned_slots (pin_counts p)) \<le> budget \<and>
     (pin_prefix_max_tokens p = 0 \<or> pinned_tokens (pin_counts p) \<le> pin_prefix_max_tokens p)"

definition ledger_ok :: "(nat \<Rightarrow> int) \<Rightarrow> int \<Rightarrow> hybrid \<Rightarrow> pin_ledger \<Rightarrow> bool" where
  "ledger_ok ext budget h p \<longleftrightarrow> ledger_core ext h p \<and> ledger_counts budget h p"

lemma ledger_coreD:
  assumes "ledger_core ext h p"
  shows "\<forall>u. 0 \<le> ext u" "hybrid_inv (with_locks ext (held_locks p)) h" "distinct (map fst (pins p))"
    "\<forall>(k, q) \<in> set (pins p). pin_node q = k" "pinned p \<subseteq> set (uuids (kids (hroot h)))"
    "pinned p \<subseteq> held_locks p" "distinct (map fst (pin_locked p))" "\<forall>(u, t) \<in> set (pin_locked p). t = snap_at (hroot h) u"
    "held_locks p \<subseteq> (\<Union>q \<in> snd ` set (pins p). pin_wants (hroot h) q)"
  using assms by (simp_all add: ledger_core_def)

lemma length_filter_sub: "length (filter P (filter Q xs)) \<le> length (filter P xs)"
  by (induction xs) auto

lemma pin_wants_skel: "same_skel r r' \<Longrightarrow> pin_wants r' q = pin_wants r q"
  by (simp add: pin_wants_def same_skel_at split: option.splits)

lemma covered_tokens_skel: "same_skel r r' \<Longrightarrow> covered_tokens r' K = covered_tokens r K"
  by (simp add: covered_tokens_def covered_by_def same_skel_at)

lemma pin_needs_ok:
  assumes "hybrid_inv lk h" "pin_node q \<in> set (uuids (kids (hroot h)))"
  shows "\<exists>l. pin_needs h q = Inr l \<and> set l = pin_wants (hroot h) q"
proof (cases "pin_snapshots q")
  case None
  obtain ns where ns: "path_nodes (pin_node q) (hroot h) = Inr ns" "map uuid ns = path_up (hroot h) (pin_node q)"
    "\<And>n. n \<in> set ns \<Longrightarrow> nlen n = len_at (hroot h) (uuid n) \<and> has_snapshot n = snap_at (hroot h) (uuid n) \<and> 0 < nlen n"
    by (rule path_nodes_facts[OF assms]) blast
  have ne: "ns \<noteq> []" using path_up_ok(4)[OF assms] ns(2) by auto
  have "set (tl ns) \<subseteq> set ns" by (cases ns) auto
  then have "uuid ` {n \<in> set (tl ns). has_snapshot n} = {w \<in> uuid ` set (tl ns). snap_at (hroot h) w}" using ns(3) by auto
  moreover have "uuid ` set (tl ns) = set (tl (path_up (hroot h) (pin_node q)))" using ns(2) by (metis map_tl set_map)
  ultimately show ?thesis using None ns(1) ne by (simp add: pin_needs_def pin_wants_def)
qed (simp add: pin_needs_def pin_wants_def)

lemma release_pin_ok:
  assumes ok: "ledger_ok ext budget h p"
  shows "\<exists>h' lk cs. release_pin u h p = Inr (h', p\<lparr>pins := AList.delete u (pins p), pin_locked := lk, pin_counts := cs\<rparr>) \<and>
    ledger_ok ext budget h' (p\<lparr>pins := AList.delete u (pins p), pin_locked := lk, pin_counts := cs\<rparr>) \<and> same_skel (hroot h) (hroot h')"
proof -
  let ?ps = "AList.delete u (pins p)"
  have core: "ledger_core ext h p" and cnt: "ledger_counts budget h p" using ok by (simp_all add: ledger_ok_def)
  note D = ledger_coreD[OF core]
  have sub: "set ?ps \<subseteq> set (pins p)" by (auto simp: AList.delete_eq)
  let ?f = "\<lambda>q. (case pin_needs h q of Inr l \<Rightarrow> l | Inl e \<Rightarrow> [])"
  have N: "pin_needs h q = Inr (?f q) \<and> set (?f q) = pin_wants (hroot h) q" if "q \<in> snd ` set ?ps" for q
  proof -
    have "pin_node q \<in> set (uuids (kids (hroot h)))" using that sub D(4,5) by force
    then show ?thesis using pin_needs_ok[OF D(2)] by fastforce
  qed
  let ?needed = "map ?f (map snd ?ps)" and ?L = "held_locks p"
  have n: "rmap (pin_needs h) (map snd ?ps) = Inr ?needed" by (rule rmap_Inr) (use N in force)
  have W: "set (concat ?needed) = (\<Union>q \<in> snd ` set ?ps. pin_wants (hroot h) q)" using N by auto
  let ?W = "set (concat ?needed)"
  obtain h' where h': "unlock_nodes (filter (\<lambda>n. n \<notin> ?W) (map fst (pin_locked p))) h = Inr h'"
    "hybrid_inv (with_locks ext (?L - set (filter (\<lambda>n. n \<notin> ?W) (map fst (pin_locked p))))) h'" "same_skel (hroot h) (hroot h')"
    using unlock_nodes_ok[OF D(2), of "filter (\<lambda>n. n \<notin> ?W) (map fst (pin_locked p))"] D(1,7) by auto
  let ?lk = "filter (\<lambda>(n, _). n \<in> ?W) (pin_locked p)"
  let ?p1 = "p\<lparr>pins := ?ps, pin_locked := ?lk\<rparr>"
  have L': "?L - set (filter (\<lambda>n. n \<notin> ?W) (map fst (pin_locked p))) = fst ` set ?lk" by (force simp: image_iff)
  have ks: "fst ` set ?ps \<subseteq> set (uuids (kids (hroot h')))" using D(5) sub h'(3) unfolding same_skel_def by (metis image_mono order_trans)
  have inv': "hybrid_inv (with_locks ext (fst ` set ?lk)) h'" using h'(2) L' by simp
  have "ledger_core ext h' ?p1"
    unfolding ledger_core_def
  proof (intro conjI)
    show "distinct (map fst (pins ?p1))" using D(3) by (simp add: AList.distinct_delete)
    show "\<forall>(k, q) \<in> set (pins ?p1). pin_node q = k" using D(4) sub by auto
    show "pinned ?p1 \<subseteq> held_locks ?p1"
    proof
      fix k assume "k \<in> pinned ?p1"
      then obtain q where q: "(k, q) \<in> set ?ps" by auto
      then have "k \<in> pin_wants (hroot h) q" using D(4) sub by (auto simp: pin_wants_def)
      then have "k \<in> ?W" unfolding W using q by force
      moreover have "k \<in> ?L" using D(6) q sub by force
      ultimately show "k \<in> held_locks ?p1" by force
    qed
    show "distinct (map fst (pin_locked ?p1))" using D(7) by (simp add: distinct_map_filter)
    show "\<forall>(u, t) \<in> set (pin_locked ?p1). t = snap_at (hroot h') u" using D(8) same_skel_at(3)[OF h'(3)] by auto
    show "held_locks ?p1 \<subseteq> (\<Union>q \<in> snd ` set (pins ?p1). pin_wants (hroot h') q)"
      using W pin_wants_skel[OF h'(3)] by (auto simp del: set_concat)
  qed (use D(1) inv' ks in simp_all)
  moreover define cs where "cs = (pin_counts p)\<lparr>pinned_prefixes := length ?ps, pinned_tokens := covered_tokens (hroot h') (fst ` set ?ps),
     pinned_slots := length (filter snd ?lk)\<rparr>"
  have "covered_tokens (hroot h') (fst ` set ?ps) \<le> covered_tokens (hroot h) (pinned p)"
    unfolding covered_tokens_skel[OF h'(3)] unfolding covered_tokens_def using sub
    by (intro sum_mono2) (auto simp: covered_by_def)
  moreover have "length (filter snd ?lk) \<le> length (filter snd (pin_locked p))" by (rule length_filter_sub)
  ultimately have "ledger_ok ext budget h' (?p1\<lparr>pin_counts := cs\<rparr>)" using cnt
    by (auto simp: ledger_ok_def ledger_core_def ledger_counts_def cs_def)
  moreover have "release_pin u h p = Inr (h', ?p1\<lparr>pin_counts := cs\<rparr>)"
    using recount_ok[OF inv', of ?p1] ks n h'(1) by (simp add: release_pin_def Let_def cs_def covered_tokens_def del: set_concat)
  ultimately show ?thesis using h'(3) by (intro exI[of _ h'] exI[of _ ?lk] exI[of _ cs]) simp
qed

lemma oldest_pin_in: "qs \<noteq> [] \<Longrightarrow> \<exists>q. oldest_pin qs = Inr q \<and> q \<in> set qs"
proof (cases qs)
  case (Cons x xs)
  have "fold (\<lambda>x best. if last_match x < last_match best then x else best) ys b \<in> insert b (set ys)" for ys and b :: pin
  proof (induction ys arbitrary: b)
    case (Cons y ys)
    then show ?case using Cons.IH[of y] Cons.IH[of b] by auto
  qed simp
  then show ?thesis using Cons by simp
qed simp

section \<open>Making room for a pin\<close>

lemma path_tokens:
  assumes "map uuid path = path_up root u" "distinct (map uuid path)" "\<And>n. n \<in> set path \<Longrightarrow> nlen n = len_at root (uuid n)"
  shows "sum_list (map nlen (filter (\<lambda>n. uuid n \<notin> C) path)) = (\<Sum>w \<in> set (path_up root u) - C. len_at root w)"
proof -
  have "map nlen (filter (\<lambda>n. uuid n \<notin> C) path) = map (len_at root) (filter (\<lambda>w. w \<notin> C) (map uuid path))"
    using assms(3) by (simp add: filter_map comp_def)
  also have "sum_list \<dots> = (\<Sum>w \<in> set (filter (\<lambda>w. w \<notin> C) (map uuid path)). len_at root w)"
    using assms(2) by (intro sum_list_distinct_conv_sum_set) simp
  also have "set (filter (\<lambda>w. w \<notin> C) (map uuid path)) = set (path_up root u) - C" using assms(1) by (auto simp flip: assms(1))
  finally show ?thesis .
qed

lemma ledger_empty:
  assumes "ledger_ok ext budget h p" "pins p = []"
  shows "pin_locked p = []" "pinned_slots (pin_counts p) = 0" "pinned_tokens (pin_counts p) = 0"
proof -
  show "pin_locked p = []" using assms by (auto simp: ledger_ok_def ledger_core_def)
  then show "pinned_slots (pin_counts p) = 0" "pinned_tokens (pin_counts p) = 0"
    using assms by (auto simp: ledger_ok_def ledger_counts_def covered_tokens_def covered_by_def)
qed

text \<open>The path of the node to pin, as \<^verbatim>\<open>pin_prefix\<close> reads it, and the snapshots it means to hold.\<close>

definition pin_target :: "node \<Rightarrow> int \<Rightarrow> nat \<Rightarrow> nat list \<Rightarrow> node list \<Rightarrow> pin_ledger \<Rightarrow> bool" where
  "pin_target root budget u held path p \<longleftrightarrow> map uuid path = path_up root u \<and> distinct (path_up root u) \<and> u \<in> set (path_up root u) \<and>
     (\<forall>n \<in> set path. nlen n = len_at root (uuid n) \<and> has_snapshot n = snap_at root (uuid n) \<and> nkey n \<noteq> []) \<and>
     distinct held \<and> (snap_at root u \<longrightarrow> u \<in> set held) \<and> set held \<subseteq> set (path_up root u) \<and> (\<forall>w \<in> set held. snap_at root w) \<and>
     int (length held) \<le> budget \<and> (pin_prefix_max_tokens p = 0 \<or> sum_list (map nlen path) \<le> pin_prefix_max_tokens p)"

lemma pin_target_skel: "pin_target r budget u held path p \<Longrightarrow> same_skel r r' \<Longrightarrow> pin_prefix_max_tokens p' = pin_prefix_max_tokens p \<Longrightarrow>
    pin_target r' budget u held path p'"
  by (simp add: pin_target_def same_skel_at)

definition need_of :: "nat \<Rightarrow> nat list \<Rightarrow> node list \<Rightarrow> pin_ledger \<Rightarrow> node list" where
  "need_of u held path p = filter (\<lambda>n. (uuid n = u \<or> uuid n \<in> set held) \<and> uuid n \<notin> held_locks p) path"

text \<open>Without pins the target fits: the loop never asks for the oldest of no pins.\<close>

lemma empty_fits:
  assumes ok: "ledger_ok ext budget h p" "pins p = []" and t: "pin_target (hroot h) budget u held path p"
  shows "\<not> pin_over_budget budget (sum_list (map nlen path)) (length (filter has_snapshot (need_of u held path p))) p"
proof -
  note E = ledger_empty[OF ok]
  have T: "map uuid path = path_up (hroot h) u" "distinct (path_up (hroot h) u)" "\<forall>n \<in> set path. has_snapshot n = snap_at (hroot h) (uuid n)"
    "snap_at (hroot h) u \<longrightarrow> u \<in> set held" "int (length held) \<le> budget"
    "pin_prefix_max_tokens p = 0 \<or> sum_list (map nlen path) \<le> pin_prefix_max_tokens p" using t by (auto simp: pin_target_def)
  let ?ns = "filter has_snapshot (need_of u held path p)"
  have "uuid ` set ?ns \<subseteq> set held" using T(3,4) by (auto simp: need_of_def)
  moreover have "distinct (map uuid ?ns)" using T(1,2) by (simp add: need_of_def distinct_map_filter)
  ultimately have "length ?ns \<le> card (set held)" by (metis card_mono distinct_card length_map List.finite_set set_map)
  also have "\<dots> \<le> length held" by (rule card_length)
  finally show ?thesis using T(5,6) E by (auto simp: pin_over_budget_def)
qed

lemma pin_loop_ok:
  assumes "ledger_ok ext budget h p" "pin_target (hroot h) budget u held path p" "length (pins p) < fuel"
  shows "\<exists>h' ps lk cs need. pin_loop fuel budget u held path h p = Inr (h', p\<lparr>pins := ps, pin_locked := lk, pin_counts := cs\<rparr>, need) \<and>
    ledger_ok ext budget h' (p\<lparr>pins := ps, pin_locked := lk, pin_counts := cs\<rparr>) \<and> same_skel (hroot h) (hroot h') \<and> set ps \<subseteq> set (pins p) \<and>
    (case need of
       None \<Rightarrow> set (path_up (hroot h) u) \<subseteq> covered_by (hroot h) (fst ` set ps)
     | Some ns \<Rightarrow> ns = need_of u held path (p\<lparr>pins := ps, pin_locked := lk, pin_counts := cs\<rparr>) \<and>
         \<not> pin_over_budget budget (\<Sum>w \<in> set (path_up (hroot h) u) - covered_by (hroot h) (fst ` set ps). len_at (hroot h) w)
             (length (filter has_snapshot ns)) (p\<lparr>pins := ps, pin_locked := lk, pin_counts := cs\<rparr>))"
  using assms
proof (induction fuel arbitrary: h p)
  case (Suc fuel)
  let ?root = "hroot h" and ?need = "need_of u held path p"
  have core: "ledger_core ext h p" using Suc.prems(1) by (simp add: ledger_ok_def)
  note D = ledger_coreD[OF core]
  have T: "map uuid path = path_up ?root u" "distinct (path_up ?root u)" "\<forall>n \<in> set path. nlen n = len_at ?root (uuid n) \<and> nkey n \<noteq> []"
    using Suc.prems(2) by (auto simp: pin_target_def)
  obtain cov where c: "pin_covered (map fst (pins p)) [] ?root = Inr cov" "set cov = covered_by ?root (pinned p)"
    using pin_covered_ok[OF D(2), of "map fst (pins p)" "{}" "[]"] D(5) by (auto simp: covered_by_def)
  let ?tok = "sum_list (map nlen (filter (\<lambda>n. uuid n \<notin> set cov) path))"
  have tok: "?tok = (\<Sum>w \<in> set (path_up ?root u) - covered_by ?root (pinned p). len_at ?root w)"
    unfolding c(2) by (rule path_tokens[OF T(1)]) (use T in simp_all)
  have p: "p\<lparr>pins := pins p, pin_locked := pin_locked p, pin_counts := pin_counts p\<rparr> = p" by simp
  have unf: "pin_loop (Suc fuel) budget u held path h p =
     (if ?tok = 0 \<and> length (filter has_snapshot ?need) = 0 then Inr (h, p, None)
      else if \<not> pin_over_budget budget ?tok (length (filter has_snapshot ?need)) p then Inr (h, p, Some ?need)
      else rbind (oldest_pin (map snd (pins p))) (\<lambda>victim.
           rbind (release_pin (pin_node victim) h p) (\<lambda>(h', p').
           pin_loop fuel budget u held path h' (p'\<lparr>pin_counts := (pin_counts p')\<lparr>pin_evictions := pin_evictions (pin_counts p') + 1\<rparr>\<rparr>))))"
    by (simp only: pin_loop.simps Let_def need_of_def c(1) rbind_simps set_map)
  consider (covered) "?tok = 0 \<and> length (filter has_snapshot ?need) = 0"
    | (fits) "\<not> (?tok = 0 \<and> length (filter has_snapshot ?need) = 0)" "\<not> pin_over_budget budget ?tok (length (filter has_snapshot ?need)) p"
    | (over) "\<not> (?tok = 0 \<and> length (filter has_snapshot ?need) = 0)" "pin_over_budget budget ?tok (length (filter has_snapshot ?need)) p"
    by blast
  then show ?case
  proof cases
    case covered
    have "filter (\<lambda>n. uuid n \<notin> set cov) path = []"
    proof (rule ccontr)
      assume "filter (\<lambda>n. uuid n \<notin> set cov) path \<noteq> []"
      then obtain n where n: "n \<in> set (filter (\<lambda>n. uuid n \<notin> set cov) path)" by (meson list.set_sel(1))
      then have "nkey n \<noteq> []" using T(3) by (meson filter_is_subset subsetD)
      moreover have "nlen n \<le> ?tok" using n by (auto intro!: member_le_sum_list)
      ultimately show False using covered by simp
    qed
    then have "set (map uuid path) \<subseteq> covered_by ?root (pinned p)" using c(2) by (auto simp: filter_empty_conv)
    then show ?thesis using covered Suc.prems(1) unf T(1)
      by (intro exI[of _ h] exI[of _ "pins p"] exI[of _ "pin_locked p"] exI[of _ "pin_counts p"] exI[of _ None]) simp
  next
    case fits
    then show ?thesis using Suc.prems(1) unf tok
      by (intro exI[of _ h] exI[of _ "pins p"] exI[of _ "pin_locked p"] exI[of _ "pin_counts p"] exI[of _ "Some ?need"]) simp
  next
    case over
    have ne: "pins p \<noteq> []"
    proof
      assume e: "pins p = []"
      then have "?tok = sum_list (map nlen path)" using c(1) by auto
      then show False using empty_fits[OF Suc.prems(1) e Suc.prems(2)] over(2) by simp
    qed
    obtain v where v: "oldest_pin (map snd (pins p)) = Inr v" "v \<in> set (map snd (pins p))" using oldest_pin_in[of "map snd (pins p)"] ne by auto
    let ?ps = "AList.delete (pin_node v) (pins p)"
    obtain h1 lk1 cs1 where r: "release_pin (pin_node v) h p = Inr (h1, p\<lparr>pins := ?ps, pin_locked := lk1, pin_counts := cs1\<rparr>)"
      "ledger_ok ext budget h1 (p\<lparr>pins := ?ps, pin_locked := lk1, pin_counts := cs1\<rparr>)" "same_skel ?root (hroot h1)"
      using release_pin_ok[OF Suc.prems(1), of "pin_node v"] by blast
    let ?p1 = "p\<lparr>pins := ?ps, pin_locked := lk1, pin_counts := cs1\<lparr>pin_evictions := pin_evictions cs1 + 1\<rparr>\<rparr>"
    have ok1: "ledger_ok ext budget h1 ?p1" using r(2) by (auto simp: ledger_ok_def ledger_core_def ledger_counts_def)
    have "pin_node v \<in> fst ` set (pins p)" using v(2) D(4) by force
    then have len: "length (pins ?p1) < fuel" using Suc.prems(3) length_filter_less[of _ "pins p" "\<lambda>(k, _). pin_node v \<noteq> k"] by (force simp: AList.delete_eq)
    have t1: "pin_target (hroot h1) budget u held path ?p1" by (rule pin_target_skel[OF Suc.prems(2) r(3)]) simp
    have sub: "set (pins ?p1) \<subseteq> set (pins p)" by (auto simp: AList.delete_eq)
    have sk: "covered_by (hroot h1) = covered_by ?root" "path_up (hroot h1) = path_up ?root" "len_at (hroot h1) = len_at ?root"
      using same_skel_at[OF r(3)] by (auto simp: covered_by_def fun_eq_iff)
    obtain h2 ps2 lk2 cs2 need where IH: "pin_loop fuel budget u held path h1 ?p1 = Inr (h2, ?p1\<lparr>pins := ps2, pin_locked := lk2, pin_counts := cs2\<rparr>, need)"
      "ledger_ok ext budget h2 (?p1\<lparr>pins := ps2, pin_locked := lk2, pin_counts := cs2\<rparr>)" "same_skel (hroot h1) (hroot h2)" "set ps2 \<subseteq> set (pins ?p1)"
      "case need of
       None \<Rightarrow> set (path_up ?root u) \<subseteq> covered_by ?root (fst ` set ps2)
     | Some ns \<Rightarrow> ns = need_of u held path (?p1\<lparr>pins := ps2, pin_locked := lk2, pin_counts := cs2\<rparr>) \<and>
         \<not> pin_over_budget budget (\<Sum>w \<in> set (path_up ?root u) - covered_by ?root (fst ` set ps2). len_at ?root w)
             (length (filter has_snapshot ns)) (?p1\<lparr>pins := ps2, pin_locked := lk2, pin_counts := cs2\<rparr>)"
      using Suc.IH[OF ok1 t1 len] unfolding sk by blast
    have e: "?p1\<lparr>pins := ps2, pin_locked := lk2, pin_counts := cs2\<rparr> = p\<lparr>pins := ps2, pin_locked := lk2, pin_counts := cs2\<rparr>" by simp
    have "pin_loop (Suc fuel) budget u held path h p = Inr (h2, p\<lparr>pins := ps2, pin_locked := lk2, pin_counts := cs2\<rparr>, need)"
      unfolding unf if_not_P[OF over(1)] using over(2) v(1) r(1) IH(1) e by simp
    then show ?thesis using IH(2-5) same_skel_trans[OF r(3)] sub unfolding e
      by (intro exI[of _ h2] exI[of _ ps2] exI[of _ lk2] exI[of _ cs2] exI[of _ need]) auto
  qed
qed simp

section \<open>Taking a pin\<close>

lemma update_fresh: "k \<notin> fst ` set l \<Longrightarrow> AList.update k v l = l @ [(k, v)]"
  by (induction l) auto

lemma update_present:
  "map_of l u = Some q \<Longrightarrow> distinct (map fst l) \<Longrightarrow> AList.update u q' l = map (\<lambda>(k, x). (k, if k = u then q' else x)) l"
proof (induction l)
  case (Cons y l)
  then show ?case by (cases y) (auto intro!: map_idI[symmetric] split: if_splits, force)
qed simp

lemma fold_update_fresh:
  "distinct (map f ns) \<Longrightarrow> f ` set ns \<inter> fst ` set l = {} \<Longrightarrow> fold (\<lambda>n. AList.update (f n) (g n)) ns l = l @ map (\<lambda>n. (f n, g n)) ns"
proof (induction ns arbitrary: l)
  case (Cons n ns)
  then have "AList.update (f n) (g n) l = l @ [(f n, g n)]" by (intro update_fresh) auto
  moreover have "f ` set ns \<inter> fst ` set (l @ [(f n, g n)]) = {}" using Cons.prems by auto
  ultimately show ?case using Cons by simp
qed simp

lemma covered_refs:
  assumes core: "ledger_core ext h p" and w: "w \<in> covered_by (hroot h) (pinned p)"
  shows "\<exists>n. find_node w (hroot h) = Inr n \<and> 0 < ref_count (attr n)"
proof -
  note D = ledger_coreD[OF core] and I = tree_invD[OF hybrid_invD(11)[OF ledger_coreD(2)[OF core]]]
  obtain k where k: "k \<in> pinned p" "w \<in> set (path_up (hroot h) k)" using w by (auto simp: covered_by_def)
  have kl: "k \<in> set (uuids (kids (hroot h)))" using k(1) D(5) by blast
  then have kr: "k \<noteq> uuid (hroot h)" using I(5) by metis
  obtain pth where pth: "path_kids k (kids (hroot h)) = Some pth" using path_kids_None[of k "kids (hroot h)"] kl by (cases "path_kids k (kids (hroot h))") auto
  obtain n where n: "find_node k (hroot h) = Inr n" "uuid n = k" by (rule node_at[OF D(2) kl])
  note E = find_node_entry[OF n(1) kr]
  have "n \<in> set (flat (kids (hroot h)))" using find_kids_flat[OF E(2)] by simp
  then have "with_locks ext (held_locks p) k \<le> ref_count (attr n)" using lk_le_ref[OF D(2)] n(2) by blast
  moreover have "1 \<le> with_locks ext (held_locks p) k" using D(1,6) k(1) by (auto simp: with_locks_def)
  ultimately have rn: "0 < ref_count (attr n)" by simp
  have wl: "w \<in> set (uuids (kids (hroot h)))" using path_up_ok(3)[OF D(2) kl] k(2) by blast
  then have wr: "w \<noteq> uuid (hroot h)" using I(5) by metis
  obtain m where m: "find_node w (hroot h) = Inr m" by (rule node_at[OF D(2) wl])
  have "w \<in> set pth" using k(2) pth kr by (simp add: path_up_def chain_def)
  then have "ref_count (attr n) \<le> ref_count (attr m)" using path_refs_ge[OF pth I(4) I(3) E(2)] find_node_entry(1)[OF m wr] by blast
  then show ?thesis using m rn by auto
qed

text \<open>The ledger after the locks of a new pin are taken.\<close>

lemma pin_added:
  assumes ok: "ledger_ok ext budget h p" and t: "pin_target (hroot h) budget u held path p" and u: "u \<in> set (uuids (kids (hroot h)))" "u \<notin> pinned p"
    and snaps: "sn = Some held \<or> sn = None \<and> set held = {w \<in> set (path_up (hroot h) u). snap_at (hroot h) w}"
    and ns: "ns = need_of u held path p"
    and fit: "\<not> pin_over_budget budget (\<Sum>w \<in> set (path_up (hroot h) u) - covered_by (hroot h) (pinned p). len_at (hroot h) w)
        (length (filter has_snapshot ns)) p"
  shows "\<exists>h' p'. rbind (lock_nodes (map uuid ns) h) (\<lambda>h2.
      rbind (recount_pins h2 (p\<lparr>pin_locked := fold (\<lambda>n. AList.update (uuid n) (has_snapshot n)) ns (pin_locked p),
          pins := AList.update u \<lparr>pin_node = u, last_match = now, pin_snapshots = sn\<rparr> (pins p)\<rparr>)) (\<lambda>p2. Inr (h2, p2, True))) = Inr (h', p', True) \<and>
    ledger_ok ext budget h' p' \<and> same_skel (hroot h) (hroot h') \<and> u \<in> pinned p'"
proof -
  have core: "ledger_core ext h p" and cnt: "ledger_counts budget h p" using ok by (simp_all add: ledger_ok_def)
  note D = ledger_coreD[OF core] and P = path_up_ok[OF ledger_coreD(2)[OF core] u(1)]
  let ?root = "hroot h" and ?q = "\<lparr>pin_node = u, last_match = now, pin_snapshots = sn\<rparr>"
  have T: "map uuid path = path_up ?root u" "\<forall>n \<in> set path. has_snapshot n = snap_at ?root (uuid n)" "set held \<subseteq> set (path_up ?root u)" "\<forall>w \<in> set held. snap_at ?root w"
    using t by (auto simp: pin_target_def)
  have setn: "set (map uuid ns) = {w \<in> set (path_up ?root u). w = u \<or> w \<in> set held} - held_locks p"
    unfolding T(1)[symmetric] ns need_of_def by auto
  have dn: "distinct (map uuid ns)" using P(2) T(1) by (simp add: ns need_of_def distinct_map_filter)
  have live: "set (map uuid ns) \<subseteq> set (uuids (kids ?root))" using setn P(3) by blast
  obtain h' where h': "lock_nodes (map uuid ns) h = Inr h'" "hybrid_inv (with_locks ext (held_locks p \<union> set (map uuid ns))) h'" "same_skel ?root (hroot h')"
    using lock_nodes_ok[OF D(2) dn _ live] setn by blast
  have lk: "fold (\<lambda>n. AList.update (uuid n) (has_snapshot n)) ns (pin_locked p) = pin_locked p @ map (\<lambda>n. (uuid n, has_snapshot n)) ns"
    using setn by (intro fold_update_fresh[OF dn]) auto
  have pu: "AList.update u ?q (pins p) = pins p @ [(u, ?q)]" by (rule update_fresh[OF u(2)])
  let ?p1 = "p\<lparr>pin_locked := pin_locked p @ map (\<lambda>n. (uuid n, has_snapshot n)) ns, pins := pins p @ [(u, ?q)]\<rparr>"
  have hl: "held_locks ?p1 = held_locks p \<union> set (map uuid ns)" by force
  have pn: "pinned ?p1 = insert u (pinned p)" by auto
  have ks: "pinned ?p1 \<subseteq> set (uuids (kids (hroot h')))" using D(5) u(1) h'(3) unfolding pn same_skel_def by (metis insert_subset)
  have wq: "pin_wants ?root ?q = {w \<in> set (path_up ?root u). w = u \<or> w \<in> set held}"
  proof -
    have "path_up ?root u = u # tl (path_up ?root u)" using P(4,5) by (metis list.collapse list.set(1) empty_iff)
    then have "set (path_up ?root u) = insert u (set (tl (path_up ?root u)))" by (metis list.simps(15))
    then show ?thesis using snaps T(3) P(4) by (auto simp: pin_wants_def)
  qed
  have "ledger_core ext h' ?p1"
    unfolding ledger_core_def
  proof (intro conjI)
    show "hybrid_inv (with_locks ext (held_locks ?p1)) h'" unfolding hl by (rule h'(2))
    show "distinct (map fst (pins ?p1))" using D(3) u(2) by simp
    show "\<forall>(k, q) \<in> set (pins ?p1). pin_node q = k" using D(4) by auto
    show "pinned ?p1 \<subseteq> held_locks ?p1" unfolding hl pn setn using D(6) P(4) by blast
    have "set (map fst (pin_locked p)) \<inter> set (map uuid ns) = {}" unfolding setn by auto
    then show "distinct (map fst (pin_locked ?p1))" using D(7) dn by (simp add: comp_def)
    show "\<forall>(u, t) \<in> set (pin_locked ?p1). t = snap_at (hroot h') u"
      using D(8) T(2) unfolding same_skel_at(3)[OF h'(3)] by (auto simp: ns need_of_def)
    show "held_locks ?p1 \<subseteq> (\<Union>q \<in> snd ` set (pins ?p1). pin_wants (hroot h') q)"
      unfolding hl pin_wants_skel[OF h'(3)] using D(9) wq setn by auto
  qed (use D(1) ks in simp_all)
  moreover define cs where "cs = (pin_counts p)\<lparr>pinned_prefixes := length (pins ?p1), pinned_tokens := covered_tokens (hroot h') (pinned ?p1),
     pinned_slots := length (filter snd (pin_locked ?p1))\<rparr>"
  have tok: "covered_tokens (hroot h') (pinned ?p1) = covered_tokens ?root (pinned p) +
      (\<Sum>w \<in> set (path_up ?root u) - covered_by ?root (pinned p). len_at ?root w)"
  proof -
    have "covered_by ?root (pinned ?p1) = covered_by ?root (pinned p) \<union> (set (path_up ?root u) - covered_by ?root (pinned p))"
      unfolding pn by (auto simp: covered_by_def)
    then show ?thesis unfolding covered_tokens_skel[OF h'(3)] unfolding covered_tokens_def
      by (simp only:) (rule sum.union_disjoint, auto simp: covered_by_def)
  qed
  have "length (filter snd (pin_locked ?p1)) = length (filter snd (pin_locked p)) + length (filter has_snapshot ns)" by (simp add: filter_map comp_def)
  then have "ledger_counts budget h' (?p1\<lparr>pin_counts := cs\<rparr>)"
    using cnt fit tok unfolding ledger_counts_def pin_over_budget_def cs_def by auto
  ultimately have "ledger_ok ext budget h' (?p1\<lparr>pin_counts := cs\<rparr>)" by (simp add: ledger_ok_def ledger_core_def)
  moreover have "recount_pins h' ?p1 = Inr (?p1\<lparr>pin_counts := cs\<rparr>)"
    using recount_ok[OF h'(2), of ?p1] ks by (simp add: cs_def covered_tokens_def)
  ultimately show ?thesis using h'(1,3) lk pu by (intro exI[of _ h'] exI[of _ "?p1\<lparr>pin_counts := cs\<rparr>"]) simp
qed

lemma pin_target_path:
  assumes inv: "hybrid_inv lk h" and u: "u \<in> set (uuids (kids (hroot h)))" and path: "path_nodes u (hroot h) = Inr path"
    and snaps: "snaps = map uuid (case cap of None \<Rightarrow> filter has_snapshot path | Some k \<Rightarrow> take k (filter has_snapshot path))" "cap \<noteq> Some 0"
    and fit: "\<not> (int (length snaps) > budget \<or> pin_prefix_max_tokens p > 0 \<and> sum_list (map nlen path) > pin_prefix_max_tokens p)"
  shows "pin_target (hroot h) budget u snaps path p"
    "cap = None \<longrightarrow> set snaps = {w \<in> set (path_up (hroot h) u). snap_at (hroot h) w}"
proof -
  let ?root = "hroot h"
  note P = path_up_ok[OF inv u]
  obtain ns where ns: "path_nodes u ?root = Inr ns" "map uuid ns = path_up ?root u"
    "\<And>n. n \<in> set ns \<Longrightarrow> nlen n = len_at ?root (uuid n) \<and> has_snapshot n = snap_at ?root (uuid n) \<and> 0 < nlen n"
    by (rule path_nodes_facts[OF inv u]) blast
  have e: "ns = path" using ns(1) path by simp
  note m = ns(2)[unfolded e] and f = ns(3)[unfolded e]
  define all where "all = filter has_snapshot path"
  have sub: "set snaps \<subseteq> uuid ` set all" unfolding snaps(1) all_def by (auto split: option.splits dest: in_set_takeD)
  have all: "uuid ` set all = {w \<in> set (path_up ?root u). snap_at ?root w}" unfolding m[symmetric] all_def using f by auto
  have da: "distinct (map uuid all)" using P(2) m by (simp add: all_def distinct_map_filter)
  have d: "distinct snaps"
  proof (cases cap)
    case (Some k)
    then have "snaps = take k (map uuid all)" by (simp add: snaps(1) all_def take_map)
    then show ?thesis using da by simp
  qed (use da in \<open>simp add: snaps(1) all_def\<close>)
  have first: "u \<in> set snaps" if s: "snap_at ?root u"
  proof -
    have "map uuid path \<noteq> []" "hd (map uuid path) = u" unfolding m using P(4,5) by auto
    then obtain n ns' where n: "path = n # ns'" "uuid n = u" by (cases path) auto
    then have "has_snapshot n" using s f by auto
    then have "all = n # filter has_snapshot ns'" using n(1) by (simp add: all_def)
    then show ?thesis using snaps n(2) by (cases cap; cases "the cap") (auto simp: all_def[symmetric])
  qed
  show "cap = None \<longrightarrow> set snaps = {w \<in> set (path_up ?root u). snap_at ?root w}" using all by (auto simp: snaps(1) all_def)
  have nk: "\<forall>n \<in> set path. nlen n = len_at ?root (uuid n) \<and> has_snapshot n = snap_at ?root (uuid n) \<and> nkey n \<noteq> []" using f by fastforce
  show "pin_target ?root budget u snaps path p"
    unfolding pin_target_def using m P(2,4) nk d first sub all fit by auto
qed

lemma ledger_ok_pins:
  assumes "ledger_ok ext budget h p" "map fst ps = map fst (pins p)" "\<forall>(k, x) \<in> set ps. pin_node x = k"
    "(\<Union>x \<in> snd ` set ps. pin_wants (hroot h) x) = (\<Union>x \<in> snd ` set (pins p). pin_wants (hroot h) x)"
  shows "ledger_ok ext budget h (p\<lparr>pins := ps\<rparr>)"
proof -
  have k: "fst ` set ps = pinned p" "length ps = length (pins p)" using assms(2) by (metis set_map, metis length_map)
  have c0: "ledger_core ext h p" using assms(1) by (simp add: ledger_ok_def)
  note D = ledger_coreD[OF c0]
  let ?p = "p\<lparr>pins := ps\<rparr>"
  have core: "ledger_core ext h ?p"
    unfolding ledger_core_def
  proof (intro conjI)
    show "distinct (map fst (pins ?p))" using D(3) unfolding assms(2)[symmetric] by simp
    show "\<forall>(k, q) \<in> set (pins ?p). pin_node q = k" using assms(3) by simp
    show "pinned ?p \<subseteq> set (uuids (kids (hroot h)))" using D(5) unfolding k(1)[symmetric] by simp
    show "pinned ?p \<subseteq> held_locks ?p" using D(6) unfolding k(1)[symmetric] by simp
    show "held_locks ?p \<subseteq> (\<Union>q \<in> snd ` set (pins ?p). pin_wants (hroot h) q)" using D(9) unfolding assms(4)[symmetric] by simp
  qed (use D(1,2,7,8) in simp_all)
  have "ledger_counts budget h (p\<lparr>pins := ps\<rparr>)"
    using assms(1) unfolding ledger_ok_def ledger_counts_def by (auto simp: k)
  then show ?thesis using core by (simp add: ledger_ok_def)
qed

lemma pin_refreshed:
  assumes "ledger_ok ext budget h p" "map_of (pins p) u = Some q"
  shows "ledger_ok ext budget h (p\<lparr>pins := AList.update u (q\<lparr>last_match := now\<rparr>) (pins p)\<rparr>)" "u \<in> pinned p"
    "pinned (p\<lparr>pins := AList.update u (q\<lparr>last_match := now\<rparr>) (pins p)\<rparr>) = pinned p"
proof -
  have D: "distinct (map fst (pins p))" using assms(1) by (simp add: ledger_ok_def ledger_core_def)
  let ?ps = "map (\<lambda>(k, x). (k, if k = u then q\<lparr>last_match := now\<rparr> else x)) (pins p)"
  have e: "AList.update u (q\<lparr>last_match := now\<rparr>) (pins p) = ?ps" by (rule update_present[OF assms(2) D])
  have ks: "map fst ?ps = map fst (pins p)" by (simp add: comp_def split_beta)
  have k: "fst ` set ?ps = pinned p" by (simp add: image_image split_beta)
  show in_p: "u \<in> pinned p" using map_of_SomeD[OF assms(2)] by force
  show "pinned (p\<lparr>pins := AList.update u (q\<lparr>last_match := now\<rparr>) (pins p)\<rparr>) = pinned p" unfolding e using k by simp
  have w: "(\<Union>x \<in> snd ` set ?ps. pin_wants (hroot h) x) = (\<Union>x \<in> snd ` set (pins p). pin_wants (hroot h) x)"
  proof -
    have "pin_wants (hroot h) (q\<lparr>last_match := now\<rparr>) = pin_wants (hroot h) q" by (simp add: pin_wants_def split: option.split)
    moreover have "x = q" if "(u, x) \<in> set (pins p)" for x using map_of_is_SomeI[OF D that] assms(2) by simp
    ultimately have "pin_wants (hroot h) (if fst y = u then q\<lparr>last_match := now\<rparr> else snd y) = pin_wants (hroot h) (snd y)" if "y \<in> set (pins p)" for y
      using that by (cases y) auto
    then have "(\<Union>y \<in> set (pins p). pin_wants (hroot h) (if fst y = u then q\<lparr>last_match := now\<rparr> else snd y)) =
        (\<Union>y \<in> set (pins p). pin_wants (hroot h) (snd y))" by (intro SUP_cong) auto
    then show ?thesis by (simp only: set_map image_image split_beta fst_conv snd_conv)
  qed
  have n: "\<forall>(k, x) \<in> set ?ps. pin_node x = k"
    using assms map_of_SomeD[OF assms(2)] by (auto simp: ledger_ok_def ledger_core_def)
  show "ledger_ok ext budget h (p\<lparr>pins := AList.update u (q\<lparr>last_match := now\<rparr>) (pins p)\<rparr>)"
    unfolding e by (rule ledger_ok_pins[OF assms(1) ks n w])
qed

text \<open>\<^verbatim>\<open>pin_prefix\<close> of a node that is not pinned yet, with its path and the snapshots it chooses.\<close>

lemma pin_prefix_fresh:
  assumes "u \<noteq> uuid (hroot h)" "map_of (pins p) u = None" "path_nodes u (hroot h) = Inr path"
    and cap_def: "cap = session_pin_slot_cap budget p"
    and snaps_def: "snaps = map uuid (case cap of None \<Rightarrow> filter has_snapshot path | Some k \<Rightarrow> take k (filter has_snapshot path))"
  shows "pin_prefix now budget u h p =
       (if int (length snaps) > budget \<or> pin_prefix_max_tokens p > 0 \<and> sum_list (map nlen path) > pin_prefix_max_tokens p
        then Inr (h, p\<lparr>pin_counts := (pin_counts p)\<lparr>pin_budget_refusals := pin_budget_refusals (pin_counts p) + 1\<rparr>\<rparr>, False)
        else rbind (pin_loop (Suc (length (pins p))) budget u snaps path h p) (\<lambda>(h1, p1, need).
               case need of
                 None \<Rightarrow> Inr (h1, p1, True)
               | Some ns \<Rightarrow>
                   rbind (lock_nodes (map uuid ns) h1) (\<lambda>h2.
                   rbind (recount_pins h2 (p1\<lparr>pin_locked := fold (\<lambda>n. AList.update (uuid n) (has_snapshot n)) ns (pin_locked p1),
                       pins := AList.update u \<lparr>pin_node = u, last_match = now, pin_snapshots = map_option (\<lambda>_. snaps) cap\<rparr> (pins p1)\<rparr>)) (\<lambda>p2.
                     Inr (h2, p2, True)))))"
  using assms(1-3) by (simp only: pin_prefix_def cap_def snaps_def Let_def if_False option.case rbind_simps)

text \<open>A pin that fits the empty ledger is granted.\<close>

lemma pin_prefix_grants:
  assumes ok: "ledger_ok ext budget h p" and u: "u \<in> set (uuids (kids (hroot h)))" "map_of (pins p) u = None"
    and path: "path_nodes u (hroot h) = Inr path"
    and snaps: "snaps = map uuid (case cap of None \<Rightarrow> filter has_snapshot path | Some k \<Rightarrow> take k (filter has_snapshot path))"
      "cap = session_pin_slot_cap budget p"
    and fit: "\<not> (int (length snaps) > budget \<or> pin_prefix_max_tokens p > 0 \<and> sum_list (map nlen path) > pin_prefix_max_tokens p)"
  shows "\<exists>h' p'. pin_prefix now budget u h p = Inr (h', p', True) \<and> ledger_ok ext budget h' p' \<and> same_skel (hroot h) (hroot h') \<and>
    set (path_up (hroot h) u) \<subseteq> covered_by (hroot h') (pinned p')"
proof -
  have core: "ledger_core ext h p" using ok by (simp add: ledger_ok_def)
  note D = ledger_coreD[OF core]
  have ur: "u \<noteq> uuid (hroot h)" using u(1) tree_invD(5)[OF hybrid_invD(11)[OF D(2)]] by metis
  note unf = pin_prefix_fresh[OF ur u(2) path snaps(2,1), of now, unfolded if_not_P[OF fit]]
  have cap0: "cap \<noteq> Some 0" by (simp add: snaps(2) session_pin_slot_cap_def)
  note T = pin_target_path[OF D(2) u(1) path snaps(1) cap0 fit]
  obtain h1 ps lk cs need where L: "pin_loop (Suc (length (pins p))) budget u snaps path h p = Inr (h1, p\<lparr>pins := ps, pin_locked := lk, pin_counts := cs\<rparr>, need)"
    "ledger_ok ext budget h1 (p\<lparr>pins := ps, pin_locked := lk, pin_counts := cs\<rparr>)" "same_skel (hroot h) (hroot h1)" "set ps \<subseteq> set (pins p)"
    "case need of
       None \<Rightarrow> set (path_up (hroot h) u) \<subseteq> covered_by (hroot h) (fst ` set ps)
     | Some ns \<Rightarrow> ns = need_of u snaps path (p\<lparr>pins := ps, pin_locked := lk, pin_counts := cs\<rparr>) \<and>
         \<not> pin_over_budget budget (\<Sum>w \<in> set (path_up (hroot h) u) - covered_by (hroot h) (fst ` set ps). len_at (hroot h) w)
             (length (filter has_snapshot ns)) (p\<lparr>pins := ps, pin_locked := lk, pin_counts := cs\<rparr>)"
    using pin_loop_ok[OF ok T(1), of "Suc (length (pins p))"] by blast
  let ?p1 = "p\<lparr>pins := ps, pin_locked := lk, pin_counts := cs\<rparr>"
  have sk: "covered_by (hroot h1) = covered_by (hroot h)" "path_up (hroot h1) = path_up (hroot h)" "len_at (hroot h1) = len_at (hroot h)"
    "snap_at (hroot h1) = snap_at (hroot h)" "uuids (kids (hroot h1)) = uuids (kids (hroot h))"
    using same_skel_at[OF L(3)] L(3) by (auto simp: covered_by_def fun_eq_iff same_skel_def)
  show ?thesis
  proof (cases need)
    case None
    then show ?thesis using L unf sk by (intro exI[of _ h1] exI[of _ ?p1]) simp
  next
    case (Some ns)
    have un: "u \<notin> pinned ?p1" using u(2) L(4) by (auto simp: map_of_eq_None_iff)
    have sn: "map_option (\<lambda>_. snaps) cap = Some snaps \<or>
        map_option (\<lambda>_. snaps) cap = None \<and> set snaps = {w \<in> set (path_up (hroot h1) u). snap_at (hroot h1) w}"
      using T(2) sk by (cases cap) auto
    obtain h' p' where A: "rbind (lock_nodes (map uuid ns) h1) (\<lambda>h2.
        rbind (recount_pins h2 (?p1\<lparr>pin_locked := fold (\<lambda>n. AList.update (uuid n) (has_snapshot n)) ns (pin_locked ?p1),
          pins := AList.update u \<lparr>pin_node = u, last_match = now, pin_snapshots = map_option (\<lambda>_. snaps) cap\<rparr> (pins ?p1)\<rparr>)) (\<lambda>p2.
          Inr (h2, p2, True))) = Inr (h', p', True)" "ledger_ok ext budget h' p'" "same_skel (hroot h1) (hroot h')" "u \<in> pinned p'"
      using pin_added[OF L(2) pin_target_skel[OF T(1) L(3)] _ un sn, of ns now] u(1) Some L(5) by (auto simp: sk)
    have "pin_prefix now budget u h p = Inr (h', p', True)" unfolding unf using L(1) Some A(1) by simp
    moreover have "set (path_up (hroot h) u) \<subseteq> covered_by (hroot h') (pinned p')"
      using A(4) same_skel_at(1)[OF A(3)] sk by (auto simp: covered_by_def)
    ultimately show ?thesis using A(2) same_skel_trans[OF L(3) A(3)] by blast
  qed
qed

section \<open>Properties\<close>

text \<open>C33: Pinning a prefix never raises: the loop that makes room ends before it would ask for the oldest of no pins, and every lock it
  releases is one it holds. The locks of the pins stay exact on top of everybody else's (\<open>ext\<close>), the gauges count the
  pinned prefixes, tokens and state slots exactly, and neither the token nor the slot budget is exceeded. When the pin is granted,
  every node from the pinned one to the root is covered by a pin and locked, so that no eviction can take it.\<close>

theorem pin_prefix_within_budget:
  assumes "ledger_ok ext budget h p" "u \<in> set (uuids (kids (hroot h)))"
  shows "\<exists>h' p' ok. pin_prefix now budget u h p = Inr (h', p', ok) \<and> ledger_ok ext budget h' p' \<and>
    (ok \<longrightarrow> (\<forall>w \<in> set (path_up (hroot h) u). w \<in> covered_by (hroot h') (pinned p') \<and>
       (\<exists>n. find_node w (hroot h') = Inr n \<and> 0 < ref_count (attr n))))"
proof -
  have core: "ledger_core ext h p" using assms(1) by (simp add: ledger_ok_def)
  note D = ledger_coreD[OF core]
  have ur: "u \<noteq> uuid (hroot h)" using assms(2) tree_invD(5)[OF hybrid_invD(11)[OF D(2)]] by metis
  have granted: ?thesis if "\<exists>h' p'. pin_prefix now budget u h p = Inr (h', p', True) \<and> ledger_ok ext budget h' p' \<and>
      same_skel (hroot h) (hroot h') \<and> set (path_up (hroot h) u) \<subseteq> covered_by (hroot h') (pinned p')"
    using that covered_refs unfolding ledger_ok_def by blast
  show ?thesis
  proof (cases "map_of (pins p) u")
    case (Some q)
    note R = pin_refreshed(1)[OF assms(1) Some, of now] pin_refreshed(2)[OF assms(1) Some] pin_refreshed(3)[OF assms(1) Some, of now]
    let ?p = "p\<lparr>pins := AList.update u (q\<lparr>last_match := now\<rparr>) (pins p)\<rparr>"
    have "set (path_up (hroot h) u) \<subseteq> covered_by (hroot h) (pinned ?p)" unfolding R(3) using R(2) by (auto simp: covered_by_def)
    then show ?thesis using Some ur R(1) by (intro granted exI[of _ h] exI[of _ ?p]) (simp add: pin_prefix_def del: map_of_eq_Some_iff)
  next
    case None
    obtain path where path: "path_nodes u (hroot h) = Inr path" by (rule path_nodes_facts[OF D(2) assms(2)])
    define cap where "cap = session_pin_slot_cap budget p"
    define snaps where "snaps = map uuid (case cap of None \<Rightarrow> filter has_snapshot path | Some k \<Rightarrow> take k (filter has_snapshot path))"
    show ?thesis
    proof (cases "int (length snaps) > budget \<or> pin_prefix_max_tokens p > 0 \<and> sum_list (map nlen path) > pin_prefix_max_tokens p")
      case True
      then show ?thesis using pin_prefix_fresh[OF ur None path cap_def snaps_def, of now, unfolded if_P[OF True]] assms(1)
        by (auto simp: ledger_ok_def ledger_core_def ledger_counts_def)
    next
      case False
      show ?thesis by (rule granted[OF pin_prefix_grants[OF assms None path snaps_def cap_def False]])
    qed
  qed
qed

definition demo_ledger :: pin_ledger where
  "demo_ledger = \<lparr>pin_prefix_min_tokens = 2, pin_prefix_max_tokens = 10, pin_prefix_max_slots = 2, pin_working_set_slots = 0,
     pin_prefix_scope = ''shared'', pins = [], pin_locked = [], pin_counts = zero_prefix_counters\<rparr>"

lemma demo_ledger_ok: "ledger_ok (\<lambda>_. 0) 2 demo_hybrid demo_ledger"
proof -
  have "with_locks (\<lambda>_. 0) {} = (\<lambda>_. 0)" by (simp add: with_locks_def fun_eq_iff)
  then show ?thesis using demo_hybrid_inv
    by (simp add: ledger_ok_def ledger_core_def ledger_counts_def demo_ledger_def zero_prefix_counters_def covered_tokens_def covered_by_def)
qed

theorem pin_prefix_within_budget_witness:
  "\<exists>h' p' ok. pin_prefix 9 2 2 demo_hybrid demo_ledger = Inr (h', p', ok) \<and> ledger_ok (\<lambda>_. 0) 2 h' p' \<and>
     map_sum id (\<lambda>(h, p, ok). (ok, pinned_prefixes (pin_counts p), pinned_tokens (pin_counts p), pinned_slots (pin_counts p)))
       (pin_prefix 9 2 2 demo_hybrid demo_ledger) = Inr (True, 1, 4, 2)"
proof -
  have "map_sum id (\<lambda>(h, p, ok). (ok, pinned_prefixes (pin_counts p), pinned_tokens (pin_counts p), pinned_slots (pin_counts p)))
       (pin_prefix 9 2 2 demo_hybrid demo_ledger) = Inr (True, 1, 4, 2)" by code_simp
  moreover have "2 \<in> set (uuids (kids (hroot demo_hybrid)))" by (simp add: demo_hybrid_def)
  ultimately show ?thesis using pin_prefix_within_budget[OF demo_ledger_ok, of 2 9] by blast
qed

end
