(* ===== verification/Linear_State_Pool.thy ===== *)
theory Linear_State_Pool
  imports Prelude
begin

text \<open>
  The recurrent-state slot pool \<^verbatim>\<open>LinearStatePool\<close> of \<^verbatim>\<open>kvcache/linear_state_pool.py\<close>, its byte estimate and the sizing
  helpers of the same file. The item size of the recurrent state's dtype, which the code reads from the
  environment, is the argument \<open>ssm\<close>.
\<close>

section \<open>Geometry\<close>

text \<open>The fields of \<^verbatim>\<open>LinearGatedDeltaGroupConfig\<close> the pool reads, and \<^verbatim>\<open>SlotStateSpec\<close>. A dtype is its item
  size; \<open>None\<close> stands for the pool's compute dtype.\<close>

record lin_group =
  layer_ids :: "nat list"
  num_key_heads :: int
  num_value_heads :: int
  key_head_dim :: int
  value_head_dim :: int
  conv_kernel_dim :: int
  mamba2 :: bool

record 'v slot_spec =
  spec_name :: string
  spec_shape :: "int list"
  spec_layers :: "nat list"
  spec_item :: "int option"
  fill_value :: 'v

definition linear_local_dims :: "lin_group \<Rightarrow> int \<Rightarrow> (int \<times> int \<times> int) result" where
  "linear_local_dims g tp =
     rbind (div_even (num_key_heads g) tp True) (\<lambda>local_k_heads.
     rbind (div_even (num_value_heads g) tp True) (\<lambda>local_v_heads.
       Inr (int (length (layer_ids g)),
            if mamba2 g then local_v_heads * key_head_dim g + 2 * local_k_heads * value_head_dim g
            else 2 * local_k_heads * key_head_dim g + local_v_heads * value_head_dim g,
            local_v_heads)))"

definition spec_rows :: "'v slot_spec \<Rightarrow> nat" where
  "spec_rows spec = max 1 (length (spec_layers spec))"

definition item_of :: "int \<Rightarrow> 'v slot_spec \<Rightarrow> int" where
  "item_of dtype spec = (case spec_item spec of None \<Rightarrow> dtype | Some i \<Rightarrow> i)"

definition linear_state_bytes_per_req :: "lin_group \<Rightarrow> int \<Rightarrow> int \<Rightarrow> int \<Rightarrow> 'v slot_spec list \<Rightarrow> int result" where
  "linear_state_bytes_per_req g tp dtype ssm slot_states =
     rbind (linear_local_dims g tp) (\<lambda>(n_layers, local_conv_dim, local_v_heads).
       let conv_elems = local_conv_dim * (conv_kernel_dim g - 1);
           rec_elems = local_v_heads * key_head_dim g * value_head_dim g;
           conv_bytes = conv_elems * dtype;
           rec_bytes = rec_elems * ssm
       in Inr (fold (\<lambda>spec total. total + int (spec_rows spec) * prod_list (spec_shape spec) * item_of dtype spec)
                 slot_states (n_layers * (conv_bytes + rec_bytes))))"

section \<open>The pool\<close>

text \<open>
  \<^verbatim>\<open>LinearStatePool\<close>. A state tensor is a list over its first axis (the layers) of lists over the
  second one (the slots); what a slot holds for a layer is an opaque value. The shapes past
  those two axes only count in \<^verbatim>\<open>bytes_per_slot\<close>.
\<close>

type_synonym 'v tensor2 = "'v list list"

record 'v pool =
  pool_group :: lin_group
  num_slots :: nat
  conv_dtype :: int
  rec_dtype :: int
  conv_tail :: "int \<times> int"
  rec_tail :: "int \<times> int \<times> int"
  conv_states :: "'v tensor2"
  recurrent_states :: "'v tensor2"
  slot_specs :: "'v slot_spec list"
  slot_states :: "(string \<times> 'v tensor2) list"
  pool_free :: "nat list"

definition alloc_slot_states :: "'v slot_spec list \<Rightarrow> nat \<Rightarrow> (string \<times> 'v tensor2) list" where
  "alloc_slot_states specs n =
     map (\<lambda>spec. (spec_name spec, replicate (spec_rows spec) (replicate n (fill_value spec)))) specs"

definition pool_init ::
  "lin_group \<Rightarrow> nat \<Rightarrow> int \<Rightarrow> int \<Rightarrow> int \<Rightarrow> 'v slot_spec list \<Rightarrow> ('v::zero) pool result" where
  "pool_init g n dtype ssm tp specs =
     rbind (linear_local_dims g tp) (\<lambda>(n_layers, local_conv_dim, local_v_heads).
       if local_conv_dim < 0 \<or> conv_kernel_dim g - 1 < 0 then Inl RuntimeError
       else if local_v_heads < 0 \<or> key_head_dim g < 0 \<or> value_head_dim g < 0 then Inl RuntimeError
       else if \<not> distinct (map spec_name specs) then Inl ValueError
       else if \<exists>spec \<in> set specs. \<exists>d \<in> set (spec_shape spec). d < 0 then Inl RuntimeError
       else Inr \<lparr>pool_group = g, num_slots = n, conv_dtype = dtype, rec_dtype = ssm,
          conv_tail = (local_conv_dim, conv_kernel_dim g - 1),
          rec_tail = (local_v_heads, key_head_dim g, value_head_dim g),
          conv_states = replicate (nat n_layers) (replicate n 0),
          recurrent_states = replicate (nat n_layers) (replicate n 0),
          slot_specs = specs, slot_states = alloc_slot_states specs n, pool_free = [1..<n]\<rparr>)"

definition num_free_slots :: "'v pool \<Rightarrow> nat" where
  "num_free_slots p = length (pool_free p)"

text \<open>\<^verbatim>\<open>alloc\<close> pops from the end of the list, \<^verbatim>\<open>free\<close> extends it.\<close>

definition pool_alloc :: "nat \<Rightarrow> 'v pool \<Rightarrow> ('v pool \<times> nat list) result" where
  "pool_alloc n p =
     (if n > length (pool_free p) then Inl RuntimeError
      else Inr (p\<lparr>pool_free := take (length (pool_free p) - n) (pool_free p)\<rparr>,
                rev (drop (length (pool_free p) - n) (pool_free p))))"

definition pool_release :: "nat list \<Rightarrow> 'v pool \<Rightarrow> 'v pool" where
  "pool_release slots p = p\<lparr>pool_free := pool_free p @ slots\<rparr>"

definition reclaim_all_slots :: "'v pool \<Rightarrow> 'v pool" where
  "reclaim_all_slots p = p\<lparr>pool_free := [1..<num_slots p]\<rparr>"

definition pool_rebuild :: "nat \<Rightarrow> ('v::zero) pool \<Rightarrow> 'v pool" where
  "pool_rebuild n p = p\<lparr>conv_states := map (\<lambda>_. replicate n 0) (conv_states p),
      recurrent_states := map (\<lambda>_. replicate n 0) (recurrent_states p),
      slot_states := alloc_slot_states (slot_specs p) n, num_slots := n, pool_free := [1..<n]\<rparr>"

definition occupied_slots :: "'v pool \<Rightarrow> nat set" where
  "occupied_slots p = set [1..<num_slots p] - set (pool_free p)"

text \<open>Writes at slots, over every layer. A slot outside the tensor raises.\<close>

definition set_slots :: "nat list \<Rightarrow> 'v \<Rightarrow> 'v tensor2 \<Rightarrow> 'v tensor2" where
  "set_slots slots x t = map (\<lambda>row. fold (\<lambda>s r. r[s := x]) slots row) t"

definition copy_slot :: "nat \<Rightarrow> nat \<Rightarrow> 'v tensor2 \<Rightarrow> 'v tensor2" where
  "copy_slot src dst t = map (\<lambda>row. row[dst := row ! src]) t"

definition clear_slots :: "nat list \<Rightarrow> ('v::zero) pool \<Rightarrow> 'v pool result" where
  "clear_slots slots p =
     (if \<exists>s \<in> set slots. num_slots p \<le> s then Inl IndexError
      else Inr (p\<lparr>conv_states := set_slots slots 0 (conv_states p),
                  recurrent_states := set_slots slots 0 (recurrent_states p),
                  slot_states := map (\<lambda>(spec, name, t). (name, set_slots slots (fill_value spec) t))
                                   (zip (slot_specs p) (slot_states p))\<rparr>))"

definition pool_reset :: "nat \<Rightarrow> ('v::zero) pool \<Rightarrow> 'v pool result" where
  "pool_reset table_idx p = clear_slots [table_idx] p"

definition copy_from :: "nat \<Rightarrow> nat \<Rightarrow> 'v pool \<Rightarrow> 'v pool result" where
  "copy_from src dst p =
     (if num_slots p \<le> src \<or> num_slots p \<le> dst then Inl IndexError
      else Inr (p\<lparr>conv_states := copy_slot src dst (conv_states p),
                  recurrent_states := copy_slot src dst (recurrent_states p),
                  slot_states := map (\<lambda>(name, t). (name, copy_slot src dst t)) (slot_states p)\<rparr>))"

text \<open>Accessors; \<^verbatim>\<open>_local_index\<close> keeps the last position of a repeated layer id.\<close>

definition local_index :: "'v pool \<Rightarrow> nat \<Rightarrow> nat option" where
  "local_index p layer = map_of (rev (zip (layer_ids (pool_group p)) [0..<length (layer_ids (pool_group p))])) layer"

definition is_linear_layer :: "'v pool \<Rightarrow> nat \<Rightarrow> bool" where
  "is_linear_layer p layer \<longleftrightarrow> local_index p layer \<noteq> None"

definition num_linear_layers :: "'v pool \<Rightarrow> nat" where
  "num_linear_layers p = card (set (layer_ids (pool_group p)))"

definition row_at :: "'v tensor2 \<Rightarrow> nat \<Rightarrow> nat \<Rightarrow> 'v result" where
  "row_at t i slot = rbind (py_nth t i) (\<lambda>row. py_nth row slot)"

definition conv_state :: "'v pool \<Rightarrow> nat \<Rightarrow> nat \<Rightarrow> 'v result" where
  "conv_state p layer slot =
     (case local_index p layer of None \<Rightarrow> Inl KeyError | Some i \<Rightarrow> row_at (conv_states p) i slot)"

definition recurrent_state :: "'v pool \<Rightarrow> nat \<Rightarrow> nat \<Rightarrow> 'v result" where
  "recurrent_state p layer slot =
     (case local_index p layer of None \<Rightarrow> Inl KeyError | Some i \<Rightarrow> row_at (recurrent_states p) i slot)"

definition has_slot_state :: "'v pool \<Rightarrow> string \<Rightarrow> bool" where
  "has_slot_state p name \<longleftrightarrow> map_of (slot_states p) name \<noteq> None"

definition slot_state :: "'v pool \<Rightarrow> string \<Rightarrow> nat option \<Rightarrow> 'v list result" where
  "slot_state p name layer =
     (case map_of (slot_states p) name of
        None \<Rightarrow> Inl KeyError
      | Some t \<Rightarrow>
          (case map_of (map (\<lambda>s. (spec_name s, spec_layers s)) (slot_specs p)) name of
             None \<Rightarrow> Inl KeyError
           | Some ls \<Rightarrow>
               (case layer of
                  None \<Rightarrow> py_assert (ls = []) (py_nth t 0)
                | Some l \<Rightarrow> (case map_of (rev (zip ls [0..<length ls])) l of None \<Rightarrow> Inl KeyError
                              | Some i \<Rightarrow> py_nth t i))))"

definition bytes_per_slot :: "'v pool \<Rightarrow> int result" where
  "bytes_per_slot p =
     (if num_slots p = 0 then Inl IndexError
      else let per = int (length (conv_states p)) * fst (conv_tail p) * snd (conv_tail p) * conv_dtype p
             + int (length (recurrent_states p)) * fst (rec_tail p) * fst (snd (rec_tail p)) * snd (snd (rec_tail p)) * rec_dtype p
           in Inr (fold (\<lambda>(spec, name, t) per. per + int (length t) * prod_list (spec_shape spec) * item_of (conv_dtype p) spec)
                (zip (slot_specs p) (slot_states p)) per))"

section \<open>How many slots\<close>

text \<open>The fields of the engine configuration read here. \<open>cache_slots\<close> is
  \<^verbatim>\<open>int(config.linear_state_cache_ratio * config.max_running_req)\<close>, the one floating-point value.\<close>

record lin_config =
  max_running_req :: int
  linear_state_slots_override :: "int option"
  hybrid_radix :: bool
  cache_slots :: int

definition linear_pool_num_slots :: "lin_config \<Rightarrow> int result" where
  "linear_pool_num_slots config =
     (let mr = max_running_req config in
      case linear_state_slots_override config of
        Some override \<Rightarrow>
          let minimum = (if \<not> hybrid_radix config then mr + 1 else 4 * mr + 1)
          in if override < minimum then Inl ValueError else Inr override
      | None \<Rightarrow>
          if \<not> hybrid_radix config then Inr (mr + 1)
          else let n_cache = max 4 (cache_slots config) in Inr (4 * mr + n_cache + 1))"

definition linear_pool_min_slots :: "lin_config \<Rightarrow> int" where
  "linear_pool_min_slots config =
     (let mr = max_running_req config in if \<not> hybrid_radix config then mr + 1 else 4 * mr + 1)"

definition state_pool_bytes ::
  "lin_config \<Rightarrow> lin_group option \<Rightarrow> int \<Rightarrow> int \<Rightarrow> int \<Rightarrow> 'v slot_spec list \<Rightarrow> int option \<Rightarrow> int result" where
  "state_pool_bytes config linear_group tp dtype ssm specs n =
     (case linear_group of
        None \<Rightarrow> if specs \<noteq> [] then Inl ValueError else Inr 0
      | Some g \<Rightarrow>
          rbind (case n of Some k \<Rightarrow> Inr k | None \<Rightarrow> linear_pool_num_slots config) (\<lambda>slots.
          rbind (linear_state_bytes_per_req g tp dtype ssm specs) (\<lambda>per_req. Inr (per_req * slots))))"

section \<open>Lemmas\<close>

lemma pool_init_shape:
  assumes "pool_init g n dtype ssm tp specs = Inr p"
  obtains n_layers local_conv_dim local_v_heads where
    "linear_local_dims g tp = Inr (n_layers, local_conv_dim, local_v_heads)" "n_layers = int (length (layer_ids g))"
    "pool_group p = g" "num_slots p = n" "conv_dtype p = dtype" "rec_dtype p = ssm"
    "conv_tail p = (local_conv_dim, conv_kernel_dim g - 1)" "rec_tail p = (local_v_heads, key_head_dim g, value_head_dim g)"
    "conv_states p = replicate (length (layer_ids g)) (replicate n 0)" "recurrent_states p = replicate (length (layer_ids g)) (replicate n 0)"
    "slot_specs p = specs" "slot_states p = alloc_slot_states specs n" "pool_free p = [1..<n]" "distinct (map spec_name specs)"
proof -
  obtain a b c where l: "linear_local_dims g tp = Inr (a, b, c)"
    using assms by (auto simp: pool_init_def rbind_eq_Inr)
  moreover have "a = int (length (layer_ids g))" using l by (auto simp: linear_local_dims_def rbind_eq_Inr)
  ultimately show thesis using assms that[of a b c] by (auto simp: pool_init_def split: if_splits)
qed

lemma fold_add: "fold (\<lambda>x a. a + f x) xs (b::int) = b + sum_list (map f xs)"
  by (induction xs arbitrary: b) auto

lemma bytes_agree:
  assumes i: "pool_init g n dtype ssm tp specs = Inr p" and n: "0 < n"
  shows "bytes_per_slot p = linear_state_bytes_per_req g tp dtype ssm specs"
proof -
  obtain a b c where P: "linear_local_dims g tp = Inr (a, b, c)" "a = int (length (layer_ids g))" "num_slots p = n"
    "conv_dtype p = dtype" "rec_dtype p = ssm" "conv_tail p = (b, conv_kernel_dim g - 1)" "rec_tail p = (c, key_head_dim g, value_head_dim g)"
    "conv_states p = replicate (length (layer_ids g)) (replicate n 0)" "recurrent_states p = replicate (length (layer_ids g)) (replicate n 0)"
    "slot_specs p = specs" "slot_states p = alloc_slot_states specs n"
    by (rule pool_init_shape[OF i])
  have z: "fold (\<lambda>(spec, name, t) per. per + int (length t) * prod_list (spec_shape spec) * item_of dtype spec)
      (zip xs (alloc_slot_states xs n)) per =
    fold (\<lambda>spec total. total + int (spec_rows spec) * prod_list (spec_shape spec) * item_of dtype spec) xs per" for xs per
    by (induction xs arbitrary: per) (simp_all add: alloc_slot_states_def)
  have per: "a * b * (conv_kernel_dim g - 1) * dtype + a * c * key_head_dim g * value_head_dim g * ssm =
      a * (b * (conv_kernel_dim g - 1) * dtype + c * key_head_dim g * value_head_dim g * ssm)" by (simp add: algebra_simps)
  show ?thesis using n P per by (simp add: bytes_per_slot_def linear_state_bytes_per_req_def z Let_def)
qed

text \<open>The slots of a pool: free ones and those handed out.\<close>

definition pool_ok :: "'v pool \<times> nat list \<Rightarrow> bool" where
  "pool_ok = (\<lambda>(p, held). mset (pool_free p) + mset held = mset [1..<num_slots p])"

lemma pool_ok_distinct:
  assumes "pool_ok (p, held)"
  shows "distinct (pool_free p @ held)" "set (pool_free p) \<union> set held = {1..<num_slots p}" "occupied_slots p = set held"
proof -
  have m: "mset (pool_free p @ held) = mset [1..<num_slots p]" using assms by (simp add: pool_ok_def)
  show d: "distinct (pool_free p @ held)" using mset_eq_imp_distinct_iff[OF m] by simp
  show s: "set (pool_free p) \<union> set held = {1..<num_slots p}" using mset_eq_setD[OF m] by auto
  show "occupied_slots p = set held" using d s by (auto simp: occupied_slots_def)
qed

inductive pool_step :: "('v::zero) pool \<times> nat list \<Rightarrow> 'v pool \<times> nat list \<Rightarrow> bool" where
  alloc: "pool_alloc n p = Inr (p', slots) \<Longrightarrow> pool_step (p, held) (p', held @ slots)"
| release: "mset slots \<subseteq># mset held \<Longrightarrow> mset held' = mset held - mset slots \<Longrightarrow>
    pool_step (p, held) (pool_release slots p, held')"
| clear: "clear_slots slots p = Inr p' \<Longrightarrow> pool_step (p, held) (p', held)"
| copy: "copy_from src dst p = Inr p' \<Longrightarrow> pool_step (p, held) (p', held)"
| reclaim: "held = [] \<Longrightarrow> pool_step (p, held) (reclaim_all_slots p, [])"
| rebuild: "held = [] \<Longrightarrow> pool_step (p, held) (pool_rebuild n p, [])"

lemma pool_alloc_ok:
  assumes "pool_alloc n p = Inr (p', slots)"
  shows "mset (pool_free p) = mset (pool_free p') + mset slots" "length slots = n" "num_slots p' = num_slots p"
proof -
  have n: "n \<le> length (pool_free p)" and p': "p' = p\<lparr>pool_free := take (length (pool_free p) - n) (pool_free p)\<rparr>"
    and s: "slots = rev (drop (length (pool_free p) - n) (pool_free p))"
    using assms by (auto simp: pool_alloc_def split: if_splits)
  show "mset (pool_free p) = mset (pool_free p') + mset slots" unfolding p' s
    by (simp flip: mset_append)
  show "length slots = n" "num_slots p' = num_slots p" using n by (simp_all add: s p')
qed

lemma pool_step_ok: "pool_step x y \<Longrightarrow> pool_ok x \<Longrightarrow> pool_ok y"
proof (induction rule: pool_step.induct)
  case (alloc n p p' slots held)
  then show ?case using pool_alloc_ok[OF alloc(1)] by (simp add: pool_ok_def ac_simps)
next
  case (release slots held held' p)
  then show ?case by (simp add: pool_ok_def pool_release_def add.assoc)
qed (auto simp: pool_ok_def clear_slots_def copy_from_def reclaim_all_slots_def pool_rebuild_def split: if_splits)

lemma pool_reachable: "pool_step\<^sup>*\<^sup>* x y \<Longrightarrow> pool_ok x \<Longrightarrow> pool_ok y"
  by (induction rule: rtranclp_induct) (auto intro: pool_step_ok)


lemma set_slots_nth:
  assumes "i < length t" "j < length (t ! i)"
  shows "set_slots slots x t ! i ! j = (if j \<in> set slots then x else t ! i ! j)"
proof -
  have l: "length (fold (\<lambda>s r. r[s := x]) ss row) = length row" for ss row by (induction ss arbitrary: row) auto
  have "fold (\<lambda>s r. r[s := x]) ss row ! j = (if j \<in> set ss then x else row ! j)" if "j < length row" for ss row
    using that by (induction ss arbitrary: row) (auto simp: nth_list_update)
  then show ?thesis using assms by (simp add: set_slots_def)
qed

lemma copy_slot_nth:
  "i < length t \<Longrightarrow> j < length (t ! i) \<Longrightarrow> copy_slot src dst t ! i ! j = (if j = dst then t ! i ! src else t ! i ! j)"
  by (simp add: copy_slot_def nth_list_update)

text \<open>Every tensor has one column per slot, and the extra ones follow their specifications.\<close>

definition pool_shape :: "'v pool \<Rightarrow> bool" where
  "pool_shape p \<longleftrightarrow> (\<forall>row \<in> set (conv_states p) \<union> set (recurrent_states p). length row = num_slots p) \<and>
     map fst (slot_states p) = map spec_name (slot_specs p) \<and>
     (\<forall>(name, t) \<in> set (slot_states p). \<forall>row \<in> set t. length row = num_slots p)"

lemma pool_shape_init: "pool_init g n dtype ssm tp specs = Inr p \<Longrightarrow> pool_shape p"
  by (erule pool_init_shape) (auto simp: pool_shape_def alloc_slot_states_def)

lemma length_set_slots: "row' \<in> set (set_slots slots x t) \<Longrightarrow> (\<And>row. row \<in> set t \<Longrightarrow> length row = n) \<Longrightarrow> length row' = n"
proof -
  have l: "length (fold (\<lambda>s r. r[s := x]) ss row) = length row" for ss row by (induction ss arbitrary: row) auto
  assume "row' \<in> set (set_slots slots x t)" "\<And>row. row \<in> set t \<Longrightarrow> length row = n"
  then show "length row' = n" by (auto simp: set_slots_def l)
qed

lemma length_copy_slot: "row' \<in> set (copy_slot a b t) \<Longrightarrow> (\<And>row. row \<in> set t \<Longrightarrow> length row = n) \<Longrightarrow> length row' = n"
  by (auto simp: copy_slot_def)

section \<open>Properties\<close>

text \<open>C21: The byte estimate \<^verbatim>\<open>linear_state_bytes_per_req\<close>, computed from the configuration alone, equals what
  \<^verbatim>\<open>bytes_per_slot\<close> measures on the tensors of a pool built from that configuration, extra slot
  states included.\<close>

theorem state_bytes_estimate_exact:
  assumes "pool_init g n dtype ssm tp specs = Inr p" "0 < n"
  shows "\<exists>b. bytes_per_slot p = Inr b \<and> linear_state_bytes_per_req g tp dtype ssm specs = Inr b \<and>
     state_pool_bytes config (Some g) tp dtype ssm specs (Some (int n)) = Inr (b * int n)"
proof -
  obtain b where "bytes_per_slot p = Inr b"
    using assms by (elim pool_init_shape) (simp add: bytes_per_slot_def Let_def)
  then show ?thesis using bytes_agree[OF assms] by (simp add: state_pool_bytes_def)
qed

definition demo_group :: lin_group where
  "demo_group = \<lparr>layer_ids = [0, 2, 4], num_key_heads = 4, num_value_heads = 8, key_head_dim = 16, value_head_dim = 32,
     conv_kernel_dim = 4, mamba2 = False\<rparr>"

definition demo_pool :: "int pool" where
  "demo_pool = (case pool_init demo_group 5 2 4 2 [\<lparr>spec_name = ''tail'', spec_shape = [2, 3], spec_layers = [1],
      spec_item = None, fill_value = 7\<rparr>] of Inr p \<Rightarrow> p | Inl _ \<Rightarrow> undefined)"

lemma demo_pool_init: "pool_init demo_group 5 2 4 2 [\<lparr>spec_name = ''tail'', spec_shape = [2, 3], spec_layers = [1],
      spec_item = None, fill_value = 7\<rparr>] = Inr demo_pool"
  by (simp add: demo_pool_def pool_init_def linear_local_dims_def div_even_def demo_group_def)

theorem state_bytes_estimate_exact_witness:
  "bytes_per_slot demo_pool = Inr 28044 \<and> linear_state_bytes_per_req demo_group 2 2 4 [\<lparr>spec_name = ''tail'', spec_shape = [2, 3],
     spec_layers = [1], spec_item = None, fill_value = (7 :: int)\<rparr>] = Inr 28044"
proof -
  have "linear_state_bytes_per_req demo_group 2 2 4 [\<lparr>spec_name = ''tail'', spec_shape = [2, 3],
     spec_layers = [1], spec_item = None, fill_value = (7 :: int)\<rparr>] = Inr 28044" by code_simp
  then show ?thesis using state_bytes_estimate_exact[OF demo_pool_init] by auto
qed

text \<open>C20: Slots are conserved: whatever sequence of allocations, releases of held slots, clears, copies and idle
  rebuilds runs on a new pool, the free slots and the held ones are together the slots 1 to \<open>n - 1\<close>, each once
  (slot 0 is never handed out), \<^verbatim>\<open>occupied_slots\<close> are the held ones, and \<^verbatim>\<open>alloc\<close> succeeds exactly when enough
  slots are free, with slots nobody holds.\<close>

theorem slots_never_handed_out_twice:
  assumes "pool_init g n dtype ssm tp specs = Inr p0" "pool_step\<^sup>*\<^sup>* (p0, []) (p, held)"
  shows "distinct (pool_free p @ held) \<and> set (pool_free p) \<union> set held = {1..<num_slots p} \<and> occupied_slots p = set held \<and>
     (if k \<le> num_free_slots p
      then \<exists>p' slots. pool_alloc k p = Inr (p', slots) \<and> length slots = k \<and> distinct slots \<and> 0 \<notin> set slots \<and> set slots \<inter> set held = {}
      else pool_alloc k p = Inl RuntimeError)"
proof -
  have "pool_ok (p0, [])" using assms(1) by (elim pool_init_shape) (simp add: pool_ok_def)
  from pool_reachable[OF assms(2) this] have ok: "pool_ok (p, held)" .
  note D = pool_ok_distinct[OF ok]
  have "\<exists>p' slots. pool_alloc k p = Inr (p', slots) \<and> length slots = k \<and> distinct slots \<and> 0 \<notin> set slots \<and> set slots \<inter> set held = {}"
    if kf: "k \<le> num_free_slots p"
  proof -
    obtain p' slots where a: "pool_alloc k p = Inr (p', slots)" using kf by (simp add: pool_alloc_def num_free_slots_def)
    note A = pool_alloc_ok[OF a]
    have sub: "mset slots \<subseteq># mset (pool_free p)" using A(1) by simp
    have "set slots \<subseteq> set (pool_free p)" using set_mset_mono[OF sub] by simp
    moreover have "distinct slots" using D(1) mset_eq_imp_distinct_iff[of "pool_free p" "pool_free p' @ slots"] A(1) by simp
    moreover have "0 \<notin> set (pool_free p)" using D(2) by (metis UnI1 atLeastLessThan_iff not_one_le_zero)
    ultimately show ?thesis using a A(2) D(1) by (intro exI[of _ p'] exI[of _ slots]) auto
  qed
  then show ?thesis using D by (simp add: pool_alloc_def num_free_slots_def)
qed

theorem slots_never_handed_out_twice_witness:
  "\<exists>p held. pool_step\<^sup>*\<^sup>* (demo_pool, []) (p, held) \<and> held = [4, 3] \<and> occupied_slots p = {3, 4}"
proof -
  obtain p where "pool_alloc 2 demo_pool = Inr (p, [4, 3])"
    using demo_pool_init by (elim pool_init_shape) (simp add: pool_alloc_def upt_rec)
  then have s: "pool_step\<^sup>*\<^sup>* (demo_pool, []) (p, [] @ [4, 3])" by (intro r_into_rtranclp pool_step.alloc)
  show ?thesis using slots_never_handed_out_twice[OF demo_pool_init s, of 0] s by auto
qed

text \<open>The slot count the engine chooses never falls below the working-set floor under which a full batch
  could not be served; an override below the floor is refused, and only that.\<close>

theorem pool_slots_cover_working_set:
  "case linear_pool_num_slots config of
     Inr n \<Rightarrow> linear_pool_min_slots config \<le> n
   | Inl e \<Rightarrow> e = ValueError \<and> (\<exists>k. linear_state_slots_override config = Some k \<and> k < linear_pool_min_slots config)"
  by (auto simp: linear_pool_num_slots_def linear_pool_min_slots_def Let_def split: option.splits)

text \<open>All state tensors of a pool, and the value a fresh slot has in each.\<close>

definition tensors :: "'v pool \<Rightarrow> 'v tensor2 list" where
  "tensors p = conv_states p # recurrent_states p # map snd (slot_states p)"

definition fills :: "('v::zero) pool \<Rightarrow> 'v list" where
  "fills p = 0 # 0 # map fill_value (slot_specs p)"

lemma pool_shape_tensors:
  "pool_shape p \<Longrightarrow> length (tensors p) = length (fills p) \<and> (\<forall>t \<in> set (tensors p). \<forall>row \<in> set t. length row = num_slots p)"
  by (auto simp: pool_shape_def tensors_def fills_def dest: map_eq_imp_length_eq)

text \<open>A restore copies a snapshot whole and touches nothing else: after \<^verbatim>\<open>copy_from(src, dst)\<close> the
  destination slot holds, in the convolution, recurrent and every extra state tensor and for every layer, what the source holds, and
  all other slots are unchanged; after \<^verbatim>\<open>clear_slots\<close> the cleared slots hold each tensor's fill
  value and all other slots are unchanged. Both fail exactly on a slot outside the pool.\<close>

theorem slot_copy_isolated:
  assumes "pool_shape p"
  shows "(if src < num_slots p \<and> dst < num_slots p
      then \<exists>p'. copy_from src dst p = Inr p' \<and> pool_shape p' \<and> pool_free p' = pool_free p \<and> num_slots p' = num_slots p \<and>
        (\<forall>i < length (tensors p). \<forall>r < length (tensors p ! i). \<forall>j < num_slots p.
           tensors p' ! i ! r ! j = tensors p ! i ! r ! (if j = dst then src else j))
      else copy_from src dst p = Inl IndexError) \<and>
     (if \<forall>s \<in> set slots. s < num_slots p
      then \<exists>p'. clear_slots slots p = Inr p' \<and> pool_shape p' \<and> pool_free p' = pool_free p \<and> num_slots p' = num_slots p \<and>
        (\<forall>i < length (tensors p). \<forall>r < length (tensors p ! i). \<forall>j < num_slots p.
           tensors p' ! i ! r ! j = (if j \<in> set slots then fills p ! i else tensors p ! i ! r ! j))
      else clear_slots slots p = Inl IndexError)"
proof -
  note T = pool_shape_tensors[OF assms]
  have len: "length (tensors p ! i ! r) = num_slots p" if "i < length (tensors p)" "r < length (tensors p ! i)" for i r
    using T that by (metis nth_mem)
  show ?thesis
  proof (intro conjI)
    define p' where "p' = p\<lparr>conv_states := copy_slot src dst (conv_states p),
                  recurrent_states := copy_slot src dst (recurrent_states p),
                  slot_states := map (\<lambda>(name, t). (name, copy_slot src dst t)) (slot_states p)\<rparr>"
    have t: "tensors p' = map (copy_slot src dst) (tensors p)" by (simp add: p'_def tensors_def case_prod_unfold)
    have "pool_shape p'" using assms unfolding pool_shape_def p'_def
      by (auto simp: comp_def case_prod_unfold dest: length_copy_slot)
    then show "if src < num_slots p \<and> dst < num_slots p
      then \<exists>p'. copy_from src dst p = Inr p' \<and> pool_shape p' \<and> pool_free p' = pool_free p \<and> num_slots p' = num_slots p \<and>
        (\<forall>i < length (tensors p). \<forall>r < length (tensors p ! i). \<forall>j < num_slots p.
           tensors p' ! i ! r ! j = tensors p ! i ! r ! (if j = dst then src else j))
      else copy_from src dst p = Inl IndexError"
      using t len by (auto simp: copy_from_def copy_slot_nth p'_def[symmetric]) (auto simp: p'_def)
  next
    define p' where "p' = p\<lparr>conv_states := set_slots slots 0 (conv_states p),
                  recurrent_states := set_slots slots 0 (recurrent_states p),
                  slot_states := map (\<lambda>(spec, name, t). (name, set_slots slots (fill_value spec) t))
                                   (zip (slot_specs p) (slot_states p))\<rparr>"
    have l: "length (slot_specs p) = length (slot_states p)" using assms by (auto simp: pool_shape_def dest: map_eq_imp_length_eq)
    have t: "tensors p' = map2 (\<lambda>x t. set_slots slots x t) (fills p) (tensors p)"
      by (simp add: p'_def tensors_def fills_def zip_map_map case_prod_unfold)
    have "map fst (slot_states p') = map spec_name (slot_specs p')"
      using assms l by (simp add: p'_def pool_shape_def case_prod_unfold comp_def zip_map2[symmetric])
        (metis (mono_tags, lifting) comp_apply length_map list.map_comp map_eq_conv map_snd_zip)
    moreover have "\<forall>(name, t) \<in> set (slot_states p'). \<forall>row \<in> set t. length row = num_slots p"
    proof -
      have old: "length row = num_slots p" if "(name, t) \<in> set (slot_states p)" "row \<in> set t" for name t row
        using assms that by (fastforce simp: pool_shape_def)
      show ?thesis by (auto simp: p'_def dest!: set_zip_rightD elim!: length_set_slots intro: old)
    qed
    ultimately have ps: "pool_shape p'" using assms unfolding pool_shape_def
      by (auto simp: p'_def dest: length_set_slots)
    show "if \<forall>s \<in> set slots. s < num_slots p
      then \<exists>p'. clear_slots slots p = Inr p' \<and> pool_shape p' \<and> pool_free p' = pool_free p \<and> num_slots p' = num_slots p \<and>
        (\<forall>i < length (tensors p). \<forall>r < length (tensors p ! i). \<forall>j < num_slots p.
           tensors p' ! i ! r ! j = (if j \<in> set slots then fills p ! i else tensors p ! i ! r ! j))
      else clear_slots slots p = Inl IndexError"
    proof -
      have c: "(\<exists>s \<in> set slots. num_slots p \<le> s) = (\<not> (\<forall>s \<in> set slots. s < num_slots p))" by (auto simp: not_less)
      show ?thesis unfolding clear_slots_def c p'_def[symmetric]
        using t len T ps by (cases "\<forall>s \<in> set slots. s < num_slots p")
          (auto simp: set_slots_nth p'_def)
    qed
  qed
qed

theorem slot_copy_isolated_witness:
  "pool_shape demo_pool \<and> (\<exists>p'. copy_from 1 2 demo_pool = Inr p' \<and> pool_shape p' \<and> pool_free p' = pool_free demo_pool)"
proof -
  have "pool_shape demo_pool" "num_slots demo_pool = 5"
    using pool_shape_init[OF demo_pool_init] by (simp, use demo_pool_init in \<open>elim pool_init_shape, simp\<close>)
  then show ?thesis using slot_copy_isolated[of demo_pool 1 2 "[]"] by auto
qed

end
