(* ===== verification/Cache_Manager.thy ===== *)
theory Cache_Manager
  imports Requests Prefix_Pins Linear_State_Pool
begin

text \<open>
  \<^verbatim>\<open>CacheManager\<close> of \<^verbatim>\<open>scheduler/cache.py\<close>, for the cache types naive, radix and hybrid_radix without
  a sliding-window pool: state, accounting, eviction and allocation of pages, the page table, locks, the commit of a
  request to a plain cache, the second currency, the slots of the state pool, the integrity check and the rebuild.
\<close>

section \<open>State\<close>

text \<open>The prefix cache of a manager: one of the three kinds whose second currency, if any, is the state pool.\<close>

datatype prefix = PNaive | PRadix radix | PHybrid hybrid

record 'v manager =
  free_slots :: "int list"
  committed_pages :: nat
  num_pages :: nat
  page_index_offset :: nat
  mpage_size :: nat
  pcache :: prefix
  linear_state_pool :: "'v pool option"
  page_table :: "int list list"
  chunk_snapshots :: bool
  mamba_donation_skips :: nat
  pin_state :: pin_ledger

fun is_hybrid :: "prefix \<Rightarrow> bool" where
  "is_hybrid (PHybrid h) = True"
| "is_hybrid _ = False"

fun evictable_size_of :: "prefix \<Rightarrow> int" where
  "evictable_size_of PNaive = fst (naive_size_info ())"
| "evictable_size_of (PRadix s) = fst (size_info s)"
| "evictable_size_of (PHybrid h) = fst (hybrid_size_info h)"

definition page_range :: "nat \<Rightarrow> nat \<Rightarrow> nat \<Rightarrow> int list" where
  "page_range ps a b = map (\<lambda>i. int i * int ps) [a..<b]"

definition manager_init ::
  "nat \<Rightarrow> nat \<Rightarrow> int list list \<Rightarrow> prefix \<Rightarrow> 'v pool option \<Rightarrow> nat option \<Rightarrow> nat \<Rightarrow> bool \<Rightarrow> pin_ledger \<Rightarrow> 'v manager" where
  "manager_init num ps table pc pool committed off snaps ledger =
     (let c = (case committed of None \<Rightarrow> num | Some k \<Rightarrow> k)
      in \<lparr>free_slots = map (\<lambda>i. int i * int ps + int off * int ps) [0..<c], committed_pages = c, num_pages = num,
          page_index_offset = off, mpage_size = ps, pcache = pc, linear_state_pool = pool, page_table = table,
          chunk_snapshots = snaps, mamba_donation_skips = 0, pin_state = ledger\<rparr>)"

section \<open>Accounting\<close>

definition prefill_chunk_align :: "'v manager \<Rightarrow> nat" where
  "prefill_chunk_align m = (if is_hybrid (pcache m) then mpage_size m else 1)"

definition page_usage :: "'v manager \<Rightarrow> int \<times> int" where
  "page_usage m =
     (let total = int (committed_pages m)
      in (total - int (length (free_slots m)) - evictable_size_of (pcache m) div int (mpage_size m), total))"

definition available_size :: "'v manager \<Rightarrow> int" where
  "available_size m =
     (let future = (int (num_pages m) - int (committed_pages m)) * int (mpage_size m)
      in evictable_size_of (pcache m) + int (length (free_slots m)) * int (mpage_size m) + future)"

definition committed_pages_required :: "req list \<Rightarrow> 'v manager \<Rightarrow> int result" where
  "committed_pages_required reqs m =
     (let ps = int (mpage_size m);
          needed_pages = sum_list (map (\<lambda>r. div_ceil (int (device_len r)) ps - div_ceil (int (req_cached_len r)) ps) reqs);
          allocatable_pages = int (length (free_slots m)) + evictable_size_of (pcache m) div ps;
          shortage = max 0 (needed_pages - allocatable_pages);
          required = int (committed_pages m) + shortage
      in if required > int (num_pages m) then Inl RuntimeError else Inr required)"

definition add_committed_pages :: "nat \<Rightarrow> 'v manager \<Rightarrow> 'v manager result" where
  "add_committed_pages new_total m =
     (if \<not> (committed_pages m < new_total \<and> new_total \<le> num_pages m) then Inl ValueError
      else Inr (m\<lparr>free_slots := free_slots m @ page_range (mpage_size m)
                     (committed_pages m + page_index_offset m) (new_total + page_index_offset m),
                  committed_pages := new_total\<rparr>))"

definition remove_committed_pages :: "nat \<Rightarrow> 'v manager \<Rightarrow> 'v manager result" where
  "remove_committed_pages new_total m =
     (if \<not> new_total < committed_pages m then Inl ValueError
      else let tail = (\<lambda>v. v div int (mpage_size m) - int (page_index_offset m) \<ge> int new_total);
               expected = committed_pages m - new_total;
               actual = length (filter tail (free_slots m))
           in if actual \<noteq> expected then Inl RuntimeError
              else Inr (m\<lparr>free_slots := filter (\<lambda>v. \<not> tail v) (free_slots m), committed_pages := new_total\<rparr>))"

section \<open>Eviction and allocation\<close>

text \<open>\<^verbatim>\<open>evict\<close> or \<^verbatim>\<open>evict_full\<close> of the cache at hand: the cache, the page indices and the snapshot slots it gives up.\<close>

fun pc_evict :: "nat \<Rightarrow> prefix \<Rightarrow> (prefix \<times> int list \<times> int list) result" where
  "pc_evict n PNaive = rbind (naive_evict n ()) (\<lambda>(_, ev). Inr (PNaive, ev, []))"
| "pc_evict n (PRadix s) = rbind (evict n s) (\<lambda>(s', ev). Inr (PRadix s', ev, []))"
| "pc_evict n (PHybrid h) = rbind (evict_full n h) (\<lambda>(h', r). Inr (PHybrid h', ev_kv_indices r, ev_mamba_slots r))"

definition release_states :: "int list \<Rightarrow> 'v manager \<Rightarrow> 'v manager result" where
  "release_states slots m =
     (if slots = [] then Inr m
      else case linear_state_pool m of
        None \<Rightarrow> Inl AttributeError
      | Some p \<Rightarrow> Inr (m\<lparr>linear_state_pool := Some (pool_release (map nat slots) p)\<rparr>))"

definition evict_to_free :: "nat \<Rightarrow> 'v manager \<Rightarrow> ('v manager \<times> nat) result" where
  "evict_to_free n m =
     rbind (pc_evict n (pcache m)) (\<lambda>(pc, evicted, slots).
     rbind (release_states slots (m\<lparr>pcache := pc\<rparr>)) (\<lambda>m1.
       Inr (m1\<lparr>free_slots := free_slots m1 @ every (mpage_size m) evicted\<rparr>, length evicted)))"

definition evict_all_unlocked_prefixes :: "'v manager \<Rightarrow> ('v manager \<times> nat) result" where
  "evict_all_unlocked_prefixes m =
     rbind (evict_to_free (nat (evictable_size_of (pcache m))) m) (\<lambda>(m1, k). Inr (m1, k div mpage_size m))"

definition allocate :: "nat \<Rightarrow> 'v manager \<Rightarrow> ('v manager \<times> int list) result" where
  "allocate needed_pages m =
     rbind (if needed_pages > length (free_slots m)
            then rbind (evict_to_free ((needed_pages - length (free_slots m)) * mpage_size m) m) (\<lambda>(m1, _).
                   py_assert (length (free_slots m1) \<ge> needed_pages) (Inr m1))
            else Inr m) (\<lambda>m1.
       Inr (m1\<lparr>free_slots := drop needed_pages (free_slots m1)\<rparr>, take needed_pages (free_slots m1)))"

definition free_pages :: "int list \<Rightarrow> 'v manager \<Rightarrow> 'v manager" where
  "free_pages indices m =
     (if indices \<noteq> [] then m\<lparr>free_slots := free_slots m @ every (mpage_size m) indices\<rparr> else m)"

text \<open>Inside \<^verbatim>\<open>lazy_free_region\<close>: the pages freed, in order, are appended when the region ends.\<close>

definition lazy_free_region :: "int list list \<Rightarrow> 'v manager \<Rightarrow> 'v manager" where
  "lazy_free_region frees m =
     m\<lparr>free_slots := free_slots m @ concat (map (\<lambda>indices. every (mpage_size m) indices) frees)\<rparr>"

section \<open>Page table\<close>

text \<open>A row, with Python's meaning of the index -1, and writes to a part of it. \<^verbatim>\<open>copy_\<close> wants equal lengths, or a source
  of one element, which it repeats.\<close>

definition row_index :: "nat option \<Rightarrow> 'v manager \<Rightarrow> nat" where
  "row_index t m = (case t of Some i \<Rightarrow> i | None \<Rightarrow> length (page_table m) - 1)"

definition row_of :: "nat option \<Rightarrow> 'v manager \<Rightarrow> int list result" where
  "row_of t m = py_nth (page_table m) (row_index t m)"

definition splice :: "nat \<Rightarrow> nat \<Rightarrow> 'a list \<Rightarrow> 'a list \<Rightarrow> 'a list" where
  "splice a b vals row = take a row @ vals @ drop b row"

definition copy_into :: "nat \<Rightarrow> nat \<Rightarrow> int list \<Rightarrow> int list \<Rightarrow> int list result" where
  "copy_into a b vals row =
     (let k = length (slice a b row) in
      if length vals = k then Inr (if k = 0 then row else splice a b vals row)
      else if length vals = 1 then Inr (if k = 0 then row else splice a b (replicate k (hd vals)) row)
      else Inl RuntimeError)"

definition set_row :: "nat option \<Rightarrow> int list \<Rightarrow> 'v manager \<Rightarrow> 'v manager" where
  "set_row t row m = m\<lparr>page_table := (page_table m)[row_index t m := row]\<rparr>"

text \<open>\<^verbatim>\<open>_write_page_table\<close>: the scatter row by row; an entry past the row or the table raises.\<close>

fun write_rows :: "nat \<Rightarrow> int list list \<Rightarrow> int list \<Rightarrow> (nat option \<times> nat \<times> nat) list \<Rightarrow> int list list result" where
  "write_rows ps table allocated [] = py_assert (allocated = []) (Inr table)"
| "write_rows ps table allocated ((t, first_page, last_page) # info) =
     (let first_pos = first_page * ps; last_pos = last_page * ps; n = last_pos - first_pos;
          i = (case t of Some i \<Rightarrow> i | None \<Rightarrow> length table - 1)
      in if length allocated < n then Inl AssertionError
         else rbind (py_nth table i) (\<lambda>row.
           if length row < last_pos then Inl IndexError
           else write_rows ps (table[i := splice first_pos last_pos (take n allocated) row]) (drop n allocated) info))"

definition write_page_table :: "int list \<Rightarrow> (nat option \<times> nat \<times> nat) list \<Rightarrow> 'v manager \<Rightarrow> 'v manager result" where
  "write_page_table allocated info m =
     rbind (write_rows (mpage_size m) (page_table m) allocated info) (\<lambda>table. Inr (m\<lparr>page_table := table\<rparr>))"

fun allocation_info :: "nat \<Rightarrow> req list \<Rightarrow> (nat option \<times> nat \<times> nat) list" where
  "allocation_info ps [] = []"
| "allocation_info ps (r # reqs) =
     (let first_page = div_ceil (req_cached_len r) ps; last_page = div_ceil (device_len r) ps
      in if last_page > first_page then (table_idx r, first_page, last_page) # allocation_info ps reqs
         else allocation_info ps reqs)"

definition allocate_paged :: "req list \<Rightarrow> 'v manager \<Rightarrow> 'v manager result" where
  "allocate_paged reqs m =
     (let info = allocation_info (mpage_size m) reqs;
          needed_pages = sum_list (map (\<lambda>(_, a, b). b - a) info)
      in if needed_pages > 0
         then rbind (allocate needed_pages m) (\<lambda>(m1, pages).
                write_page_table (page_to_token (mpage_size m) pages) info m1)
         else Inr m)"

definition free_spec_tail :: "req \<Rightarrow> nat \<Rightarrow> nat \<Rightarrow> 'v manager \<Rightarrow> 'v manager result" where
  "free_spec_tail r keep_len alloc_len m =
     (let first = div_ceil keep_len (mpage_size m) * mpage_size m; e = div_ceil alloc_len (mpage_size m) * mpage_size m
      in if e \<le> first then Inr m
         else rbind (row_of (table_idx r) m) (\<lambda>row. Inr (free_pages (slice first e row) m)))"

section \<open>Locks and requests\<close>

fun lock_prefix :: "cache_handle \<Rightarrow> bool \<Rightarrow> prefix \<Rightarrow> prefix result" where
  "lock_prefix (RadixH h) unlock (PRadix s) = rbind (lock_handle s h unlock) (\<lambda>s'. Inr (PRadix s'))"
| "lock_prefix (HybridH h) unlock (PHybrid c) =
     rbind (if unlock then dec_lock (hh_node h) c else inc_lock (hh_node h) c) (\<lambda>c'. Inr (PHybrid c'))"
| "lock_prefix (NaiveH h) unlock PNaive = rbind (naive_lock_handle () h unlock) (\<lambda>_. Inr PNaive)"
| "lock_prefix _ unlock _ = Inl TypeError"

definition lock :: "cache_handle \<Rightarrow> 'v manager \<Rightarrow> 'v manager result" where
  "lock h m = rbind (lock_prefix h False (pcache m)) (\<lambda>pc. Inr (m\<lparr>pcache := pc\<rparr>))"

definition unlock :: "cache_handle \<Rightarrow> 'v manager \<Rightarrow> 'v manager result" where
  "unlock h m = rbind (lock_prefix h True (pcache m)) (\<lambda>pc. Inr (m\<lparr>pcache := pc\<rparr>))"

fun match_prefix_of :: "int \<Rightarrow> int list \<Rightarrow> bool \<Rightarrow> prefix \<Rightarrow> (prefix \<times> cache_handle \<times> int option) result" where
  "match_prefix_of tic ids pooled PNaive = rbind (naive_match_prefix ids ()) (\<lambda>(_, h). Inr (PNaive, NaiveH h, None))"
| "match_prefix_of tic ids pooled (PRadix s) = rbind (match_prefix tic ids s) (\<lambda>(s', h). Inr (PRadix s', RadixH h, None))"
| "match_prefix_of tic ids pooled (PHybrid c) =
     rbind (hybrid_match_prefix tic ids pooled c) (\<lambda>(c', m).
       Inr (PHybrid c', HybridH \<lparr>hh_cached_len = m_cached_len m, hh_node = m_node m, hh_kv_indices = kv_indices m,
                                 hh_sumless_len = sumless_len m\<rparr>, m_mamba_value m))"

text \<open>\<^verbatim>\<open>match_req\<close> of a pending request: its ids, whether it bypasses the cache, and whether it is a pooled probe.\<close>

definition match_req ::
  "int \<Rightarrow> int list \<Rightarrow> bool \<Rightarrow> bool \<Rightarrow> 'v manager \<Rightarrow> ('v manager \<times> cache_handle \<times> int option) result" where
  "match_req tic input no_cache pool_probe m =
     py_assert (length input > 0)
       (let pooled = (\<not> no_cache \<and> pool_probe);
            bypass = (no_cache \<or> pooled \<and> \<not> is_hybrid (pcache m));
            ids = (if bypass then [] else take (length input - 1) input)
        in rbind (match_prefix_of tic ids pooled (pcache m)) (\<lambda>(pc, h, mv). Inr (m\<lparr>pcache := pc\<rparr>, h, mv)))"

definition retain_prefix :: "int \<Rightarrow> int list \<Rightarrow> nat \<Rightarrow> 'v manager \<Rightarrow> ('v manager \<times> cache_handle) result" where
  "retain_prefix tic input clen m =
     rbind (match_prefix_of tic (take clen input) False (pcache m)) (\<lambda>(pc, h, _).
       let h' = (case h of HybridH x \<Rightarrow> HybridH (x\<lparr>hh_sumless_len := 0\<rparr>) | y \<Rightarrow> y)
       in rbind (lock h' (m\<lparr>pcache := pc\<rparr>)) (\<lambda>m1. Inr (m1, h')))"

text \<open>\<^verbatim>\<open>lock_delta\<close>: the tokens of the unlocked nodes from the handle's node up to the root.\<close>

definition unlocked_above :: "nat \<Rightarrow> node \<Rightarrow> nat result" where
  "unlocked_above u root =
     rbind (path_nodes u root) (\<lambda>ns. Inr (sum_list (map nlen (filter (\<lambda>n. ref_count (attr n) = 0) ns))))"

fun lock_delta :: "cache_handle \<Rightarrow> prefix \<Rightarrow> nat result" where
  "lock_delta (RadixH h) (PRadix s) = unlocked_above (hnode h) (root_node s)"
| "lock_delta (HybridH h) (PHybrid c) = unlocked_above (hh_node h) (hroot c)"
| "lock_delta _ _ = Inr 0"

definition padded_tail :: "req \<Rightarrow> nat \<Rightarrow> 'v manager \<Rightarrow> int list result" where
  "padded_tail r start m =
     (let e = div_ceil (req_cached_len r) (mpage_size m) * mpage_size m
      in rbind (row_of (table_idx r) m) (\<lambda>row. Inr (slice start e row)))"

fun insert_prefix_of :: "int \<Rightarrow> int \<Rightarrow> int list \<Rightarrow> int list \<Rightarrow> prefix \<Rightarrow> (prefix \<times> nat \<times> cache_handle) result" where
  "insert_prefix_of tic now ids idx PNaive = rbind (naive_insert_prefix ids idx ()) (\<lambda>(_, l, h). Inr (PNaive, l, NaiveH h))"
| "insert_prefix_of tic now ids idx (PRadix s) = rbind (insert_prefix tic now ids idx s) (\<lambda>(s', l, h). Inr (PRadix s', l, RadixH h))"
| "insert_prefix_of tic now ids idx (PHybrid c) = Inl AttributeError"

fun matched_indices_of :: "prefix \<Rightarrow> cache_handle \<Rightarrow> int list result" where
  "matched_indices_of PNaive (NaiveH h) = naive_get_matched_indices () h"
| "matched_indices_of (PRadix s) (RadixH h) = get_matched_indices s h"
| "matched_indices_of _ (HybridH h) = Inr (hh_kv_indices h)"
| "matched_indices_of _ _ = Inl TypeError"

text \<open>\<^verbatim>\<open>cache_req\<close> of a manager with a plain cache: the manager and the request it leaves.\<close>

definition cache_req_plain :: "int \<Rightarrow> int \<Rightarrow> req \<Rightarrow> bool \<Rightarrow> 'v manager \<Rightarrow> ('v manager \<times> req) result" where
  "cache_req_plain tic now r finished m =
     rbind (row_of (table_idx r) m) (\<lambda>row.
     let page_indices = take (req_cached_len r) row; old_len = handle_len (req_handle r)
     in rbind (insert_prefix_of tic now (take (req_cached_len r) (input_ids r)) page_indices (pcache m)) (\<lambda>(pc, cached_len, new_handle).
        rbind (unlock (req_handle r) (m\<lparr>pcache := pc\<rparr>)) (\<lambda>m1.
        let m2 = free_pages (slice old_len cached_len page_indices) m1
        in if finished then rbind (padded_tail r (handle_len new_handle) m2) (\<lambda>tail. Inr (free_pages tail m2, r))
           else rbind (if cached_len > old_len
                       then rbind (matched_indices_of (pcache m2) new_handle) (\<lambda>canonical.
                            rbind (copy_into old_len cached_len (slice old_len cached_len canonical) row) (\<lambda>row'.
                            Inr (set_row (table_idx r) row' m2)))
                       else Inr m2) (\<lambda>m3.
                rbind (lock new_handle m3) (\<lambda>m4. Inr (m4, r\<lparr>req_handle := new_handle\<rparr>))))))"

section \<open>State slots\<close>

definition pool_of :: "'v manager \<Rightarrow> 'v pool result" where
  "pool_of m = (case linear_state_pool m of None \<Rightarrow> Inl AttributeError | Some p \<Rightarrow> Inr p)"

definition mamba_available_size :: "'v manager \<Rightarrow> int result" where
  "mamba_available_size m =
     rbind (pool_of m) (\<lambda>p. case pcache m of
       PHybrid h \<Rightarrow> Inr (int (num_free_slots p) + mamba_evictable h) | _ \<Rightarrow> Inl AttributeError)"

text \<open>The loop of \<^verbatim>\<open>ensure_mamba_slots\<close>. Each round that does not stop returns a slot to the pool, so the number of missing
  slots falls; \<open>fuel\<close> bounds the rounds by it.\<close>

fun ensure_mamba_loop :: "nat \<Rightarrow> nat \<Rightarrow> 'v manager \<Rightarrow> 'v manager result" where
  "ensure_mamba_loop 0 n m = Inr m"
| "ensure_mamba_loop (Suc fuel) n m =
     rbind (pool_of m) (\<lambda>p.
       if \<not> num_free_slots p < n then Inr m
       else case pcache m of
         PHybrid h \<Rightarrow>
           rbind (evict_mamba (n - num_free_slots p) h) (\<lambda>(h', r).
             if ev_mamba_slots r = [] then Inr (m\<lparr>pcache := PHybrid h'\<rparr>)
             else ensure_mamba_loop fuel n
               (free_pages (ev_kv_indices r)
                 (m\<lparr>pcache := PHybrid h', linear_state_pool := Some (pool_release (map nat (ev_mamba_slots r)) p)\<rparr>)))
       | _ \<Rightarrow> Inl AttributeError)"

definition ensure_mamba_slots :: "nat \<Rightarrow> 'v manager \<Rightarrow> 'v manager result" where
  "ensure_mamba_slots n m = ensure_mamba_loop (Suc n) n m"

text \<open>\<^verbatim>\<open>reserve_mamba_slots\<close>; the scheduler's \<^verbatim>\<open>mamba_reclaim_hook\<close> is a parameter: absent, or the state it leaves and
  whether it released anything.\<close>

definition reserve_mamba_slots ::
  "(nat \<Rightarrow> 'v manager \<Rightarrow> 'v manager \<times> bool) option \<Rightarrow> nat \<Rightarrow> bool \<Rightarrow> 'v manager \<Rightarrow> ('v manager \<times> bool) result" where
  "reserve_mamba_slots hook n escalate m =
     (let have_slots = (\<lambda>m. rbind (pool_of m) (\<lambda>p. Inr (num_free_slots p \<ge> n)))
      in rbind (have_slots m) (\<lambda>ok. if ok then Inr (m, True) else
         rbind (ensure_mamba_slots n m) (\<lambda>m1.
         if \<not> escalate then rbind (have_slots m1) (\<lambda>ok. Inr (m1, ok))
         else rbind (have_slots m1) (\<lambda>ok.
           rbind (case hook of
               Some f \<Rightarrow> if \<not> ok then (case f n m1 of (m2, released) \<Rightarrow> if released then ensure_mamba_slots n m2 else Inr m2) else Inr m1
             | None \<Rightarrow> Inr m1) (\<lambda>m3.
           rbind (have_slots m3) (\<lambda>ok. Inr (m3, ok)))))))"

definition acquire_mamba_slot ::
  "(nat \<Rightarrow> 'v manager \<Rightarrow> 'v manager \<times> bool) option \<Rightarrow> bool \<Rightarrow> 'v manager \<Rightarrow> ('v manager \<times> nat option) result" where
  "acquire_mamba_slot hook escalate m =
     rbind (reserve_mamba_slots hook 1 escalate m) (\<lambda>(m1, ok).
       if \<not> ok then Inr (m1, None)
       else rbind (pool_of m1) (\<lambda>p. rbind (pool_alloc 1 p) (\<lambda>(p', slots).
            rbind (py_nth slots 0) (\<lambda>s. Inr (m1\<lparr>linear_state_pool := Some p'\<rparr>, Some s)))))"

definition free_req_slots :: "req \<Rightarrow> bool \<Rightarrow> 'v manager \<Rightarrow> ('v manager \<times> req) result" where
  "free_req_slots r keep_live m =
     (let slots = (case mamba_ping_pong r of Some (a, b) \<Rightarrow> [a, b] | None \<Rightarrow> [])
           @ (case spec_scratch_slot r of Some s \<Rightarrow> [s] | None \<Rightarrow> [])
           @ (case linear_slot_idx r of Some s \<Rightarrow> if \<not> keep_live then [s] else [] | None \<Rightarrow> []);
          r' = r\<lparr>spec_scratch_slot := None, mamba_ping_pong := None, linear_slot_idx := None\<rparr>
      in if slots \<noteq> []
         then rbind (pool_of m) (\<lambda>p. Inr (m\<lparr>linear_state_pool := Some (pool_release slots p)\<rparr>, r'))
         else Inr (m, r'))"

section \<open>Integrity and rebuild\<close>

fun prefix_check :: "prefix \<Rightarrow> nat option \<Rightarrow> nat \<Rightarrow> nat \<Rightarrow> int result" where
  "prefix_check PNaive _ _ ps = Inr (total_size (naive_size_info ()) div int ps)"
| "prefix_check (PRadix s) _ _ ps = Inr (total_size (size_info s) div int ps)"
| "prefix_check (PHybrid h) pool_slots nfree ps =
     rbind (hybrid_check_integrity h) (\<lambda>_.
     case pool_slots of
       None \<Rightarrow> Inl AttributeError
     | Some n \<Rightarrow> py_assert (int nfree + (mamba_evictable h + mamba_protected h) \<le> int n - 1)
         (Inr ((evictable_size (full h) + protected_size (full h)) div int ps)))"

definition check_integrity :: "'v manager \<Rightarrow> unit result" where
  "check_integrity m =
     rbind (prefix_check (pcache m) (map_option num_slots (linear_state_pool m))
             (case linear_state_pool m of None \<Rightarrow> 0 | Some p \<Rightarrow> num_free_slots p) (mpage_size m)) (\<lambda>cache_pages.
       if int (length (free_slots m)) + cache_pages \<noteq> int (committed_pages m) then Inl RuntimeError
       else if mpage_size m > 1 then py_assert (\<forall>v \<in> set (free_slots m). v mod int (mpage_size m) = 0) (Inr ())
       else Inr ())"

text \<open>\<^verbatim>\<open>rebuild\<close>; \<open>fresh\<close> is the empty cache \<^verbatim>\<open>_make_prefix_cache\<close> builds.\<close>

definition rebuild :: "nat \<Rightarrow> int list list \<Rightarrow> prefix \<Rightarrow> 'v manager \<Rightarrow> 'v manager result" where
  "rebuild num table fresh m =
     (let m1 = m\<lparr>num_pages := num, committed_pages := num, page_index_offset := 0, page_table := table,
                 free_slots := page_range (mpage_size m) 0 num, pcache := fresh,
                 pin_state := reset_pins (pin_state m)\<rparr>
      in if is_hybrid fresh then rbind (pool_of m1) (\<lambda>p. Inr (m1\<lparr>linear_state_pool := Some (reclaim_all_slots p)\<rparr>))
         else Inr m1)"

end
