(* ===== verification/Manager_Pages.thy ===== *)
theory Manager_Pages
  imports Cache_Manager
begin

text \<open>
  The pages of a manager are conserved: the contract \<open>kv_store\<close> of a cache a manager evicts from, its
  interpretation for the three kinds of cache, the invariant \<open>manager_inv\<close>, and what allocation, resizing and the
  writes to the page table do under it.
\<close>

section \<open>What an allocator needs of a cache\<close>

text \<open>A store of whole pages that can give up unlocked ones: \<open>evictable\<close> and \<open>protected\<close> count its tokens.\<close>

locale kv_store =
  fixes inv :: "'s \<Rightarrow> bool"
    and page :: "'s \<Rightarrow> nat"
    and pages :: "'s \<Rightarrow> int list"
    and evictable :: "'s \<Rightarrow> int"
    and protected :: "'s \<Rightarrow> int"
    and evict_kv :: "nat \<Rightarrow> 's \<Rightarrow> ('s \<times> int list \<times> 'b) result"
  assumes page_pos: "inv s \<Longrightarrow> 0 < page s"
    and store_size: "inv s \<Longrightarrow> evictable s + protected s = int (page s * length (pages s)) \<and>
      0 \<le> evictable s \<and> 0 \<le> protected s \<and> int (page s) dvd evictable s"
    and evict_kv_ok: "inv s \<Longrightarrow> int n \<le> evictable s \<Longrightarrow> \<exists>s' ev x. evict_kv n s = Inr (s', ev, x) \<and> inv s' \<and>
      page s' = page s \<and> n \<le> length ev \<and> paged (page s) ev \<and> evictable s' = evictable s - int (length ev) \<and>
      protected s' = protected s \<and> mset (pages s) = mset (pages s') + mset (every (page s) ev)"
begin

text \<open>Evicting \<open>k\<close> pages' worth of tokens yields at least \<open>k\<close> pages, exactly those that left the store.\<close>

lemma evict_page_count:
  assumes "inv s" "k \<le> nat (evictable s) div page s"
  shows "\<exists>s' ev x. evict_kv (k * page s) s = Inr (s', ev, x) \<and> inv s' \<and> page s' = page s \<and> k \<le> length (every (page s) ev) \<and>
    length ev = page s * length (every (page s) ev) \<and>
    evictable s' = evictable s - int (page s * length (every (page s) ev)) \<and> protected s' = protected s \<and>
    mset (pages s) = mset (pages s') + mset (every (page s) ev)"
proof -
  note p = page_pos[OF assms(1)] and z = store_size[OF assms(1)]
  have "k * page s \<le> nat (evictable s)" using assms(2) p less_eq_div_iff_mult_less_eq by blast
  then have "int (k * page s) \<le> evictable s" using z by linarith
  then obtain s' ev x where e: "evict_kv (k * page s) s = Inr (s', ev, x)" "inv s'" "page s' = page s" "k * page s \<le> length ev"
    "paged (page s) ev" "evictable s' = evictable s - int (length ev)" "protected s' = protected s"
    "mset (pages s) = mset (pages s') + mset (every (page s) ev)"
    using evict_kv_ok[OF assms(1)] by blast
  have l: "length ev = page s * length (every (page s) ev)" using paged_length[OF p e(5)] .
  then have "k \<le> length (every (page s) ev)" using e(4) p by simp
  then show ?thesis using e(1-3) e(6-8) l by metis
qed

lemma evict_everything:
  assumes "inv s"
  shows "\<exists>s' ev x. evict_kv (nat (evictable s)) s = Inr (s', ev, x) \<and> inv s' \<and> page s' = page s \<and> evictable s' = 0 \<and>
    protected s' = protected s \<and> mset (pages s) = mset (pages s') + mset (every (page s) ev) \<and>
    length ev = page s * length (every (page s) ev)"
proof -
  note z = store_size[OF assms]
  obtain s' ev x where e: "evict_kv (nat (evictable s)) s = Inr (s', ev, x)" "inv s'" "page s' = page s" "nat (evictable s) \<le> length ev"
    "paged (page s) ev" "evictable s' = evictable s - int (length ev)" "protected s' = protected s"
    "mset (pages s) = mset (pages s') + mset (every (page s) ev)"
    using evict_kv_ok[OF assms, of "nat (evictable s)"] z by auto
  have "evictable s' = 0" using e(4,6) store_size[OF e(2)] by linarith
  then show ?thesis using e paged_length[OF page_pos[OF assms] e(5)] by blast
qed

end

subsection \<open>The three caches provide it\<close>

lemma free_node_mamba_page [simp]: "page_size (full (fst (free_node_mamba n h))) = page_size (full h)"
  by (auto simp: free_node_mamba_def Let_def split: option.splits)

lemma cascade_page: "cascade p h kv freed = Inr (q, h', kv', f) \<Longrightarrow> page_size (full h') = page_size (full h)"
proof (induction p h kv freed rule: cascade.induct)
  case (1 p h kv freed)
  from "1.prems" show ?case
    by (subst (asm) cascade.simps) (auto simp: drop_node_def split: sum.splits if_splits dest: "1.IH")
qed

lemma evict_full_loop_page:
  "evict_full_loop num h lvs kv mamba freed = Inr (h', r) \<Longrightarrow> page_size (full h') = page_size (full h)"
proof (induction num h lvs kv mamba freed rule: evict_full_loop.induct)
  case (1 num h lvs kv mamba freed)
  note unfold = "1.prems"[unfolded evict_full_loop.simps[of num h lvs kv mamba freed]]
  show ?case
  proof (cases "\<not> (freed < num \<and> lvs \<noteq> [])")
    case True
    then show ?thesis using unfold by simp
  next
    case go: False
    obtain u lvs' where pop: "heappop (stamp_of (hroot h)) lvs = (u, lvs')" by fastforce
    obtain n where n: "find_node u (hroot h) = Inr n" using unfold go pop by (auto split: sum.splits)
    show ?thesis
    proof (cases "ref_count (attr n) \<noteq> 0 \<or> \<not> is_leaf n \<or> u = uuid (hroot h)")
      case True
      then have "evict_full_loop num h lvs' kv mamba freed = Inr (h', r)" using unfold go pop n by simp
      then show ?thesis using "1.IH"(1)[OF go pop[symmetric] n True] by simp
    next
      case False
      obtain h1 sl where f: "free_node_mamba n h = (h1, sl)" by fastforce
      obtain p q h2 kv2 f2 qn where c: "parent_of u (hroot h1) = Inr p"
        "cascade p (drop_node n h1) (kv @ nvalue n) (freed + nlen n) = Inr (q, h2, kv2, f2)" "find_node q (hroot h2) = Inr qn"
        and R: "evict_full_loop num h2 (if is_leaf qn \<and> ref_count (attr qn) = 0 \<and> q \<noteq> uuid (hroot h2) then lvs' @ [q] else lvs')
          kv2 (mamba @ sl) f2 = Inr (h', r)"
        using unfold go pop n False f by (auto split: sum.splits prod.splits if_splits)
      have "page_size (full h2) = page_size (full h)"
        using cascade_page[OF c(2)] free_node_mamba_page[of n h] f by (simp add: drop_node_def)
      then show ?thesis using "1.IH"(2)[OF go pop[symmetric] n False f[symmetric] c(1,2) refl refl refl c(3) R] by simp
    qed
  qed
qed

fun prefix_inv :: "(nat \<Rightarrow> int) \<Rightarrow> nat \<Rightarrow> prefix \<Rightarrow> bool" where
  "prefix_inv lk ps PNaive \<longleftrightarrow> 0 < ps"
| "prefix_inv lk ps (PRadix s) \<longleftrightarrow> paged_inv s \<and> page_size s = ps"
| "prefix_inv lk ps (PHybrid h) \<longleftrightarrow> hybrid_inv lk h \<and> paged_inv (full h) \<and> page_size (full h) = ps"

fun prefix_pages :: "prefix \<Rightarrow> int list" where
  "prefix_pages PNaive = []"
| "prefix_pages (PRadix s) = stored_pages s"
| "prefix_pages (PHybrid h) = stored_pages (full h)"

fun protected_size_of :: "prefix \<Rightarrow> int" where
  "protected_size_of PNaive = 0"
| "protected_size_of (PRadix s) = snd (size_info s)"
| "protected_size_of (PHybrid h) = protected_size (full h)"

lemma hybrid_evict_store:
  assumes inv: "hybrid_inv lk h" "paged_inv (full h)" and n: "int n \<le> evictable_size (full h)"
  shows "\<exists>h' r. evict_full n h = Inr (h', r) \<and> hybrid_inv lk h' \<and> paged_inv (full h') \<and> page_size (full h') = page_size (full h) \<and>
    n \<le> length (ev_kv_indices r) \<and> paged (page_size (full h)) (ev_kv_indices r) \<and>
    evictable_size (full h') = evictable_size (full h) - int (length (ev_kv_indices r)) \<and>
    protected_size (full h') = protected_size (full h) \<and>
    mset (stored_pages (full h)) = mset (stored_pages (full h')) + mset (every (page_size (full h)) (ev_kv_indices r)) \<and>
    slots_held h = slots_held h' + mset (ev_mamba_slots r)"
proof -
  let ?ps = "page_size (full h)"
  obtain h' r where E: "evict_full n h = Inr (h', r)" "hybrid_inv lk h'"
     "kv_pages h = kv_pages h' + mset (ev_kv_indices r)" "slots_held h = slots_held h' + mset (ev_mamba_slots r)"
     "keeps_locked lk h h'" "mamba_protected h' = mamba_protected h"
     "evictable_size (full h') = evictable_size (full h) - int (length (ev_kv_indices r))"
     "protected_size (full h') = protected_size (full h)"
     "n \<le> length (ev_kv_indices r) \<or> evictable_size (full h') = 0"
     "0 < ?ps \<longrightarrow> node_paged ?ps (kids (hroot h)) \<longrightarrow> node_paged ?ps (kids (hroot h')) \<and> paged ?ps (ev_kv_indices r)"
    using evict_full_ok[OF inv(1), where num = n and ps = ?ps] by (elim exE conjE) (rule that)
  have pg: "page_size (full h') = ?ps" using evict_full_loop_page E(1) unfolding evict_full_def by blast
  have np: "node_paged ?ps (kids (hroot h'))" "paged ?ps (ev_kv_indices r)"
    using E(10) inv(2) paged_invD(2)[OF inv(2)] by (auto simp: paged_inv_def)
  have p': "paged_inv (full h')" using np(1) hybrid_invD(1)[OF E(2)] by (simp add: paged_inv_def pg)
  have "n \<le> length (ev_kv_indices r)" using E(7,9) n by auto
  moreover have "mset (stored_pages (full h)) = mset (stored_pages (full h')) + mset (every ?ps (ev_kv_indices r))"
    unfolding pg[symmetric] by (rule stored_pages_mset[OF p']) (use np(2) E(3) pg in simp_all)
  ultimately show ?thesis using E pg p' np(2) by blast
qed

interpretation pc: kv_store "prefix_inv lk ps" "\<lambda>_. ps" prefix_pages evictable_size_of protected_size_of pc_evict for lk ps
proof
  fix s assume s: "prefix_inv lk ps s"
  show "0 < ps" using s by (cases s) (auto simp: paged_invD(2))
  show "evictable_size_of s + protected_size_of s = int (ps * length (prefix_pages s)) \<and>
      0 \<le> evictable_size_of s \<and> 0 \<le> protected_size_of s \<and> int ps dvd evictable_size_of s"
  proof (cases s)
    case PNaive
    then show ?thesis by (simp add: naive_size_info_def)
  next
    case (PRadix x)
    then show ?thesis using s rx.size_pages[of x] rx.size_ok[of x] by auto
  next
    case (PHybrid h)
    then show ?thesis using s rx.size_pages[of "full h"] rx.size_ok[of "full h"]
      by (auto simp: hybrid_size_info_def size_info_def)
  qed
  fix n assume n: "int n \<le> evictable_size_of s"
  show "\<exists>s' ev x. pc_evict n s = Inr (s', ev, x) \<and> prefix_inv lk ps s' \<and> ps = ps \<and> n \<le> length ev \<and> paged ps ev \<and>
      evictable_size_of s' = evictable_size_of s - int (length ev) \<and> protected_size_of s' = protected_size_of s \<and>
      mset (prefix_pages s) = mset (prefix_pages s') + mset (every ps ev)"
  proof (cases s)
    case PNaive
    then show ?thesis using s n by (simp add: naive_evict_def naive_size_info_def)
  next
    case (PRadix x)
    then obtain x' ev where "evict n x = Inr (x', ev)" "paged_inv x'" "page_size x' = page_size x" "n \<le> length ev"
      "paged (page_size x) ev" "size_info x' = (fst (size_info x) - int (length ev), snd (size_info x))"
      "mset (stored_pages x) = mset (stored_pages x') + mset (every (page_size x) ev)"
      using rx.evict_ok[of x n] s n by auto
    then show ?thesis using s PRadix by auto
  next
    case (PHybrid h)
    then have "hybrid_inv lk h" "paged_inv (full h)" "page_size (full h) = ps" "int n \<le> evictable_size (full h)"
      using s n by (auto simp: hybrid_size_info_def)
    from hybrid_evict_store[OF this(1,2,4)] this(3) show ?thesis
      unfolding PHybrid by (elim exE conjE) (auto simp: hybrid_size_info_def)
  qed
qed

section \<open>The manager's invariant\<close>

text \<open>Every committed page is either free, in the prefix cache, or owned by a request.\<close>

definition manager_inv :: "(nat \<Rightarrow> int) \<Rightarrow> 'v manager \<Rightarrow> int multiset \<Rightarrow> bool" where
  "manager_inv lk m owned \<longleftrightarrow> prefix_inv lk (mpage_size m) (pcache m) \<and> committed_pages m \<le> num_pages m \<and>
     (is_hybrid (pcache m) \<longrightarrow> linear_state_pool m \<noteq> None) \<and>
     mset (free_slots m) + mset (prefix_pages (pcache m)) + owned =
       mset (page_range (mpage_size m) (page_index_offset m) (page_index_offset m + committed_pages m))"

lemma prefix_inv_pos: "prefix_inv lk ps s \<Longrightarrow> 0 < ps"
  by (rule pc.page_pos)

lemma is_hybrid_pc_evict: "pc_evict n s = Inr (s', ev, sl) \<Longrightarrow> is_hybrid s' = is_hybrid s \<and> (\<not> is_hybrid s \<longrightarrow> sl = [])"
  by (cases s) (auto simp: rbind_eq_Inr)

lemma release_states_ok:
  assumes "slots = [] \<or> linear_state_pool m \<noteq> None"
  shows "\<exists>p. release_states slots m = Inr (m\<lparr>linear_state_pool := p\<rparr>) \<and> (p = None \<longleftrightarrow> linear_state_pool m = None)"
  using assms by (auto simp: release_states_def intro: exI[of _ "linear_state_pool m"])

lemma evict_to_free_ok:
  assumes inv: "manager_inv lk m owned" and k: "k \<le> nat (evictable_size_of (pcache m)) div mpage_size m"
  shows "\<exists>m' l. evict_to_free (k * mpage_size m) m = Inr (m', l) \<and> manager_inv lk m' owned \<and>
     length (free_slots m) + k \<le> length (free_slots m') \<and> (\<exists>xs. free_slots m' = free_slots m @ xs) \<and>
     available_size m' = available_size m \<and> committed_pages m' = committed_pages m \<and> num_pages m' = num_pages m \<and>
     mpage_size m' = mpage_size m \<and> page_index_offset m' = page_index_offset m \<and> page_table m' = page_table m"
proof -
  have pi: "prefix_inv lk (mpage_size m) (pcache m)" using inv by (simp add: manager_inv_def)
  obtain s' ev sl where e: "pc_evict (k * mpage_size m) (pcache m) = Inr (s', ev, sl)" "prefix_inv lk (mpage_size m) s'"
    "k \<le> length (every (mpage_size m) ev)" "length ev = mpage_size m * length (every (mpage_size m) ev)"
    "evictable_size_of s' = evictable_size_of (pcache m) - int (mpage_size m * length (every (mpage_size m) ev))"
    "mset (prefix_pages (pcache m)) = mset (prefix_pages s') + mset (every (mpage_size m) ev)"
    using pc.evict_page_count[OF pi k] by blast
  note h = is_hybrid_pc_evict[OF e(1)]
  have "sl = [] \<or> linear_state_pool (m\<lparr>pcache := s'\<rparr>) \<noteq> None" using h inv by (auto simp: manager_inv_def)
  from release_states_ok[OF this] obtain p where p: "release_states sl (m\<lparr>pcache := s'\<rparr>) = Inr (m\<lparr>pcache := s', linear_state_pool := p\<rparr>)"
    "p = None \<longleftrightarrow> linear_state_pool m = None" by auto
  define m' where "m' = m\<lparr>pcache := s', linear_state_pool := p, free_slots := free_slots m @ every (mpage_size m) ev\<rparr>"
  have "evict_to_free (k * mpage_size m) m = Inr (m', length ev)" using e(1) p(1) by (simp add: evict_to_free_def m'_def)
  moreover have "manager_inv lk m' owned" using inv e(2,6) h p(2) by (simp add: manager_inv_def m'_def ac_simps)
  moreover have "available_size m' = available_size m" using e(5) by (simp add: available_size_def m'_def Let_def algebra_simps)
  ultimately show ?thesis using e(3) by (intro exI[of _ m'] exI[of _ "length ev"]) (simp add: m'_def)
qed

lemma allocate_ok:
  assumes inv: "manager_inv lk m owned"
    and k: "k \<le> length (free_slots m) + nat (evictable_size_of (pcache m)) div mpage_size m"
  shows "\<exists>m' pages. allocate k m = Inr (m', pages) \<and> length pages = k \<and> manager_inv lk m' (mset pages + owned) \<and>
     available_size m' = available_size m - int (k * mpage_size m) \<and> page_table m' = page_table m \<and> mpage_size m' = mpage_size m \<and>
     committed_pages m' = committed_pages m \<and> page_index_offset m' = page_index_offset m \<and> num_pages m' = num_pages m"
proof -
  have "\<exists>m1. (if k > length (free_slots m)
            then rbind (evict_to_free ((k - length (free_slots m)) * mpage_size m) m) (\<lambda>(m1, _).
                   py_assert (length (free_slots m1) \<ge> k) (Inr m1))
            else Inr m) = Inr m1 \<and> manager_inv lk m1 owned \<and> k \<le> length (free_slots m1) \<and> available_size m1 = available_size m \<and>
     page_table m1 = page_table m \<and> mpage_size m1 = mpage_size m \<and>
     committed_pages m1 = committed_pages m \<and> page_index_offset m1 = page_index_offset m \<and> num_pages m1 = num_pages m"
  proof (cases "k > length (free_slots m)")
    case True
    have "k - length (free_slots m) \<le> nat (evictable_size_of (pcache m)) div mpage_size m" using k by simp
    from evict_to_free_ok[OF inv this] True show ?thesis by auto
  next
    case False
    then show ?thesis using inv by auto
  qed
  then obtain m1 where m1: "(if k > length (free_slots m)
            then rbind (evict_to_free ((k - length (free_slots m)) * mpage_size m) m) (\<lambda>(m1, _).
                   py_assert (length (free_slots m1) \<ge> k) (Inr m1))
            else Inr m) = Inr m1" "manager_inv lk m1 owned" "k \<le> length (free_slots m1)" "available_size m1 = available_size m"
     "page_table m1 = page_table m" "mpage_size m1 = mpage_size m" "committed_pages m1 = committed_pages m"
     "page_index_offset m1 = page_index_offset m" "num_pages m1 = num_pages m" by blast
  let ?m = "m1\<lparr>free_slots := drop k (free_slots m1)\<rparr>" and ?p = "take k (free_slots m1)"
  have split: "mset (free_slots m1) = mset ?p + mset (drop k (free_slots m1))" by (metis append_take_drop_id mset_append)
  have "allocate k m = Inr (?m, ?p)" unfolding allocate_def m1(1) by simp
  moreover have "manager_inv lk ?m (mset ?p + owned)" using m1(2) split by (simp add: manager_inv_def ac_simps)
  moreover have "available_size ?m = available_size m - int (k * mpage_size m)"
    using m1(3,4,6) by (simp add: available_size_def Let_def algebra_simps of_nat_diff)
  ultimately show ?thesis using m1 by (intro exI[of _ ?m] exI[of _ ?p]) simp
qed

lemma radix_evict_too_much: "paged_inv s \<Longrightarrow> evictable_size s < int n \<Longrightarrow> evict n s = Inl AssertionError"
  using size_info_values(2)[of s] paged_invD(1)[of s] by (auto simp: evict_def py_assert_def)

lemma allocate_short:
  assumes inv: "manager_inv lk m owned"
    and k: "length (free_slots m) + nat (evictable_size_of (pcache m)) div mpage_size m < k"
  shows "allocate k m = Inl (case pcache m of PNaive \<Rightarrow> NotImplementedError | _ \<Rightarrow> AssertionError)"
proof -
  let ?ps = "mpage_size m" and ?d = "k - length (free_slots m)"
  have pi: "prefix_inv lk ?ps (pcache m)" using inv by (simp add: manager_inv_def)
  note p = pc.page_pos[OF pi] and z = pc.store_size[OF pi]
  have gt: "k > length (free_slots m)" and d: "nat (evictable_size_of (pcache m)) div ?ps < ?d" using k by auto
  have lt: "evictable_size_of (pcache m) < int (?d * ?ps)"
  proof -
    have "nat (evictable_size_of (pcache m)) < ?d * ?ps" using d p by (simp add: div_less_iff_less_mult)
    then show ?thesis using z by linarith
  qed
  show ?thesis
  proof (cases "pcache m")
    case PNaive
    then show ?thesis using gt p by (simp add: allocate_def evict_to_free_def naive_evict_def)
  next
    case (PRadix s)
    then have "evict (?d * ?ps) s = Inl AssertionError"
      using pi lt by (intro radix_evict_too_much) (auto simp: size_info_def)
    then show ?thesis using gt PRadix by (simp add: allocate_def evict_to_free_def)
  next
    case (PHybrid h)
    have hi: "hybrid_inv lk h" "paged_inv (full h)" "page_size (full h) = ?ps" using pi PHybrid by auto
    obtain h' r where E: "evict_full (?d * ?ps) h = Inr (h', r)" "hybrid_inv lk h'"
      "evictable_size (full h') = evictable_size (full h) - int (length (ev_kv_indices r))"
      "0 < ?ps \<longrightarrow> node_paged ?ps (kids (hroot h)) \<longrightarrow> node_paged ?ps (kids (hroot h')) \<and> paged ?ps (ev_kv_indices r)"
      using evict_full_ok[OF hi(1), where num = "?d * ?ps" and ps = ?ps] by (elim exE conjE) (rule that)
    have pg: "paged ?ps (ev_kv_indices r)" using E(4) p hi(2,3) by (auto simp: paged_inv_def)
    have "0 \<le> evictable_size (full h')" using size_info_values(2)[OF hybrid_invD(1)[OF E(2)]] .
    then have "int (length (ev_kv_indices r)) \<le> evictable_size (full h)" using E(3) by simp
    also have "\<dots> < int (?d * ?ps)" using lt PHybrid by (simp only: evictable_size_of.simps hybrid_size_info_def fst_conv)
    finally have "int (length (ev_kv_indices r)) < int (?d * ?ps)" .
    then have few: "length (every ?ps (ev_kv_indices r)) < ?d"
      using paged_length[OF p pg] p by (metis mult.commute nat_mult_less_cancel_disj of_nat_less_iff)
    have "ev_mamba_slots r = [] \<or> linear_state_pool (m\<lparr>pcache := PHybrid h'\<rparr>) \<noteq> None" using inv PHybrid by (simp add: manager_inv_def)
    from release_states_ok[OF this] obtain q where q: "release_states (ev_mamba_slots r) (m\<lparr>pcache := PHybrid h'\<rparr>) =
        Inr (m\<lparr>pcache := PHybrid h', linear_state_pool := q\<rparr>)" by auto
    show ?thesis using gt PHybrid E(1) q few by (simp add: allocate_def evict_to_free_def py_assert_def)
  qed
qed

subsection \<open>Committing and decommitting pages\<close>

lemma page_range_append: "a \<le> b \<Longrightarrow> b \<le> c \<Longrightarrow> page_range ps a c = page_range ps a b @ page_range ps b c"
  by (simp add: page_range_def flip: map_append) (metis le_add_diff_inverse upt_add_eq_append)

lemma add_committed_ok:
  assumes inv: "manager_inv lk m owned" and n: "committed_pages m < n" "n \<le> num_pages m"
  shows "\<exists>m'. add_committed_pages n m = Inr m' \<and> manager_inv lk m' owned \<and> committed_pages m' = n \<and>
     available_size m' = available_size m"
proof -
  let ?o = "page_index_offset m"
  have r: "page_range (mpage_size m) ?o (?o + n) =
      page_range (mpage_size m) ?o (?o + committed_pages m) @ page_range (mpage_size m) (committed_pages m + ?o) (n + ?o)"
    using page_range_append[of ?o "?o + committed_pages m" "?o + n"] n by (simp add: add.commute)
  define m' where "m' = m\<lparr>free_slots := free_slots m @ page_range (mpage_size m) (committed_pages m + ?o) (n + ?o), committed_pages := n\<rparr>"
  have a: "add_committed_pages n m = Inr m'" using n by (simp add: add_committed_pages_def m'_def)
  have i: "manager_inv lk m' owned" using inv n r by (simp add: manager_inv_def m'_def ac_simps)
  have "available_size m' = available_size m"
    using n by (simp add: available_size_def Let_def m'_def page_range_def algebra_simps of_nat_diff)
  then show ?thesis using a i by (auto simp: m'_def)
qed

lemma remove_committed_ok:
  assumes inv: "manager_inv lk m owned" and n: "n < committed_pages m"
  defines "tail \<equiv> mset (page_range (mpage_size m) (page_index_offset m + n) (page_index_offset m + committed_pages m))"
  shows "if tail \<subseteq># mset (free_slots m)
     then \<exists>m'. remove_committed_pages n m = Inr m' \<and> manager_inv lk m' owned \<and> committed_pages m' = n \<and>
       mset (free_slots m) = mset (free_slots m') + tail \<and> pcache m' = pcache m
     else remove_committed_pages n m = Inl RuntimeError"
proof -
  let ?ps = "mpage_size m" and ?o = "page_index_offset m" and ?c = "committed_pages m"
  let ?t = "\<lambda>v. v div int ?ps - int ?o \<ge> int n"
  have p: "0 < ?ps" using inv pc.page_pos by (auto simp: manager_inv_def)
  have low: "filter_mset ?t (mset (page_range ?ps ?o (?o + n))) = {#}"
    using p by (auto simp: page_range_def intro!: filter_mset_False[THEN trans[rotated]] filter_mset_cong0)
  have high: "filter_mset ?t tail = tail" using p by (auto simp: tail_def page_range_def filter_mset_eq_conv)
  have all: "mset (page_range ?ps ?o (?o + ?c)) = mset (page_range ?ps ?o (?o + n)) + tail"
    using page_range_append[of ?o "?o + n" "?o + ?c"] n by (simp add: tail_def)
  have len: "size tail = ?c - n" using n by (simp add: tail_def page_range_def)
  have sum: "mset (free_slots m) + mset (prefix_pages (pcache m)) + owned = mset (page_range ?ps ?o (?o + n)) + tail"
    using inv all by (simp add: manager_inv_def)
  have f: "filter_mset ?t (mset (free_slots m)) + filter_mset ?t (mset (prefix_pages (pcache m)) + owned) = tail"
    using arg_cong[OF sum, of "filter_mset ?t"] low high by (simp add: add.assoc)
  have act: "length (filter ?t (free_slots m)) = size (filter_mset ?t (mset (free_slots m)))" by (simp flip: size_mset)
  have iff: "length (filter ?t (free_slots m)) = ?c - n \<longleftrightarrow> tail \<subseteq># mset (free_slots m)"
  proof
    assume l: "length (filter ?t (free_slots m)) = ?c - n"
    have "size (filter_mset ?t (mset (free_slots m))) + size (filter_mset ?t (mset (prefix_pages (pcache m)) + owned)) = size tail"
      using arg_cong[OF f, of size] by simp
    then have "filter_mset ?t (mset (prefix_pages (pcache m)) + owned) = {#}" using l act len by simp
    then have "tail = filter_mset ?t (mset (free_slots m))" using f by (simp only: add_0_right)
    then show "tail \<subseteq># mset (free_slots m)" by (metis multiset_filter_subset)
  next
    assume "tail \<subseteq># mset (free_slots m)"
    then have "tail \<subseteq># filter_mset ?t (mset (free_slots m))" using high multiset_filter_mono by metis
    then have "size tail \<le> length (filter ?t (free_slots m))" using act size_mset_mono by metis
    moreover have "length (filter ?t (free_slots m)) \<le> size tail" using act arg_cong[OF f, of size] by simp
    ultimately show "length (filter ?t (free_slots m)) = ?c - n" using len by simp
  qed
  show ?thesis
  proof (cases "tail \<subseteq># mset (free_slots m)")
    case False
    then show ?thesis using iff n by (simp add: remove_committed_pages_def Let_def)
  next
    case True
    then have l: "length (filter ?t (free_slots m)) = ?c - n" using iff by simp
    have "size (filter_mset ?t (mset (prefix_pages (pcache m)) + owned)) = 0"
      using arg_cong[OF f, of size] l act len by simp
    then have "filter_mset ?t (mset (prefix_pages (pcache m)) + owned) = {#}" by (simp only: size_eq_0_iff_empty)
    then have tl: "filter_mset ?t (mset (free_slots m)) = tail" using f by (simp only: add_0_right)
    define m' where "m' = m\<lparr>free_slots := filter (\<lambda>v. \<not> ?t v) (free_slots m), committed_pages := n\<rparr>"
    have fr: "mset (free_slots m) = mset (free_slots m') + tail"
      using tl multiset_partition[of "mset (free_slots m)" ?t] by (simp add: m'_def add.commute)
    have "remove_committed_pages n m = Inr m'" using l n by (simp add: remove_committed_pages_def Let_def m'_def)
    moreover have "manager_inv lk m' owned"
    proof -
      have "mset (free_slots m') + mset (prefix_pages (pcache m)) + owned = mset (page_range ?ps ?o (?o + n))"
      proof -
        have "(mset (free_slots m') + mset (prefix_pages (pcache m)) + owned) + tail = mset (page_range ?ps ?o (?o + n)) + tail"
          using sum unfolding fr by (simp only: add.assoc add.commute add.left_commute)
        then show ?thesis by (rule add_right_imp_eq)
      qed
      then show ?thesis using inv n by (simp add: manager_inv_def m'_def)
    qed
    moreover have "committed_pages m' = n" "pcache m' = pcache m" by (simp_all add: m'_def)
    ultimately show ?thesis unfolding if_P[OF True] using fr by blast
  qed
qed

subsection \<open>Integrity\<close>

lemma prefix_total:
  assumes "prefix_inv lk ps s"
  shows "evictable_size_of s + protected_size_of s = int (ps * length (prefix_pages s))"
  using pc.store_size[OF assms] by simp

text \<open>The state slots: free, named by the tree, or held by requests.\<close>

definition slots_inv :: "'v manager \<Rightarrow> nat multiset \<Rightarrow> bool" where
  "slots_inv m held \<longleftrightarrow> (case (pcache m, linear_state_pool m) of
     (PHybrid h, Some p) \<Rightarrow> image_mset int (mset (pool_free p)) + slots_held h + image_mset int held = image_mset int (mset [1..<num_slots p])
   | _ \<Rightarrow> True)"

text \<open>What \<^verbatim>\<open>check_integrity\<close> answers in every state of a sound cache, and what that means under the invariants.\<close>

lemma check_integrity_cases:
  assumes inv: "prefix_inv lk (mpage_size m) (pcache m)" and hp: "is_hybrid (pcache m) \<longrightarrow> linear_state_pool m \<noteq> None"
  shows "check_integrity m =
    (if \<exists>h p. pcache m = PHybrid h \<and> linear_state_pool m = Some p \<and> num_slots p \<le> length (pool_free p) + size (slots_held h)
     then Inl AssertionError
     else if length (free_slots m) + length (prefix_pages (pcache m)) \<noteq> committed_pages m then Inl RuntimeError
     else if \<exists>v \<in> set (free_slots m). v mod int (mpage_size m) \<noteq> 0 then Inl AssertionError
     else Inr ())"
proof -
  let ?ps = "mpage_size m"
  let ?slots = "\<exists>h p. pcache m = PHybrid h \<and> linear_state_pool m = Some p \<and> num_slots p \<le> length (pool_free p) + size (slots_held h)"
  note p = pc.page_pos[OF inv]
  have dv: "(evictable_size_of (pcache m) + protected_size_of (pcache m)) div int ?ps = int (length (prefix_pages (pcache m)))"
    using prefix_total[OF inv] p by simp
  have pre: "prefix_check (pcache m) (map_option num_slots (linear_state_pool m))
      (case linear_state_pool m of None \<Rightarrow> 0 | Some p \<Rightarrow> num_free_slots p) ?ps =
    (if ?slots then Inl AssertionError else Inr (int (length (prefix_pages (pcache m)))))"
  proof (cases "pcache m")
    case PNaive
    then show ?thesis by (simp add: total_size_def naive_size_info_def)
  next
    case (PRadix s)
    then show ?thesis using dv by (simp add: total_size_def)
  next
    case (PHybrid h)
    have hi: "hybrid_inv lk h" using inv PHybrid by simp
    obtain q where q: "linear_state_pool m = Some q" using hp PHybrid by auto
    have "mamba_evictable h + mamba_protected h = int (size (slots_held h))"
      using hybrid_invD(6,7)[OF hi] slot_count[of "kids (hroot h)"] by simp
    moreover have "?slots \<longleftrightarrow> num_slots q \<le> num_free_slots q + size (slots_held h)"
      using PHybrid q by (simp add: num_free_slots_def)
    ultimately show ?thesis using PHybrid q hybrid_check_integrity_ok[OF hi] dv
      by (auto simp: hybrid_size_info_def py_assert_def)
  qed
  have al: "?ps \<le> 1 \<Longrightarrow> v mod int ?ps = 0" for v using p by (simp add: le_Suc_eq)
  show ?thesis unfolding check_integrity_def pre using al by (auto simp: py_assert_def)
qed

lemma check_integrity_owned:
  assumes i: "manager_inv lk m owned" and s: "slots_inv m held" and n: "\<forall>p. linear_state_pool m = Some p \<longrightarrow> 0 < num_slots p"
  shows "check_integrity m = (if owned = {#} then Inr () else Inl RuntimeError)"
proof -
  have inv: "prefix_inv lk (mpage_size m) (pcache m)" "is_hybrid (pcache m) \<longrightarrow> linear_state_pool m \<noteq> None"
    using i by (simp_all add: manager_inv_def)
  have sum: "mset (free_slots m) + mset (prefix_pages (pcache m)) + owned =
      mset (page_range (mpage_size m) (page_index_offset m) (page_index_offset m + committed_pages m))"
    using i by (simp add: manager_inv_def)
  have len: "length (free_slots m) + length (prefix_pages (pcache m)) + size owned = committed_pages m"
    using arg_cong[OF sum, of size] by (simp add: page_range_def)
  have al: "\<forall>v \<in> set (free_slots m). v mod int (mpage_size m) = 0"
  proof
    fix v assume "v \<in> set (free_slots m)"
    then have "v \<in> set (page_range (mpage_size m) (page_index_offset m) (page_index_offset m + committed_pages m))"
      using arg_cong[OF sum, of set_mset] by auto
    then show "v mod int (mpage_size m) = 0" by (auto simp: page_range_def)
  qed
  have slots: "\<not> (\<exists>h p. pcache m = PHybrid h \<and> linear_state_pool m = Some p \<and>
      num_slots p \<le> length (pool_free p) + size (slots_held h))"
  proof (intro notI, elim exE conjE)
    fix h p assume h: "pcache m = PHybrid h" "linear_state_pool m = Some p" "num_slots p \<le> length (pool_free p) + size (slots_held h)"
    have "image_mset int (mset (pool_free p)) + slots_held h + image_mset int held = image_mset int (mset [1..<num_slots p])"
      using s h(1,2) by (simp add: slots_inv_def)
    from arg_cong[OF this, of size] have "length (pool_free p) + size (slots_held h) + size held = num_slots p - 1" by simp
    then show False using h(2,3) n by fastforce
  qed
  have iff: "length (free_slots m) + length (prefix_pages (pcache m)) \<noteq> committed_pages m \<longleftrightarrow> owned \<noteq> {#}"
    unfolding len[symmetric] by simp
  show ?thesis unfolding check_integrity_cases[OF inv] if_not_P[OF slots] iff using al by simp
qed

subsection \<open>The page table\<close>

lemma splice_props:
  assumes "a \<le> b" "b \<le> length row" "length vals = b - a"
  shows "length (splice a b vals row) = length row" "slice a b (splice a b vals row) = vals"
    "take a (splice a b vals row) = take a row" "drop b (splice a b vals row) = drop b row"
  using assms by (simp_all add: splice_def slice_def)

text \<open>What one entry of the allocation info says of a row before and after the write.\<close>

definition info_fits :: "nat \<Rightarrow> int list list \<Rightarrow> nat option \<times> nat \<times> nat \<Rightarrow> bool" where
  "info_fits ps table = (\<lambda>(t, a, b). a < b \<and> (\<exists>i. t = Some i \<and> i < length table \<and> b * ps \<le> length (table ! i)))"

lemma write_rows_ok:
  assumes "distinct (map fst info)" "\<forall>x \<in> set info. info_fits ps table x"
    "length allocated = ps * sum_list (map (\<lambda>(_, a, b). b - a) info)"
  shows "\<exists>table'. write_rows ps table allocated info = Inr table' \<and> length table' = length table \<and>
    (\<forall>j < length table. length (table' ! j) = length (table ! j)) \<and>
    (\<forall>j < length table. Some j \<notin> fst ` set info \<longrightarrow> table' ! j = table ! j) \<and>
    (\<forall>(t, a, b) \<in> set info. take (a * ps) (table' ! the t) = take (a * ps) (table ! the t) \<and>
       drop (b * ps) (table' ! the t) = drop (b * ps) (table ! the t)) \<and>
    concat (map (\<lambda>(t, a, b). slice (a * ps) (b * ps) (table' ! the t)) info) = allocated"
  using assms
proof (induction info arbitrary: table allocated)
  case Nil
  then show ?case by simp
next
  case (Cons x info)
  obtain t a b where x: "x = (t, a, b)" by (cases x)
  obtain i where i: "t = Some i" "i < length table" "b * ps \<le> length (table ! i)" "a < b"
    using Cons.prems(2) x by (auto simp: info_fits_def)
  let ?n = "b * ps - a * ps" and ?al = "take (b * ps - a * ps) allocated"
  have ab: "a * ps \<le> b * ps" using i(4) by simp
  have n: "?n = ps * (b - a)" by (simp add: diff_mult_distrib2 mult.commute)
  have tot: "length allocated = ps * (b - a) + ps * sum_list (map (\<lambda>(_, a, b). b - a) info)"
    using Cons.prems(3) x by (simp add: add_mult_distrib2)
  have la: "?n \<le> length allocated" "length (drop ?n allocated) = ps * sum_list (map (\<lambda>(_, a, b). b - a) info)"
    unfolding length_drop n tot by simp_all
  let ?row = "splice (a * ps) (b * ps) ?al (table ! i)"
  have lv: "length ?al = ?n" using la(1) by simp
  note S = splice_props[OF ab i(3) lv]
  let ?table = "table[i := ?row]"
  have fits: "\<forall>y \<in> set info. info_fits ps ?table y"
  proof
    fix y assume "y \<in> set info"
    then have "info_fits ps table y" using Cons.prems(2) by simp
    moreover have "length (?table ! j) = length (table ! j)" for j using S(1) i(2) by (cases "j = i") simp_all
    ultimately show "info_fits ps ?table y" by (simp add: info_fits_def split: prod.splits)
  qed
  have d: "distinct (map fst info)" "Some i \<notin> fst ` set info" using Cons.prems(1) x i(1) by auto
  obtain table' where T: "write_rows ps ?table (drop ?n allocated) info = Inr table'" "length table' = length ?table"
    "\<forall>j < length ?table. length (table' ! j) = length (?table ! j)"
    "\<forall>j < length ?table. Some j \<notin> fst ` set info \<longrightarrow> table' ! j = ?table ! j"
    "\<forall>(t, a, b) \<in> set info. take (a * ps) (table' ! the t) = take (a * ps) (?table ! the t) \<and>
       drop (b * ps) (table' ! the t) = drop (b * ps) (?table ! the t)"
    "concat (map (\<lambda>(t, a, b). slice (a * ps) (b * ps) (table' ! the t)) info) = drop ?n allocated"
    using Cons.IH[OF d(1) fits la(2)] by (elim exE conjE) (rule that)
  have ri: "table' ! i = ?row" using T(4) d(2) i(2) by simp
  have w: "write_rows ps table allocated (x # info) = Inr table'"
    using T(1) la(1) i x by (simp add: py_nth_def Let_def not_less)
  have other: "?table ! the t' = table ! the t'" if "(t', a', b') \<in> set info" for t' a' b'
  proof -
    have "info_fits ps table (t', a', b')" using Cons.prems(2) that by simp
    then obtain i' where i': "t' = Some i'" by (auto simp: info_fits_def)
    have "t' \<in> fst ` set info" using image_eqI[where f = fst, OF _ that] by simp
    then have "i' \<noteq> i" using d(2) i' by blast
    then show ?thesis using i' by simp
  qed
  show ?case
  proof (intro exI[of _ table'] conjI)
    show "\<forall>(t, a, b) \<in> set (x # info). take (a * ps) (table' ! the t) = take (a * ps) (table ! the t) \<and>
       drop (b * ps) (table' ! the t) = drop (b * ps) (table ! the t)"
    proof
      fix y assume y: "y \<in> set (x # info)"
      obtain t' a' b' where yy: "y = (t', a', b')" by (cases y)
      show "case y of (t, a, b) \<Rightarrow> take (a * ps) (table' ! the t) = take (a * ps) (table ! the t) \<and>
         drop (b * ps) (table' ! the t) = drop (b * ps) (table ! the t)"
      proof (cases "y = x")
        case True
        then show ?thesis using ri S(3,4) x i(1) by simp
      next
        case False
        then have e: "(t', a', b') \<in> set info" using y yy by simp
        show ?thesis using bspec[OF T(5) e] other[OF e] yy by simp
      qed
    qed
    show "concat (map (\<lambda>(t, a, b). slice (a * ps) (b * ps) (table' ! the t)) (x # info)) = allocated"
      using T(6) x i(1) ri S(2) by simp
  qed (use w T(2-4) S(1) i x d(2) in \<open>auto simp: nth_list_update\<close>)
qed

lemma allocation_info_rows:
  "set (allocation_info ps reqs) \<subseteq> (\<lambda>r. (table_idx r, div_ceil (req_cached_len r) ps, div_ceil (device_len r) ps)) ` set reqs"
  "distinct (map table_idx reqs) \<Longrightarrow> distinct (map fst (allocation_info ps reqs))"
  "(t, a, b) \<in> set (allocation_info ps reqs) \<Longrightarrow> a < b"
proof -
  show sub: "set (allocation_info ps reqs) \<subseteq> (\<lambda>r. (table_idx r, div_ceil (req_cached_len r) ps, div_ceil (device_len r) ps)) ` set reqs" for reqs
    by (induction reqs) (auto simp: Let_def)
  show "distinct (map table_idx reqs) \<Longrightarrow> distinct (map fst (allocation_info ps reqs))"
  proof (induction reqs)
    case (Cons r reqs)
    have "table_idx r \<notin> fst ` set (allocation_info ps reqs)" using sub[of reqs] Cons.prems by force
    then show ?case using Cons by (simp add: Let_def)
  qed simp
  show "(t, a, b) \<in> set (allocation_info ps reqs) \<Longrightarrow> a < b"
    by (induction reqs) (auto simp: Let_def split: if_splits)
qed

lemma pages_needed:
  "sum_list (map (\<lambda>(_, a, b). b - a) (allocation_info ps reqs)) =
     sum_list (map (\<lambda>r. div_ceil (device_len r) ps - div_ceil (req_cached_len r) ps) reqs)"
  by (induction reqs) (auto simp: Let_def)

text \<open>Every row named by a request exists and is long enough for it, and no two requests share one.\<close>

definition rows_fit :: "'v manager \<Rightarrow> req list \<Rightarrow> bool" where
  "rows_fit m reqs \<longleftrightarrow> distinct (map table_idx reqs) \<and> (\<forall>r \<in> set reqs. \<exists>i. table_idx r = Some i \<and> i < length (page_table m) \<and>
     div_ceil (device_len r) (mpage_size m) * mpage_size m \<le> length (page_table m ! i))"

lemma allocate_paged_rows:
  assumes inv: "manager_inv lk m owned" and fit: "rows_fit m reqs"
    and k: "sum_list (map (\<lambda>r. div_ceil (device_len r) (mpage_size m) - div_ceil (req_cached_len r) (mpage_size m)) reqs) \<le>
      length (free_slots m) + nat (evictable_size_of (pcache m)) div mpage_size m"
  defines "row' \<equiv> \<lambda>m' r. page_table m' ! the (table_idx r)"
  shows "\<exists>m' pages. allocate_paged reqs m = Inr m' \<and> manager_inv lk m' (mset pages + owned) \<and>
    concat (map (\<lambda>(t, a, b). slice (a * mpage_size m) (b * mpage_size m) (page_table m' ! the t)) (allocation_info (mpage_size m) reqs)) =
      page_to_token (mpage_size m) pages \<and>
    length (page_table m') = length (page_table m) \<and>
    (\<forall>j < length (page_table m). Some j \<notin> table_idx ` set reqs \<longrightarrow> page_table m' ! j = page_table m ! j) \<and>
    (\<forall>r \<in> set reqs. take (div_ceil (req_cached_len r) (mpage_size m) * mpage_size m) (row' m' r) =
        take (div_ceil (req_cached_len r) (mpage_size m) * mpage_size m) (row' m r)) \<and>
    (\<forall>r \<in> set reqs. drop (div_ceil (device_len r) (mpage_size m) * mpage_size m) (row' m' r) =
        drop (div_ceil (device_len r) (mpage_size m) * mpage_size m) (row' m r) \<and>
        length (row' m' r) = length (row' m r)) \<and>
    available_size m' = available_size m - int (length pages * mpage_size m)"
proof -
  let ?ps = "mpage_size m" and ?info = "allocation_info (mpage_size m) reqs"
  let ?k = "sum_list (map (\<lambda>(_, a, b). b - a) ?info)"
  have kk: "?k \<le> length (free_slots m) + nat (evictable_size_of (pcache m)) div ?ps" using k by (simp add: pages_needed)
  note A = allocation_info_rows[where ps = ?ps and reqs = reqs]
  have d: "distinct (map fst ?info)" using A(2) fit by (simp add: rows_fit_def)
  have fits: "\<forall>x \<in> set ?info. info_fits ?ps (page_table m) x"
  proof
    fix x assume x: "x \<in> set ?info"
    then obtain r where r: "r \<in> set reqs" "x = (table_idx r, div_ceil (req_cached_len r) ?ps, div_ceil (device_len r) ?ps)"
      using A(1) by auto
    then show "info_fits ?ps (page_table m) x" using fit A(3) x by (fastforce simp: info_fits_def rows_fit_def)
  qed
  show ?thesis
  proof (cases "?k = 0")
    case True
    have "?info = []"
    proof (rule ccontr)
      assume "?info \<noteq> []"
      then obtain t a b xs where "?info = (t, a, b) # xs" by (metis list.exhaust prod_cases3)
      then show False using True A(3)[of t a b] by auto
    qed
    then show ?thesis using True inv by (intro exI[of _ m] exI[of _ "[]"]) (simp add: allocate_paged_def)
  next
    case False
    obtain m1 pages where a: "allocate ?k m = Inr (m1, pages)" "length pages = ?k" "manager_inv lk m1 (mset pages + owned)"
      "available_size m1 = available_size m - int (?k * ?ps)" "page_table m1 = page_table m" "mpage_size m1 = ?ps"
      using allocate_ok[OF inv kk] by blast
    have la: "length (page_to_token ?ps pages) = ?ps * ?k" using a(2) by simp
    obtain table' where T: "write_rows ?ps (page_table m) (page_to_token ?ps pages) ?info = Inr table'"
      "length table' = length (page_table m)" "\<forall>j < length (page_table m). length (table' ! j) = length (page_table m ! j)"
      "\<forall>j < length (page_table m). Some j \<notin> fst ` set ?info \<longrightarrow> table' ! j = page_table m ! j"
      "\<forall>(t, a, b) \<in> set ?info. take (a * ?ps) (table' ! the t) = take (a * ?ps) (page_table m ! the t) \<and>
         drop (b * ?ps) (table' ! the t) = drop (b * ?ps) (page_table m ! the t)"
      "concat (map (\<lambda>(t, a, b). slice (a * ?ps) (b * ?ps) (table' ! the t)) ?info) = page_to_token ?ps pages"
      using write_rows_ok[OF d fits la] by (elim exE conjE) (rule that)
    define m' where "m' = m1\<lparr>page_table := table'\<rparr>"
    have pos: "(?k > 0) = True" using False by blast
    have r: "allocate_paged reqs m = Inr m'"
      unfolding allocate_paged_def Let_def pos if_True a(1) using a(5,6) T(1) by (simp add: write_page_table_def m'_def)
    have i: "manager_inv lk m' (mset pages + owned)" using a(3) by (simp add: manager_inv_def m'_def)
    have av: "available_size m' = available_size m - int (length pages * ?ps)" using a(2,4) by (simp add: available_size_def m'_def)
    have rows: "drop (div_ceil (device_len r) ?ps * ?ps) (table' ! the (table_idx r)) =
        drop (div_ceil (device_len r) ?ps * ?ps) (page_table m ! the (table_idx r)) \<and>
        length (table' ! the (table_idx r)) = length (page_table m ! the (table_idx r))" if r: "r \<in> set reqs" for r
    proof -
      obtain i where i: "table_idx r = Some i" "i < length (page_table m)" using fit r by (auto simp: rows_fit_def)
      show ?thesis
      proof (cases "table_idx r \<in> fst ` set ?info")
        case True
        then obtain a b where ab: "(table_idx r, a, b) \<in> set ?info" by force
        then obtain r2 where r2: "r2 \<in> set reqs" "table_idx r2 = table_idx r" "b = div_ceil (device_len r2) ?ps" using A(1) by force
        then have "r2 = r" using fit r by (simp add: rows_fit_def distinct_map inj_on_def)
        then show ?thesis using T(3,5) ab r2(3) i by fastforce
      next
        case False
        then show ?thesis using T(4) i by simp
      qed
    qed
    have keep: "take (div_ceil (req_cached_len r) ?ps * ?ps) (table' ! the (table_idx r)) =
        take (div_ceil (req_cached_len r) ?ps * ?ps) (page_table m ! the (table_idx r))" if r: "r \<in> set reqs" for r
    proof (cases "table_idx r \<in> fst ` set ?info")
      case True
      then obtain a b where ab: "(table_idx r, a, b) \<in> set ?info" by force
      then obtain r2 where r2: "r2 \<in> set reqs" "table_idx r2 = table_idx r" "a = div_ceil (req_cached_len r2) ?ps" using A(1) by force
      then have "r2 = r" using fit r by (simp add: rows_fit_def distinct_map inj_on_def)
      then show ?thesis using T(5) ab r2(3) by fastforce
    next
      case False
      moreover obtain i where "table_idx r = Some i" "i < length (page_table m)" using fit r by (auto simp: rows_fit_def)
      ultimately show ?thesis using T(4) by simp
    qed
    have un: "table' ! j = page_table m ! j" if "j < length (page_table m)" "Some j \<notin> table_idx ` set reqs" for j
      using T(4) that A(1) by force
    show ?thesis
      by (rule exI[of _ m'], rule exI[of _ pages], intro conjI)
        (use r i av T(2,6) keep rows un in \<open>simp_all add: m'_def row'_def\<close>)
  qed
qed

lemma allocate_paged_ok:
  assumes "manager_inv lk m owned" "rows_fit m reqs"
    and "sum_list (map (\<lambda>r. div_ceil (device_len r) (mpage_size m) - div_ceil (req_cached_len r) (mpage_size m)) reqs) \<le>
      length (free_slots m) + nat (evictable_size_of (pcache m)) div mpage_size m"
  defines "row' \<equiv> \<lambda>m' r. page_table m' ! the (table_idx r)"
  shows "\<exists>m' pages. allocate_paged reqs m = Inr m' \<and> manager_inv lk m' (mset pages + owned) \<and>
    concat (map (\<lambda>(t, a, b). slice (a * mpage_size m) (b * mpage_size m) (page_table m' ! the t)) (allocation_info (mpage_size m) reqs)) =
      page_to_token (mpage_size m) pages \<and>
    length (page_table m') = length (page_table m) \<and>
    (\<forall>j < length (page_table m). Some j \<notin> table_idx ` set reqs \<longrightarrow> page_table m' ! j = page_table m ! j) \<and>
    (\<forall>r \<in> set reqs. take (div_ceil (req_cached_len r) (mpage_size m) * mpage_size m) (row' m' r) =
        take (div_ceil (req_cached_len r) (mpage_size m) * mpage_size m) (row' m r)) \<and>
    available_size m' = available_size m - int (length pages * mpage_size m)"
  using allocate_paged_rows[OF assms(1-3)] unfolding row'_def by (elim exE conjE) (intro exI conjI)

end
