(* ===== verification/Manager_Commit.thy ===== *)
theory Manager_Commit
  imports Manager_Pages
begin

text \<open>
  The commit of a request to the radix cache (\<^verbatim>\<open>cache_req\<close>), the state slots of a hybrid manager
  (\<^verbatim>\<open>ensure_mamba_slots\<close>), and the properties of the manager.
\<close>

section \<open>A commit of a request to the radix cache\<close>

lemma path_str_prefix:
  assumes "path_str u cs = Some (ks, vs)" "path_str u' cs = Some (ks @ t, vs')" "wfk ps cs" "0 < ps"
  shows "vs = take (length ks) vs'"
  using assms
proof (induction "length ks" arbitrary: cs ks vs vs' rule: less_induct)
  case less
  obtain n where n: "n \<in> set cs" "take ps ks = page_key ps (nkey n)" "nlen n \<le> length ks"
    "u = uuid n \<and> ks = nkey n \<and> vs = nvalue n \<or>
      (\<exists>k r. path_str u (kids n) = Some (k, r) \<and> ks = nkey n @ k \<and> vs = nvalue n @ r)"
    using path_str_split[OF less.prems(1,3,4)] by blast
  obtain n' where n': "n' \<in> set cs" "take ps (ks @ t) = page_key ps (nkey n')"
    "u' = uuid n' \<and> ks @ t = nkey n' \<and> vs' = nvalue n' \<or>
      (\<exists>k r. path_str u' (kids n') = Some (k, r) \<and> ks @ t = nkey n' @ k \<and> vs' = nvalue n' @ r)"
    using path_str_split[OF less.prems(2,3,4)] by blast
  have wn: "wfk ps [n]" using wfk_member[OF less.prems(3) n(1)] .
  then have wk: "wfk ps (kids n)" "nkey n \<noteq> []" "length (nvalue n) = length (nkey n)" "ps \<le> length (nkey n)"
    using less.prems(4) by (cases n; auto intro: dvd_imp_le)+
  have "ps \<le> length ks" using wk(4) n(3) by simp
  then have "take ps (ks @ t) = take ps ks" by simp
  then have nn: "n' = n" using wfk_page_unique[OF less.prems(3) n'(1) n(1)] n(2) n'(2) by presburger
  show ?case
  proof (cases "ks = nkey n")
    case True
    have "vs = nvalue n" using n(4) True path_str_nonempty[OF _ wk(1)] by auto
    then show ?thesis using n'(3) nn wk(3) True by auto
  next
    case False
    then obtain k r where k: "path_str u (kids n) = Some (k, r)" "ks = nkey n @ k" "vs = nvalue n @ r" using n(4) by auto
    have "k \<noteq> []" using path_str_nonempty[OF k(1) wk(1)] .
    then obtain r' where r': "path_str u' (kids n) = Some (k @ t, r')" "vs' = nvalue n @ r'" using n'(3) nn k(2) by auto
    show ?thesis using less.hyps[OF _ k(1) r'(1) wk(1) less.prems(4)] k r' wk(2,3) by simp
  qed
qed

lemma handle_str_dvd: "radix_inv s \<Longrightarrow> handle_str s h = Some (ks, vs) \<Longrightarrow> page_size s dvd length ks \<and> length vs = length ks"
  using path_str_dvd[OF _ tree_invD(2)] path_str_lengths[OF _ tree_invD(2)]
  by (auto simp: handle_str_def radix_inv_def split: if_splits)

lemma handle_str_prefix:
  assumes "radix_inv s" "handle_str s h = Some (ks, vs)" "handle_str s h' = Some (ks @ t, vs')"
  shows "vs = take (length ks) vs'"
proof -
  have T: "wfk (page_size s) (kids (root_node s))" "0 < page_size s"
    using assms(1) by (auto simp: radix_inv_def dest: tree_invD)
  show ?thesis
  proof (cases "ks = []")
    case True
    then show ?thesis using handle_str_dvd[OF assms(1,2)] by simp
  next
    case False
    then show ?thesis using assms(2,3) path_str_prefix[OF _ _ T] by (auto simp: handle_str_def split: if_splits)
  qed
qed

text \<open>What a live handle stands for is cached: an insertion of a longer sequence finds it.\<close>

lemma insert_covers_handle:
  assumes inv: "radix_inv s" and len: "length idx = length ids"
    and m: "insert_prefix tic now ids idx s = Inr (s', l, h')"
    and h: "handle_str s h = Some (take n ids, vs)" "n \<le> length ids"
  shows "n \<le> l"
proof -
  define N where "N = align_down (length ids) (page_size s)"
  have t: "tree_inv (page_size s) (counter s) (root_node s)" using inv by (simp add: radix_inv_def)
  note ps = tree_invD(1)[OF t]
  obtain r u l' c' where w: "tree_walk (page_size s) tic (counter s) (take N ids) (root_node s) = Inr (r, u, l', c')"
    "l' \<le> length (take N ids)" "page_size s dvd l'"
    "l' + page_size s \<le> length (take N ids) \<Longrightarrow> [] @ take (l' + page_size s) (take N ids) \<notin> fst ` set (content [] (kids (root_node s)))"
    by (rule tree_walk_ok[OF t, of tic "take N ids" "[]"]) blast
  have l: "l = l'" using m w(1) unfolding insert_prefix_def Let_def N_def[symmetric]
    by (auto simp: py_assert_eq_Inr split: if_splits)
  have d: "page_size s dvd n" using handle_str_dvd[OF inv h(1)] h(2) by simp
  have N: "N \<le> length ids" "page_size s dvd N" "length ids < N + page_size s"
    using ps by (simp_all add: N_def align_down_le align_down_gt)
  have nN: "n \<le> N" using dvd_step[OF N(2) d] N(3) h(2) by linarith
  show ?thesis
  proof (rule ccontr)
    assume "\<not> n \<le> l"
    then have le: "l' + page_size s \<le> n" using dvd_step[OF w(3) d] l by simp
    then have n0: "0 < n" using ps by simp
    then have "hnode h \<noteq> uuid (root_node s)" using h by (auto simp: handle_str_def)
    then have p: "path_str (hnode h) (kids (root_node s)) = Some (take n ids, vs)" using h(1) by (simp add: handle_str_def)
    obtain j where j: "l' + page_size s = Suc j" using ps by (cases "l' + page_size s") auto
    have "([] @ take (Suc j) (take n ids), vs ! j) \<in> set (content [] (kids (root_node s)))"
      by (rule path_str_content[OF p tree_invD(2)[OF t]]) (use j le h(2) in simp)
    then have "take (l' + page_size s) ids \<in> fst ` set (content [] (kids (root_node s)))"
      using le unfolding j[symmetric] by (force simp: min_def)
    then show False using w(4) le nN N(1) by (simp split: if_splits)
  qed
qed

lemma unlock_store:
  assumes t: "trace_inv (s, held)" and p: "paged_inv s" and h: "h \<in> set held"
  shows "\<exists>s'. lock_handle s h True = Inr s' \<and> trace_inv (s', remove1 h held) \<and> paged_inv s' \<and> page_size s' = page_size s \<and>
    stored_pages s' = stored_pages s \<and> (\<forall>g. handle_str s' g = handle_str s g)"
proof -
  have i: "radix_inv s" using p by (rule paged_invD(1))
  note hold = held_holds_lock(1)[OF t h]
  obtain c where c: "chain (hnode h) (root_node s) = Inr c" using live_chain[OF i holds_lock_live[OF hold]] by metis
  obtain s' where s': "lock_handle s h True = Inr s'" "radix_inv s'" "page_size s' = page_size s" "cache_content s' = cache_content s"
    "kids (root_node s') = upd_set (set c) dec_ref (kids (root_node s))" using unlock_handle_ok[OF i hold] c by auto
  have "paged_inv s'" using p s'(2,3,5) by (simp add: paged_inv_def)
  moreover have "stored_pages s' = stored_pages s" using s'(3,4) by (simp add: stored_pages_def)
  moreover have "handle_str s' g = handle_str s g" for g by (rule lock_keeps_handle[OF i _ s'(1)]) (use hold in simp)
  ultimately show ?thesis using s'(1,3) trace_unlock[OF t h s'(1)] by blast
qed

lemma lock_store:
  assumes t: "trace_inv (s, held)" and p: "paged_inv s" and h: "live_handle s h"
  shows "\<exists>s'. lock_handle s h False = Inr s' \<and> trace_inv (s', h # held) \<and> paged_inv s' \<and> page_size s' = page_size s \<and>
    stored_pages s' = stored_pages s \<and> (\<forall>g. handle_str s' g = handle_str s g)"
proof -
  have i: "radix_inv s" using p by (rule paged_invD(1))
  obtain s' where s': "lock_handle s h False = Inr s'" "paged_inv s'" "page_size s' = page_size s" "stored_pages s' = stored_pages s"
    using rx.lock_ok[OF p h] by blast
  have "handle_str s' g = handle_str s g" for g by (rule lock_keeps_handle[OF i _ s'(1)]) (use h in simp)
  then show ?thesis using s' trace_lock[OF t h s'(1)] by blast
qed

lemma every_append_pages: "0 < ps \<Longrightarrow> ps dvd length xs \<Longrightarrow> every ps (xs @ ys) = every ps xs @ every ps ys"
proof (induction "length xs" arbitrary: xs rule: less_induct)
  case less
  show ?case
  proof (cases xs)
    case (Cons x zs)
    then have le: "ps \<le> length xs" using less.prems(2) by (auto intro: dvd_imp_le)
    have "every ps (take ps xs @ drop ps xs @ ys) = hd xs # every ps (drop ps xs @ ys)"
      using every_append_page[of ps "take ps xs" "drop ps xs @ ys"] le less.prems(1) by simp
    moreover have "every ps (drop ps xs @ ys) = every ps (drop ps xs) @ every ps ys"
      by (rule less.hyps) (use le less.prems Cons in \<open>simp_all add: dvd_diff_nat\<close>)
    moreover have "every ps (take ps xs @ drop ps xs) = hd xs # every ps (drop ps xs)"
      using every_append_page[of ps "take ps xs" "drop ps xs"] le less.prems(1) by simp
    ultimately show ?thesis by (metis append.assoc append_Cons append_take_drop_id)
  qed simp
qed

lemma slice_split: "a \<le> b \<Longrightarrow> b \<le> c \<Longrightarrow> slice a c xs = slice a b xs @ slice b c xs"
proof -
  assume le: "a \<le> b" "b \<le> c"
  have "take c xs = take b xs @ drop b (take c xs)" using le(2) by (metis append_take_drop_id min.absorb1 take_take)
  then have "slice a c xs = drop a (take b xs @ drop b (take c xs))" by (simp add: slice_def)
  also have "\<dots> = drop a (take b xs) @ drop (a - min b (length xs)) (drop b (take c xs))" by (simp add: min.commute)
  also have "drop (a - min b (length xs)) (drop b (take c xs)) = drop b (take c xs)"
    using le by (cases "b \<le> length xs") simp_all
  finally show ?thesis by (simp add: slice_def)
qed

lemma every_slice_split:
  assumes "0 < ps" "a \<le> b" "b \<le> c" "ps dvd a" "ps dvd b" "b \<le> length xs"
  shows "every ps (slice a c xs) = every ps (slice a b xs) @ every ps (slice b c xs)"
  unfolding slice_split[OF assms(2,3)]
  by (rule every_append_pages[OF assms(1)]) (use assms in \<open>simp add: dvd_diff_nat min_def\<close>)

text \<open>
  A request of a radix-cached manager, between two forwards: it holds its handle, the row's first tokens are the
  handle's cached indices, and the pages from there to its (page-ceiled) end are its own.
\<close>

definition req_row :: "req \<Rightarrow> 'v manager \<Rightarrow> int list" where
  "req_row r m = page_table m ! the (table_idx r)"

definition req_end :: "req \<Rightarrow> 'v manager \<Rightarrow> nat" where
  "req_end r m = div_ceil (req_cached_len r) (mpage_size m) * mpage_size m"

definition req_pages :: "req \<Rightarrow> 'v manager \<Rightarrow> int list" where
  "req_pages r m = every (mpage_size m) (slice (handle_len (req_handle r)) (req_end r m) (req_row r m))"

fun req_ready :: "radix \<Rightarrow> handle list \<Rightarrow> handle \<Rightarrow> req \<Rightarrow> 'v manager \<Rightarrow> bool" where
  "req_ready s held h r m \<longleftrightarrow> pcache m = PRadix s \<and> trace_inv (s, held) \<and> h \<in> set held \<and> req_handle r = RadixH h \<and>
     (case table_idx r of None \<Rightarrow> False | Some i \<Rightarrow> i < length (page_table m)) \<and>
     cached_len h \<le> req_cached_len r \<and> req_cached_len r \<le> length (input_ids r) \<and> req_end r m \<le> length (req_row r m) \<and>
     handle_str s h = Some (take (cached_len h) (input_ids r), take (cached_len h) (req_row r m)) \<and>
     paged (mpage_size m) (slice (cached_len h) (req_end r m) (req_row r m))"

declare req_ready.simps [simp del]

lemma req_end_bounds:
  assumes "0 < mpage_size m"
  shows "req_cached_len r \<le> req_end r m" "mpage_size m dvd req_end r m"
    "align_down (req_cached_len r) (mpage_size m) \<le> req_cached_len r"
  using align_ceil_ge[OF assms, of "req_cached_len r"] by (simp_all add: req_end_def align_ceil_def align_down_le)

text \<open>The insertion a commit starts with: the old handle's part is found, the pages of the request split into those
  already cached by others, those that enter the cache, and the tail.\<close>

lemma commit_insert:
  assumes r: "req_ready s held h r m" and inv: "manager_inv lk m (mset (req_pages r m) + owned)"
  defines "n \<equiv> cached_len h" and "N \<equiv> align_down (req_cached_len r) (mpage_size m)"
    and "row \<equiv> req_row r m" and "ps \<equiv> mpage_size m"
  shows "\<exists>s' l h' vs. insert_prefix tic now (take (req_cached_len r) (input_ids r)) (take (req_cached_len r) row) s = Inr (s', l, h') \<and>
     trace_inv (s', held) \<and> paged_inv s' \<and> page_size s' = ps \<and> n \<le> l \<and> l \<le> N \<and> cached_len h' = N \<and> ps dvd l \<and>
     mset (stored_pages s') = mset (stored_pages s) + mset (every ps (slice l N row)) \<and>
     req_pages r m = every ps (slice n l row) @ every ps (slice l N row) @ every ps (slice N (req_end r m) row) \<and>
     handle_str s' h' = Some (take N (input_ids r), vs) \<and> length vs = N \<and> drop l vs = slice l N row \<and> take n vs = take n row"
proof -
  let ?ids = "take (req_cached_len r) (input_ids r)" and ?idx = "take (req_cached_len r) row" and ?e = "req_end r m"
  have R: "pcache m = PRadix s" "trace_inv (s, held)" "n \<le> req_cached_len r" "req_cached_len r \<le> length (input_ids r)"
    "?e \<le> length row" "handle_str s h = Some (take n (input_ids r), take n row)" "paged ps (slice n ?e row)" "req_handle r = RadixH h"
    using r by (simp_all add: req_ready.simps n_def row_def ps_def)
  have P: "paged_inv s" "page_size s = ps" using inv R(1) by (simp_all add: manager_inv_def ps_def)
  note i = paged_invD(1)[OF P(1)]
  have ps: "0 < ps" using paged_invD(2)[OF P(1)] P(2) by simp
  note E = req_end_bounds[of m r, folded ps_def N_def, OF ps]
  have len: "length ?idx = req_cached_len r" "length ?ids = req_cached_len r" using R(4,5) E(1) by simp_all
  have dn: "ps dvd n" using handle_str_dvd[OF i R(6)] P(2) R(3,4) by simp
  have N: "ps dvd N" "req_cached_len r < N + ps" using ps by (simp_all add: N_def ps_def align_down_gt)
  have nN: "n \<le> N" using dvd_step[OF N(1) dn] N(2) R(3) by linarith
  have "take n row @ slice n ?e row = take ?e row" using slice_split[of 0 n ?e row] R(3) E(1) by (simp add: slice_def)
  then have "paged ps (take ?e row)" using paged_append[OF ps _ R(7)] handle_str_paged[OF P(1) R(6)] P(2) by metis
  then have "paged ps (take N (take ?e row))" using paged_take[OF ps _ N(1)] by blast
  then have pg: "paged ps (take N ?idx)" using E(1,3) by (simp add: min_def)
  obtain s' l h' where I: "insert_prefix tic now ?ids ?idx s = Inr (s', l, h')" "paged_inv s'" "page_size s' = page_size s"
    "mset (stored_pages s') = mset (stored_pages s) + mset (every (page_size s) (slice l (cached_len h') ?idx))"
    using radix_insert[OF P(1), of ?idx ?ids tic now] pg len P(2) by (auto simp: N_def ps_def)
  obtain vs where V: "l \<le> N" "page_size s dvd l" "cached_len h' = N" "handle_str s' h' = Some (take N ?ids, vs)" "length vs = N"
    "drop l vs = slice l N ?idx"
    using insert_prefix_correct[OF i, of ?idx ?ids tic now] I(1) len P(2) by (auto simp: insert_len_def N_def ps_def)
  have hs: "handle_str s h = Some (take n ?ids, take n row)" using R(3,6) by (simp add: min_def)
  have nl: "n \<le> l" using insert_covers_handle[OF i _ I(1) hs] len R(3) by simp
  have sl: "slice a N ?idx = slice a N row" for a using E(3) by (simp add: slice_def min_def)
  have ids: "take N ?ids = take N (input_ids r)" using E(3) by (simp add: min_def)
  have "take N (input_ids r) = take n (input_ids r) @ slice n N (input_ids r)" using slice_split[of 0 n N "input_ids r"] nN
    by (simp add: slice_def)
  then have "take n row = take (length (take n (input_ids r))) vs"
    using handle_str_prefix[OF paged_invD(1)[OF I(2)] insert_keeps_handle[OF i I(1) R(6)]] V(4) ids by simp
  then have "take n vs = take n row" using R(3,4) by simp
  moreover have "req_pages r m = every ps (slice n l row) @ every ps (slice l N row) @ every ps (slice N ?e row)"
    using every_slice_split[OF ps nl _ dn, of ?e row] every_slice_split[OF ps V(1) _ _ N(1), of ?e row] V(1,2) P(2) E(1,3) R(5,8)
    by (simp add: req_pages_def row_def[symmetric] ps_def[symmetric] n_def[symmetric])
  ultimately show ?thesis using I V trace_insert[OF R(2) _ I(1)] len P(2) nl sl ids by (intro exI[of _ s'] exI[of _ l] exI[of _ h'] exI[of _ vs] conjI) simp_all
qed

text \<open>\<^verbatim>\<open>cache_req(finished=True)\<close>: every page the request owned is in the cache or free again.\<close>

lemma free_pages_simps [simp]:
  "free_slots (free_pages xs m) = free_slots m @ every (mpage_size m) xs"
  "pcache (free_pages xs m) = pcache m" "mpage_size (free_pages xs m) = mpage_size m" "page_table (free_pages xs m) = page_table m"
  "committed_pages (free_pages xs m) = committed_pages m" "num_pages (free_pages xs m) = num_pages m"
  "page_index_offset (free_pages xs m) = page_index_offset m" "linear_state_pool (free_pages xs m) = linear_state_pool m"
  by (simp_all add: free_pages_def)

lemma row_of_table: "page_table m' = page_table m \<Longrightarrow> row_of t m' = row_of t m"
  by (cases t) (simp_all add: row_of_def row_index_def)

lemma req_ready_row:
  assumes "req_ready s held h r m"
  shows "row_of (table_idx r) m = Inr (req_row r m)"
  using assms by (auto simp: req_ready.simps row_of_def row_index_def req_row_def py_nth_def split: option.splits)

lemma cache_req_finished:
  assumes r: "req_ready s held h r m" and inv: "manager_inv lk m (mset (req_pages r m) + owned)"
  shows "\<exists>m' s'. cache_req_plain tic now r True m = Inr (m', r) \<and> manager_inv lk m' owned \<and> page_table m' = page_table m \<and>
     pcache m' = PRadix s' \<and> trace_inv (s', remove1 h held)"
proof -
  let ?N = "align_down (req_cached_len r) (mpage_size m)" and ?row = "req_row r m" and ?ps = "mpage_size m"
  have R: "pcache m = PRadix s" "h \<in> set held" "req_handle r = RadixH h" using r by (simp_all add: req_ready.simps)
  obtain s1 l h1 where I: "insert_prefix tic now (take (req_cached_len r) (input_ids r)) (take (req_cached_len r) ?row) s = Inr (s1, l, h1)"
     "trace_inv (s1, held)" "paged_inv s1" "page_size s1 = ?ps" "l \<le> ?N" "cached_len h1 = ?N"
     "mset (stored_pages s1) = mset (stored_pages s) + mset (every ?ps (slice l ?N ?row))"
     "req_pages r m = every ?ps (slice (cached_len h) l ?row) @ every ?ps (slice l ?N ?row) @ every ?ps (slice ?N (req_end r m) ?row)"
    using commit_insert[OF r inv, of tic now] by (elim exE conjE) (rule that)
  obtain s2 where U: "lock_handle s1 h True = Inr s2" "trace_inv (s2, remove1 h held)" "paged_inv s2" "page_size s2 = page_size s1"
    "stored_pages s2 = stored_pages s1" using unlock_store[OF I(2,3) R(2)] by blast
  have sl: "slice a l (take (req_cached_len r) ?row) = slice a l ?row" for a
    using I(5) align_down_le[of "req_cached_len r" ?ps] by (simp add: slice_def min_def)
  define m2 where "m2 = free_pages (slice (cached_len h) l ?row) (m\<lparr>pcache := PRadix s2\<rparr>)"
  have row2: "row_of (table_idx r) m2 = Inr ?row" using req_ready_row[OF r] row_of_table[of m2 m] by (simp add: m2_def)
  let ?m = "free_pages (slice ?N (req_end r m) ?row) m2"
  have "cache_req_plain tic now r True m = Inr (?m, r)"
    using I(1,6) U(1) R row2 by (simp add: cache_req_plain_def req_ready_row[OF r] Let_def unlock_def sl m2_def[symmetric] padded_tail_def
      req_end_def)
  moreover have "manager_inv lk ?m owned"
    using inv I(4,7,8) U(3-5) R(1) by (simp add: manager_inv_def m2_def ac_simps)
  ultimately show ?thesis using U(2) by (intro exI[of _ ?m] exI[of _ s2]) (simp add: m2_def)
qed

text \<open>\<^verbatim>\<open>cache_req(finished=False)\<close>: the request is ready for its next forward with the new handle; its row names the cache's
  own pages wherever the cache had the tokens already, and no other row changes.\<close>

lemma cache_req_unfinished:
  assumes r: "req_ready s held h r m" and inv: "manager_inv lk m (mset (req_pages r m) + owned)"
  shows "\<exists>m' s' h'. cache_req_plain tic now r False m = Inr (m', r\<lparr>req_handle := RadixH h'\<rparr>) \<and>
     req_ready s' (h' # remove1 h held) h' (r\<lparr>req_handle := RadixH h'\<rparr>) m' \<and>
     manager_inv lk m' (mset (req_pages (r\<lparr>req_handle := RadixH h'\<rparr>) m') + owned) \<and>
     cached_len h' = align_down (req_cached_len r) (mpage_size m) \<and>
     (\<forall>j. Some j \<noteq> table_idx r \<longrightarrow> page_table m' ! j = page_table m ! j)"
proof -
  let ?n = "cached_len h" and ?N = "align_down (req_cached_len r) (mpage_size m)" and ?row = "req_row r m"
    and ?ps = "mpage_size m" and ?e = "req_end r m"
  have R: "pcache m = PRadix s" "h \<in> set held" "req_handle r = RadixH h" "?n \<le> req_cached_len r"
    "req_cached_len r \<le> length (input_ids r)" "?e \<le> length ?row" "paged ?ps (slice ?n ?e ?row)"
    "page_size s = ?ps" "paged_inv s" using r inv by (simp_all add: req_ready.simps manager_inv_def)
  obtain i where i: "table_idx r = Some i" "i < length (page_table m)" using r by (auto simp: req_ready.simps split: option.splits)
  have ps: "0 < ?ps" using paged_invD(2)[OF R(9)] R(8) by simp
  note E = req_end_bounds[OF ps, of r]
  obtain s1 l h1 vs where I: "insert_prefix tic now (take (req_cached_len r) (input_ids r)) (take (req_cached_len r) ?row) s = Inr (s1, l, h1)"
     "trace_inv (s1, held)" "paged_inv s1" "page_size s1 = ?ps" "?n \<le> l" "l \<le> ?N" "cached_len h1 = ?N" "?ps dvd l"
     "mset (stored_pages s1) = mset (stored_pages s) + mset (every ?ps (slice l ?N ?row))"
     "req_pages r m = every ?ps (slice ?n l ?row) @ every ?ps (slice l ?N ?row) @ every ?ps (slice ?N ?e ?row)"
     "handle_str s1 h1 = Some (take ?N (input_ids r), vs)" "length vs = ?N" "drop l vs = slice l ?N ?row" "take ?n vs = take ?n ?row"
    using commit_insert[OF r inv, of tic now] by (elim exE conjE) (rule that)
  obtain s2 where U: "lock_handle s1 h True = Inr s2" "trace_inv (s2, remove1 h held)" "paged_inv s2" "page_size s2 = page_size s1"
    "stored_pages s2 = stored_pages s1" "\<forall>g. handle_str s2 g = handle_str s1 g" using unlock_store[OF I(2,3) R(2)] by blast
  have h2: "handle_str s2 h1 = Some (take ?N (input_ids r), vs)" using U(6) I(11) by simp
  then have live: "live_handle s2 h1" using handle_str_live[OF paged_invD(1)[OF U(3)]] by simp
  obtain s3 where L: "lock_handle s2 h1 False = Inr s3" "trace_inv (s3, h1 # remove1 h held)" "paged_inv s3" "page_size s3 = page_size s2"
    "stored_pages s3 = stored_pages s2" "\<forall>g. handle_str s3 g = handle_str s2 g" using lock_store[OF U(2,3) live] by blast
  have sl: "slice a l (take (req_cached_len r) ?row) = slice a l ?row" for a
    using I(6) E(3) by (simp add: slice_def min_def)
  define m2 where "m2 = free_pages (slice ?n l ?row) (m\<lparr>pcache := PRadix s2\<rparr>)"
  define row' where "row' = splice ?n l (slice ?n l vs) ?row"
  have lr: "l \<le> length ?row" using I(6) E R(6) by linarith
  have lv: "length (slice ?n l vs) = l - ?n" using I(6,12) by simp
  note S = splice_props[OF I(5) lr lv, folded row'_def]
  define m3 where "m3 = (if l > ?n then m2\<lparr>page_table := (page_table m)[i := row']\<rparr> else m2)"
  have rowid: "row' = ?row" if "\<not> l > ?n" using that I(5) by (simp add: row'_def splice_def slice_def)
  have pt3: "page_table m3 = (page_table m)[i := row']"
    using rowid i by (simp add: m3_def m2_def req_row_def)
  have copy: "(if l > ?n then rbind (matched_indices_of (pcache m2) (RadixH h1)) (\<lambda>canonical.
                            rbind (copy_into ?n l (slice ?n l canonical) ?row) (\<lambda>row'.
                            Inr (set_row (table_idx r) row' m2)))
                       else Inr m2) = Inr m3"
  proof (cases "l > ?n")
    case True
    have "get_matched_indices s2 h1 = Inr vs"
      using handle_str_indices(1)[OF paged_invD(1)[OF U(3)] h2] True I(6) E(3) R(5) by auto
    moreover have "copy_into ?n l (slice ?n l vs) ?row = Inr row'" using True lv lr by (simp add: copy_into_def row'_def)
    ultimately show ?thesis using True i by (simp add: m2_def m3_def set_row_def row_index_def)
  qed (simp add: m3_def)
  define m4 where "m4 = m3\<lparr>pcache := PRadix s3\<rparr>"
  have l4: "lock (RadixH h1) m3 = Inr m4" using L(1) by (simp add: lock_def m4_def m3_def m2_def)
  let ?r = "r\<lparr>req_handle := RadixH h1\<rparr>"
  have run: "cache_req_plain tic now r False m = Inr (m4, ?r)"
    using I(1) U(1) R(1,3) by (simp add: cache_req_plain_def req_ready_row[OF r] Let_def unlock_def split del: if_split)
      (simp only: sl m2_def[symmetric] copy l4 rbind_simps)
  have row4: "req_row ?r m4 = row'" using i pt3 by (simp add: req_row_def m4_def)
  have ps4: "mpage_size m4 = ?ps" by (simp add: m4_def m3_def m2_def)
  have e4: "req_end ?r m4 = ?e" by (simp add: req_end_def ps4)
  have d: "drop l row' = drop l ?row" by (rule S(4))
  have N4: "slice ?N ?e row' = slice ?N ?e ?row"
    using d I(6) by (simp add: slice_def drop_take) (metis add_diff_inverse_nat drop_drop le_add_diff_inverse2 add.commute not_less)
  have t4: "take ?N row' = vs"
  proof -
    have "take ?N row' = take ?n row' @ slice ?n l row' @ slice l ?N row'"
      using slice_split[of 0 ?n ?N row'] slice_split[OF I(5,6), of row'] I(5,6) by (simp add: slice_def)
    also have "slice l ?N row' = slice l ?N ?row" using d by (simp add: slice_def drop_take)
    finally have "take ?N row' = take ?n vs @ slice ?n l vs @ drop l vs" using S(2,3) I(13,14) by simp
    also have "\<dots> = take ?n vs @ drop ?n vs" using slice_split[OF I(5,6), of vs] I(12) by (simp add: slice_def)
    finally show ?thesis by simp
  qed
  have pgN: "paged ?ps (slice ?N ?e ?row)"
  proof -
    have "slice ?N ?e ?row = drop (?N - ?n) (slice ?n ?e ?row)" using I(5,6) by (simp add: slice_def)
    moreover have "?ps dvd ?N - ?n" using handle_str_dvd[OF paged_invD(1)[OF R(9)]] r R(4,5,8)
      by (fastforce simp: req_ready.simps intro: dvd_diff_nat)
    ultimately show ?thesis using paged_drop[OF ps R(7)] by simp
  qed
  have ready: "req_ready s3 (h1 # remove1 h held) h1 ?r m4"
    unfolding req_ready.simps row4 e4 ps4 using L(2,6) h2 I(7) E(3) R(5,6) S(1) i pt3 t4 N4 pgN
    by (simp add: m4_def)
  have pages: "req_pages ?r m4 = every ?ps (slice ?N ?e ?row)" by (simp add: req_pages_def row4 e4 ps4 I(7) N4)
  have minv: "manager_inv lk m4 (mset (req_pages ?r m4) + owned)"
    unfolding pages using inv I(4,9,10) U(4,5) L(3-5) R(1) by (simp add: manager_inv_def m4_def m3_def m2_def ac_simps)
  have others: "page_table m4 ! j = page_table m ! j" if "Some j \<noteq> table_idx r" for j using that i pt3 by (simp add: m4_def)
  show ?thesis using run ready minv I(7) others by blast
qed

section \<open>State slots\<close>

lemma evict_mamba_loop_page:
  "evict_mamba_loop key num h order kv mamba freed = Inr (h', r) \<Longrightarrow> page_size (full h') = page_size (full h)"
proof (induction key num h order kv mamba freed rule: evict_mamba_loop.induct)
  case (1 key num h order kv mamba freed)
  note unfold = "1.prems"[unfolded evict_mamba_loop.simps[of key num h order kv mamba freed]]
  show ?case
  proof (cases "\<not> (freed < num \<and> order \<noteq> [])")
    case True
    then show ?thesis using unfold by simp
  next
    case go: False
    obtain u order' where pop: "heappop key order = (u, order')" by fastforce
    obtain n where n: "find_node u (hroot h) = Inr n" using unfold go pop by (auto split: sum.splits)
    show ?thesis
    proof (cases "mamba_value (attr n) = None \<or> mamba_ref_count (attr n) \<noteq> 0 \<or> u = uuid (hroot h)")
      case True
      then have "evict_mamba_loop key num h order' kv mamba freed = Inr (h', r)" using unfold go pop n by simp
      then show ?thesis using "1.IH"(1)[OF go pop[symmetric] n True] by simp
    next
      case False
      obtain h1 sl where f: "free_node_mamba n h = (h1, sl)" by fastforce
      have h1: "page_size (full h1) = page_size (full h)" using free_node_mamba_page[of n h] f by simp
      show ?thesis
      proof (cases "is_leaf n \<and> ref_count (attr n) = 0")
        case True
        obtain p q h2 kv2 f2 where c: "parent_of u (hroot h1) = Inr p"
          "cascade p (drop_node n h1) (kv @ nvalue n) 0 = Inr (q, h2, kv2, f2)"
          and R: "evict_mamba_loop key num h2 order' kv2 (mamba @ sl) (freed + 1) = Inr (h', r)"
          using unfold go pop n False f True by (auto split: sum.splits prod.splits if_splits)
        have "page_size (full h2) = page_size (full h)" using cascade_page[OF c(2)] h1 by (simp add: drop_node_def)
        then show ?thesis using "1.IH"(2)[OF go pop[symmetric] n False f[symmetric] True c(1,2) refl refl refl R] by simp
      next
        case leaf: False
        have "evict_mamba_loop key num h1 order' kv (mamba @ sl) (freed + 1) = Inr (h', r)"
          using unfold go pop n False f leaf by (simp split: if_splits)
        then show ?thesis using "1.IH"(3)[OF go pop[symmetric] n False f[symmetric] leaf] h1 by simp
      qed
    qed
  qed
qed

lemma mamba_evictable_held: "hybrid_inv lk h \<Longrightarrow> mamba_evictable h + mamba_protected h = int (size (slots_held h))"
  using hybrid_invD(6,7)[of lk h] slot_count[of "kids (hroot h)"] by simp

lemma hybrid_evict_mamba_store:
  assumes inv: "hybrid_inv lk h" "paged_inv (full h)"
  shows "\<exists>h' r. evict_mamba n h = Inr (h', r) \<and> hybrid_inv lk h' \<and> paged_inv (full h') \<and> page_size (full h') = page_size (full h) \<and>
    mset (stored_pages (full h)) = mset (stored_pages (full h')) + mset (every (page_size (full h)) (ev_kv_indices r)) \<and>
    slots_held h = slots_held h' + mset (ev_mamba_slots r) \<and> int (length (ev_mamba_slots r)) = min (int n) (mamba_evictable h) \<and>
    mamba_evictable h' = mamba_evictable h - int (length (ev_mamba_slots r))"
proof -
  let ?ps = "page_size (full h)"
  obtain h' r where E: "evict_mamba n h = Inr (h', r)" "hybrid_inv lk h'"
     "int (length (ev_mamba_slots r)) = min (int n) (mamba_evictable h)"
     "kv_pages h = kv_pages h' + mset (ev_kv_indices r)" "slots_held h = slots_held h' + mset (ev_mamba_slots r)"
     "mamba_protected h' = mamba_protected h"
     "0 < ?ps \<longrightarrow> node_paged ?ps (kids (hroot h)) \<longrightarrow> node_paged ?ps (kids (hroot h')) \<and> paged ?ps (ev_kv_indices r)"
    using evict_mamba_ok[OF inv(1), where num = n and ps = ?ps] by (elim exE conjE) (rule that)
  have pg: "page_size (full h') = ?ps" using evict_mamba_loop_page E(1) unfolding evict_mamba_def by blast
  have np: "node_paged ?ps (kids (hroot h'))" "paged ?ps (ev_kv_indices r)"
    using E(7) inv(2) paged_invD(2)[OF inv(2)] by (auto simp: paged_inv_def)
  have p': "paged_inv (full h')" using np(1) hybrid_invD(1)[OF E(2)] by (simp add: paged_inv_def pg)
  have "mset (stored_pages (full h)) = mset (stored_pages (full h')) + mset (every ?ps (ev_kv_indices r))"
    unfolding pg[symmetric] by (rule stored_pages_mset[OF p']) (use np(2) E(4) pg in simp_all)
  moreover have "mamba_evictable h' = mamba_evictable h - int (length (ev_mamba_slots r))"
    using mamba_evictable_held[OF inv(1)] mamba_evictable_held[OF E(2)] E(5,6) by simp
  ultimately show ?thesis using E(1-3,5) pg p' by blast
qed

lemma evict_mamba_none:
  assumes inv: "hybrid_inv lk h" and n: "0 < n" and e: "mamba_evictable h = 0"
  shows "evict_mamba n h = Inr (h, \<lparr>ev_kv_indices = [], ev_mamba_slots = []\<rparr>)"
proof -
  obtain h' r where E: "evict_mamba n h = Inr (h', r)"
     "ev_mamba_slots r = map (slot_at h) (take n (sort_key (mamba_key (hroot h)) (mamba_cands h)))"
     "int (length (ev_mamba_slots r)) = min (int n) (mamba_evictable h)"
    using evict_mamba_ok[OF inv, where num = n and ps = 1] by (elim exE conjE) (rule that)
  have "ev_mamba_slots r = []" using E(3) e by simp
  then have "sort_key (mamba_key (hroot h)) (mamba_cands h) = []" using E(2) n by simp
  then have "mamba_cands h = []" by (metis length_0_conv length_sort)
  then show ?thesis unfolding evict_mamba_def mamba_cands_def by (subst evict_mamba_loop.simps) simp
qed

text \<open>A manager of a hybrid cache with its pool.\<close>

definition hybrid_manager :: "'v manager \<Rightarrow> hybrid \<Rightarrow> 'v pool \<Rightarrow> bool" where
  "hybrid_manager m h p \<longleftrightarrow> pcache m = PHybrid h \<and> linear_state_pool m = Some p"

lemma slots_held_nat:
  assumes "slots_inv m held" "hybrid_manager m h p" "x \<in># slots_held h"
  shows "0 \<le> x"
proof -
  have "image_mset int (mset (pool_free p)) + slots_held h + image_mset int held = image_mset int (mset [1..<num_slots p])"
    using assms(1,2) by (simp add: slots_inv_def hybrid_manager_def)
  then have "x \<in># image_mset int (mset [1..<num_slots p])" using assms(3) by (metis union_iff)
  then show ?thesis by auto
qed

lemma ensure_mamba_round:
  assumes inv: "manager_inv lk m owned" and sl: "slots_inv m held" and hm: "hybrid_manager m h p"
    and short: "num_free_slots p < n"
  shows "\<exists>m' h' p'. (ensure_mamba_loop (Suc fuel) n m = (if mamba_evictable h = 0 then Inr m' else ensure_mamba_loop fuel n m')) \<and>
     manager_inv lk m' owned \<and> slots_inv m' held \<and> hybrid_manager m' h' p' \<and>
     int (num_free_slots p') = min (int n) (int (num_free_slots p) + mamba_evictable h) \<and>
     mamba_evictable h' = int (num_free_slots p) + mamba_evictable h - int (num_free_slots p')"
proof -
  let ?k = "n - num_free_slots p"
  have hi: "hybrid_inv lk h" "paged_inv (full h)" "page_size (full h) = mpage_size m"
    using inv hm by (simp_all add: manager_inv_def hybrid_manager_def)
  obtain h' r where E: "evict_mamba ?k h = Inr (h', r)" "hybrid_inv lk h'" "paged_inv (full h')" "page_size (full h') = page_size (full h)"
    "mset (stored_pages (full h)) = mset (stored_pages (full h')) + mset (every (page_size (full h)) (ev_kv_indices r))"
    "slots_held h = slots_held h' + mset (ev_mamba_slots r)" "int (length (ev_mamba_slots r)) = min (int ?k) (mamba_evictable h)"
    "mamba_evictable h' = mamba_evictable h - int (length (ev_mamba_slots r))"
    using hybrid_evict_mamba_store[OF hi(1,2), of ?k] by (elim exE conjE) (rule that)
  define p' where "p' = pool_release (map nat (ev_mamba_slots r)) p"
  define m' where "m' = free_pages (ev_kv_indices r) (m\<lparr>pcache := PHybrid h', linear_state_pool := Some p'\<rparr>)"
  have nat: "map int (map nat (ev_mamba_slots r)) = ev_mamba_slots r"
    unfolding map_map comp_def by (rule map_idI) (use slots_held_nat[OF sl hm] E(6) in auto)
  have ne: "ev_mamba_slots r = [] \<longleftrightarrow> mamba_evictable h = 0" using E(7) short by (auto simp: min_def split: if_splits)
  have mi: "manager_inv lk m' owned" using inv E(2-5) hi(3) hm
    by (simp add: m'_def manager_inv_def hybrid_manager_def ac_simps)
  have "image_mset int (mset (map nat (ev_mamba_slots r))) = mset (ev_mamba_slots r)" using nat by (metis mset_map)
  then have si: "slots_inv m' held" using sl hm E(6)
    by (simp add: m'_def p'_def slots_inv_def hybrid_manager_def pool_release_def ac_simps del: mset_map)
  have "length (ev_mamba_slots r) = length (map nat (ev_mamba_slots r))" by simp
  then have f: "int (num_free_slots p') = int (num_free_slots p) + int (length (ev_mamba_slots r))"
    by (simp add: p'_def num_free_slots_def pool_release_def)
  show ?thesis
  proof (cases "mamba_evictable h = 0")
    case True
    have "m\<lparr>pcache := PHybrid h\<rparr> = m" using hm by (simp add: hybrid_manager_def)
    then have "ensure_mamba_loop (Suc fuel) n m = Inr m"
      using True hm short evict_mamba_none[OF hi(1) _ True, of ?k] by (simp add: hybrid_manager_def pool_of_def)
    then show ?thesis using True inv sl hm short by (intro exI[of _ m] exI[of _ h] exI[of _ p]) simp
  next
    case False
    have "ensure_mamba_loop (Suc fuel) n m = ensure_mamba_loop fuel n m'"
      using False ne hm E(1) short by (simp add: hybrid_manager_def pool_of_def m'_def p'_def)
    moreover have "hybrid_manager m' h' p'" by (simp add: hybrid_manager_def m'_def)
    ultimately show ?thesis using False mi si f E(7,8) short
      by (intro exI[of _ m'] exI[of _ h'] exI[of _ p']) (simp add: min_def)
  qed
qed

text \<open>\<^verbatim>\<open>ensure_mamba_slots\<close> ends, never fails, and leaves exactly \<open>n\<close> slots free, or all that can be had.\<close>

lemma ensure_mamba_ok:
  assumes inv: "manager_inv lk m owned" and sl: "slots_inv m held" and hm: "hybrid_manager m h p"
  shows "\<exists>m' h' p'. ensure_mamba_slots n m = Inr m' \<and> manager_inv lk m' owned \<and> slots_inv m' held \<and> hybrid_manager m' h' p' \<and>
     int (num_free_slots p') = max (int (num_free_slots p)) (min (int n) (int (num_free_slots p) + mamba_evictable h)) \<and>
     mamba_evictable h' = int (num_free_slots p) + mamba_evictable h - int (num_free_slots p')"
proof (cases "num_free_slots p < n")
  case False
  then have "ensure_mamba_slots n m = Inr m" using hm by (simp add: ensure_mamba_slots_def hybrid_manager_def pool_of_def)
  then show ?thesis using False assms by (intro exI[of _ m] exI[of _ h] exI[of _ p]) simp
next
  case True
  then obtain k where k: "n = Suc k" by (cases n) auto
  have "hybrid_inv lk h" "paged_inv (full h)" using inv hm by (simp_all add: manager_inv_def hybrid_manager_def)
  from hybrid_evict_mamba_store[OF this, of 1] obtain l :: nat where "int l = min 1 (mamba_evictable h)" by auto
  then have e0: "0 \<le> mamba_evictable h" by (simp add: min_def split: if_splits)
  from ensure_mamba_round[OF inv sl hm True, where fuel = "Suc k"]
  obtain m1 h1 p1 where R: "ensure_mamba_loop (Suc (Suc k)) n m = (if mamba_evictable h = 0 then Inr m1 else ensure_mamba_loop (Suc k) n m1)"
     "manager_inv lk m1 owned" "slots_inv m1 held" "hybrid_manager m1 h1 p1"
     "int (num_free_slots p1) = min (int n) (int (num_free_slots p) + mamba_evictable h)"
     "mamba_evictable h1 = int (num_free_slots p) + mamba_evictable h - int (num_free_slots p1)" by (elim exE conjE) (rule that)
  have run: "ensure_mamba_slots n m = Inr m1"
  proof (cases "mamba_evictable h = 0")
    case True
    then show ?thesis using R(1) k by (simp add: ensure_mamba_slots_def del: ensure_mamba_loop.simps)
  next
    case ne: False
    have "ensure_mamba_loop (Suc k) n m1 = Inr m1"
    proof (cases "num_free_slots p1 < n")
      case False
      then show ?thesis using R(4) by (simp add: hybrid_manager_def pool_of_def)
    next
      case short: True
      then have z: "mamba_evictable h1 = 0" using R(5,6) by (simp add: min_def split: if_splits)
      have hi: "hybrid_inv lk h1" using R(2,4) by (simp add: manager_inv_def hybrid_manager_def)
      have "m1\<lparr>pcache := PHybrid h1\<rparr> = m1" using R(4) by (simp add: hybrid_manager_def)
      then show ?thesis using R(4) short evict_mamba_none[OF hi _ z, of "n - num_free_slots p1"] by (simp add: hybrid_manager_def pool_of_def)
    qed
    then show ?thesis using R(1) k ne by (simp add: ensure_mamba_slots_def del: ensure_mamba_loop.simps)
  qed
  moreover have "int (num_free_slots p1) = max (int (num_free_slots p)) (min (int n) (int (num_free_slots p) + mamba_evictable h))"
    using R(5) True e0 by simp
  ultimately show ?thesis using R(2-4,6) by blast
qed

section \<open>A small manager\<close>

text \<open>Pages of two tokens; the cache of \<open>demo_cache\<close> holds the pages 0, 2 and 6, and the first is locked by a request whose
  own pages are 4 and 8: it computed \<open>[7, 8]\<close> itself while another request cached it.\<close>

definition demo_handle :: handle where
  "demo_handle = \<lparr>cached_len = 2, hnode = 2\<rparr>"

definition demo_locked :: radix where
  "demo_locked = demo_cache\<lparr>evictable_size := 4, protected_size := 2,
     root_node := Node 0 ((fresh_attr 0 0)\<lparr>ref_count := 1\<rparr>) [] []
       [Node 2 ((split_attr 3 (fresh_attr 0 2))\<lparr>ref_count := 1\<rparr>) [5, 6] [0, 1]
          [Node 1 (fresh_attr 0 2) [7, 8] [2, 3] [],
           Node 3 (fresh_attr 0 4) [9, 9] [6, 7] []]]\<rparr>"

definition demo_manager :: "int manager" where
  "demo_manager = \<lparr>free_slots = [], committed_pages = 5, num_pages = 6, page_index_offset = 0, mpage_size = 2,
     pcache = PRadix demo_locked, linear_state_pool = None, page_table = [[0, 1, 4, 5, 8, 9], [0, 0, 0, 0, 0, 0]],
     chunk_snapshots = True, mamba_donation_skips = 0, pin_state = demo_ledger\<rparr>"

definition commit_req :: req where
  "commit_req = \<lparr>req_id = 1, uid = 1, input_ids = [5, 6, 7, 8, 1, 3], table_idx = Some 0, req_cached_len = 5, device_len = 6,
     max_device_len = 9, req_handle = RadixH demo_handle, session_id = None, sums_at = (\<lambda>_. None), linear_slot_idx = None,
     mamba_ping_pong = None, mamba_next_track_idx = False, mamba_last_track_seqlen = None, toolcall_anchor_len = None,
     spec_scratch_slot = None, mamba_boundary_copy = None, mamba_restore_src = None, prefix_boundary = None, hidden_states = None,
     no_prefix_cache = False, pin_key = None, mm_items = []\<rparr>"

lemma demo_locked_built: "lock_handle demo_cache demo_handle False = Inr demo_locked"
  by code_simp

lemma demo_trace: "trace_inv (demo_locked, [demo_handle])" "paged_inv demo_locked"
proof -
  have "refs_exact (held_count []) (kids (root_node demo_cache))"
    by (simp add: demo_cache_def refs_exact_def held_count_def fresh_attr_def split_attr_def)
  then have t: "trace_inv (demo_cache, [])" using demo_cache_inv(1) by (simp add: trace_inv_def)
  have "live_handle demo_cache demo_handle" by code_simp
  from trace_lock[OF t this demo_locked_built] show "trace_inv (demo_locked, [demo_handle])" .
  show "paged_inv demo_locked" by code_simp
qed

lemma demo_manager_inv: "manager_inv lk demo_manager {#4, 8#}"
proof -
  have "stored_pages demo_locked = [0, 2, 6]" by code_simp
  moreover have "page_size demo_locked = 2" by (simp add: demo_locked_def demo_cache_def)
  moreover have "page_range 2 0 5 = [0, 2, 4, 6, 8]" by code_simp
  ultimately show ?thesis using demo_trace(2) by (simp add: manager_inv_def demo_manager_def)
qed

lemma commit_req_ready: "req_ready demo_locked [demo_handle] demo_handle commit_req demo_manager"
proof -
  have "handle_str demo_locked demo_handle = Some ([5, 6], [0, 1])" by code_simp
  moreover have "paged 2 [4, 5, 8, 9]" by code_simp
  moreover have "req_end commit_req demo_manager = 6" "req_row commit_req demo_manager = [0, 1, 4, 5, 8, 9]"
    "slice 2 6 [0, 1, 4, 5, 8, 9 :: int] = [4, 5, 8, 9]" by code_simp+
  ultimately show ?thesis using demo_trace(1)
    by (simp add: req_ready.simps) (simp add: demo_manager_def commit_req_def demo_handle_def)
qed

lemma commit_req_pages: "req_pages commit_req demo_manager = [4, 8]"
  by code_simp

lemma demo_hybrid_manager:
  defines "m \<equiv> \<lparr>free_slots = [], committed_pages = 2, num_pages = 2, page_index_offset = 0, mpage_size = 2,
     pcache = PHybrid demo_hybrid, linear_state_pool = Some (demo_pool\<lparr>num_slots := 9, pool_free := [1]\<rparr>), page_table = [],
     chunk_snapshots = True, mamba_donation_skips = 0, pin_state = demo_ledger\<rparr>"
  shows "manager_inv (\<lambda>_. 0) m {#}" "slots_inv m {#2, 3, 4, 5, 6#}"
    "hybrid_manager m demo_hybrid (demo_pool\<lparr>num_slots := 9, pool_free := [1]\<rparr>)"
proof -
  have "stored_pages (full demo_hybrid) = [0, 2]" "paged_inv (full demo_hybrid)" by code_simp+
  moreover have "page_size (full demo_hybrid) = 2" by (simp add: demo_hybrid_def)
  moreover have "page_range 2 0 (Suc (Suc 0)) = [0, 2]" by code_simp
  ultimately show "manager_inv (\<lambda>_. 0) m {#}" using demo_hybrid_inv by (simp add: manager_inv_def m_def)
  have "slots_held demo_hybrid = {#7, 8#}" by (simp add: demo_hybrid_def fresh_attr_def)
  moreover have "[1..<9] = [1, 2, 3, 4, 5, 6, 7, 8 :: nat]" by code_simp
  ultimately show "slots_inv m {#2, 3, 4, 5, 6#}" by (simp add: slots_inv_def m_def)
  show "hybrid_manager m demo_hybrid (demo_pool\<lparr>num_slots := 9, pool_free := [1]\<rparr>)" by (simp add: hybrid_manager_def m_def)
qed

section \<open>Properties\<close>

text \<open>C26: \<^verbatim>\<open>_allocate\<close> is exact: under the manager's invariant it hands out \<open>k\<close> pages, all of them free before or evicted
  from the cache and from now on the caller's, whenever free and evictable pages together suffice, and otherwise it raises
  (an assertion, or \<^verbatim>\<open>NotImplementedError\<close> for the naive cache, which cannot evict); the invariant is kept and
  the available size falls by exactly the tokens handed out.\<close>

theorem allocate_exact:
  assumes "manager_inv lk m owned"
  shows "if k \<le> length (free_slots m) + nat (evictable_size_of (pcache m)) div mpage_size m
     then \<exists>m' pages. allocate k m = Inr (m', pages) \<and> length pages = k \<and> manager_inv lk m' (mset pages + owned) \<and>
       available_size m' = available_size m - int (k * mpage_size m) \<and> page_table m' = page_table m \<and> committed_pages m' = committed_pages m
     else allocate k m = Inl (case pcache m of PNaive \<Rightarrow> NotImplementedError | _ \<Rightarrow> AssertionError)"
proof (cases "k \<le> length (free_slots m) + nat (evictable_size_of (pcache m)) div mpage_size m")
  case True
  then show ?thesis using allocate_ok[OF assms True] by auto
next
  case False
  then have "length (free_slots m) + nat (evictable_size_of (pcache m)) div mpage_size m < k" by simp
  then show ?thesis unfolding if_not_P[OF False] by (rule allocate_short[OF assms])
qed

theorem allocate_exact_witness:
  "manager_inv (\<lambda>_. 0) demo_manager {#4, 8#} \<and> (\<exists>m' pages. allocate 2 demo_manager = Inr (m', pages) \<and> length pages = 2) \<and>
   allocate 3 demo_manager = Inl AssertionError"
proof -
  have "length (free_slots demo_manager) + nat (evictable_size_of (pcache demo_manager)) div mpage_size demo_manager = 2"
    "pcache demo_manager = PRadix demo_locked" by code_simp+
  then show ?thesis using allocate_exact[OF demo_manager_inv, where k = 2 and lk = "\<lambda>_. 0"] allocate_exact[OF demo_manager_inv, where k = 3 and lk = "\<lambda>_. 0"] demo_manager_inv[of "\<lambda>_. 0"] by auto
qed

text \<open>C29: Growing and shrinking the committed pool keeps the invariant. \<^verbatim>\<open>add_committed_pages\<close> succeeds exactly for a larger
  total within the pool, and leaves the available size as it was; \<^verbatim>\<open>remove_committed_pages\<close> succeeds exactly when
  every page of the tail is free, and raises otherwise; a total that is not on the right side raises.\<close>

theorem resize_exact:
  fixes m :: "'v manager"
  assumes "manager_inv lk m owned"
  defines "tail \<equiv> \<lambda>n. mset (page_range (mpage_size m) (page_index_offset m + n) (page_index_offset m + committed_pages m))"
  shows "(if committed_pages m < n \<and> n \<le> num_pages m
      then \<exists>m'. add_committed_pages n m = Inr m' \<and> manager_inv lk m' owned \<and> committed_pages m' = n \<and> available_size m' = available_size m
      else add_committed_pages n m = Inl ValueError) \<and>
    (if n \<ge> committed_pages m then remove_committed_pages n m = Inl ValueError
     else if tail n \<subseteq># mset (free_slots m)
     then \<exists>m'. remove_committed_pages n m = Inr m' \<and> manager_inv lk m' owned \<and> committed_pages m' = n \<and>
       mset (free_slots m) = mset (free_slots m') + tail n
     else remove_committed_pages n m = Inl RuntimeError)"
proof (intro conjI)
  show "if committed_pages m < n \<and> n \<le> num_pages m
      then \<exists>m'. add_committed_pages n m = Inr m' \<and> manager_inv lk m' owned \<and> committed_pages m' = n \<and> available_size m' = available_size m
      else add_committed_pages n m = Inl ValueError"
    using add_committed_ok[OF assms(1), of n] by (auto simp: add_committed_pages_def)
  show "if n \<ge> committed_pages m then remove_committed_pages n m = Inl ValueError
     else if tail n \<subseteq># mset (free_slots m)
     then \<exists>m'. remove_committed_pages n m = Inr m' \<and> manager_inv lk m' owned \<and> committed_pages m' = n \<and>
       mset (free_slots m) = mset (free_slots m') + tail n
     else remove_committed_pages n m = Inl RuntimeError"
  proof (cases "n \<ge> committed_pages m")
    case True
    then show ?thesis by (simp add: remove_committed_pages_def)
  next
    case False
    then have "n < committed_pages m" by simp
    from remove_committed_ok[OF assms(1) this] show ?thesis using False unfolding tail_def by (auto split: if_splits)
  qed
qed

theorem resize_exact_witness:
  "manager_inv (\<lambda>_. 0) demo_manager {#4, 8#} \<and> (\<exists>m'. add_committed_pages 6 demo_manager = Inr m' \<and> committed_pages m' = 6) \<and>
   add_committed_pages 7 demo_manager = Inl ValueError \<and> remove_committed_pages 4 demo_manager = Inl RuntimeError"
  using resize_exact[OF demo_manager_inv, where n = 6 and lk = "\<lambda>_. 0"] resize_exact[OF demo_manager_inv, where n = 7 and lk = "\<lambda>_. 0"] resize_exact[OF demo_manager_inv, where n = 4 and lk = "\<lambda>_. 0"]
    demo_manager_inv[of "\<lambda>_. 0"] by (auto simp: demo_manager_def page_range_def)

text \<open>C27: \<^verbatim>\<open>allocate_paged\<close> gives every request of a batch the pages from its cached length to its device length: when
  free and evictable pages suffice and the rows exist, it succeeds; the new pages are disjoint from everything in use (the
  invariant with them added), they are written to the rows in order, at the pages each request lacks, and everything
  else in the page table stays: the other rows, and in each request's row the entries before those pages and after them.\<close>

theorem allocate_paged_fills_rows:
  assumes "manager_inv lk m owned" "rows_fit m reqs"
    "sum_list (map (\<lambda>r. div_ceil (device_len r) (mpage_size m) - div_ceil (req_cached_len r) (mpage_size m)) reqs) \<le>
      length (free_slots m) + nat (evictable_size_of (pcache m)) div mpage_size m"
  shows "\<exists>m' pages. allocate_paged reqs m = Inr m' \<and> manager_inv lk m' (mset pages + owned) \<and>
    concat (map (\<lambda>(t, a, b). slice (a * mpage_size m) (b * mpage_size m) (page_table m' ! the t)) (allocation_info (mpage_size m) reqs)) =
      page_to_token (mpage_size m) pages \<and>
    length (page_table m') = length (page_table m) \<and>
    (\<forall>j < length (page_table m). Some j \<notin> table_idx ` set reqs \<longrightarrow> page_table m' ! j = page_table m ! j) \<and>
    (\<forall>r \<in> set reqs. take (div_ceil (req_cached_len r) (mpage_size m) * mpage_size m) (page_table m' ! the (table_idx r)) =
        take (div_ceil (req_cached_len r) (mpage_size m) * mpage_size m) (page_table m ! the (table_idx r))) \<and>
    (\<forall>r \<in> set reqs. drop (div_ceil (device_len r) (mpage_size m) * mpage_size m) (page_table m' ! the (table_idx r)) =
        drop (div_ceil (device_len r) (mpage_size m) * mpage_size m) (page_table m ! the (table_idx r)) \<and>
        length (page_table m' ! the (table_idx r)) = length (page_table m ! the (table_idx r))) \<and>
    available_size m' = available_size m - int (length pages * mpage_size m)"
  by (rule allocate_paged_rows[OF assms])

theorem allocate_paged_fills_rows_witness:
  "\<exists>m' pages. allocate_paged [commit_req\<lparr>table_idx := Some 1, req_cached_len := 3\<rparr>] demo_manager = Inr m' \<and>
     manager_inv (\<lambda>_. 0) m' (mset pages + {#4, 8#}) \<and> slice 4 6 (page_table m' ! 1) = page_to_token 2 pages"
proof -
  let ?r = "commit_req\<lparr>table_idx := Some 1, req_cached_len := 3\<rparr>"
  have f: "rows_fit demo_manager [?r]" by (simp add: rows_fit_def demo_manager_def commit_req_def div_ceil_def)
  have k: "sum_list (map (\<lambda>r. div_ceil (device_len r) (mpage_size demo_manager) - div_ceil (req_cached_len r) (mpage_size demo_manager)) [?r]) \<le>
      length (free_slots demo_manager) + nat (evictable_size_of (pcache demo_manager)) div mpage_size demo_manager" by code_simp
  have i: "mpage_size demo_manager = 2" "allocation_info 2 [?r] = [(Some 1, 2, 3)]" by code_simp+
  obtain m' pages where "allocate_paged [?r] demo_manager = Inr m'" "manager_inv (\<lambda>_. 0) m' (mset pages + {#4, 8#})"
    "concat (map (\<lambda>(t, a, b). slice (a * 2) (b * 2) (page_table m' ! the t)) [(Some 1, 2, 3)]) = page_to_token 2 pages"
    using allocate_paged_fills_rows[OF demo_manager_inv[of "\<lambda>_. 0"] f k] unfolding i by blast
  then show ?thesis by (intro exI[of _ m'] exI[of _ pages]) simp
qed

text \<open>C30: \<^verbatim>\<open>check_integrity\<close> detects what it is there to detect. On a sound prefix cache it raises exactly when the free state
  slots and those in the tree exceed the pool, when the free and the cached pages are not the committed ones, or when a free
  page is misaligned; so, under the manager's invariants, it accepts a manager that is idle and raises
  \<^verbatim>\<open>RuntimeError\<close> as soon as some page is owned by nobody it can see.\<close>

theorem check_integrity_detects:
  assumes "prefix_inv lk (mpage_size m) (pcache m)" "is_hybrid (pcache m) \<longrightarrow> linear_state_pool m \<noteq> None"
  shows "check_integrity m =
      (if \<exists>h p. pcache m = PHybrid h \<and> linear_state_pool m = Some p \<and> num_slots p \<le> length (pool_free p) + size (slots_held h)
       then Inl AssertionError
       else if length (free_slots m) + length (prefix_pages (pcache m)) \<noteq> committed_pages m then Inl RuntimeError
       else if \<exists>v \<in> set (free_slots m). v mod int (mpage_size m) \<noteq> 0 then Inl AssertionError
       else Inr ()) \<and>
    (\<forall>owned held. manager_inv lk m owned \<and> slots_inv m held \<and> (\<forall>p. linear_state_pool m = Some p \<longrightarrow> 0 < num_slots p) \<longrightarrow>
      check_integrity m = (if owned = {#} then Inr () else Inl RuntimeError))"
  using check_integrity_cases[OF assms] check_integrity_owned by blast

theorem check_integrity_detects_witness:
  "check_integrity demo_manager = Inl RuntimeError \<and>
   (\<exists>m :: int manager. manager_inv (\<lambda>_. 0) m {#} \<and> is_hybrid (pcache m) \<and> check_integrity m = Inr ())"
proof
  have p: "linear_state_pool demo_manager = None" "slots_inv demo_manager {#}" "\<not> is_hybrid (pcache demo_manager)"
    by (simp_all add: demo_manager_def slots_inv_def)
  have "prefix_inv (\<lambda>_. 0) (mpage_size demo_manager) (pcache demo_manager)"
    using demo_manager_inv by (simp add: manager_inv_def)
  note c = conjunct2[OF check_integrity_detects[OF this], rule_format, of "{#4, 8#}" "{#}"]
  have "check_integrity demo_manager = (if ({#4, 8#} :: int multiset) = {#} then Inr () else Inl RuntimeError)"
    by (rule c) (use p demo_manager_inv in simp_all)
  then show "check_integrity demo_manager = Inl RuntimeError" by simp
next
  define m :: "int manager" where "m = \<lparr>free_slots = [], committed_pages = 2, num_pages = 2, page_index_offset = 0, mpage_size = 2,
     pcache = PHybrid demo_hybrid, linear_state_pool = Some (demo_pool\<lparr>num_slots := 9, pool_free := [1]\<rparr>), page_table = [],
     chunk_snapshots = True, mamba_donation_skips = 0, pin_state = demo_ledger\<rparr>"
  note d = demo_hybrid_manager(1,2)[folded m_def]
  have h: "is_hybrid (pcache m)" "linear_state_pool m \<noteq> None" "\<forall>p. linear_state_pool m = Some p \<longrightarrow> 0 < num_slots p"
    by (simp_all add: m_def)
  have "prefix_inv (\<lambda>_. 0) (mpage_size m) (pcache m)" using d(1) by (simp add: manager_inv_def)
  note c = conjunct2[OF check_integrity_detects[OF this], rule_format, of "{#}" "{#2, 3, 4, 5, 6#}"]
  have "check_integrity m = (if ({#} :: int multiset) = {#} then Inr () else Inl RuntimeError)"
    by (rule c) (use d h in simp_all)
  then have "check_integrity m = Inr ()" by simp
  then show "\<exists>m :: int manager. manager_inv (\<lambda>_. 0) m {#} \<and> is_hybrid (pcache m) \<and> check_integrity m = Inr ()"
    using d(1) h(1) by blast
qed

text \<open>C24: Committing a finished request leaks nothing and frees nothing twice: \<^verbatim>\<open>cache_req(finished=True)\<close> on a radix-cached
  manager releases the request's lock, and each page the request owned is afterwards either in the cache or free,
  so that the invariant holds without the request.\<close>

theorem cache_req_finished_conserves:
  assumes "req_ready s held h r m" "manager_inv lk m (mset (req_pages r m) + owned)"
  shows "\<exists>m' s'. cache_req_plain tic now r True m = Inr (m', r) \<and> manager_inv lk m' owned \<and> page_table m' = page_table m \<and>
     pcache m' = PRadix s' \<and> trace_inv (s', remove1 h held)"
  by (rule cache_req_finished[OF assms])

theorem cache_req_finished_conserves_witness:
  "\<exists>m' s'. cache_req_plain 9 9 commit_req True demo_manager = Inr (m', commit_req) \<and> manager_inv (\<lambda>_. 0) m' {#} \<and>
     pcache m' = PRadix s' \<and> trace_inv (s', [])"
proof -
  have i: "manager_inv (\<lambda>_. 0) demo_manager (mset (req_pages commit_req demo_manager) + {#})"
    unfolding commit_req_pages using demo_manager_inv by simp
  show ?thesis using cache_req_finished_conserves[OF commit_req_ready i, of 9 9] by auto
qed

text \<open>C25: Committing an unfinished request keeps it running: \<^verbatim>\<open>cache_req(finished=False)\<close> moves the request's lock to the
  longer prefix, frees the pages that others had cached meanwhile, points its row at the cache's pages there, and
  leaves the request ready for its next forward, with the invariant for the pages it still owns; no other row changes.\<close>

theorem cache_req_unfinished_ready:
  assumes "req_ready s held h r m" "manager_inv lk m (mset (req_pages r m) + owned)"
  shows "\<exists>m' s' h'. cache_req_plain tic now r False m = Inr (m', r\<lparr>req_handle := RadixH h'\<rparr>) \<and>
     req_ready s' (h' # remove1 h held) h' (r\<lparr>req_handle := RadixH h'\<rparr>) m' \<and>
     manager_inv lk m' (mset (req_pages (r\<lparr>req_handle := RadixH h'\<rparr>) m') + owned) \<and>
     cached_len h' = align_down (req_cached_len r) (mpage_size m) \<and>
     (\<forall>j. Some j \<noteq> table_idx r \<longrightarrow> page_table m' ! j = page_table m ! j)"
  by (rule cache_req_unfinished[OF assms])

theorem cache_req_unfinished_ready_witness:
  "\<exists>m' s' h'. cache_req_plain 9 9 commit_req False demo_manager = Inr (m', commit_req\<lparr>req_handle := RadixH h'\<rparr>) \<and>
     req_ready s' [h'] h' (commit_req\<lparr>req_handle := RadixH h'\<rparr>) m' \<and> cached_len h' = 4"
proof -
  have i: "manager_inv (\<lambda>_. 0) demo_manager (mset (req_pages commit_req demo_manager) + {#})"
    unfolding commit_req_pages using demo_manager_inv by simp
  have "align_down (req_cached_len commit_req) (mpage_size demo_manager) = 4" by code_simp
  then show ?thesis using cache_req_unfinished_ready[OF commit_req_ready i, of 9 9] by auto
qed

text \<open>C28: \<^verbatim>\<open>ensure_mamba_slots\<close> ends and never fails: it leaves \<open>n\<close> state slots free, or as many as can be had by
  dropping every unlocked snapshot, and never more than needed; pages and slots are conserved (the invariants hold
  for the same owners), and the slots counted as available are the same before and after.\<close>

theorem ensure_mamba_slots_exact:
  assumes "manager_inv lk m owned" "slots_inv m held" "hybrid_manager m h p"
  shows "\<exists>m' h' p'. ensure_mamba_slots n m = Inr m' \<and> manager_inv lk m' owned \<and> slots_inv m' held \<and> hybrid_manager m' h' p' \<and>
     int (num_free_slots p') = max (int (num_free_slots p)) (min (int n) (int (num_free_slots p) + mamba_evictable h)) \<and>
     mamba_available_size m' = mamba_available_size m"
  using ensure_mamba_ok[OF assms, of n] assms(3)
  by (elim exE conjE) (auto simp: mamba_available_size_def hybrid_manager_def pool_of_def)

theorem ensure_mamba_slots_exact_witness:
  "\<exists>(m :: int manager) m' h' p'. mamba_available_size m = Inr 3 \<and> ensure_mamba_slots 2 m = Inr m' \<and> hybrid_manager m' h' p' \<and> num_free_slots p' = 2"
proof -
  let ?p = "demo_pool\<lparr>num_slots := 9, pool_free := [1]\<rparr>"
  have "num_free_slots ?p = 1" "mamba_evictable demo_hybrid = 2" by (simp_all add: num_free_slots_def demo_hybrid_def)
  moreover obtain m :: "int manager" where m: "hybrid_manager m demo_hybrid ?p" "manager_inv (\<lambda>_. 0) m {#}" "slots_inv m {#2, 3, 4, 5, 6#}"
    using demo_hybrid_manager by blast
  moreover have "mamba_available_size m = Inr 3"
    using m(1) by (simp add: mamba_available_size_def hybrid_manager_def pool_of_def num_free_slots_def demo_hybrid_def)
  ultimately show ?thesis using ensure_mamba_slots_exact[OF m(2,3,1), of 2] by auto
qed

end
