(* ===== verification/Cache_Commit.thy ===== *)
theory Cache_Commit
  imports Cache_Manager
begin

text \<open>
  The operations of \<^verbatim>\<open>CacheManager\<close> on the hybrid cache: pins, and the commit of a request with its state snapshots.
\<close>

section \<open>Pins on a manager\<close>

definition hybrid_of :: "'v manager \<Rightarrow> hybrid result" where
  "hybrid_of m = (case pcache m of PHybrid h \<Rightarrow> Inr h | _ \<Rightarrow> Inl AttributeError)"

definition pinning_enabled :: "'v manager \<Rightarrow> bool" where
  "pinning_enabled m \<longleftrightarrow> is_hybrid (pcache m) \<and> pin_prefix_min_tokens (pin_state m) > 0"

definition pin_budget :: "'v manager \<Rightarrow> int" where
  "pin_budget m = pin_slot_budget (case linear_state_pool m of Some p \<Rightarrow> num_slots p | None \<Rightarrow> 0) (pin_state m)"

definition pin_node_of :: "int \<Rightarrow> nat \<Rightarrow> 'v manager \<Rightarrow> ('v manager \<times> bool) result" where
  "pin_node_of now u m =
     rbind (hybrid_of m) (\<lambda>h. rbind (pin_prefix now (pin_budget m) u h (pin_state m)) (\<lambda>(h', p, ok).
       Inr (m\<lparr>pcache := PHybrid h', pin_state := p\<rparr>, ok)))"

text \<open>\<^verbatim>\<open>note_prompt_admitted\<close> of a handle, a prompt length, whether the request is a pooled probe, and its session key.\<close>

fun handle_sumless :: "cache_handle \<Rightarrow> nat" where
  "handle_sumless (HybridH x) = hh_sumless_len x"
| "handle_sumless _ = 0"

definition note_prompt_admitted ::
  "(nat \<Rightarrow> int) \<Rightarrow> cache_handle \<Rightarrow> nat \<Rightarrow> bool \<Rightarrow> string option \<Rightarrow> 'v manager \<Rightarrow> 'v manager result" where
  "note_prompt_admitted time h prompt_tokens pooled session_key m =
     (let p = pin_state m;
          m1 = m\<lparr>pin_state := p\<lparr>pin_counts := note_admitted prompt_tokens (handle_len h) pooled (handle_sumless h) (pin_counts p)\<rparr>\<rparr>
      in case (h, pcache m1) of
           (HybridH x, PHybrid c) \<Rightarrow>
             if \<not> pinning_enabled m1 \<or> handle_len h = 0 \<or> hh_node x = uuid (hroot c) then Inr m1
             else rbind (if pin_prefix_scope (pin_state m1) = ''session'' then touch_pins_through (time 0) (hh_node x) c (pin_state m1)
                         else Inr (pin_state m1)) (\<lambda>p1.
                  rbind (shared_pin_target (hh_node x) session_key c p1) (\<lambda>(c1, target).
                  let m2 = m1\<lparr>pcache := PHybrid c1, pin_state := p1\<rparr> in
                  case target of
                    None \<Rightarrow> Inr m2
                  | Some u \<Rightarrow> rbind (pin_node_of (time 1) u m2) (\<lambda>(m3, _). Inr m3)))
         | _ \<Rightarrow> Inr m1)"

definition pin_session_prefix :: "int \<Rightarrow> int \<Rightarrow> req \<Rightarrow> 'v manager \<Rightarrow> 'v manager result" where
  "pin_session_prefix tic now r m =
     (let p = pin_state m; len = align_down (req_cached_len r) (mpage_size m) in
      if pin_prefix_scope p \<noteq> ''session'' \<or> \<not> pinning_enabled m then Inr m
      else if session_id r = None then Inr m
      else if len < pin_prefix_min_tokens p then Inr m
      else rbind (hybrid_of m) (\<lambda>h.
           rbind (hybrid_match_prefix tic (take len (input_ids r)) False h) (\<lambda>(h1, mt).
           let m1 = m\<lparr>pcache := PHybrid h1\<rparr> in
           if m_node mt = uuid (hroot h1) \<or> m_cached_len mt < pin_prefix_min_tokens p then Inr m1
           else rbind (pin_node_of now (m_node mt) m1) (\<lambda>(m2, _). Inr m2))))"

text \<open>\<^verbatim>\<open>release_pins_for_admission\<close>: the pins that hold a state slot, and the loop, which ends at the latest without pins.\<close>

definition pin_holds_slot :: "hybrid \<Rightarrow> pin_ledger \<Rightarrow> pin \<Rightarrow> bool result" where
  "pin_holds_slot h p q =
     rbind (case pin_snapshots q of Some l \<Rightarrow> Inr l | None \<Rightarrow> chain (pin_node q) (hroot h)) (\<lambda>ns.
       Inr (\<exists>n \<in> set ns. map_of (pin_locked p) n = Some True))"

definition pin_candidates :: "nat \<Rightarrow> 'v manager \<Rightarrow> pin list result" where
  "pin_candidates needed m =
     (let qs = map snd (pins (pin_state m)) in
      if int needed \<le> available_size m
      then rbind (hybrid_of m) (\<lambda>h. rbind (rmap (pin_holds_slot h (pin_state m)) qs) (\<lambda>bs. Inr (map fst (filter snd (zip qs bs)))))
      else Inr qs)"

fun release_pins_loop :: "nat \<Rightarrow> nat \<Rightarrow> int \<Rightarrow> bool \<Rightarrow> 'v manager \<Rightarrow> ('v manager \<times> bool) result" where
  "release_pins_loop 0 needed mamba_needed released m = Inr (m, released)"
| "release_pins_loop (Suc fuel) needed mamba_needed released m =
     rbind (if is_hybrid (pcache m) then rbind (mamba_available_size m) (\<lambda>k. Inr (k < mamba_needed)) else Inr False) (\<lambda>short.
     if pins (pin_state m) = [] \<or> \<not> (int needed > available_size m \<or> short) then Inr (m, released)
     else rbind (pin_candidates needed m) (\<lambda>candidates.
          if candidates = [] then Inr (m, released)
          else rbind (oldest_pin candidates) (\<lambda>victim.
               rbind (hybrid_of m) (\<lambda>h.
               rbind (release_pin (pin_node victim) h (pin_state m)) (\<lambda>(h', p).
               release_pins_loop fuel needed mamba_needed True
                 (m\<lparr>pcache := PHybrid h',
                    pin_state := p\<lparr>pin_counts := (pin_counts p)\<lparr>pin_admission_releases := pin_admission_releases (pin_counts p) + 1\<rparr>\<rparr>\<rparr>))))))"

definition release_pins_for_admission :: "nat \<Rightarrow> int \<Rightarrow> 'v manager \<Rightarrow> ('v manager \<times> bool) result" where
  "release_pins_for_admission needed mamba_needed m =
     (if pins (pin_state m) = [] then Inr (m, False)
      else release_pins_loop (length (pins (pin_state m))) needed mamba_needed False m)"

definition unpin_prefixes :: "'v manager \<Rightarrow> ('v manager \<times> nat \<times> nat) result" where
  "unpin_prefixes m =
     (if pin_locked (pin_state m) = []
      then Inr (m\<lparr>pin_state := reset_pins (pin_state m)\<rparr>, pinned_prefixes (pin_counts (pin_state m)), pinned_tokens (pin_counts (pin_state m)))
      else rbind (hybrid_of m) (\<lambda>h. rbind (unpin_all h (pin_state m)) (\<lambda>(h', p, released).
             Inr (m\<lparr>pcache := PHybrid h', pin_state := p\<rparr>, released))))"

definition mamba_lock_delta :: "cache_handle option \<Rightarrow> prefix \<Rightarrow> int result" where
  "mamba_lock_delta handle pc =
     (case (handle, pc) of
        (Some (HybridH x), PHybrid h) \<Rightarrow>
          rbind (find_node (hh_node x) (hroot h)) (\<lambda>n.
            Inr (if mamba_value (attr n) \<noteq> None \<and> mamba_ref_count (attr n) = 0 then 1 else 0))
      | _ \<Rightarrow> Inr 0)"

text \<open>\<^verbatim>\<open>handle_on_path\<close>; the root is on every path.\<close>

fun node_of_handle :: "cache_handle \<Rightarrow> nat option" where
  "node_of_handle (NaiveH h) = None"
| "node_of_handle (RadixH h) = Some (hnode h)"
| "node_of_handle (HybridH h) = Some (hh_node h)"

fun root_of :: "prefix \<Rightarrow> node option" where
  "root_of PNaive = None"
| "root_of (PRadix s) = Some (root_node s)"
| "root_of (PHybrid h) = Some (hroot h)"

definition handle_on_path :: "cache_handle \<Rightarrow> cache_handle option \<Rightarrow> prefix \<Rightarrow> bool result" where
  "handle_on_path lease matched pc =
     (case matched of
        None \<Rightarrow> Inr False
      | Some mh \<Rightarrow>
          if handle_len mh < handle_len lease then Inr False
          else (case (node_of_handle mh, root_of pc) of
             (Some u, Some root) \<Rightarrow>
               rbind (chain u root) (\<lambda>p. Inr (case node_of_handle lease of None \<Rightarrow> False | Some t \<Rightarrow> t \<in> set p \<or> t = uuid root))
           | _ \<Rightarrow> Inr False))"

section \<open>The commit of a request to the hybrid cache\<close>

text \<open>Operations that read the clock several times take the readings \<open>time 0\<close>, \<open>time 1\<close>, \<open>\<dots>\<close> in order.\<close>

definition insert_snapshot ::
  "int \<Rightarrow> int \<Rightarrow> int list \<Rightarrow> int list \<Rightarrow> nat \<Rightarrow> nat option \<Rightarrow> snap_kind \<Rightarrow> 'v manager \<Rightarrow> ('v manager \<times> nat \<times> bool) result" where
  "insert_snapshot tic now ids idx slot sums kind m =
     rbind (hybrid_of m) (\<lambda>h. rbind (hybrid_insert tic now ids idx (int slot) sums kind h) (\<lambda>(h', prefix_len, mamba_exist).
       Inr (m\<lparr>pcache := PHybrid h'\<rparr>, prefix_len, mamba_exist)))"

definition pool_put_back :: "nat list \<Rightarrow> 'v manager \<Rightarrow> 'v manager result" where
  "pool_put_back slots m = rbind (pool_of m) (\<lambda>p. Inr (m\<lparr>linear_state_pool := Some (pool_release slots p)\<rparr>))"

text \<open>The slot of the ping-pong pair the forward wrote last, index \<^verbatim>\<open>1 - mamba_next_track_idx\<close>.\<close>

definition frozen_slot :: "bool \<Rightarrow> nat \<times> nat \<Rightarrow> nat" where
  "frozen_slot next_idx = (\<lambda>(a, b). if next_idx then a else b)"

definition replace_frozen :: "bool \<Rightarrow> nat \<Rightarrow> nat \<times> nat \<Rightarrow> nat \<times> nat" where
  "replace_frozen next_idx s = (\<lambda>(a, b). if next_idx then (s, b) else (a, s))"

text \<open>The pending freeze of a finishing request: the manager, the request and the length up to which its pages are dealt with.\<close>

definition donate_pending :: "(nat \<Rightarrow> int) \<Rightarrow> int list \<Rightarrow> req \<Rightarrow> 'v manager \<Rightarrow> ('v manager \<times> req \<times> nat) result" where
  "donate_pending time page_indices r m =
     (let free_upto = handle_len (req_handle r) in
      case (mamba_last_track_seqlen r, mamba_ping_pong r) of
        (Some l, Some (a, b)) \<Rightarrow>
          if 0 < l \<and> l \<le> req_cached_len r \<and> align_down l (mpage_size m) = l then
            let frozen = frozen_slot (mamba_next_track_idx r) (a, b)
            in rbind (insert_snapshot (time 0) (time 1) (take l (input_ids r)) (take l page_indices) frozen (sums_at r l) Chunk m)
                 (\<lambda>(m1, prefix_len, mamba_exist).
               rbind (pool_put_back (filter (\<lambda>s. mamba_exist \<or> s \<noteq> frozen) [a, b]) m1) (\<lambda>m2.
                 Inr (free_pages (slice free_upto (max free_upto prefix_len) page_indices) m2,
                      r\<lparr>mamba_ping_pong := None\<rparr>, max free_upto l)))
          else Inr (m, r, free_upto)
      | _ \<Rightarrow> Inr (m, r, free_upto))"

text \<open>A hybrid request always has a live slot here; without one the insertion would store no snapshot.\<close>

definition cache_req_hybrid_finished :: "(nat \<Rightarrow> int) \<Rightarrow> req \<Rightarrow> 'v manager \<Rightarrow> ('v manager \<times> req) result" where
  "cache_req_hybrid_finished time r m =
     rbind (row_of (table_idx r) m) (\<lambda>row.
     let page_indices = take (req_cached_len r) row in
     rbind (donate_pending time page_indices r m) (\<lambda>(m1, r1, free_upto).
     let insert_len = align_down (req_cached_len r) (mpage_size m)
     in if insert_len = req_cached_len r \<and> 0 < insert_len then
          (case linear_slot_idx r of
             None \<Rightarrow> Inl AttributeError
           | Some live \<Rightarrow>
               rbind (insert_snapshot (time 2) (time 3) (take insert_len (input_ids r)) (take insert_len page_indices) live
                       (sums_at r insert_len) End m1) (\<lambda>(m2, prefix_len, mamba_exist).
               rbind (unlock (req_handle r) m2) (\<lambda>m3.
               rbind (pin_session_prefix (time 4) (time 5) r (free_pages (slice free_upto (max free_upto prefix_len) page_indices) m3)) (\<lambda>m4.
                 free_req_slots r1 (\<not> mamba_exist) m4))))
        else rbind (unlock (req_handle r) m1) (\<lambda>m2.
             rbind (pin_session_prefix (time 4) (time 5) r (free_pages (drop free_upto page_indices) m2)) (\<lambda>m3. free_req_slots r1 False m3))))"

text \<open>Donating a snapshot of the first \<open>l\<close> tokens of a running request, as the chunk commit and the segment commit do: insert it,
  release the old lock, free the pages the tree had already, match and lock the committed node, and point the row at the tree's
  pages.\<close>

definition commit_snapshot ::
  "(nat \<Rightarrow> int) \<Rightarrow> int list \<Rightarrow> nat \<Rightarrow> nat \<Rightarrow> nat option \<Rightarrow> snap_kind \<Rightarrow> req \<Rightarrow> 'v manager \<Rightarrow> ('v manager \<times> cache_handle \<times> bool) result" where
  "commit_snapshot time row l slot sums kind r m =
     (let page_indices = take (req_cached_len r) row; old_len = handle_len (req_handle r) in
      rbind (insert_snapshot (time 0) (time 1) (take l (input_ids r)) (take l page_indices) slot sums kind m) (\<lambda>(m1, prefix_len, mamba_exist).
      rbind (unlock (req_handle r) m1) (\<lambda>m2.
      let m3 = free_pages (slice old_len prefix_len page_indices) m2 in
      rbind (match_prefix_of (time 2) (take l (input_ids r)) False (pcache m3)) (\<lambda>(pc, mh, _).
      let m4 = m3\<lparr>pcache := pc\<rparr>; handle = (case mh of HybridH x \<Rightarrow> HybridH (x\<lparr>hh_sumless_len := 0\<rparr>) | y \<Rightarrow> y) in
      rbind (if prefix_len > old_len
             then rbind (matched_indices_of pc mh) (\<lambda>kv.
                  rbind (copy_into old_len prefix_len (slice old_len prefix_len kv) row) (\<lambda>row'.
                  Inr (set_row (table_idx r) row' m4)))
             else Inr m4) (\<lambda>m5.
      rbind (lock handle m5) (\<lambda>m6. Inr (m6, handle, mamba_exist)))))))"

definition cache_req_hybrid_chunk ::
  "(nat \<Rightarrow> 'v manager \<Rightarrow> 'v manager \<times> bool) option \<Rightarrow> (nat \<Rightarrow> int) \<Rightarrow> req \<Rightarrow> bool \<Rightarrow> 'v manager \<Rightarrow> ('v manager \<times> req) result" where
  "cache_req_hybrid_chunk hook time r escalate m =
     rbind (row_of (table_idx r) m) (\<lambda>row.
     let done = r\<lparr>mamba_last_track_seqlen := None\<rparr> in
     case mamba_last_track_seqlen r of
       None \<Rightarrow> Inr (m, r)
     | Some l \<Rightarrow>
         if align_down l (mpage_size m) \<noteq> l then Inr (m, done)
         else case mamba_ping_pong r of
           None \<Rightarrow> Inl TypeError
         | Some pp \<Rightarrow>
             rbind (acquire_mamba_slot hook escalate m) (\<lambda>(m1, replacement).
             case replacement of
               None \<Rightarrow> Inr (m1\<lparr>mamba_donation_skips := mamba_donation_skips m1 + 1\<rparr>, done)
             | Some s \<Rightarrow>
                 rbind (commit_snapshot time row l (frozen_slot (mamba_next_track_idx r) pp) (sums_at r l) Chunk r m1)
                   (\<lambda>(m2, handle, mamba_exist).
                 let r1 = done\<lparr>req_handle := handle\<rparr>
                 in if \<not> mamba_exist
                    then Inr (m2, r1\<lparr>mamba_ping_pong := Some (replace_frozen (mamba_next_track_idx r) s pp)\<rparr>)
                    else rbind (pool_put_back [s] m2) (\<lambda>m3. Inr (m3, r1)))))"

definition cache_req ::
  "(nat \<Rightarrow> 'v manager \<Rightarrow> 'v manager \<times> bool) option \<Rightarrow> (nat \<Rightarrow> int) \<Rightarrow> req \<Rightarrow> bool \<Rightarrow> 'v manager \<Rightarrow> ('v manager \<times> req) result" where
  "cache_req hook time r finished m =
     (if is_hybrid (pcache m)
      then if finished then cache_req_hybrid_finished time r m else cache_req_hybrid_chunk hook time r True m
      else cache_req_plain (time 0) (time 1) r finished m)"

definition commit_chunk_snapshot ::
  "(nat \<Rightarrow> 'v manager \<Rightarrow> 'v manager \<times> bool) option \<Rightarrow> (nat \<Rightarrow> int) \<Rightarrow> req \<Rightarrow> 'v manager \<Rightarrow> ('v manager \<times> req) result" where
  "commit_chunk_snapshot hook time r m =
     (if \<not> (is_hybrid (pcache m) \<and> chunk_snapshots m) \<or> table_idx r = None then Inr (m, r)
      else if mamba_last_track_seqlen r = None \<or> mamba_ping_pong r = None then Inr (m, r)
      else if hidden_states r \<noteq> None then Inr (m, r)
      else cache_req_hybrid_chunk hook time r False m)"

text \<open>\<^verbatim>\<open>commit_prefix_boundary\<close>: the manager, the previous chunk and the continuation.\<close>

definition commit_prefix_boundary ::
  "(nat \<Rightarrow> 'v manager \<Rightarrow> 'v manager \<times> bool) option \<Rightarrow> (nat \<Rightarrow> int) \<Rightarrow> req \<Rightarrow> req \<Rightarrow> nat \<Rightarrow> 'v manager \<Rightarrow> ('v manager \<times> req \<times> req) result" where
  "commit_prefix_boundary hook time prev r b m =
     (if \<not> (is_hybrid (pcache m) \<and> chunk_snapshots m) \<or> table_idx r = None then Inr (m, prev, r)
      else if linear_slot_idx r = None \<or> req_cached_len r \<noteq> b \<or> b = 0 then Inr (m, prev, r)
      else if align_down b (mpage_size m) \<noteq> b then Inr (m, prev, r)
      else rbind (acquire_mamba_slot hook False m) (\<lambda>(m1, slot).
        case slot of
          None \<Rightarrow> Inr (m1\<lparr>mamba_donation_skips := mamba_donation_skips m1 + 1\<rparr>, prev, r)
        | Some s \<Rightarrow>
            rbind (row_of (table_idx r) m1) (\<lambda>row.
            rbind (commit_snapshot time row b s None Segment r m1) (\<lambda>(m2, handle, mamba_exist).
            let r1 = r\<lparr>req_handle := handle\<rparr>; prev1 = prev\<lparr>req_handle := handle\<rparr>
            in if mamba_exist then rbind (pool_put_back [s] m2) (\<lambda>m3. Inr (m3, prev1, r1))
               else Inr (m2, prev1, r1\<lparr>mamba_boundary_copy := Some s\<rparr>)))))"

text \<open>\<^verbatim>\<open>snapshot_toolcall_anchor\<close>: the requests whose anchor is due freeze their state into the idle slot.\<close>

fun snapshot_toolcall_anchor :: "req list \<Rightarrow> 'v manager \<Rightarrow> ('v manager \<times> req list) result" where
  "snapshot_toolcall_anchor [] m = Inr (m, [])"
| "snapshot_toolcall_anchor (r # reqs) m =
     (if \<not> is_hybrid (pcache m) then Inr (m, r # reqs)
      else case (toolcall_anchor_len r, mamba_ping_pong r) of
        (Some a, Some (x, y)) \<Rightarrow>
          if mamba_last_track_seqlen r \<noteq> None \<or> req_cached_len r \<noteq> a \<or> align_down a (mpage_size m) \<noteq> a
          then rbind (snapshot_toolcall_anchor reqs m) (\<lambda>(m', rs). Inr (m', r # rs))
          else (case linear_slot_idx r of
             None \<Rightarrow> Inl TypeError
           | Some live \<Rightarrow>
               rbind (pool_of m) (\<lambda>p.
               rbind (copy_from live (if mamba_next_track_idx r then y else x) p) (\<lambda>p'.
               rbind (snapshot_toolcall_anchor reqs (m\<lparr>linear_state_pool := Some p'\<rparr>)) (\<lambda>(m', rs).
                 Inr (m', r\<lparr>mamba_last_track_seqlen := Some a, mamba_next_track_idx := \<not> mamba_next_track_idx r\<rparr> # rs)))))
      | _ \<Rightarrow> rbind (snapshot_toolcall_anchor reqs m) (\<lambda>(m', rs). Inr (m', r # rs)))"

end
