(* ===== verification/Prefill.thy ===== *)
theory Prefill
  imports Manager_Commit Cache_Commit
begin

text \<open>
  The prefill scheduler of \<^verbatim>\<open>scheduler/prefill.py\<close>: the counters it publishes (\<^verbatim>\<open>scheduler/counters.py\<close>), pending
  requests (\<^verbatim>\<open>scheduler/utils.py\<close>), \<^verbatim>\<open>PrefillAdder\<close> and \<^verbatim>\<open>PrefillManager\<close>.
\<close>

section \<open>Counters (scheduler/counters.py)\<close>

definition lane_bucket :: "nat \<Rightarrow> string" where
  "lane_bucket lanes =
     (case List.find (\<lambda>(ceiling, name). lanes \<le> ceiling)
         [(0, ''0''), (1, ''1''), (2, ''2''), (3, ''3''), (4, ''4''), (8, ''5-8''), (16, ''9-16'')] of
        Some (_, name) \<Rightarrow> name
      | None \<Rightarrow> ''17+'')"

definition empty_lane_hist :: "(string \<times> nat) list" where
  "empty_lane_hist = map (\<lambda>n. (n, 0)) [''0'', ''1'', ''2'', ''3'', ''4'', ''5-8'', ''9-16'', ''17+'']"

record prefill_counters =
  passes :: nat
  fresh_admits_blocked_by_cap :: nat
  deferred_chunks :: nat
  fresh_admits_deferred :: nat
  deferred_by :: "(string \<times> nat) list"
  refusals :: nat
  chunked_inflight_last :: nat
  chunked_inflight_max :: nat
  seatable_lanes_last :: nat
  seatable_lanes_hist :: "(string \<times> nat) list"
  match_calls :: nat
  match_tokens :: nat
  match_memo_hits :: nat
  invariant_checks :: nat
  invariant_violations :: nat
  invariant_worst_shortfall :: int

definition bump :: "string \<Rightarrow> (string \<times> nat) list \<Rightarrow> (string \<times> nat) list" where
  "bump k d = AList.update k ((case map_of d k of Some n \<Rightarrow> n | None \<Rightarrow> 0) + 1) d"

definition note_pass :: "nat \<Rightarrow> nat \<Rightarrow> prefill_counters \<Rightarrow> prefill_counters" where
  "note_pass seatable inflight c = c\<lparr>passes := passes c + 1, seatable_lanes_last := seatable,
     seatable_lanes_hist := bump (lane_bucket seatable) (seatable_lanes_hist c),
     chunked_inflight_last := inflight, chunked_inflight_max := max (chunked_inflight_max c) inflight\<rparr>"

definition note_match :: "nat \<Rightarrow> prefill_counters \<Rightarrow> prefill_counters" where
  "note_match prompt_tokens c = c\<lparr>match_calls := match_calls c + 1, match_tokens := match_tokens c + prompt_tokens\<rparr>"

definition note_invariant :: "int \<Rightarrow> prefill_counters \<Rightarrow> prefill_counters" where
  "note_invariant shortfall c =
     (let c1 = c\<lparr>invariant_checks := invariant_checks c + 1\<rparr>
      in if shortfall > 0
         then c1\<lparr>invariant_violations := invariant_violations c1 + 1,
                invariant_worst_shortfall := max (invariant_worst_shortfall c1) shortfall\<rparr>
         else c1)"

section \<open>Pending requests and the adder\<close>

record pending =
  p_uid :: int
  p_input_ids :: "int list"
  p_output_len :: nat
  chunked_req :: "req option"
  p_mm_items :: "mm_item list"
  p_session_id :: "string option"
  p_hidden_states :: "hidden_spec option"
  p_no_prefix_cache :: bool
  p_pin_key :: "string option"
  p_prefix_boundary :: "nat option"

definition input_len :: "pending \<Rightarrow> nat" where
  "input_len p = length (p_input_ids p)"

text \<open>
  \<^verbatim>\<open>PrefillAdder\<close> together with the objects it shares with its manager: the cache manager, the table manager (whose page table is
  the cache manager's), the memo and the counters. \<open>clock\<close> lists the readings of the monotonic clock still to come, \<open>next_id\<close> the
  next object identity.
\<close>

record 'v adder =
  ad_cm :: "'v manager"
  ad_tm :: table_manager
  token_budget :: int
  reserved_size :: int
  reserved_pages :: int
  pass_budget :: int
  refusal :: string
  keep_images_whole :: bool
  match_memo :: "(int \<times> cache_handle \<times> int option) list option"
  ad_counters :: "prefill_counters option"
  clock :: "nat \<Rightarrow> int"
  next_id :: nat

text \<open>The class defines \<^verbatim>\<open>__post_init__\<close> twice; Python keeps the second definition only.\<close>

definition adder_post_init :: "'v adder \<Rightarrow> 'v adder" where
  "adder_post_init a = (if pass_budget a = 0 then a\<lparr>pass_budget := token_budget a\<rparr> else a)"

definition tick :: "nat \<Rightarrow> 'v adder \<Rightarrow> 'v adder" where
  "tick k a = a\<lparr>clock := (\<lambda>i. clock a (i + k))\<rparr>"

definition pooled_probe :: "pending \<Rightarrow> bool" where
  "pooled_probe p = (case p_hidden_states p of None \<Rightarrow> False | Some sp \<Rightarrow> pooling sp)"

definition adder_match :: "pending \<Rightarrow> 'v adder \<Rightarrow> ('v adder \<times> cache_handle \<times> int option) result" where
  "adder_match p a =
     (case (case match_memo a of None \<Rightarrow> None | Some memo \<Rightarrow> map_of memo (p_uid p)) of
        Some hit \<Rightarrow> Inr (a\<lparr>ad_counters := map_option (\<lambda>c. c\<lparr>match_memo_hits := match_memo_hits c + 1\<rparr>) (ad_counters a)\<rparr>, hit)
      | None \<Rightarrow>
          rbind (match_req (clock a 0) (p_input_ids p) (p_no_prefix_cache p) (pooled_probe p) (ad_cm a)) (\<lambda>(cm, mr).
            Inr (tick 1 (a\<lparr>ad_cm := cm, ad_counters := map_option (note_match (input_len p)) (ad_counters a),
                   match_memo := map_option (AList.update (p_uid p) mr) (match_memo a)\<rparr>), mr)))"

definition invalidate_match_memo :: "'v adder \<Rightarrow> 'v adder" where
  "invalidate_match_memo a = a\<lparr>match_memo := map_option (\<lambda>_. []) (match_memo a)\<rparr>"

definition headroom :: "'v adder \<Rightarrow> int" where
  "headroom a =
     (if token_budget a \<le> 0 \<or> table_available (ad_tm a) = 0 then 0
      else max 0 (available_size (ad_cm a) - reserved_size a))"

definition page_span :: "int \<Rightarrow> int \<Rightarrow> 'v adder \<Rightarrow> int" where
  "page_span start e a =
     (let ps = int (mpage_size (ad_cm a)) in (div_ceil e ps - div_ceil start ps) * ps)"

definition kv_gate_ok :: "int \<Rightarrow> 'v adder \<Rightarrow> bool" where
  "kv_gate_ok estimated_size a \<longleftrightarrow> estimated_size + reserved_size a \<le> available_size (ad_cm a)"

definition kv_chunk_end :: "int \<Rightarrow> 'v adder \<Rightarrow> int" where
  "kv_chunk_end clen a =
     (let ps = int (mpage_size (ad_cm a)); pages = max 0 (available_size (ad_cm a) - reserved_pages a) div ps
      in (div_ceil clen ps + pages) * ps)"

definition kv_reservation_size :: "int \<Rightarrow> int \<Rightarrow> 'v adder \<Rightarrow> int" where
  "kv_reservation_size total_len clen a =
     (let ps = int (mpage_size (ad_cm a)) in (div_ceil total_len ps - div_ceil clen ps) * ps)"

definition write_tokens :: "nat \<Rightarrow> nat \<Rightarrow> nat \<Rightarrow> int list \<Rightarrow> 'v adder \<Rightarrow> 'v adder result" where
  "write_tokens row a b ids ad =
     rbind (py_nth (token_pool (ad_tm ad)) row) (\<lambda>toks.
     rbind (copy_into a b ids toks) (\<lambda>toks'.
       Inr (ad\<lparr>ad_tm := (ad_tm ad)\<lparr>token_pool := (token_pool (ad_tm ad))[row := toks']\<rparr>\<rparr>)))"

type_synonym resource = "cache_handle \<times> nat \<times> nat option \<times> (nat \<times> nat) option \<times> int option"

definition refuse :: "cache_handle \<Rightarrow> 'v adder \<Rightarrow> ('v adder \<times> resource option) result" where
  "refuse h a = rbind (unlock h (ad_cm a)) (\<lambda>cm. Inr (a\<lparr>ad_cm := cm\<rparr>, None))"

text \<open>The state slots of a fresh request: its live slot and the two ping-pong slots.\<close>

definition take_states :: "'v adder \<Rightarrow> ('v adder \<times> nat option \<times> (nat \<times> nat) option) result" where
  "take_states a =
     (if is_hybrid (pcache (ad_cm a))
      then rbind (pool_of (ad_cm a)) (\<lambda>p.
           rbind (pool_alloc 1 p) (\<lambda>(p1, s1). rbind (py_nth s1 0) (\<lambda>live.
           rbind (pool_alloc 2 p1) (\<lambda>(p2, s2). rbind (py_nth s2 0) (\<lambda>x. rbind (py_nth s2 1) (\<lambda>y.
             Inr (a\<lparr>ad_cm := (ad_cm a)\<lparr>linear_state_pool := Some p2\<rparr>\<rparr>, Some live, Some (x, y))))))))
      else Inr (a, None, None))"

definition write_matched :: "nat \<Rightarrow> nat \<Rightarrow> pending \<Rightarrow> cache_handle \<Rightarrow> 'v adder \<Rightarrow> 'v adder result" where
  "write_matched row clen p h a =
     (if clen > 0
      then rbind (write_tokens row 0 clen (take clen (p_input_ids p)) a) (\<lambda>a1.
           rbind (matched_indices_of (pcache (ad_cm a1)) h) (\<lambda>matched.
           rbind (row_of (Some row) (ad_cm a1)) (\<lambda>entries.
           rbind (copy_into (clen - length matched) clen matched entries) (\<lambda>entries'.
             Inr (a1\<lparr>ad_cm := set_row (Some row) entries' (ad_cm a1)\<rparr>)))))
      else Inr a)"

text \<open>\<^verbatim>\<open>_try_allocate_one\<close> on a manager without a sliding-window pool.\<close>

definition reserve_states ::
  "(nat \<Rightarrow> 'v manager \<Rightarrow> 'v manager \<times> bool) option \<Rightarrow> 'v adder \<Rightarrow> ('v adder \<times> bool) result" where
  "reserve_states hook a =
     (if is_hybrid (pcache (ad_cm a))
      then let a1 = (case linear_state_pool (ad_cm a) of
                       None \<Rightarrow> invalidate_match_memo a
                     | Some p \<Rightarrow> if num_free_slots p < 3 then invalidate_match_memo a else a)
           in rbind (reserve_mamba_slots hook 3 True (ad_cm a1)) (\<lambda>(cm, ok). Inr (a1\<lparr>ad_cm := cm\<rparr>, ok))
      else Inr (a, True))"

definition try_allocate_one ::
  "(nat \<Rightarrow> 'v manager \<Rightarrow> 'v manager \<times> bool) option \<Rightarrow> pending \<Rightarrow> 'v adder \<Rightarrow> ('v adder \<times> resource option) result" where
  "try_allocate_one hook p a =
     (let a0 = a\<lparr>refusal := ''table''\<rparr> in
      if table_available (ad_tm a0) = 0 then Inr (a0, None)
      else rbind (adder_match p a0) (\<lambda>(a1, h, mv).
        let clen = handle_len h;
            estimated_size = kv_reservation_size (int (input_len p) + int (p_output_len p)) (int clen) a1;
            a2 = a1\<lparr>refusal := ''kv''\<rparr>
        in if \<not> kv_gate_ok estimated_size a2 then Inr (a2, None)
           else rbind (lock h (ad_cm a2)) (\<lambda>cm.
             let a3 = a2\<lparr>ad_cm := cm\<rparr> in
             if \<not> kv_gate_ok estimated_size a3 then refuse h a3
             else rbind (reserve_states hook (a3\<lparr>refusal := ''mamba''\<rparr>)) (\<lambda>(a4, ok).
               if \<not> ok then refuse h a4
               else let a5 = a4\<lparr>refusal := ''chunk''\<rparr> in
                 rbind (table_allocate (ad_tm a5)) (\<lambda>(tm, row).
                 rbind (write_matched row clen p h (a5\<lparr>ad_tm := tm\<rparr>)) (\<lambda>a6.
                 rbind (take_states a6) (\<lambda>(a7, live, pp). Inr (a7, Some (h, row, live, pp, mv)))))))))"

definition segment_cut :: "pending \<Rightarrow> 'v adder \<Rightarrow> nat option" where
  "segment_cut p a =
     (case p_prefix_boundary p of
        None \<Rightarrow> None
      | Some b \<Rightarrow>
          if \<not> (is_hybrid (pcache (ad_cm a)) \<and> chunk_snapshots (ad_cm a)) then None
          else if p_hidden_states p \<noteq> None \<or> p_no_prefix_cache p then None
          else let b' = align_down b (mpage_size (ad_cm a))
               in if 0 < b' \<and> b' < input_len p then Some b' else None)"

text \<open>The size of the next chunk of \<^verbatim>\<open>_add_one_req\<close>; \<open>None\<close> when the request has to wait.\<close>

definition image_cut :: "pending \<Rightarrow> nat \<Rightarrow> int \<Rightarrow> int \<Rightarrow> nat \<Rightarrow> 'v adder \<Rightarrow> int option" where
  "image_cut p clen remain chunk al a =
     (if keep_images_whole a \<and> p_mm_items p \<noteq> [] \<and> chunk < remain
      then let e = mm_chunk_end (p_mm_items p) clen (clen + nat chunk) (if al > 1 then al else 1)
           in case List.find (\<lambda>(lo, hi). lo < e \<and> e < hi) (all_spans (p_mm_items p)) of
                Some (_, hi) \<Rightarrow>
                  if token_budget a < pass_budget a \<and> int hi - int clen \<le> pass_budget a then None
                  else Some (int e - int clen)
              | None \<Rightarrow> Some (int e - int clen)
      else Some chunk)"

definition capped_chunk :: "pending \<Rightarrow> nat \<Rightarrow> int option \<Rightarrow> 'v adder \<Rightarrow> int" where
  "capped_chunk p clen limit a =
     (let c0 = min (token_budget a) (int (input_len p) - int clen);
          c1 = (case limit of Some l \<Rightarrow> min c0 l | None \<Rightarrow> c0)
      in min c1 (max (kv_chunk_end (int clen) a - int clen) 0))"

definition chunk_size_of :: "pending \<Rightarrow> nat \<Rightarrow> int option \<Rightarrow> 'v adder \<Rightarrow> int option" where
  "chunk_size_of p clen limit a =
     (let remain = int (input_len p) - int clen; c2 = capped_chunk p clen limit a in
      if c2 \<le> 0 then None
      else let al = prefill_chunk_align (ad_cm a);
               c3 = (if al > 1 \<and> 0 < c2 \<and> c2 < remain
                     then let aligned = align_down (int clen + c2) (int al) - int clen
                          in if aligned > 0 then aligned else c2
                     else c2);
               c4 = (case segment_cut p a of
                       Some b \<Rightarrow> if clen < b \<and> int b < int clen + c3 then int b - int clen else c3
                     | None \<Rightarrow> c3)
           in image_cut p clen remain c4 al a)"

definition add_one_req ::
  "pending \<Rightarrow> cache_handle \<Rightarrow> nat option \<Rightarrow> nat \<Rightarrow> nat option \<Rightarrow> (nat \<times> nat) option \<Rightarrow> bool \<Rightarrow> int option \<Rightarrow> int option \<Rightarrow>
   'v adder \<Rightarrow> ('v adder \<times> (req \<times> bool) option) result" where
  "add_one_req p h row clen live pp next_idx restore_src limit a =
     (case chunk_size_of p clen limit a of
        None \<Rightarrow> Inr (a, None)
      | Some chunk \<Rightarrow>
          let is_chunked = (chunk < int (input_len p) - int clen);
              a1 = a\<lparr>token_budget := token_budget a - chunk,
                     reserved_size := reserved_size a + (if chunked_req p = None
                       then kv_reservation_size (int (input_len p) + int (p_output_len p)) (int clen) a else 0),
                     reserved_pages := reserved_pages a + page_span (int clen) (int clen + chunk) a\<rparr>;
              e = clen + nat chunk;
              i = (case row of Some i \<Rightarrow> i | None \<Rightarrow> length (token_pool (ad_tm a1)) - 1)
          in rbind (write_tokens i clen e (slice clen e (p_input_ids p)) a1) (\<lambda>a2.
             rbind (req_init (next_id a2) (p_uid p) (take e (p_input_ids p)) row clen (p_output_len p) h (p_session_id p)) (\<lambda>r.
               Inr (a2\<lparr>next_id := next_id a2 + 1\<rparr>,
                    Some (r\<lparr>hidden_states := p_hidden_states p, no_prefix_cache := p_no_prefix_cache p, pin_key := p_pin_key p,
                            prefix_boundary := p_prefix_boundary p, mm_items := p_mm_items p, linear_slot_idx := live,
                            mamba_ping_pong := pp, mamba_next_track_idx := next_idx, mamba_restore_src := restore_src\<rparr>,
                          is_chunked)))))"

text \<open>\<^verbatim>\<open>try_add_one\<close>: the adder, the pending request (whose chunk may have been committed) and the request admitted, if any, with
  whether it is a \<^verbatim>\<open>ChunkedReq\<close>.\<close>

definition try_add_one ::
  "(nat \<Rightarrow> 'v manager \<Rightarrow> 'v manager \<times> bool) option \<Rightarrow> pending \<Rightarrow> int option \<Rightarrow> 'v adder \<Rightarrow>
   ('v adder \<times> pending \<times> (req \<times> bool) option) result" where
  "try_add_one hook p limit a =
     (let a0 = a\<lparr>refusal := ''''\<rparr> in
      if token_budget a0 \<le> 0 then Inr (a0, p, None)
      else case chunked_req p of
        Some c \<Rightarrow>
          rbind (commit_chunk_snapshot hook (clock a0) c (ad_cm a0)) (\<lambda>(cm, c1).
          let a1 = tick 3 (a0\<lparr>ad_cm := cm\<rparr>); p1 = p\<lparr>chunked_req := Some c1\<rparr> in
          rbind (add_one_req p1 (req_handle c1) (table_idx c1) (req_cached_len c1) (linear_slot_idx c1) (mamba_ping_pong c1)
                   (mamba_next_track_idx c1) None limit a1) (\<lambda>(a2, got).
          case (got, segment_cut p1 a2) of
            (Some (r, is_chunked), Some b) \<Rightarrow>
              if req_cached_len c1 = b
              then rbind (commit_prefix_boundary hook (clock a2) c1 r b (ad_cm a2)) (\<lambda>(cm2, c2, r2).
                     Inr (tick 3 (a2\<lparr>ad_cm := cm2\<rparr>), p1\<lparr>chunked_req := Some c2\<rparr>, Some (r2, is_chunked)))
              else Inr (a2, p1, got)
          | _ \<Rightarrow> Inr (a2, p1, got)))
      | None \<Rightarrow>
          rbind (try_allocate_one hook p a0) (\<lambda>(a1, res).
          case res of
            None \<Rightarrow> Inr (a1, p, None)
          | Some (h, row, live, pp, mv) \<Rightarrow>
              rbind (add_one_req p h (Some row) (handle_len h) live pp False mv limit a1) (\<lambda>(a2, got).
              case got of
                Some x \<Rightarrow> Inr (a2, p, got)
              | None \<Rightarrow>
                  rbind (unlock h (ad_cm a2)) (\<lambda>cm.
                  let a3 = a2\<lparr>ad_cm := cm, ad_tm := table_free row (ad_tm a2)\<rparr> in
                  case (live, pp) of
                    (Some l, Some (x, y)) \<Rightarrow> rbind (pool_put_back [l, x, y] (ad_cm a3)) (\<lambda>cm'. Inr (a3\<lparr>ad_cm := cm'\<rparr>, p, None))
                  | _ \<Rightarrow> Inr (a3, p, None)))))"

definition would_seat :: "pending \<Rightarrow> int \<Rightarrow> int \<Rightarrow> 'v adder \<Rightarrow> ('v adder \<times> bool) result" where
  "would_seat p table_free_n mamba_free a =
     (let ps = int (mpage_size (ad_cm a)) in
      case chunked_req p of
        Some c \<Rightarrow>
          if kv_chunk_end (int (req_cached_len c)) a - int (req_cached_len c) \<le> 0 then Inr (a, False)
          else Inr (a\<lparr>reserved_pages := reserved_pages a + ps\<rparr>, True)
      | None \<Rightarrow>
          if table_free_n \<le> 0 then Inr (a, False)
          else rbind (adder_match p a) (\<lambda>(a1, h, _).
            let clen = int (handle_len h); extend = int (input_len p) - clen in
            if \<not> kv_gate_ok (kv_reservation_size (int (input_len p) + int (p_output_len p)) clen a1) a1 then Inr (a1, False)
            else if is_hybrid (pcache (ad_cm a1)) \<and> mamba_free < 3 then Inr (a1, False)
            else if kv_chunk_end clen a1 - clen \<le> 0 then Inr (a1, False)
            else Inr (a1\<lparr>reserved_size := reserved_size a1 + extend + int (p_output_len p),
                         reserved_pages := reserved_pages a1 + ps\<rparr>, True)))"

section \<open>The prefill manager\<close>

record 'v prefill_manager =
  pm_cm :: "'v manager"
  pm_tm :: table_manager
  pm_dm :: decode_manager
  pm_encoder_cache :: "nat encoder_cache option"
  pm_keep_images_whole :: bool
  pending_list :: "pending list"
  interleave_chunks :: bool
  max_batch_seqs :: nat
  small_prompt_group_tokens :: nat
  max_chunked_prefills :: nat
  pm_counters :: prefill_counters
  pm_memo :: "(int \<times> cache_handle \<times> int option) list"
  pm_clock :: "nat \<Rightarrow> int"
  pm_next_id :: nat

definition standing_of :: "pending list \<Rightarrow> int" where
  "standing_of ps =
     sum_list (map (\<lambda>p. case chunked_req p of
         None \<Rightarrow> 0
       | Some c \<Rightarrow> max 0 (int (input_len p) - int (req_cached_len c)) + int (p_output_len p)) ps)"

definition standing_reservation :: "'v prefill_manager \<Rightarrow> int" where
  "standing_reservation pm = standing_of (pending_list pm)"

definition finishability_reservation :: "'v prefill_manager \<Rightarrow> int" where
  "finishability_reservation pm = standing_reservation pm + inflight_tokens (pm_dm pm)"

text \<open>\<^verbatim>\<open>_check_finishability\<close>; \<open>mode\<close> is the value of the environment variable, the log line is not modelled.\<close>

definition check_finishability :: "int \<Rightarrow> string \<Rightarrow> 'v prefill_manager \<Rightarrow> 'v prefill_manager result" where
  "check_finishability standing mode pm =
     (let owed = standing + inflight_tokens (pm_dm pm); budget = available_size (pm_cm pm);
          pm1 = pm\<lparr>pm_counters := note_invariant (owed - budget) (pm_counters pm)\<rparr>
      in if owed \<le> budget then Inr pm1
         else if mode = [] then Inr pm1
         else if mode = ''raise'' then Inl AssertionError
         else Inr pm1)"

definition pm_add_one_req :: "pending \<Rightarrow> 'v prefill_manager \<Rightarrow> 'v prefill_manager" where
  "pm_add_one_req p pm = pm\<lparr>pending_list := pending_list pm @ [p\<lparr>chunked_req := None\<rparr>]\<rparr>"

fun abort_pending :: "int \<Rightarrow> pending list \<Rightarrow> pending list \<times> req option" where
  "abort_pending u [] = ([], None)"
| "abort_pending u (p # ps) =
     (if p_uid p = u then (ps, chunked_req p)
      else case abort_pending u ps of (ps', r) \<Rightarrow> (p # ps', r))"

definition pm_abort_req :: "int \<Rightarrow> 'v prefill_manager \<Rightarrow> 'v prefill_manager \<times> req option" where
  "pm_abort_req u pm = (case abort_pending u (pending_list pm) of (ps, r) \<Rightarrow> (pm\<lparr>pending_list := ps\<rparr>, r))"

definition pm_runnable :: "'v prefill_manager \<Rightarrow> bool" where
  "pm_runnable pm \<longleftrightarrow> pending_list pm \<noteq> []"

text \<open>\<^verbatim>\<open>_seatable_lanes\<close>: the scan runs on a copy of the adder but shares its cache manager, memo and counters.\<close>

fun seat_loop :: "nat \<Rightarrow> nat \<Rightarrow> pending list \<Rightarrow> int \<Rightarrow> int \<Rightarrow> nat \<Rightarrow> nat \<Rightarrow> 'v adder \<Rightarrow> ('v adder \<times> nat) result" where
  "seat_loop cap lane_cap [] table_n mamba_n inflight seatable scan = Inr (scan, seatable)"
| "seat_loop cap lane_cap (p # ps) table_n mamba_n inflight seatable scan =
     (let is_fresh = (chunked_req p = None) in
      if is_fresh \<and> inflight \<ge> cap then seat_loop cap lane_cap ps table_n mamba_n inflight seatable scan
      else rbind (would_seat p table_n mamba_n scan) (\<lambda>(scan1, ok).
        if \<not> ok then Inr (scan1, seatable)
        else let seatable1 = seatable + 1;
                 table1 = (if is_fresh then table_n - 1 else table_n);
                 mamba1 = (if is_fresh then mamba_n - 3 else mamba_n);
                 inflight1 = (if is_fresh then inflight + 1 else inflight)
             in if lane_cap > 0 \<and> seatable1 \<ge> lane_cap then Inr (scan1, seatable1)
                else seat_loop cap lane_cap ps table1 mamba1 inflight1 seatable1 scan1))"

definition seatable_lanes :: "'v prefill_manager \<Rightarrow> nat \<Rightarrow> nat \<Rightarrow> 'v adder \<Rightarrow> ('v adder \<times> nat) result" where
  "seatable_lanes pm lane_cap inflight a =
     rbind (if is_hybrid (pcache (ad_cm a)) then mamba_available_size (ad_cm a) else Inr 0) (\<lambda>mamba_n.
     rbind (seat_loop (max_chunked_prefills pm) lane_cap (pending_list pm) (int (table_available (ad_tm a))) mamba_n inflight 0
              (adder_post_init a)) (\<lambda>(scan, n).
       Inr (a\<lparr>ad_cm := ad_cm scan, match_memo := match_memo scan, ad_counters := ad_counters scan, clock := clock scan\<rparr>, n)))"

text \<open>The state of the admission loop of \<^verbatim>\<open>schedule_next_batch\<close>. \<open>kept\<close> are the pending requests that were not admitted, in order.\<close>

record 'v pass_state =
  ps_adder :: "'v adder"
  batch_reqs :: "(req \<times> bool) list"
  chunked_list :: "pending list"
  kept :: "pending list"
  prompt_admissions :: "(int \<times> nat \<times> nat) list"
  prefix_notes :: "(cache_handle \<times> nat \<times> bool \<times> string option) list"
  log_new_tokens :: int
  log_cached_tokens :: nat
  chunked_inflight :: nat
  stopped_for_lane_cap :: bool
  ps_encoder_cache :: "nat encoder_cache option"

definition py_or :: "string option \<Rightarrow> string option \<Rightarrow> string option" where
  "py_or x y = (case x of Some s \<Rightarrow> if s = [] then y else x | None \<Rightarrow> y)"

definition note_admission :: "pending \<Rightarrow> req \<Rightarrow> 'v pass_state \<Rightarrow> 'v pass_state" where
  "note_admission p r st =
     (let pooled = (case p_hidden_states p of None \<Rightarrow> False | Some sp \<Rightarrow> pooling sp \<and> \<not> has_directory sp);
          cl = handle_len (req_handle r)
      in st\<lparr>prompt_admissions := prompt_admissions st @ [(uid r, input_len p, cl)],
            prefix_notes := prefix_notes st @ [(req_handle r, input_len p, pooled, py_or (pin_key r) (session_id r))],
            log_cached_tokens := log_cached_tokens st + cl,
            ps_encoder_cache := map_option (\<lambda>enc. fold (\<lambda>item. enc_register (mm_hash item) (uid r) (int (mm_rows_after item cl)))
              (p_mm_items p) enc) (ps_encoder_cache st)\<rparr>)"

definition count_in :: "(prefill_counters \<Rightarrow> prefill_counters) \<Rightarrow> 'v pass_state \<Rightarrow> 'v pass_state" where
  "count_in f st = st\<lparr>ps_adder := (ps_adder st)\<lparr>ad_counters := map_option f (ad_counters (ps_adder st))\<rparr>\<rparr>"

text \<open>What an admitted request changes: the pending request (as \<^verbatim>\<open>try_add_one\<close> left it), the request, and whether it is a chunk.\<close>

definition admit :: "pending \<Rightarrow> bool \<Rightarrow> req \<Rightarrow> bool \<Rightarrow> 'v pass_state \<Rightarrow> 'v pass_state" where
  "admit p is_continuation r is_chunked st =
     (let st1 = (if is_chunked
                 then count_in (\<lambda>c. c\<lparr>deferred_chunks := deferred_chunks c + 1\<rparr>)
                   (st\<lparr>chunked_list := chunked_list st @ [p\<lparr>chunked_req := Some r\<rparr>],
                       chunked_inflight := (if is_continuation then chunked_inflight st else chunked_inflight st + 1)\<rparr>)
                 else st\<lparr>chunked_inflight := (if is_continuation then chunked_inflight st - 1 else chunked_inflight st)\<rparr>);
          st2 = st1\<lparr>batch_reqs := batch_reqs st1 @ [(r, is_chunked)], log_new_tokens := log_new_tokens st1 + extend_len r\<rparr>
      in if is_continuation then st2 else note_admission p r st2)"

fun pass_loop ::
  "(nat \<Rightarrow> 'v manager \<Rightarrow> 'v manager \<times> bool) option \<Rightarrow> nat \<Rightarrow> nat \<Rightarrow> nat \<Rightarrow> pending list \<Rightarrow> 'v pass_state \<Rightarrow> 'v pass_state result" where
  "pass_loop hook cap lane_cap seatable [] st = Inr st"
| "pass_loop hook cap lane_cap seatable (p # ps) st =
     (let is_continuation = (chunked_req p \<noteq> None) in
      if \<not> is_continuation \<and> chunked_inflight st \<ge> cap
      then pass_loop hook cap lane_cap seatable ps
             (count_in (\<lambda>c. c\<lparr>fresh_admits_blocked_by_cap := fresh_admits_blocked_by_cap c + 1\<rparr>) (st\<lparr>kept := kept st @ [p]\<rparr>))
      else
        let limit = (if seatable > 0
                     then Some (max 1 (token_budget (ps_adder st) div max 1 (int seatable - int (length (batch_reqs st)))))
                     else None)
        in rbind (try_add_one hook p limit (ps_adder st)) (\<lambda>(a, p1, got).
           case got of
             Some (r, is_chunked) \<Rightarrow>
               let st1 = admit p1 is_continuation r is_chunked (st\<lparr>ps_adder := a\<rparr>)
               in if lane_cap > 0 \<and> length (batch_reqs st1) \<ge> lane_cap
                  then Inr (st1\<lparr>stopped_for_lane_cap := (ps \<noteq> []), kept := kept st1 @ ps\<rparr>)
                  else pass_loop hook cap lane_cap seatable ps st1
           | None \<Rightarrow>
               let st1 = st\<lparr>ps_adder := a, kept := kept st @ [p1]\<rparr>
               in if \<not> is_continuation \<and> headroom a > 0
                  then pass_loop hook cap lane_cap seatable ps
                         (count_in (\<lambda>c. c\<lparr>fresh_admits_deferred := fresh_admits_deferred c + 1,
                            deferred_by := bump (if refusal a = '''' then ''other'' else refusal a) (deferred_by c)\<rparr>) st1)
                  else Inr (count_in (\<lambda>c. c\<lparr>refusals := refusals c + 1\<rparr>) (st1\<lparr>kept := kept st1 @ ps\<rparr>))))"

definition lane_cap_of :: "int \<Rightarrow> 'v prefill_manager \<Rightarrow> nat" where
  "lane_cap_of budget pm =
     (let cap = max_batch_seqs pm; ps = pending_list pm in
      if cap = 1 \<and> small_prompt_group_tokens pm > 0 \<and> length ps > 1 \<and>
         (\<forall>p \<in> set ps. chunked_req p = None \<and> input_len p \<le> small_prompt_group_tokens pm) \<and>
         int (sum_list (map input_len ps)) \<le> budget
      then 0 else cap)"

definition inflight_chunks :: "'v prefill_manager \<Rightarrow> nat" where
  "inflight_chunks pm = length (filter (\<lambda>p. chunked_req p \<noteq> None) (pending_list pm))"

definition start_adder :: "int \<Rightarrow> 'v prefill_manager \<Rightarrow> 'v adder" where
  "start_adder budget pm = adder_post_init
     \<lparr>ad_cm = pm_cm pm, ad_tm = pm_tm pm, token_budget = budget,
      reserved_size = inflight_tokens (pm_dm pm) + standing_reservation pm, reserved_pages = inflight_tokens (pm_dm pm),
      pass_budget = 0, refusal = '''', keep_images_whole = pm_keep_images_whole pm, match_memo = Some (pm_memo pm),
      ad_counters = Some (pm_counters pm), clock = pm_clock pm, next_id = pm_next_id pm\<rparr>"

definition start_state :: "nat \<Rightarrow> 'v adder \<Rightarrow> 'v prefill_manager \<Rightarrow> 'v pass_state" where
  "start_state inflight a pm =
     \<lparr>ps_adder = a, batch_reqs = [], chunked_list = [], kept = [], prompt_admissions = [], prefix_notes = [], log_new_tokens = 0,
      log_cached_tokens = 0, chunked_inflight = inflight, stopped_for_lane_cap = False, ps_encoder_cache = pm_encoder_cache pm\<rparr>"

text \<open>The manager after a pass: the shared objects are those of the adder; the queue changes only when something was admitted. In
  the other case the requests that stay are those of the queue, with the chunks committed in the pass.\<close>

definition pm_after :: "'v pass_state \<Rightarrow> 'v prefill_manager \<Rightarrow> 'v prefill_manager" where
  "pm_after st pm =
     (let a = ps_adder st in
      pm\<lparr>pm_cm := ad_cm a, pm_tm := ad_tm a, pm_memo := (case match_memo a of Some memo \<Rightarrow> memo | None \<Rightarrow> pm_memo pm),
         pm_counters := (case ad_counters a of Some c \<Rightarrow> c | None \<Rightarrow> pm_counters pm), pm_clock := clock a, pm_next_id := next_id a,
         pm_encoder_cache := ps_encoder_cache st,
         pending_list := (if batch_reqs st = [] then kept st
                          else if interleave_chunks pm \<and> stopped_for_lane_cap st then kept st @ chunked_list st
                          else chunked_list st @ kept st)\<rparr>)"

definition schedule_prefill ::
  "(nat \<Rightarrow> 'v manager \<Rightarrow> 'v manager \<times> bool) option \<Rightarrow> string \<Rightarrow> int \<Rightarrow> 'v prefill_manager \<Rightarrow>
   ('v prefill_manager \<times> 'v pass_state option) result" where
  "schedule_prefill hook mode budget pm =
     (if pending_list pm = [] then Inr (pm, None)
      else let pm0 = pm\<lparr>pm_memo := []\<rparr>; lane_cap = lane_cap_of budget pm0; standing = standing_reservation pm0
        in rbind (check_finishability standing mode pm0) (\<lambda>pm1.
           let a = start_adder budget pm1; inflight = inflight_chunks pm1 in
           rbind (if interleave_chunks pm1 \<and> length (pending_list pm1) > 1 then seatable_lanes pm1 lane_cap inflight a
                  else Inr (a, 0)) (\<lambda>(a1, seatable).
           let st0 = count_in (note_pass seatable inflight) (start_state inflight a1 pm1) in
           rbind (pass_loop hook (max_chunked_prefills pm1) lane_cap seatable (pending_list pm1) st0) (\<lambda>st.
             Inr (pm_after st pm1, if batch_reqs st = [] then None else Some st)))))"

end
