(* ===== verification/Prefill_Pass.thy ===== *)
theory Prefill_Pass
  imports Prefill "HOL-Library.Sublist"
begin

text \<open>
  What a prefill pass admits: the bounds of a chunk, what an admission spends, and the admission loop as a step relation with the
  invariants of its token budget, its queue and its lanes.
\<close>

section \<open>Chunks\<close>

lemma align_down_int: "0 < (b::int) \<Longrightarrow> align_down a b \<le> a"
  using minus_mod_eq_div_mult[of a b] pos_mod_sign[of b a] unfolding align_down_def by linarith

lemma image_cut_bounds:
  assumes "image_cut p clen remain chunk al a = Some c" "0 < chunk"
  shows "0 < c \<and> c \<le> chunk"
proof (cases "keep_images_whole a \<and> p_mm_items p \<noteq> [] \<and> chunk < remain")
  case True
  let ?e = "mm_chunk_end (p_mm_items p) clen (clen + nat chunk) (if al > 1 then al else 1)"
  have "clen < ?e \<and> ?e \<le> clen + nat chunk"
    using mm_chunk_end_ok[of clen "clen + nat chunk" "if al > 1 then al else 1" "p_mm_items p" ?e] assms(2) by auto
  moreover have "c = int ?e - int clen" using assms(1) True by (auto simp: image_cut_def Let_def split: option.splits if_splits)
  ultimately show ?thesis using assms(2) by linarith
qed (use assms in \<open>auto simp: image_cut_def\<close>)

lemma chunk_size_bounds:
  assumes "chunk_size_of p clen limit a = Some c"
  shows "0 < c" "c \<le> token_budget a" "c \<le> int (input_len p) - int clen" "int clen + c \<le> kv_chunk_end (int clen) a"
    "\<forall>l. limit = Some l \<longrightarrow> c \<le> l"
proof -
  define remain where "remain = int (input_len p) - int clen"
  define c1 where "c1 = (case limit of Some l \<Rightarrow> min (min (token_budget a) remain) l | None \<Rightarrow> min (token_budget a) remain)"
  define c2 where "c2 = min c1 (max (kv_chunk_end (int clen) a - int clen) 0)"
  define al where "al = prefill_chunk_align (ad_cm a)"
  define c3 where "c3 = (if al > 1 \<and> 0 < c2 \<and> c2 < remain
      then let aligned = align_down (int clen + c2) (int al) - int clen in if aligned > 0 then aligned else c2 else c2)"
  define c4 where "c4 = (case segment_cut p a of Some b \<Rightarrow> if clen < b \<and> int b < int clen + c3 then int b - int clen else c3 | None \<Rightarrow> c3)"
  have e: "chunk_size_of p clen limit a = (if c2 \<le> 0 then None else image_cut p clen remain c4 al a)"
    by (simp only: chunk_size_of_def capped_chunk_def Let_def c4_def c3_def c2_def c1_def al_def remain_def)
  have c2: "0 < c2" using assms e by (auto split: if_splits)
  then have i: "image_cut p clen remain c4 al a = Some c" using assms e by simp
  have c3: "0 < c3" "c3 \<le> c2" using c2 align_down_int[of "int al" "int clen + c2"] by (auto simp: c3_def Let_def)
  have c4: "0 < c4" "c4 \<le> c3" using c3(1) by (auto simp: c4_def split: option.splits)
  have c: "0 < c" "c \<le> c2" using image_cut_bounds[OF i c4(1)] c3 c4 by auto
  show "0 < c" by fact
  have "c2 \<le> c1" "c2 \<le> max (kv_chunk_end (int clen) a - int clen) 0" by (simp_all add: c2_def)
  then show "int clen + c \<le> kv_chunk_end (int clen) a" using c c2 by linarith
  have c1: "c1 \<le> token_budget a" "c1 \<le> remain" "\<And>l. limit = Some l \<Longrightarrow> c1 \<le> l" by (auto simp: c1_def split: option.splits)
  show "c \<le> token_budget a" "c \<le> int (input_len p) - int clen" using c c1 \<open>c2 \<le> c1\<close> by (auto simp: remain_def)
  show "\<forall>l. limit = Some l \<longrightarrow> c \<le> l" using c c1(3) \<open>c2 \<le> c1\<close> by force
qed

text \<open>What \<^verbatim>\<open>_add_one_req\<close> charges for the chunk it makes.\<close>

lemma add_one_req_some:
  assumes "add_one_req p h row clen live pp nx rs limit a = Inr (a', Some (r, ch))"
  obtains c where "chunk_size_of p clen limit a = Some c" "token_budget a' = token_budget a - c" "extend_len r = c"
    "reserved_pages a' = reserved_pages a + page_span (int clen) (int clen + c) a" "ad_cm a' = ad_cm a"
    "req_cached_len r = clen" "int (device_len r) = int clen + c" "uid r = p_uid p" "req_handle r = h"
    "ch \<longleftrightarrow> device_len r < input_len p" "match_memo a' = match_memo a" "free_rows (ad_tm a') = free_rows (ad_tm a)"
    "input_ids r = take (device_len r) (p_input_ids p)" "table_idx r = row"
proof -
  obtain c where c: "chunk_size_of p clen limit a = Some c" using assms by (auto simp: add_one_req_def split: option.splits)
  note B = chunk_size_bounds[OF c]
  have len: "clen + nat c \<le> length (p_input_ids p)" using B(1,3) by (simp add: input_len_def)
  show thesis
    by (rule that[OF c]; use assms c B len in \<open>auto simp: add_one_req_def Let_def rbind_eq_Inr write_tokens_def req_init_def py_assert_eq_Inr
      extend_len_def input_len_def split: option.splits\<close>)
qed

lemma add_one_req_none:
  assumes "add_one_req p h row clen live pp nx rs limit a = Inr (a', None)"
  shows "a' = a"
  using assms by (auto simp: add_one_req_def Let_def rbind_eq_Inr split: option.splits)

section \<open>What an admission leaves alone\<close>

definition same_budgets :: "'v adder \<Rightarrow> 'v adder \<Rightarrow> bool" where
  "same_budgets a a' \<longleftrightarrow> token_budget a' = token_budget a \<and> reserved_size a' = reserved_size a \<and> reserved_pages a' = reserved_pages a"

lemma same_budgets_trans: "same_budgets a b \<Longrightarrow> same_budgets b c \<Longrightarrow> same_budgets a c"
  by (simp add: same_budgets_def)

lemma same_budgets_simps [simp]:
  "same_budgets a a"
  "same_budgets a (b\<lparr>refusal := x\<rparr>) = same_budgets a b" "same_budgets (b\<lparr>refusal := x\<rparr>) a = same_budgets b a"
  "same_budgets a (b\<lparr>ad_cm := cm\<rparr>) = same_budgets a b" "same_budgets (b\<lparr>ad_cm := cm\<rparr>) a = same_budgets b a"
  "same_budgets a (b\<lparr>ad_tm := tm\<rparr>) = same_budgets a b" "same_budgets (b\<lparr>ad_tm := tm\<rparr>) a = same_budgets b a"
  "same_budgets a (b\<lparr>ad_counters := cs\<rparr>) = same_budgets a b" "same_budgets a (b\<lparr>match_memo := memo\<rparr>) = same_budgets a b"
  "same_budgets a (tick k b) = same_budgets a b" "same_budgets a (invalidate_match_memo b) = same_budgets a b"
  by (simp_all add: same_budgets_def tick_def invalidate_match_memo_def)

lemma adder_match_same: "adder_match p a = Inr (a', h, mv) \<Longrightarrow> same_budgets a a'"
  by (auto simp: adder_match_def rbind_eq_Inr split: option.splits)

lemma write_tokens_same: "write_tokens row x y ids a = Inr a' \<Longrightarrow> same_budgets a a'"
  by (auto simp: write_tokens_def rbind_eq_Inr)

lemma write_matched_same: "write_matched row clen p h a = Inr a' \<Longrightarrow> same_budgets a a'"
  by (auto simp: write_matched_def rbind_eq_Inr split: if_splits dest: write_tokens_same)

lemma reserve_states_same: "reserve_states hook a = Inr (a', ok) \<Longrightarrow> same_budgets a a'"
  by (auto simp: reserve_states_def rbind_eq_Inr Let_def split: if_splits option.splits)

lemma take_states_same: "take_states a = Inr (a', x) \<Longrightarrow> same_budgets a a'"
  by (auto simp: take_states_def rbind_eq_Inr split: if_splits)

lemma refuse_same: "refuse h a = Inr (a', x) \<Longrightarrow> same_budgets a a' \<and> x = None"
  by (auto simp: refuse_def rbind_eq_Inr)

lemma try_allocate_one_same:
  assumes "try_allocate_one hook p a = Inr (a', res)"
  shows "same_budgets a a'"
proof -
  let ?a0 = "a\<lparr>refusal := ''table''\<rparr>"
  show ?thesis
  proof (cases "table_available (ad_tm ?a0) = 0")
    case True
    then show ?thesis using assms by (auto simp: try_allocate_one_def)
  next
    case False
    then obtain a1 h mv where m: "adder_match p ?a0 = Inr (a1, h, mv)"
      using assms by (auto simp: try_allocate_one_def Let_def rbind_eq_Inr)
    have s1: "same_budgets a a1" using adder_match_same[OF m] by simp
    let ?g = "kv_reservation_size (int (input_len p) + int (p_output_len p)) (int (handle_len h)) a1"
    note rest = assms[unfolded try_allocate_one_def Let_def if_not_P[OF False] m rbind_simps prod.case]
    show ?thesis
    proof (cases "kv_gate_ok ?g (a1\<lparr>refusal := ''kv''\<rparr>)")
      case False
      then show ?thesis using rest s1 by auto
    next
      case True
      with rest obtain cm where l: "lock h (ad_cm (a1\<lparr>refusal := ''kv''\<rparr>)) = Inr cm" by (auto simp: rbind_eq_Inr)
      note rest = rest[unfolded l rbind_simps] 
      show ?thesis
      proof (cases "kv_gate_ok ?g (a1\<lparr>refusal := ''kv'', ad_cm := cm\<rparr>)")
        case False
        then show ?thesis using rest True s1 refuse_same same_budgets_trans by fastforce
      next
        case g2: True
        then obtain a4 ok where r: "reserve_states hook (a1\<lparr>refusal := ''kv'', ad_cm := cm, refusal := ''mamba''\<rparr>) = Inr (a4, ok)"
          using rest True by (auto simp: rbind_eq_Inr)
        have s4: "same_budgets a a4" using reserve_states_same[OF r] s1 same_budgets_trans by fastforce
        show ?thesis
        proof (cases ok)
          case False
          then have "refuse h a4 = Inr (a', res)" using rest True g2 r by simp
          then show ?thesis using s4 refuse_same same_budgets_trans by blast
        next
          case True
          with rest g2 r \<open>kv_gate_ok ?g (a1\<lparr>refusal := ''kv''\<rparr>)\<close> obtain tm row a6 live pp where
            w: "write_matched row (handle_len h) p h (a4\<lparr>refusal := ''chunk'', ad_tm := tm\<rparr>) = Inr a6" "take_states a6 = Inr (a', live, pp)"
            by (auto simp: rbind_eq_Inr)
          have "same_budgets a4 a6" using write_matched_same[OF w(1)] by simp
          then show ?thesis using same_budgets_trans[OF same_budgets_trans[OF s4]] take_states_same[OF w(2)] by blast
        qed
      qed
    qed
  qed
qed

lemma cache_req_hybrid_chunk_frame:
  "cache_req_hybrid_chunk hook time r esc m = Inr (m', r') \<Longrightarrow> req_cached_len r' = req_cached_len r"
  unfolding cache_req_hybrid_chunk_def Let_def
  by (auto elim!: rbindE split: option.splits if_splits prod.splits)

lemma commit_chunk_snapshot_frame:
  "commit_chunk_snapshot hook time r m = Inr (m', r') \<Longrightarrow> req_cached_len r' = req_cached_len r"
  by (auto simp: commit_chunk_snapshot_def split: if_splits dest: cache_req_hybrid_chunk_frame)

lemma commit_prefix_boundary_frame:
  "commit_prefix_boundary hook time prev r b m = Inr (m', prev', r') \<Longrightarrow>
   uid r' = uid r \<and> extend_len r' = extend_len r \<and> device_len r' = device_len r \<and> req_cached_len r' = req_cached_len r \<and>
   input_ids r' = input_ids r"
  unfolding commit_prefix_boundary_def Let_def
  by (auto elim!: rbindE simp: extend_len_def split: option.splits if_splits prod.splits)

text \<open>The outcome of \<^verbatim>\<open>try_add_one\<close> on every kind of cache: what it spends of the token budget, and which request it makes.\<close>

lemma try_add_one_budget:
  assumes "try_add_one hook p limit a = Inr (a', p1, got)"
  shows "(\<exists>x. p1 = p\<lparr>chunked_req := x\<rparr> \<and> (x = None \<longleftrightarrow> chunked_req p = None)) \<and>
    (case got of None \<Rightarrow> token_budget a' = token_budget a
     | Some (r, ch) \<Rightarrow> token_budget a' = token_budget a - extend_len r \<and> 1 \<le> extend_len r \<and> extend_len r \<le> token_budget a \<and>
         uid r = p_uid p \<and> (ch \<longleftrightarrow> device_len r < input_len p) \<and> input_ids r = take (device_len r) (p_input_ids p))"
proof (cases "token_budget a \<le> 0")
  case True
  then show ?thesis using assms by (auto simp: try_add_one_def Let_def intro: exI[of _ "chunked_req p"])
next
  case tb: False
  show ?thesis
  proof (cases "chunked_req p")
    case (Some c)
    with assms tb obtain cm c1 where c: "commit_chunk_snapshot hook (clock a) c (ad_cm a) = Inr (cm, c1)"
      by (auto simp: try_add_one_def Let_def rbind_eq_Inr)
    let ?a1 = "tick 3 (a\<lparr>refusal := '''', ad_cm := cm\<rparr>)" and ?p1 = "p\<lparr>chunked_req := Some c1\<rparr>"
    have b1: "token_budget ?a1 = token_budget a" by (simp add: tick_def)
    from assms tb Some c obtain a2 g where r: "add_one_req ?p1 (req_handle c1) (table_idx c1) (req_cached_len c1) (linear_slot_idx c1)
        (mamba_ping_pong c1) (mamba_next_track_idx c1) None limit ?a1 = Inr (a2, g)"
      by (auto simp: try_add_one_def Let_def rbind_eq_Inr)
    show ?thesis
    proof (cases g)
      case None
      then have "a' = a2" "p1 = ?p1" "got = None" using assms tb Some c r by (auto simp: try_add_one_def Let_def)
      moreover have "a2 = ?a1" using add_one_req_none r None by blast
      ultimately show ?thesis using b1 Some by (auto intro!: exI[of _ "Some c1"])
    next
      case (Some g')
      then obtain r0 ch where g: "g = Some (r0, ch)" by (cases g') auto
      obtain k where k: "chunk_size_of ?p1 (req_cached_len c1) limit ?a1 = Some k" "token_budget a2 = token_budget ?a1 - k"
        "extend_len r0 = k" "uid r0 = p_uid ?p1" "ch \<longleftrightarrow> device_len r0 < input_len ?p1"
        "input_ids r0 = take (device_len r0) (p_input_ids ?p1)"
        by (rule add_one_req_some[OF r[unfolded g]])
      note B = chunk_size_bounds[OF k(1)]
      have R: "\<exists>x r1. p1 = p\<lparr>chunked_req := Some x\<rparr> \<and> got = Some (r1, ch) \<and> uid r1 = uid r0 \<and> extend_len r1 = extend_len r0 \<and>
          device_len r1 = device_len r0 \<and> input_ids r1 = input_ids r0 \<and> token_budget a' = token_budget a2"
        using assms tb \<open>chunked_req p = Some c\<close> c r g
        by (auto simp: try_add_one_def Let_def rbind_eq_Inr tick_def split: option.splits if_splits dest!: commit_prefix_boundary_frame)
      have "input_len ?p1 = input_len p" by (simp add: input_len_def)
      then show ?thesis using R k B b1 \<open>chunked_req p = Some c\<close> by auto
    qed
  next
    case None
    with assms tb obtain a1 res where t: "try_allocate_one hook p (a\<lparr>refusal := ''''\<rparr>) = Inr (a1, res)"
      by (auto simp: try_add_one_def Let_def rbind_eq_Inr)
    have b1: "token_budget a1 = token_budget a" using try_allocate_one_same[OF t] by (simp add: same_budgets_def)
    show ?thesis
    proof (cases res)
      case None
      then show ?thesis using assms tb t \<open>chunked_req p = None\<close> b1 by (auto simp: try_add_one_def Let_def intro: exI[of _ None])
    next
      case (Some x)
      then obtain h row live pp mv where res: "res = Some (h, row, live, pp, mv)" by (metis prod_cases5)
      with assms tb t \<open>chunked_req p = None\<close> obtain a2 g where r: "add_one_req p h (Some row) (handle_len h) live pp False mv limit a1 = Inr (a2, g)"
        by (auto simp: try_add_one_def Let_def rbind_eq_Inr)
      show ?thesis
      proof (cases g)
        case None
        then have "a2 = a1" using add_one_req_none r by blast
        moreover have "p1 = p" "got = None" "token_budget a' = token_budget a2"
          using assms tb t \<open>chunked_req p = None\<close> res r None
          by (cases live; cases pp; auto simp: try_add_one_def Let_def elim!: rbindE)+
        ultimately show ?thesis using b1 \<open>chunked_req p = None\<close> by (auto intro!: exI[of _ None])
      next
        case (Some g')
        then obtain r0 ch where g: "g = Some (r0, ch)" by (cases g') auto
        obtain k where k: "chunk_size_of p (handle_len h) limit a1 = Some k" "token_budget a2 = token_budget a1 - k"
          "extend_len r0 = k" "uid r0 = p_uid p" "ch \<longleftrightarrow> device_len r0 < input_len p"
          "input_ids r0 = take (device_len r0) (p_input_ids p)"
          by (rule add_one_req_some[OF r[unfolded g]])
        have "a' = a2" "p1 = p" "got = Some (r0, ch)" using assms tb t \<open>chunked_req p = None\<close> res r g
          by (auto simp: try_add_one_def Let_def)
        then show ?thesis using k chunk_size_bounds[OF k(1)] b1 \<open>chunked_req p = None\<close> by (auto intro!: exI[of _ None])
      qed
    qed
  qed
qed

section \<open>The pass as a step relation\<close>

text \<open>
  One step of the admission loop: it takes the first of the prompts still to look at and skips it, admits it, keeps it, or
  leaves the loop.
\<close>

inductive pass_step ::
  "(nat \<Rightarrow> 'v manager \<Rightarrow> 'v manager \<times> bool) option \<Rightarrow> nat \<Rightarrow> nat \<Rightarrow> pending list \<times> 'v pass_state \<Rightarrow> pending list \<times> 'v pass_state \<Rightarrow> bool"
  for hook cap lane_cap where
  skipped: "chunked_req p = None \<Longrightarrow> cap \<le> chunked_inflight st \<Longrightarrow>
    pass_step hook cap lane_cap (p # ps, st) (ps, count_in f (st\<lparr>kept := kept st @ [p]\<rparr>))"
| admitted: "try_add_one hook p limit (ps_adder st) = Inr (a, p1, Some (r, ch)) \<Longrightarrow>
    chunked_req p \<noteq> None \<or> chunked_inflight st < cap \<Longrightarrow> lane_cap = 0 \<or> length (batch_reqs st) < lane_cap \<Longrightarrow>
    pass_step hook cap lane_cap (p # ps, st) (ps, admit p1 (chunked_req p \<noteq> None) r ch (st\<lparr>ps_adder := a\<rparr>))"
| deferred: "try_add_one hook p limit (ps_adder st) = Inr (a, p1, None) \<Longrightarrow>
    pass_step hook cap lane_cap (p # ps, st) (ps, count_in f (st\<lparr>ps_adder := a, kept := kept st @ [p1]\<rparr>))"
| stopped: "pass_step hook cap lane_cap (ps, st) ([], st\<lparr>kept := kept st @ ps, stopped_for_lane_cap := b\<rparr>)"

inductive_cases pass_stepE: "pass_step hook cap lane_cap (ps, st) (ps', st')"

lemma count_in_simps [simp]:
  "batch_reqs (count_in f st) = batch_reqs st" "kept (count_in f st) = kept st" "chunked_list (count_in f st) = chunked_list st"
  "chunked_inflight (count_in f st) = chunked_inflight st" "log_new_tokens (count_in f st) = log_new_tokens st"
  "token_budget (ps_adder (count_in f st)) = token_budget (ps_adder st)"
  "reserved_size (ps_adder (count_in f st)) = reserved_size (ps_adder st)"
  "reserved_pages (ps_adder (count_in f st)) = reserved_pages (ps_adder st)"
  "ad_cm (ps_adder (count_in f st)) = ad_cm (ps_adder st)" "ad_tm (ps_adder (count_in f st)) = ad_tm (ps_adder st)"
  "match_memo (ps_adder (count_in f st)) = match_memo (ps_adder st)"
  "stopped_for_lane_cap (count_in f st) = stopped_for_lane_cap st"
  by (simp_all add: count_in_def)

lemma count_in_kept: "(count_in f st)\<lparr>kept := x\<rparr> = count_in f (st\<lparr>kept := x\<rparr>)"
  by (simp add: count_in_def)

lemma admit_simps [simp]:
  "batch_reqs (admit p c r ch st) = batch_reqs st @ [(r, ch)]" "kept (admit p c r ch st) = kept st"
  "chunked_list (admit p c r ch st) = chunked_list st @ (if ch then [p\<lparr>chunked_req := Some r\<rparr>] else [])"
  "chunked_inflight (admit p c r ch st) =
     (if ch then chunked_inflight st + (if c then 0 else 1) else chunked_inflight st - (if c then 1 else 0))"
  "log_new_tokens (admit p c r ch st) = log_new_tokens st + extend_len r"
  "token_budget (ps_adder (admit p c r ch st)) = token_budget (ps_adder st)"
  "reserved_size (ps_adder (admit p c r ch st)) = reserved_size (ps_adder st)"
  "reserved_pages (ps_adder (admit p c r ch st)) = reserved_pages (ps_adder st)"
  "ad_cm (ps_adder (admit p c r ch st)) = ad_cm (ps_adder st)" "ad_tm (ps_adder (admit p c r ch st)) = ad_tm (ps_adder st)"
  "match_memo (ps_adder (admit p c r ch st)) = match_memo (ps_adder st)"
  by (simp_all add: admit_def note_admission_def Let_def)

lemma pass_loop_steps:
  assumes "pass_loop hook cap lane_cap seatable ps st = Inr st'" "lane_cap = 0 \<or> length (batch_reqs st) < lane_cap"
  shows "(pass_step hook cap lane_cap)\<^sup>*\<^sup>* (ps, st) ([], st')"
  using assms
proof (induction ps arbitrary: st)
  case Nil
  then show ?case by simp
next
  case (Cons p ps)
  let ?limit = "if seatable > 0
    then Some (max 1 (token_budget (ps_adder st) div max 1 (int seatable - int (length (batch_reqs st))))) else None"
  show ?case
  proof (cases "chunked_req p = None \<and> cap \<le> chunked_inflight st")
    case True
    then have "(pass_step hook cap lane_cap)\<^sup>*\<^sup>*
        (ps, count_in (\<lambda>c. c\<lparr>fresh_admits_blocked_by_cap := fresh_admits_blocked_by_cap c + 1\<rparr>) (st\<lparr>kept := kept st @ [p]\<rparr>)) ([], st')"
      using Cons by (auto intro!: Cons.IH)
    then show ?thesis using True by (blast intro: converse_rtranclp_into_rtranclp skipped)
  next
    case guard: False
    then obtain a p1 got where t: "try_add_one hook p ?limit (ps_adder st) = Inr (a, p1, got)"
      using Cons.prems(1) by (auto simp: Let_def rbind_eq_Inr simp del: max_def)
    note L = Cons.prems(1)[simplified, unfolded Let_def if_not_P[OF guard] t rbind_simps prod.case]
    show ?thesis
    proof (cases got)
      case None
      let ?st = "st\<lparr>ps_adder := a, kept := kept st @ [p1]\<rparr>"
      note D = deferred[OF t[unfolded None]]
      show ?thesis
      proof (cases "chunked_req p = None \<and> headroom a > 0")
        case True
        with L None obtain f where "pass_loop hook cap lane_cap seatable ps (count_in f ?st) = Inr st'" by auto
        then have "(pass_step hook cap lane_cap)\<^sup>*\<^sup>* (ps, count_in f ?st) ([], st')" using Cons.prems(2) by (intro Cons.IH) auto
        then show ?thesis by (blast intro: converse_rtranclp_into_rtranclp D)
      next
        case False
        with L None obtain f where "st' = count_in f (?st\<lparr>kept := kept ?st @ ps\<rparr>)" by auto
        then have "st' = (count_in f ?st)\<lparr>kept := kept (count_in f ?st) @ ps, stopped_for_lane_cap := stopped_for_lane_cap st\<rparr>"
          by (simp add: count_in_def)
        then have "pass_step hook cap lane_cap (ps, count_in f ?st) ([], st')" using stopped by metis
        then show ?thesis using D[of cap lane_cap ps f] by (blast intro: converse_rtranclp_into_rtranclp)
      qed
    next
      case (Some x)
      then obtain r ch where g: "got = Some (r, ch)" by (cases x) auto
      let ?st = "admit p1 (chunked_req p \<noteq> None) r ch (st\<lparr>ps_adder := a\<rparr>)"
      have A: "pass_step hook cap lane_cap (p # ps, st) (ps, ?st)"
        using admitted[OF t[unfolded g]] guard Cons.prems(2) by auto
      have "(pass_step hook cap lane_cap)\<^sup>*\<^sup>* (ps, ?st) ([], st')"
      proof (cases "lane_cap > 0 \<and> length (batch_reqs ?st) \<ge> lane_cap")
        case True
        with L g have "st' = ?st\<lparr>kept := kept ?st @ ps, stopped_for_lane_cap := (ps \<noteq> [])\<rparr>" by auto
        then show ?thesis using stopped by (metis r_into_rtranclp)
      next
        case False
        with L g show ?thesis by (intro Cons.IH) (auto simp del: admit_simps)
      qed
      then show ?thesis using A by (rule converse_rtranclp_into_rtranclp[rotated])
    qed
  qed
qed

section \<open>Invariants of a pass\<close>

definition prompt_of :: "pending \<Rightarrow> pending" where
  "prompt_of p = p\<lparr>chunked_req := None\<rparr>"

definition in_flight :: "pending list \<Rightarrow> nat" where
  "in_flight ps = length (filter (\<lambda>p. chunked_req p \<noteq> None) ps)"

definition batch_tokens :: "(req \<times> bool) list \<Rightarrow> int" where
  "batch_tokens rs = (\<Sum>(r, ch)\<leftarrow>rs. extend_len r)"

lemma pass_simps [simp]:
  "batch_tokens (rs @ [(r, ch)]) = batch_tokens rs + extend_len r" "batch_tokens [] = 0"
  "in_flight (ps @ qs) = in_flight ps + in_flight qs" "in_flight [] = 0"
  "in_flight (p # ps) = (if chunked_req p = None then 0 else 1) + in_flight ps"
  by (simp_all add: batch_tokens_def in_flight_def)

text \<open>The queue a state stands for: the prompts kept, the chunks begun and the prompts still to look at.\<close>

definition queue_of :: "pending list \<times> 'v pass_state \<Rightarrow> pending list" where
  "queue_of s = kept (snd s) @ chunked_list (snd s) @ fst s"

definition tokens_inv :: "int \<Rightarrow> pending list \<times> 'v pass_state \<Rightarrow> bool" where
  "tokens_inv B s \<longleftrightarrow> (let st = snd s in token_budget (ps_adder st) + log_new_tokens st = B \<and>
     log_new_tokens st = batch_tokens (batch_reqs st) \<and> (\<forall>(r, ch) \<in> set (batch_reqs st). 1 \<le> extend_len r) \<and>
     min 0 B \<le> token_budget (ps_adder st))"

definition lanes_inv :: "nat \<Rightarrow> nat \<Rightarrow> nat \<Rightarrow> pending list \<times> 'v pass_state \<Rightarrow> bool" where
  "lanes_inv cap lane_cap N s \<longleftrightarrow> (lane_cap = 0 \<or> length (batch_reqs (snd s)) \<le> lane_cap) \<and>
     chunked_inflight (snd s) = in_flight (queue_of s) \<and> chunked_inflight (snd s) \<le> max cap N"

lemma try_add_one_none:
  assumes "try_add_one hook p limit a = Inr (a', p1, None)"
  shows "prompt_of p1 = prompt_of p" "chunked_req p1 = None \<longleftrightarrow> chunked_req p = None" "token_budget a' = token_budget a"
  using try_add_one_budget[OF assms] by (auto simp: prompt_of_def)

lemma try_add_one_got:
  assumes "try_add_one hook p limit a = Inr (a', p1, Some (r, ch))"
  shows "prompt_of p1 = prompt_of p" "chunked_req p1 = None \<longleftrightarrow> chunked_req p = None" "token_budget a' = token_budget a - extend_len r"
    "1 \<le> extend_len r" "extend_len r \<le> token_budget a"
  using try_add_one_budget[OF assms] by (auto simp: prompt_of_def)

lemma tokens_step:
  assumes "pass_step hook cap lane_cap s s'" "tokens_inv B s"
  shows "tokens_inv B s'"
  using assms
proof (cases rule: pass_step.cases)
  case (admitted p limit st a p1 r ch ps)
  note G = try_add_one_got[OF admitted(3)]
  have "min 0 B \<le> token_budget a" using G(3,5) by simp
  then show ?thesis using assms(2) G admitted(1,2) by (auto simp: tokens_inv_def Let_def)
qed (use assms(2) in \<open>auto simp: tokens_inv_def Let_def dest: try_add_one_none(3)\<close>)

lemma lanes_step:
  assumes "pass_step hook cap lane_cap s s'" "lanes_inv cap lane_cap N s"
  shows "lanes_inv cap lane_cap N s'"
  using assms
proof (cases rule: pass_step.cases)
  case (admitted p limit st a p1 r ch ps)
  then show ?thesis using assms(2) by (cases "chunked_req p") (auto simp: lanes_inv_def queue_of_def)
qed (use assms(2) in \<open>auto simp: lanes_inv_def queue_of_def dest: try_add_one_none(2)\<close>)

lemma prompt_of_chunk [simp]: "prompt_of (p\<lparr>chunked_req := x\<rparr>) = prompt_of p"
  by (simp add: prompt_of_def)

text \<open>Where a prompt stands: its contents, and how much of it is computed if it has begun.\<close>

definition prompt_stage :: "pending \<Rightarrow> pending \<times> nat option" where
  "prompt_stage p = (prompt_of p, map_option req_cached_len (chunked_req p))"

definition serves_with :: "pending \<Rightarrow> req \<Rightarrow> bool \<Rightarrow> bool" where
  "serves_with p r ch \<longleftrightarrow> uid r = p_uid p \<and> input_ids r = take (device_len r) (p_input_ids p) \<and>
     (ch \<longleftrightarrow> device_len r < input_len p) \<and> (\<forall>c. chunked_req p = Some c \<longrightarrow> req_cached_len r = req_cached_len c)"

lemma try_add_one_chunk:
  assumes "try_add_one hook p limit a = Inr (a', p1, got)" "chunked_req p = Some c"
  shows "case got of None \<Rightarrow> \<exists>c1. p1 = p\<lparr>chunked_req := Some c1\<rparr> \<and> req_cached_len c1 = req_cached_len c
     | Some (r, ch) \<Rightarrow> req_cached_len r = req_cached_len c"
proof (cases "token_budget a \<le> 0")
  case True
  then show ?thesis using assms by (auto simp: try_add_one_def Let_def intro!: exI[of _ c])
next
  case tb: False
  with assms obtain cm c1 where c: "commit_chunk_snapshot hook (clock a) c (ad_cm a) = Inr (cm, c1)"
    by (auto simp: try_add_one_def Let_def rbind_eq_Inr)
  have c1: "req_cached_len c1 = req_cached_len c" by (rule commit_chunk_snapshot_frame[OF c])
  let ?a1 = "tick 3 (a\<lparr>refusal := '''', ad_cm := cm\<rparr>)" and ?p1 = "p\<lparr>chunked_req := Some c1\<rparr>"
  from assms tb c obtain a2 g where r: "add_one_req ?p1 (req_handle c1) (table_idx c1) (req_cached_len c1) (linear_slot_idx c1)
      (mamba_ping_pong c1) (mamba_next_track_idx c1) None limit ?a1 = Inr (a2, g)"
    by (auto simp: try_add_one_def Let_def rbind_eq_Inr)
  show ?thesis
  proof (cases g)
    case None
    then have "p1 = ?p1" "got = None" using assms tb c r by (auto simp: try_add_one_def Let_def)
    then show ?thesis using c1 by auto
  next
    case (Some g')
    then obtain r0 ch where g: "g = Some (r0, ch)" by (cases g') auto
    have r0: "req_cached_len r0 = req_cached_len c1" by (rule add_one_req_some[OF r[unfolded g]])
    have "\<exists>r1. got = Some (r1, ch) \<and> req_cached_len r1 = req_cached_len r0"
      using assms tb c r g
      by (auto simp: try_add_one_def Let_def rbind_eq_Inr split: option.splits if_splits dest!: commit_prefix_boundary_frame)
    then show ?thesis using r0 c1 by auto
  qed
qed

lemma try_add_one_kept:
  assumes "try_add_one hook p limit a = Inr (a', p1, None)"
  shows "prompt_stage p1 = prompt_stage p"
proof (cases "chunked_req p")
  case None
  then show ?thesis using try_add_one_none[OF assms] by (simp add: prompt_stage_def)
next
  case (Some c)
  then show ?thesis using try_add_one_chunk[OF assms Some] by (auto simp: prompt_stage_def)
qed

lemma try_add_one_served:
  assumes "try_add_one hook p limit a = Inr (a', p1, Some (r, ch))"
  shows "serves_with p r ch" "p1\<lparr>chunked_req := x\<rparr> = p\<lparr>chunked_req := x\<rparr>"
  using try_add_one_budget[OF assms] try_add_one_chunk[OF assms] by (auto simp: serves_with_def)

definition served_inv :: "pending list \<Rightarrow> pending list \<times> 'v pass_state \<Rightarrow> bool" where
  "served_inv Q s \<longleftrightarrow> (\<exists>served. map snd served = batch_reqs (snd s) \<and>
     (\<forall>(p, r, ch) \<in> set served. serves_with p r ch) \<and>
     chunked_list (snd s) = map (\<lambda>(p, r, ch). p\<lparr>chunked_req := Some r\<rparr>) (filter (\<lambda>(p, r, ch). ch) served) \<and>
     mset (map prompt_stage Q) = mset (map (\<lambda>(p, r, ch). prompt_stage p) served) + mset (map prompt_stage (kept (snd s) @ fst s)) \<and>
     subseq (map prompt_stage (kept (snd s) @ fst s)) (map prompt_stage Q))"

lemma served_invI:
  assumes "map snd served = batch_reqs (snd s)" "\<forall>(p, r, ch) \<in> set served. serves_with p r ch"
    "chunked_list (snd s) = map (\<lambda>(p, r, ch). p\<lparr>chunked_req := Some r\<rparr>) (filter (\<lambda>(p, r, ch). ch) served)"
    "mset (map prompt_stage Q) = mset (map (\<lambda>(p, r, ch). prompt_stage p) served) + mset (map prompt_stage (kept (snd s) @ fst s))"
    "subseq (map prompt_stage (kept (snd s) @ fst s)) (map prompt_stage Q)"
  shows "served_inv Q s"
  unfolding served_inv_def by (rule exI[of _ served]) (use assms in blast)

lemma served_step:
  assumes "pass_step hook cap lane_cap s s'" "served_inv Q s"
  shows "served_inv Q s'"
proof -
  obtain served where I: "map snd served = batch_reqs (snd s)" "\<forall>(p, r, ch) \<in> set served. serves_with p r ch"
    "chunked_list (snd s) = map (\<lambda>(p, r, ch). p\<lparr>chunked_req := Some r\<rparr>) (filter (\<lambda>(p, r, ch). ch) served)"
    "mset (map prompt_stage Q) = mset (map (\<lambda>(p, r, ch). prompt_stage p) served) + mset (map prompt_stage (kept (snd s) @ fst s))"
    "subseq (map prompt_stage (kept (snd s) @ fst s)) (map prompt_stage Q)"
    using assms(2) unfolding served_inv_def by (elim exE conjE)
  show ?thesis
    using assms(1)
  proof (cases rule: pass_step.cases)
    case (skipped p st ps f)
    then show ?thesis using I by (intro served_invI[of served]) simp_all
  next
    case (admitted p limit st a p1 r ch ps)
    note G = try_add_one_served[OF admitted(3)]
    have "subseq (map prompt_stage (kept st @ ps)) (map prompt_stage (kept st @ p # ps))" by (intro subseq_map list_emb_append_mono) auto
    then have sub: "subseq (map prompt_stage (kept st @ ps)) (map prompt_stage Q)"
      using I(5) admitted(1) by (auto intro: subseq_order.order_trans)
    show ?thesis
      by (rule served_invI[of "served @ [(p, r, ch)]"]) (use I(1-4) sub admitted(1,2) G in simp_all)
  next
    case (deferred p limit st a p1 ps f)
    then show ?thesis using I try_add_one_kept[OF deferred(3)] by (intro served_invI[of served]) simp_all
  next
    case (stopped ps st b)
    then show ?thesis using I by (intro served_invI[of served]) simp_all
  qed
qed

lemma rtranclp_inv: "R\<^sup>*\<^sup>* x y \<Longrightarrow> (\<And>s s'. R s s' \<Longrightarrow> I s \<Longrightarrow> I s') \<Longrightarrow> I x \<Longrightarrow> I y"
  by (induction rule: rtranclp_induct) blast+

text \<open>The pass inside \<^verbatim>\<open>schedule_next_batch\<close>.\<close>

lemma schedule_prefill_run:
  assumes "schedule_prefill hook mode budget pm = Inr (pm', res)" "pending_list pm \<noteq> []"
  obtains pm1 a seatable st where "pending_list pm1 = pending_list pm" "max_chunked_prefills pm1 = max_chunked_prefills pm"
    "interleave_chunks pm1 = interleave_chunks pm"
    "pm_cm pm1 = pm_cm pm" "pm_tm pm1 = pm_tm pm" "pm_dm pm1 = pm_dm pm" "pm_memo pm1 = []"
    "(if interleave_chunks pm1 \<and> length (pending_list pm1) > 1
      then seatable_lanes pm1 (lane_cap_of budget pm) (inflight_chunks pm1) (start_adder budget pm1)
      else Inr (start_adder budget pm1, 0)) = Inr (a, seatable)"
    "(pass_step hook (max_chunked_prefills pm) (lane_cap_of budget pm))\<^sup>*\<^sup>*
       (pending_list pm, count_in (note_pass seatable (inflight_chunks pm)) (start_state (inflight_chunks pm) a pm1)) ([], st)"
    "pm' = pm_after st pm1" "res = (if batch_reqs st = [] then None else Some st)"
proof -
  let ?pm0 = "pm\<lparr>pm_memo := []\<rparr>"
  note ne = assms(2)
  have lane: "lane_cap_of budget ?pm0 = lane_cap_of budget pm" by (simp add: lane_cap_of_def)
  obtain pm1 where c: "check_finishability (standing_reservation ?pm0) mode ?pm0 = Inr pm1"
    using assms ne by (auto simp: schedule_prefill_def Let_def rbind_eq_Inr)
  have p: "pending_list pm1 = pending_list pm" "max_chunked_prefills pm1 = max_chunked_prefills pm"
    "interleave_chunks pm1 = interleave_chunks pm"
    "pm_cm pm1 = pm_cm pm" "pm_tm pm1 = pm_tm pm" "pm_dm pm1 = pm_dm pm" "pm_memo pm1 = []"
    using c by (auto simp: check_finishability_def Let_def split: if_splits)
  then have n: "inflight_chunks pm1 = inflight_chunks pm" by (simp add: inflight_chunks_def)
  note S = assms(1)[unfolded schedule_prefill_def Let_def lane if_not_P[OF ne] c rbind_simps]
  then obtain a seatable where s: "(if interleave_chunks pm1 \<and> length (pending_list pm1) > 1
      then seatable_lanes pm1 (lane_cap_of budget pm) (inflight_chunks pm1) (start_adder budget pm1)
      else Inr (start_adder budget pm1, 0)) = Inr (a, seatable)"
    by (auto simp: rbind_eq_Inr split del: if_split)
  note S = S[unfolded s rbind_simps prod.case]
  let ?st = "count_in (note_pass seatable (inflight_chunks pm)) (start_state (inflight_chunks pm) a pm1)"
  obtain st where l: "pass_loop hook (max_chunked_prefills pm) (lane_cap_of budget pm) seatable (pending_list pm) ?st = Inr st"
    and r: "pm' = pm_after st pm1" "res = (if batch_reqs st = [] then None else Some st)"
    using S by (auto simp: rbind_eq_Inr p n split del: if_split)
  have "(pass_step hook (max_chunked_prefills pm) (lane_cap_of budget pm))\<^sup>*\<^sup>* (pending_list pm, ?st) ([], st)"
    by (rule pass_loop_steps[OF l]) (auto simp: start_state_def)
  from that[OF p s this r] show thesis .
qed

lemma schedule_prefill_pass:
  assumes "schedule_prefill hook mode budget pm = Inr (pm', Some st)"
  obtains pm1 a seatable where "pending_list pm1 = pending_list pm" "max_chunked_prefills pm1 = max_chunked_prefills pm"
    "pm_cm pm1 = pm_cm pm" "pm_tm pm1 = pm_tm pm" "pm_dm pm1 = pm_dm pm" "pm_memo pm1 = []"
    "(if interleave_chunks pm1 \<and> length (pending_list pm1) > 1
      then seatable_lanes pm1 (lane_cap_of budget pm) (inflight_chunks pm1) (start_adder budget pm1)
      else Inr (start_adder budget pm1, 0)) = Inr (a, seatable)"
    "(pass_step hook (max_chunked_prefills pm) (lane_cap_of budget pm))\<^sup>*\<^sup>*
       (pending_list pm, count_in (note_pass seatable (inflight_chunks pm)) (start_state (inflight_chunks pm) a pm1)) ([], st)"
    "pm' = pm_after st pm1" "batch_reqs st \<noteq> []"
proof -
  have ne: "pending_list pm \<noteq> []" using assms by (auto simp: schedule_prefill_def)
  obtain pm1 a seatable st1 where R: "pending_list pm1 = pending_list pm" "max_chunked_prefills pm1 = max_chunked_prefills pm"
    "pm_cm pm1 = pm_cm pm" "pm_tm pm1 = pm_tm pm" "pm_dm pm1 = pm_dm pm" "pm_memo pm1 = []"
    "(if interleave_chunks pm1 \<and> length (pending_list pm1) > 1
      then seatable_lanes pm1 (lane_cap_of budget pm) (inflight_chunks pm1) (start_adder budget pm1)
      else Inr (start_adder budget pm1, 0)) = Inr (a, seatable)"
    and s: "(pass_step hook (max_chunked_prefills pm) (lane_cap_of budget pm))\<^sup>*\<^sup>*
       (pending_list pm, count_in (note_pass seatable (inflight_chunks pm)) (start_state (inflight_chunks pm) a pm1)) ([], st1)"
    and r: "pm' = pm_after st1 pm1" "Some st = (if batch_reqs st1 = [] then None else Some st1)"
    by (rule schedule_prefill_run[OF assms ne])
  have "st1 = st" "batch_reqs st \<noteq> []" using r(2) by (auto split: if_splits)
  from that[OF R s[unfolded this(1)] r(1)[unfolded this(1)] this(2)] show thesis .
qed

lemma seatable_budget: "seatable_lanes pm lane_cap n a = Inr (a', k) \<Longrightarrow> token_budget a' = token_budget a"
  by (auto simp: seatable_lanes_def rbind_eq_Inr)

lemma start_budget: "token_budget (start_adder budget pm) = budget"
  by (simp add: start_adder_def adder_post_init_def)

lemma pass_result:
  assumes "schedule_prefill hook mode budget pm = Inr (pm', Some st)"
  shows "tokens_inv budget ([], st)"
    "lanes_inv (max_chunked_prefills pm) (lane_cap_of budget pm) (inflight_chunks pm) ([], st)"
    "mset (pending_list pm') = mset (queue_of ([], st))" "batch_reqs st \<noteq> []"
proof -
  obtain pm1 a seatable where a: "(if interleave_chunks pm1 \<and> length (pending_list pm1) > 1
      then seatable_lanes pm1 (lane_cap_of budget pm) (inflight_chunks pm1) (start_adder budget pm1)
      else Inr (start_adder budget pm1, 0)) = Inr (a, seatable)"
    and s: "(pass_step hook (max_chunked_prefills pm) (lane_cap_of budget pm))\<^sup>*\<^sup>*
       (pending_list pm, count_in (note_pass seatable (inflight_chunks pm)) (start_state (inflight_chunks pm) a pm1)) ([], st)"
    and r: "pm' = pm_after st pm1" "batch_reqs st \<noteq> []"
    by (rule schedule_prefill_pass[OF assms])
  have b: "token_budget a = budget" using a by (auto simp: start_budget dest: seatable_budget split: if_splits)
  show "tokens_inv budget ([], st)"
    by (rule rtranclp_inv[OF s tokens_step]) (auto simp: tokens_inv_def start_state_def b)
  show "lanes_inv (max_chunked_prefills pm) (lane_cap_of budget pm) (inflight_chunks pm) ([], st)"
    by (rule rtranclp_inv[OF s lanes_step]) (auto simp: lanes_inv_def queue_of_def start_state_def inflight_chunks_def in_flight_def)
  show "mset (pending_list pm') = mset (queue_of ([], st))" "batch_reqs st \<noteq> []"
    using r by (simp_all add: pm_after_def Let_def queue_of_def)
qed

end
