(* ===== verification/Prefill_Backed.thy ===== *)
theory Prefill_Backed
  imports Prefill_Pass
begin

text \<open>
  On a cache of pages only, naive or radix, the batch of a prefill pass is backed by pages; with the properties of a pass.
\<close>

section \<open>Admissions on a cache of pages only\<close>

text \<open>
  The naive and the radix cache have no second currency: an admission touches the cache through a match and a lock only. What a
  pass needs of them is that a match keeps the evictable size, that an unlock undoes a lock, and that a handle has whole pages.
\<close>

fun plain_prefix :: "nat \<Rightarrow> prefix \<Rightarrow> bool" where
  "plain_prefix ps PNaive = True"
| "plain_prefix ps (PRadix s) = (radix_inv s \<and> page_size s = ps)"
| "plain_prefix ps (PHybrid h) = False"

fun handle_ok :: "prefix \<Rightarrow> cache_handle \<Rightarrow> bool" where
  "handle_ok PNaive (NaiveH h) = (ncached_len h = 0)"
| "handle_ok (PRadix s) (RadixH h) = (\<exists>ks vs. handle_str s h = Some (ks, vs) \<and> length ks = cached_len h)"
| "handle_ok _ _ = False"

lemma handle_aligned:
  assumes "plain_prefix ps pc" "handle_ok pc h"
  shows "ps dvd handle_len h"
  using assms handle_str_dvd by (cases "(pc, h)" rule: handle_ok.cases) fastforce+

lemma match_plain:
  assumes "plain_prefix ps pc" "match_prefix_of tic ids pooled pc = Inr (pc', h, mv)"
  shows "plain_prefix ps pc'" "evictable_size_of pc' = evictable_size_of pc" "handle_ok pc' h"
    "\<And>g. handle_ok pc g \<Longrightarrow> handle_ok pc' g"
proof -
  have "plain_prefix ps pc' \<and> evictable_size_of pc' = evictable_size_of pc \<and> handle_ok pc' h \<and> (\<forall>g. handle_ok pc g \<longrightarrow> handle_ok pc' g)"
  proof (cases pc)
    case PNaive
    then show ?thesis using assms by (auto simp: naive_match_prefix_def naive_handle_init_def)
  next
    case (PRadix s)
    then have i: "radix_inv s" "page_size s = ps" using assms(1) by auto
    obtain s' h' where m: "match_prefix tic ids s = Inr (s', h')" and r: "pc' = PRadix s'" "h = RadixH h'"
      using assms(2) PRadix by (auto simp: rbind_eq_Inr)
    obtain vs where c: "radix_inv s'" "page_size s' = page_size s" "size_info s' = size_info s"
        "handle_str s' h' = Some (take (cached_len h') ids, vs)" "longest_match s ids (cached_len h') vs"
      using match_prefix_correct[OF i(1), of tic ids] m by auto
    have "handle_ok pc' g" if "handle_ok pc g" for g
      using that match_keeps_handle[OF i(1) m] PRadix r by (cases g) auto
    then show ?thesis using c i PRadix r by (auto simp: longest_match_def)
  qed (use assms in simp)
  then show "plain_prefix ps pc'" "evictable_size_of pc' = evictable_size_of pc" "handle_ok pc' h" "\<And>g. handle_ok pc g \<Longrightarrow> handle_ok pc' g"
    by auto
qed

lemma lock_plain:
  assumes "plain_prefix ps pc" "handle_ok pc h" "lock_prefix h False pc = Inr pc'"
  shows "plain_prefix ps pc'" "lock_prefix h True pc' = Inr pc" "\<And>g. handle_ok pc' g = handle_ok pc g"
proof -
  have "plain_prefix ps pc' \<and> lock_prefix h True pc' = Inr pc \<and> (\<forall>g. handle_ok pc' g = handle_ok pc g)"
  proof (cases "(pc, h)" rule: handle_ok.cases)
    case (1 n)
    then show ?thesis using assms by (auto simp: naive_lock_handle_def)
  next
    case (2 s k)
    then have i: "radix_inv s" "page_size s = ps" using assms(1) by auto
    have l: "live_handle s k" using assms(2) 2 handle_str_live[OF i(1)] by auto
    obtain s' where s': "lock_handle s k False = Inr s'" "pc' = PRadix s'" using assms(3) 2 by (auto simp: rbind_eq_Inr)
    have u: "lock_handle s' k True = Inr s" using lock_unlock_ok[OF i(1) l] s' by auto
    have "radix_inv s'" "page_size s' = ps" using lock_handle_ok[OF i(1) l] s' i by auto
    moreover have "handle_ok pc' g = handle_ok pc g" for g
      using lock_keeps_handle[OF i(1) _ s'(1)] l 2 s' by (cases g) auto
    ultimately show ?thesis using 2 s' u by simp
  qed (use assms in auto)
  then show "plain_prefix ps pc'" "lock_prefix h True pc' = Inr pc" "\<And>g. handle_ok pc' g = handle_ok pc g" by auto
qed

lemma evictable_tokens_nonneg: "0 \<le> esum evictable_tokens cs"
  unfolding esum_def by (intro sum_list_nonneg) (auto simp: evictable_tokens_def)

lemma plain_evictable: "plain_prefix ps pc \<Longrightarrow> 0 \<le> evictable_size_of pc"
  by (cases pc) (auto simp: naive_size_info_def size_info_def radix_inv_def evictable_tokens_nonneg)

text \<open>The memo of a pass holds handles of the cache as it is now.\<close>

definition memo_ok :: "prefix \<Rightarrow> (int \<times> cache_handle \<times> int option) list option \<Rightarrow> bool" where
  "memo_ok pc memo \<longleftrightarrow> (\<forall>l u h mv. memo = Some l \<longrightarrow> map_of l u = Some (h, mv) \<longrightarrow> handle_ok pc h)"

definition plain_ok :: "'v adder \<Rightarrow> bool" where
  "plain_ok a \<longleftrightarrow> 0 < mpage_size (ad_cm a) \<and> plain_prefix (mpage_size (ad_cm a)) (pcache (ad_cm a)) \<and> memo_ok (pcache (ad_cm a)) (match_memo a)"

definition same_pages :: "'v manager \<Rightarrow> 'v manager \<Rightarrow> bool" where
  "same_pages m m' \<longleftrightarrow> free_slots m' = free_slots m \<and> committed_pages m' = committed_pages m \<and> num_pages m' = num_pages m \<and>
     mpage_size m' = mpage_size m"

lemma same_pages_available:
  "same_pages m m' \<Longrightarrow> available_size m' = available_size m - evictable_size_of (pcache m) + evictable_size_of (pcache m')"
  by (simp add: same_pages_def available_size_def Let_def)

lemma plain_ok_cong:
  "plain_ok a \<Longrightarrow> same_pages (ad_cm a) (ad_cm b) \<Longrightarrow> pcache (ad_cm b) = pcache (ad_cm a) \<Longrightarrow> match_memo b = match_memo a \<Longrightarrow> plain_ok b"
  by (simp add: plain_ok_def same_pages_def)

lemma adder_match_plain:
  assumes "adder_match p a = Inr (a', h, mv)" "plain_ok a"
  shows "plain_ok a'" "same_pages (ad_cm a) (ad_cm a')" "evictable_size_of (pcache (ad_cm a')) = evictable_size_of (pcache (ad_cm a))"
    "handle_ok (pcache (ad_cm a')) h"
proof -
  let ?memo = "case match_memo a of None \<Rightarrow> None | Some memo \<Rightarrow> map_of memo (p_uid p)"
  have "plain_ok a' \<and> same_pages (ad_cm a) (ad_cm a') \<and> evictable_size_of (pcache (ad_cm a')) = evictable_size_of (pcache (ad_cm a)) \<and>
      handle_ok (pcache (ad_cm a')) h"
  proof (cases ?memo)
    case (Some hit)
    then have "a' = a\<lparr>ad_counters := map_option (\<lambda>c. c\<lparr>match_memo_hits := match_memo_hits c + 1\<rparr>) (ad_counters a)\<rparr>" "hit = (h, mv)"
      using assms(1) by (auto simp: adder_match_def)
    then show ?thesis using assms(2) Some by (auto simp: plain_ok_def same_pages_def memo_ok_def split: option.splits)
  next
    case None
    then obtain cm where m: "match_req (clock a 0) (p_input_ids p) (p_no_prefix_cache p) (pooled_probe p) (ad_cm a) = Inr (cm, h, mv)"
      and a': "a' = tick 1 (a\<lparr>ad_cm := cm, ad_counters := map_option (note_match (input_len p)) (ad_counters a),
                   match_memo := map_option (AList.update (p_uid p) (h, mv)) (match_memo a)\<rparr>)"
      using assms(1) by (auto simp: adder_match_def rbind_eq_Inr)
    from m obtain ids pooled pc where p: "match_prefix_of (clock a 0) ids pooled (pcache (ad_cm a)) = Inr (pc, h, mv)"
      and cm: "cm = (ad_cm a)\<lparr>pcache := pc\<rparr>"
      by (auto simp: match_req_def py_assert_eq_Inr Let_def rbind_eq_Inr)
    note M = match_plain[OF _ p, of "mpage_size (ad_cm a)"]
    have "memo_ok pc (map_option (AList.update (p_uid p) (h, mv)) (match_memo a))"
      using M assms(2) unfolding memo_ok_def plain_ok_def by (auto simp: update_conv' split: if_splits) blast
    then show ?thesis using M assms(2) by (simp add: a' cm plain_ok_def same_pages_def tick_def)
  qed
  then show "plain_ok a'" "same_pages (ad_cm a) (ad_cm a')" "evictable_size_of (pcache (ad_cm a')) = evictable_size_of (pcache (ad_cm a))"
    "handle_ok (pcache (ad_cm a')) h" by auto
qed

lemma write_tokens_frame: "write_tokens row x y ids a = Inr a' \<Longrightarrow> ad_cm a' = ad_cm a \<and> match_memo a' = match_memo a"
  by (auto simp: write_tokens_def rbind_eq_Inr)

lemma set_row_frame [simp]: "pcache (set_row t xs m) = pcache m" "same_pages m (set_row t xs m)"
  by (simp_all add: set_row_def same_pages_def Let_def)

lemma write_matched_frame:
  "write_matched row clen p h a = Inr a' \<Longrightarrow>
   pcache (ad_cm a') = pcache (ad_cm a) \<and> same_pages (ad_cm a) (ad_cm a') \<and> match_memo a' = match_memo a"
  by (auto simp: write_matched_def rbind_eq_Inr split: if_splits dest!: write_tokens_frame) (simp add: same_pages_def)

text \<open>What an admission leaves behind: nothing of the cache is lost when it fails, and a lock that can be undone when it succeeds.\<close>

definition kept_cache :: "'v adder \<Rightarrow> 'v adder \<Rightarrow> bool" where
  "kept_cache a a' \<longleftrightarrow> plain_ok a' \<and> same_pages (ad_cm a) (ad_cm a') \<and>
     evictable_size_of (pcache (ad_cm a')) = evictable_size_of (pcache (ad_cm a))"

definition locked_for :: "cache_handle \<Rightarrow> 'v adder \<Rightarrow> 'v adder \<Rightarrow> bool" where
  "locked_for h a a' \<longleftrightarrow> plain_ok a' \<and> same_pages (ad_cm a) (ad_cm a') \<and> mpage_size (ad_cm a) dvd handle_len h \<and>
     (\<exists>pc. lock_prefix h True (pcache (ad_cm a')) = Inr pc \<and> plain_prefix (mpage_size (ad_cm a)) pc \<and> memo_ok pc (match_memo a') \<and>
        evictable_size_of pc = evictable_size_of (pcache (ad_cm a)))"

lemma unlock_kept:
  assumes "locked_for h a b" "unlock h (ad_cm b) = Inr cm" "ad_cm a' = cm" "match_memo a' = match_memo b"
  shows "kept_cache a a'"
proof -
  obtain pc where pc: "lock_prefix h True (pcache (ad_cm b)) = Inr pc" "plain_prefix (mpage_size (ad_cm a)) pc" "memo_ok pc (match_memo b)"
    "evictable_size_of pc = evictable_size_of (pcache (ad_cm a))" using assms(1) by (auto simp: locked_for_def)
  then have "ad_cm a' = (ad_cm b)\<lparr>pcache := pc\<rparr>" using assms(2,3) by (simp add: unlock_def)
  then show ?thesis using pc assms(1,4) by (simp add: locked_for_def kept_cache_def plain_ok_def same_pages_def)
qed

lemma locked_for_frame:
  assumes "locked_for h a b" "pcache (ad_cm b') = pcache (ad_cm b)" "same_pages (ad_cm b) (ad_cm b')" "match_memo b' = match_memo b"
  shows "locked_for h a b'"
  using assms by (auto simp: locked_for_def plain_ok_def same_pages_def)

lemma match_lock_locked:
  assumes m: "adder_match p a0 = Inr (a1, h, mv)" and a0: "plain_ok a0" "ad_cm a0 = ad_cm a"
    and l: "lock h (ad_cm a1) = Inr cm" and b: "ad_cm b = cm" "match_memo b = match_memo a1"
  shows "locked_for h a b"
proof -
  note M = adder_match_plain[OF m a0(1)]
  obtain pc where pc: "lock_prefix h False (pcache (ad_cm a1)) = Inr pc" "cm = (ad_cm a1)\<lparr>pcache := pc\<rparr>"
    using l by (auto simp: lock_def rbind_eq_Inr)
  have ps: "mpage_size (ad_cm a1) = mpage_size (ad_cm a)" using M(2) a0(2) by (simp add: same_pages_def)
  have pl: "plain_prefix (mpage_size (ad_cm a)) (pcache (ad_cm a1))" "memo_ok (pcache (ad_cm a1)) (match_memo a1)" "0 < mpage_size (ad_cm a)"
    using M(1) ps by (auto simp: plain_ok_def)
  note L = lock_plain[OF pl(1) M(4) pc(1)]
  have "memo_ok pc (match_memo a1)" using pl(2) L(3) by (simp add: memo_ok_def)
  then show ?thesis using L pl pc b M a0(2) ps handle_aligned[OF pl(1) M(4)] by (auto simp: locked_for_def plain_ok_def same_pages_def)
qed

lemma refuse_kept:
  assumes "locked_for h a b" "refuse h b = Inr (a', res)"
  shows "kept_cache a a' \<and> res = None"
  using assms(2) unlock_kept[OF assms(1)] by (auto simp: refuse_def rbind_eq_Inr)

lemma plain_not_hybrid: "plain_prefix ps pc \<Longrightarrow> \<not> is_hybrid pc"
  by (cases pc) auto

lemma try_allocate_one_plain:
  assumes "try_allocate_one hook p a = Inr (a', res)" "plain_ok a"
  shows "case res of None \<Rightarrow> kept_cache a a' | Some (h, row, live, pp, mv) \<Rightarrow> locked_for h a a' \<and> live = None \<and> pp = None"
proof -
  let ?a0 = "a\<lparr>refusal := ''table''\<rparr>"
  have a0: "plain_ok ?a0" "ad_cm ?a0 = ad_cm a" using assms(2) by (simp_all add: plain_ok_def)
  show ?thesis
  proof (cases "table_available (ad_tm ?a0) = 0")
    case True
    then show ?thesis using assms by (auto simp: try_allocate_one_def kept_cache_def plain_ok_def same_pages_def)
  next
    case False
    then obtain a1 h mv where m: "adder_match p ?a0 = Inr (a1, h, mv)"
      using assms by (auto simp: try_allocate_one_def Let_def rbind_eq_Inr)
    note M = adder_match_plain[OF m a0(1)]
    let ?g = "kv_reservation_size (int (input_len p) + int (p_output_len p)) (int (handle_len h)) a1"
    note rest = assms(1)[unfolded try_allocate_one_def Let_def if_not_P[OF False] m rbind_simps prod.case]
    show ?thesis
    proof (cases "kv_gate_ok ?g (a1\<lparr>refusal := ''kv''\<rparr>)")
      case False
      then show ?thesis using rest M by (auto simp: kept_cache_def plain_ok_def)
    next
      case g1: True
      with rest obtain cm where l: "lock h (ad_cm a1) = Inr cm" by (auto simp: rbind_eq_Inr)
      let ?a3 = "a1\<lparr>refusal := ''kv'', ad_cm := cm\<rparr>"
      have L: "locked_for h a b" if "ad_cm b = cm" "match_memo b = match_memo a1" for b
        by (rule match_lock_locked[OF m a0 l that])
      have L3: "locked_for h a ?a3" "locked_for h a (?a3\<lparr>refusal := ''mamba''\<rparr>)" by (rule L; simp)+
      then have nh: "\<not> is_hybrid (pcache cm)" by (auto simp: locked_for_def plain_ok_def plain_not_hybrid)
      show ?thesis
      proof (cases "kv_gate_ok ?g ?a3")
        case False
        then have "refuse h ?a3 = Inr (a', res)" using rest g1 l by simp
        then show ?thesis using refuse_kept[OF L3(1)] by auto
      next
        case True
        let ?a5 = "?a3\<lparr>refusal := ''chunk''\<rparr>"
        from rest g1 l True nh obtain tm row a6 live pp where
          w: "write_matched row (handle_len h) p h (?a5\<lparr>ad_tm := tm\<rparr>) = Inr a6"
            and t: "take_states a6 = Inr (a', live, pp)" "res = Some (h, row, live, pp, mv)"
          by (auto simp: rbind_eq_Inr reserve_states_def)
        have L6: "locked_for h a a6"
          by (rule locked_for_frame[OF L[of "?a5\<lparr>ad_tm := tm\<rparr>"]]) (use write_matched_frame[OF w] in simp_all)
        then have "\<not> is_hybrid (pcache (ad_cm a6))" by (auto simp: locked_for_def plain_ok_def plain_not_hybrid)
        then show ?thesis using t L6 by (auto simp: take_states_def)
      qed
    qed
  qed
qed

section \<open>Every page of the batch is there\<close>

definition req_span :: "nat \<Rightarrow> req \<Rightarrow> int" where
  "req_span ps r = div_ceil (int (device_len r)) (int ps) - div_ceil (int (req_cached_len r)) (int ps)"

lemma div_ceil_mono_int: "0 < (b::int) \<Longrightarrow> x \<le> y \<Longrightarrow> div_ceil x b \<le> div_ceil y b"
  unfolding div_ceil_def by (rule zdiv_mono1) auto

lemma div_ceil_le_int: "0 < (b::int) \<Longrightarrow> x \<le> k * b \<Longrightarrow> div_ceil x b \<le> k"
proof -
  assume b: "0 < b" "x \<le> k * b"
  then have "x + b - 1 < (k + 1) * b" by (simp add: algebra_simps)
  moreover have "(x + b - 1) div b * b \<le> x + b - 1" using minus_mod_eq_div_mult[of "x + b - 1" b] pos_mod_sign[OF b(1), of "x + b - 1"] by linarith
  ultimately have "(x + b - 1) div b * b < (k + 1) * b" by linarith
  then have "(x + b - 1) div b < k + 1" using b(1) mult_less_cancel_right_pos by blast
  then show ?thesis unfolding div_ceil_def by simp
qed

lemma div_ceil_next_int: "0 < (b::int) \<Longrightarrow> b dvd x \<Longrightarrow> x < y \<Longrightarrow> div_ceil x b < div_ceil y b"
proof -
  assume b: "0 < b" "b dvd x" "x < y"
  then obtain k where k: "x = k * b" by (auto simp: mult.commute)
  have "div_ceil x b \<le> k" using div_ceil_le_int[OF b(1)] k by simp
  moreover have "(k + 1) * b \<le> y + b - 1" using k b by (simp add: algebra_simps)
  then have "k + 1 \<le> (y + b - 1) div b" using zdiv_mono1[of "(k + 1) * b" "y + b - 1" b] b(1) by simp
  ultimately show ?thesis unfolding div_ceil_def by simp
qed

lemma chunk_span:
  assumes "0 < mpage_size (ad_cm a)" "int clen + c \<le> kv_chunk_end (int clen) a" "0 \<le> c"
  shows "0 \<le> page_span (int clen) (int clen + c) a" "page_span (int clen) (int clen + c) a \<le> max 0 (available_size (ad_cm a) - reserved_pages a)"
proof -
  let ?ps = "int (mpage_size (ad_cm a))" and ?av = "max 0 (available_size (ad_cm a) - reserved_pages a)"
  have ps: "0 < ?ps" using assms(1) by simp
  show "0 \<le> page_span (int clen) (int clen + c) a"
    using div_ceil_mono_int[OF ps, of "int clen" "int clen + c"] assms(3) by (simp add: page_span_def Let_def)
  have "int clen + c \<le> (div_ceil (int clen) ?ps + ?av div ?ps) * ?ps" using assms(2) by (simp add: kv_chunk_end_def Let_def)
  then have "div_ceil (int clen + c) ?ps - div_ceil (int clen) ?ps \<le> ?av div ?ps" using div_ceil_le_int[OF ps] by fastforce
  then have "page_span (int clen) (int clen + c) a \<le> ?av div ?ps * ?ps" using ps by (simp add: page_span_def Let_def mult_right_mono)
  also have "\<dots> \<le> ?av" using div_mult_mod_eq[of ?av ?ps] pos_mod_sign[OF ps, of ?av] by linarith
  finally show "page_span (int clen) (int clen + c) a \<le> ?av" .
qed

text \<open>The outcome of an admission: a request that takes pages finds them, next to those reserved before.\<close>

definition backed :: "'v adder \<Rightarrow> 'v adder \<Rightarrow> req \<Rightarrow> bool" where
  "backed a a' r \<longleftrightarrow> (let need = req_span (mpage_size (ad_cm a)) r * int (mpage_size (ad_cm a)) in
     plain_ok a' \<and> same_pages (ad_cm a) (ad_cm a') \<and> 0 \<le> need \<and> reserved_pages a' = reserved_pages a + need \<and>
     (need = 0 \<longrightarrow> evictable_size_of (pcache (ad_cm a')) = evictable_size_of (pcache (ad_cm a))) \<and>
     (need = 0 \<or> reserved_pages a' \<le> available_size (ad_cm a')))"

lemma add_one_req_backed:
  assumes r: "add_one_req p h row clen live pp nx rs limit b = Inr (a', Some (r, ch))"
    and b: "plain_ok b" "same_pages (ad_cm a) (ad_cm b)" "reserved_pages b = reserved_pages a"
    and cheap: "evictable_size_of (pcache (ad_cm b)) = evictable_size_of (pcache (ad_cm a)) \<or> mpage_size (ad_cm a) dvd clen"
  shows "backed a a' r"
proof -
  let ?ps = "mpage_size (ad_cm a)"
  have ps: "mpage_size (ad_cm b) = ?ps" "0 < ?ps" using b by (auto simp: plain_ok_def same_pages_def)
  obtain c where c: "chunk_size_of p clen limit b = Some c" "reserved_pages a' = reserved_pages b + page_span (int clen) (int clen + c) b"
    "ad_cm a' = ad_cm b" "req_cached_len r = clen" "int (device_len r) = int clen + c" "match_memo a' = match_memo b"
    by (rule add_one_req_some[OF r])
  note B = chunk_size_bounds[OF c(1)]
  have need: "page_span (int clen) (int clen + c) b = req_span ?ps r * int ?ps" using c(4,5) ps by (simp add: page_span_def req_span_def Let_def)
  note S = chunk_span[OF _ B(4), unfolded need] 
  have pos: "0 \<le> req_span ?ps r * int ?ps" "req_span ?ps r * int ?ps \<le> max 0 (available_size (ad_cm b) - reserved_pages b)"
    using S B(1) ps by auto
  have "0 < req_span ?ps r" if "?ps dvd clen"
    using that div_ceil_next_int[of "int ?ps" "int clen" "int (device_len r)"] c(4,5) B(1) ps(2) by (simp add: req_span_def)
  then have "req_span ?ps r * int ?ps = 0 \<longrightarrow> evictable_size_of (pcache (ad_cm b)) = evictable_size_of (pcache (ad_cm a))"
    using cheap ps(2) by auto
  moreover have "plain_ok a'" using plain_ok_cong[OF b(1)] c(3,6) by (simp add: same_pages_def)
  moreover have "req_span ?ps r * int ?ps = 0 \<or> reserved_pages a' \<le> available_size (ad_cm a')"
    using pos unfolding c(2,3) need by arith
  ultimately show ?thesis using pos(1) c(2,3) b(2,3) need unfolding backed_def Let_def by simp
qed

lemma segment_cut_plain: "plain_ok a \<Longrightarrow> segment_cut p a = None"
  by (auto simp: segment_cut_def plain_ok_def plain_not_hybrid split: option.splits)

lemma commit_chunk_plain: "plain_ok a \<Longrightarrow> commit_chunk_snapshot hook t r (ad_cm a) = Inr (ad_cm a, r)"
  by (auto simp: commit_chunk_snapshot_def plain_ok_def plain_not_hybrid)

lemma try_add_one_plain:
  assumes "try_add_one hook p limit a = Inr (a', p1, got)" "plain_ok a"
  shows "case got of None \<Rightarrow> kept_cache a a' \<and> reserved_pages a' = reserved_pages a | Some (r, ch) \<Rightarrow> backed a a' r"
proof (cases "token_budget a \<le> 0")
  case True
  then show ?thesis using assms by (auto simp: try_add_one_def Let_def kept_cache_def plain_ok_def same_pages_def)
next
  case tb: False
  show ?thesis
  proof (cases "chunked_req p")
    case (Some c)
    let ?a1 = "tick 3 (a\<lparr>refusal := ''''\<rparr>)" and ?p1 = "p\<lparr>chunked_req := Some c\<rparr>"
    have a1: "ad_cm ?a1 = ad_cm a" "reserved_pages ?a1 = reserved_pages a" "match_memo ?a1 = match_memo a" by (simp_all add: tick_def)
    then have pl: "plain_ok ?a1" using assms(2) by (simp add: plain_ok_def)
    have c: "commit_chunk_snapshot hook (clock a) c (ad_cm a) = Inr (ad_cm a, c)" by (rule commit_chunk_plain[OF assms(2)])
    from assms(1) tb Some c obtain a2 g where r: "add_one_req ?p1 (req_handle c) (table_idx c) (req_cached_len c) (linear_slot_idx c)
        (mamba_ping_pong c) (mamba_next_track_idx c) None limit ?a1 = Inr (a2, g)"
      by (auto simp: try_add_one_def Let_def rbind_eq_Inr)
    show ?thesis
    proof (cases g)
      case None
      then have "a' = ?a1" "got = None" using add_one_req_none[OF r[unfolded None]] assms(1) tb Some c r
        by (auto simp: try_add_one_def Let_def)
      then show ?thesis using pl a1 by (simp add: kept_cache_def same_pages_def)
    next
      case (Some g')
      then obtain r0 ch where g: "g = Some (r0, ch)" by (cases g') auto
      have B: "backed a a2 r0"
        by (rule add_one_req_backed[OF r[unfolded g] pl]) (simp_all add: a1 same_pages_def)
      then have "segment_cut ?p1 a2 = None" by (auto simp: backed_def Let_def segment_cut_plain)
      then have "a' = a2" "got = Some (r0, ch)" using assms(1) tb \<open>chunked_req p = Some c\<close> c r g by (auto simp: try_add_one_def Let_def)
      then show ?thesis using B by simp
    qed
  next
    case None
    let ?a0 = "a\<lparr>refusal := ''''\<rparr>"
    have a0: "plain_ok ?a0" using assms(2) by (simp add: plain_ok_def)
    from assms tb None obtain a1 res where t: "try_allocate_one hook p ?a0 = Inr (a1, res)"
      by (auto simp: try_add_one_def Let_def rbind_eq_Inr)
    have b1: "reserved_pages a1 = reserved_pages a" using try_allocate_one_same[OF t] by (simp add: same_budgets_def)
    note T = try_allocate_one_plain[OF t a0]
    show ?thesis
    proof (cases res)
      case None
      then show ?thesis using assms tb t T \<open>chunked_req p = None\<close> b1 by (auto simp: try_add_one_def Let_def kept_cache_def)
    next
      case (Some x)
      then obtain h row mv where res: "res = Some (h, row, None, None, mv)" and L: "locked_for h ?a0 a1" using T by (cases x) auto
      then have L: "locked_for h a a1" by (simp add: locked_for_def)
      from assms tb t \<open>chunked_req p = None\<close> res obtain a2 g where r: "add_one_req p h (Some row) (handle_len h) None None False mv limit a1 = Inr (a2, g)"
        by (auto simp: try_add_one_def Let_def rbind_eq_Inr)
      show ?thesis
      proof (cases g)
        case None
        then have "a2 = a1" using add_one_req_none r by blast
        with assms(1) tb t \<open>chunked_req p = None\<close> res r None obtain cm where u: "unlock h (ad_cm a1) = Inr cm"
          "a' = a1\<lparr>ad_cm := cm, ad_tm := table_free row (ad_tm a1)\<rparr>" "got = None"
          by (auto simp: try_add_one_def Let_def elim!: rbindE)
        then show ?thesis using unlock_kept[OF L u(1), of a'] b1 by simp
      next
        case (Some g')
        then obtain r0 ch where g: "g = Some (r0, ch)" by (cases g') auto
        have "backed a a2 r0"
          by (rule add_one_req_backed[OF r[unfolded g]]) (use L b1 in \<open>simp_all add: locked_for_def\<close>)
        moreover have "a' = a2" "got = Some (r0, ch)" using assms tb t \<open>chunked_req p = None\<close> res r g
          by (auto simp: try_add_one_def Let_def)
        ultimately show ?thesis by simp
      qed
    qed
  qed
qed

definition needed_pages :: "nat \<Rightarrow> (req \<times> bool) list \<Rightarrow> int" where
  "needed_pages ps rs = sum_list (map (\<lambda>x. req_span ps (fst x)) rs)"

lemma needed_pages_simps [simp]:
  "needed_pages ps [] = 0" "needed_pages ps (rs @ [(r, ch)]) = needed_pages ps rs + req_span ps r"
  by (simp_all add: needed_pages_def)

text \<open>The pages of the batch are those reserved in the pass, and if there are any, all that is reserved is available.\<close>

definition backed_inv :: "nat \<Rightarrow> 'v manager \<Rightarrow> int \<Rightarrow> pending list \<times> 'v pass_state \<Rightarrow> bool" where
  "backed_inv ps m R s \<longleftrightarrow> (let st = snd s; a = ps_adder st in
     plain_ok a \<and> same_pages m (ad_cm a) \<and> reserved_pages a = R + needed_pages ps (batch_reqs st) * int ps \<and>
     (needed_pages ps (batch_reqs st) = 0 \<or> reserved_pages a \<le> available_size (ad_cm a)))"

lemma same_pages_trans: "same_pages a b \<Longrightarrow> same_pages b c \<Longrightarrow> same_pages a c"
  by (simp add: same_pages_def)

lemma plain_ok_counters [simp]: "plain_ok (ps_adder (count_in f st)) = plain_ok (ps_adder st)"
  by (simp add: plain_ok_def)

lemma plain_ok_admit [simp]: "plain_ok (ps_adder (admit p c r ch st)) = plain_ok (ps_adder st)"
  by (simp add: plain_ok_def)

lemma backed_step:
  assumes "pass_step hook cap lane_cap s s'" "backed_inv (mpage_size m) m R s" "0 < mpage_size m"
  shows "backed_inv (mpage_size m) m R s'"
  using assms(1)
proof (cases rule: pass_step.cases)
  case (admitted p limit st a p1 r ch ps)
  have pl: "plain_ok (ps_adder st)" and sp: "same_pages m (ad_cm (ps_adder st))" using assms(2) admitted by (auto simp: backed_inv_def Let_def)
  have ps: "mpage_size (ad_cm (ps_adder st)) = mpage_size m" using sp by (simp add: same_pages_def)
  let ?need = "req_span (mpage_size m) r * int (mpage_size m)"
  have B: "plain_ok a" "same_pages (ad_cm (ps_adder st)) (ad_cm a)" "reserved_pages a = reserved_pages (ps_adder st) + ?need"
    "?need = 0 \<longrightarrow> evictable_size_of (pcache (ad_cm a)) = evictable_size_of (pcache (ad_cm (ps_adder st)))"
    "?need = 0 \<or> reserved_pages a \<le> available_size (ad_cm a)"
    using try_add_one_plain[OF admitted(3) pl] ps by (auto simp: backed_def Let_def)
  have "available_size (ad_cm a) = available_size (ad_cm (ps_adder st))" if "?need = 0"
    using same_pages_available[OF B(2)] B(4) that by simp
  then show ?thesis using assms(2,3) admitted(1,2) B same_pages_trans[OF sp B(2)]
    by (auto simp: backed_inv_def Let_def distrib_right)
next
  case (deferred p limit st a p1 ps f)
  have pl: "plain_ok (ps_adder st)" and sp: "same_pages m (ad_cm (ps_adder st))" using assms(2) deferred by (auto simp: backed_inv_def Let_def)
  have K: "kept_cache (ps_adder st) a" "reserved_pages a = reserved_pages (ps_adder st)" using try_add_one_plain[OF deferred(3) pl] by auto
  then have "available_size (ad_cm a) = available_size (ad_cm (ps_adder st))"
    using same_pages_available by (fastforce simp: kept_cache_def)
  then show ?thesis using assms(2) deferred(1,2) K same_pages_trans[OF sp] by (auto simp: backed_inv_def Let_def kept_cache_def)
qed (use assms(2) in \<open>auto simp: backed_inv_def Let_def\<close>)

text \<open>The scan before the pass only matches.\<close>

definition scanned :: "'v adder \<Rightarrow> 'v adder \<Rightarrow> bool" where
  "scanned a a' \<longleftrightarrow> plain_ok a' \<and> same_pages (ad_cm a) (ad_cm a')"

lemma would_seat_plain:
  assumes "would_seat p n k a = Inr (a', ok)" "plain_ok a"
  shows "scanned a a'"
proof (cases "chunked_req p")
  case (Some c)
  then show ?thesis using assms by (auto simp: would_seat_def Let_def scanned_def same_pages_def plain_ok_def split: if_splits)
next
  case None
  show ?thesis
  proof (cases "n \<le> 0")
    case True
    then show ?thesis using assms None by (auto simp: would_seat_def Let_def scanned_def same_pages_def)
  next
    case False
    then obtain a1 h mv where m: "adder_match p a = Inr (a1, h, mv)" using assms(1) None by (auto simp: would_seat_def Let_def rbind_eq_Inr)
    note M = adder_match_plain[OF m assms(2)]
    have "ad_cm a' = ad_cm a1" "match_memo a' = match_memo a1"
      using assms(1) None False m by (auto simp: would_seat_def Let_def split: if_splits)
    then show ?thesis using M by (simp add: scanned_def plain_ok_def)
  qed
qed

lemma seat_loop_plain:
  "seat_loop cap lane_cap ps n k inflight seatable scan = Inr (scan', m) \<Longrightarrow> plain_ok scan \<Longrightarrow> scanned scan scan'"
proof (induction ps arbitrary: n k inflight seatable scan)
  case Nil
  then show ?case by (auto simp: scanned_def same_pages_def)
next
  case (Cons p ps)
  show ?case
  proof (cases "chunked_req p = None \<and> cap \<le> inflight")
    case True
    then show ?thesis using Cons by (auto simp: Let_def)
  next
    case False
    then obtain scan1 ok where w: "would_seat p n k scan = Inr (scan1, ok)" using Cons.prems(1) by (auto simp: Let_def rbind_eq_Inr)
    have s1: "scanned scan scan1" by (rule would_seat_plain[OF w Cons.prems(2)])
    note L = Cons.prems(1)[simplified, unfolded Let_def if_not_P[OF False] w rbind_simps prod.case]
    have "scanned scan1 scan'" if "scan' \<noteq> scan1"
      using L that s1 by (auto simp: Let_def scanned_def split: if_splits dest!: Cons.IH)
    then show ?thesis using s1 same_pages_trans unfolding scanned_def by blast
  qed
qed

lemma seatable_lanes_plain:
  assumes "seatable_lanes pm lane_cap n a = Inr (a', k)" "plain_ok a"
  shows "scanned a a' \<and> reserved_pages a' = reserved_pages a"
proof -
  have pl: "plain_ok (adder_post_init a)" "same_pages (ad_cm a) (ad_cm (adder_post_init a))"
    using assms(2) by (simp_all add: adder_post_init_def plain_ok_def same_pages_def)
  obtain mn scan where s: "seat_loop (max_chunked_prefills pm) lane_cap (pending_list pm) (int (table_available (ad_tm a))) mn n 0
      (adder_post_init a) = Inr (scan, k)"
    and a': "a' = a\<lparr>ad_cm := ad_cm scan, match_memo := match_memo scan, ad_counters := ad_counters scan, clock := clock scan\<rparr>"
    using assms(1) by (auto simp: seatable_lanes_def rbind_eq_Inr split del: if_split)
  have "scanned (adder_post_init a) scan" by (rule seat_loop_plain[OF s pl(1)])
  then show ?thesis using pl(2) same_pages_trans by (auto simp: a' scanned_def plain_ok_def)
qed

lemma start_adder_plain:
  assumes "0 < mpage_size (pm_cm pm)" "plain_prefix (mpage_size (pm_cm pm)) (pcache (pm_cm pm))" "pm_memo pm = []"
  shows "plain_ok (start_adder budget pm)" "ad_cm (start_adder budget pm) = pm_cm pm"
    "reserved_pages (start_adder budget pm) = inflight_tokens (pm_dm pm)"
  using assms by (simp_all add: start_adder_def adder_post_init_def plain_ok_def memo_ok_def)

lemma backed_required:
  assumes b: "backed_inv (mpage_size m) m R ([], st)" and R: "0 \<le> R" and c: "committed_pages m \<le> num_pages m" and ps: "0 < mpage_size m"
  shows "\<exists>n. committed_pages_required (map fst (batch_reqs st)) (ad_cm (ps_adder st)) = Inr n"
proof -
  let ?m = "ad_cm (ps_adder st)" and ?ps = "int (mpage_size m)"
  have s: "mpage_size ?m = mpage_size m" "num_pages ?m = num_pages m" "committed_pages ?m = committed_pages m"
    and pl: "plain_ok (ps_adder st)" using b by (auto simp: backed_inv_def Let_def same_pages_def)
  let ?need = "sum_list (map (\<lambda>r. div_ceil (int (device_len r)) ?ps - div_ceil (int (req_cached_len r)) ?ps) (map fst (batch_reqs st)))"
  let ?e = "evictable_size_of (pcache ?m)" and ?f = "int (length (free_slots ?m))" and ?k = "int (num_pages m) - int (committed_pages m)"
  have need: "?need = needed_pages (mpage_size m) (batch_reqs st)"
    by (simp add: needed_pages_def req_span_def comp_def)
  have e: "0 \<le> ?e" using plain_evictable pl by (auto simp: plain_ok_def)
  have p: "0 < ?ps" using ps by simp
  have "?need \<le> ?f + ?e div ?ps + ?k"
  proof (cases "?need = 0")
    case True
    then show ?thesis using e c p by (simp add: pos_imp_zdiv_nonneg_iff)
  next
    case False
    then have "R + ?need * ?ps \<le> available_size ?m" using b unfolding backed_inv_def Let_def need by auto
    then have "?need * ?ps \<le> (?f + ?k) * ?ps + ?e" using R s by (simp add: available_size_def Let_def algebra_simps)
    then have "?need * ?ps div ?ps \<le> ((?f + ?k) * ?ps + ?e) div ?ps" using p by (rule zdiv_mono1)
    then show ?thesis using p by simp
  qed
  then show ?thesis using c s by (simp add: committed_pages_required_def Let_def)
qed

section \<open>A small pass\<close>

definition zero_counters :: prefill_counters where
  "zero_counters = \<lparr>passes = 0, fresh_admits_blocked_by_cap = 0, deferred_chunks = 0, fresh_admits_deferred = 0, deferred_by = [],
     refusals = 0, chunked_inflight_last = 0, chunked_inflight_max = 0, seatable_lanes_last = 0, seatable_lanes_hist = empty_lane_hist,
     match_calls = 0, match_tokens = 0, match_memo_hits = 0, invariant_checks = 0, invariant_violations = 0,
     invariant_worst_shortfall = 0\<rparr>"

definition demo_prompt :: "int \<Rightarrow> int list \<Rightarrow> pending" where
  "demo_prompt u ids = \<lparr>p_uid = u, p_input_ids = ids, p_output_len = 1, chunked_req = None, p_mm_items = [], p_session_id = None,
     p_hidden_states = None, p_no_prefix_cache = False, p_pin_key = None, p_prefix_boundary = None\<rparr>"

text \<open>Two prompts on the radix cache of the demonstrations: the first is matched on its first page, the second is cut in two.\<close>

definition demo_prefill :: "int prefill_manager" where
  "demo_prefill = \<lparr>pm_cm = manager_init 12 2 [replicate 8 0, replicate 8 0] (PRadix demo_cache) None None 5 False demo_ledger,
     pm_tm = table_init 2 [replicate 8 0, replicate 8 0], pm_dm = \<lparr>dm_page_size = 2, running_reqs = []\<rparr>, pm_encoder_cache = None,
     pm_keep_images_whole = False, pending_list = [demo_prompt 1 [5, 6, 9, 9], demo_prompt 2 [3, 3, 3, 3, 3]], interleave_chunks = True,
     max_batch_seqs = 0, small_prompt_group_tokens = 0, max_chunked_prefills = 2, pm_counters = zero_counters, pm_memo = [],
     pm_clock = (\<lambda>i. int i + 10), pm_next_id = 7\<rparr>"

fun batch_shape :: "('v prefill_manager \<times> 'v pass_state option) result \<Rightarrow> (int list \<times> (int \<times> int \<times> bool) list) option" where
  "batch_shape (Inr (pm, Some st)) = Some (map p_uid (pending_list pm), map (\<lambda>(r, ch). (uid r, extend_len r, ch)) (batch_reqs st))"
| "batch_shape _ = None"

lemma demo_pass_shape: "batch_shape (schedule_prefill None '''' 5 demo_prefill) = Some ([2], [(1, 2, False), (2, 3, True)])"
  by code_simp

lemma batch_shape_some:
  assumes "batch_shape x = Some (q, b)"
  obtains pm st where "x = Inr (pm, Some st)" "map p_uid (pending_list pm) = q" "map (\<lambda>(r, ch). (uid r, extend_len r, ch)) (batch_reqs st) = b"
  using assms by (cases x rule: batch_shape.cases) auto

section \<open>Properties of a prefill pass\<close>

text \<open>C36: On every kind of cache a prefill pass admits at most the tokens of its budget, at least one per request; the number it reports
  is the sum over the batch; the batch has at most as many lanes as the cap of the pass allows (no cap is 0); and the number of
  half-prefilled prompts in the queue after the pass is at most the configured maximum, or the number before if that was larger.\<close>

theorem prefill_pass_bounds:
  assumes "schedule_prefill hook mode budget pm = Inr (pm', Some st)"
  shows "log_new_tokens st = (\<Sum>(r, ch)\<leftarrow>batch_reqs st. extend_len r) \<and> log_new_tokens st \<le> budget \<and>
    (\<forall>(r, ch) \<in> set (batch_reqs st). 1 \<le> extend_len r) \<and>
    (lane_cap_of budget pm = 0 \<or> length (batch_reqs st) \<le> lane_cap_of budget pm) \<and>
    inflight_chunks pm' \<le> max (max_chunked_prefills pm) (inflight_chunks pm)"
proof -
  note P = pass_result[OF assms]
  obtain r ch rest where b: "batch_reqs st = (r, ch) # rest" using P(4) by (cases "batch_reqs st") auto
  have T: "token_budget (ps_adder st) + log_new_tokens st = budget" "log_new_tokens st = batch_tokens (batch_reqs st)"
    "\<forall>(r, ch) \<in> set (batch_reqs st). 1 \<le> extend_len r" "min 0 budget \<le> token_budget (ps_adder st)"
    using P(1) by (simp_all add: tokens_inv_def Let_def)
  have "0 \<le> (\<Sum>(r, ch)\<leftarrow>rest. extend_len r)" using T(3) b by (intro sum_list_nonneg) fastforce
  then have "1 \<le> batch_tokens (batch_reqs st)" using T(3) b by (simp add: batch_tokens_def)
  then have "log_new_tokens st \<le> budget" using T by linarith
  moreover have "inflight_chunks pm' = in_flight (queue_of ([], st))"
    unfolding inflight_chunks_def in_flight_def using P(3) by (metis mset_filter size_mset)
  ultimately show ?thesis using P(2) T by (simp add: lanes_inv_def batch_tokens_def)
qed

theorem prefill_pass_bounds_witness:
  "\<exists>pm' st. schedule_prefill None '''' 5 demo_prefill = Inr (pm', Some st) \<and> log_new_tokens st = 5 \<and>
     list_all (\<lambda>(r, ch). 1 \<le> extend_len r) (batch_reqs st) \<and> inflight_chunks pm' \<le> 2"
proof -
  obtain pm' st where s: "schedule_prefill None '''' 5 demo_prefill = Inr (pm', Some st)"
    "map (\<lambda>(r, ch). (uid r, extend_len r, ch)) (batch_reqs st) = [(1, 2, False), (2, 3, True)]"
    by (rule batch_shape_some[OF demo_pass_shape])
  have "(\<Sum>(r, ch)\<leftarrow>batch_reqs st. extend_len r) = 5" using s(2) by auto
  moreover have "max_chunked_prefills demo_prefill = 2" "inflight_chunks demo_prefill = 0" by code_simp+
  ultimately show ?thesis using prefill_pass_bounds[OF s(1)] s(1) by (intro exI[of _ pm'] exI[of _ st]) (auto simp: list_all_iff)
qed

text \<open>C35: A prefill pass loses no prompt and serves none twice. A pass that makes no batch leaves the queue as it was, in its order and
  with the progress of every prompt that has begun. A pass that makes a batch splits the queue into the prompts it serves and those
  that wait: each request of the batch, whole or a chunk, is for one prompt of its own, carries that prompt's uid and its
  tokens up to the request's length (all of them unless it is a chunk) and resumes where the prompt stood; afterwards the queue is
  the waiting prompts in their order and the chunked ones, with their new requests, before or behind them.\<close>

theorem prefill_pass_conserves:
  assumes "schedule_prefill hook mode budget pm = Inr (pm', res)"
  shows "case res of
      None \<Rightarrow> map prompt_stage (pending_list pm') = map prompt_stage (pending_list pm)
    | Some st \<Rightarrow> (\<exists>served waiting. batch_reqs st = map snd served \<and> batch_reqs st \<noteq> [] \<and>
        (\<forall>(p, r, ch) \<in> set served. serves_with p r ch) \<and>
        mset (map prompt_stage (pending_list pm)) = mset (map (\<lambda>(p, r, ch). prompt_stage p) served) + mset (map prompt_stage waiting) \<and>
        subseq (map prompt_stage waiting) (map prompt_stage (pending_list pm)) \<and>
        (let chunks = map (\<lambda>(p, r, ch). p\<lparr>chunked_req := Some r\<rparr>) (filter (\<lambda>(p, r, ch). ch) served)
         in pending_list pm' = (if interleave_chunks pm \<and> stopped_for_lane_cap st then waiting @ chunks else chunks @ waiting)))"
proof (cases "pending_list pm = []")
  case True
  then show ?thesis using assms by (auto simp: schedule_prefill_def)
next
  case False
  obtain pm1 a seatable st where p: "interleave_chunks pm1 = interleave_chunks pm"
    and s: "(pass_step hook (max_chunked_prefills pm) (lane_cap_of budget pm))\<^sup>*\<^sup>*
       (pending_list pm, count_in (note_pass seatable (inflight_chunks pm)) (start_state (inflight_chunks pm) a pm1)) ([], st)"
    and r: "pm' = pm_after st pm1" "res = (if batch_reqs st = [] then None else Some st)"
    by (rule schedule_prefill_run[OF assms False])
  have "served_inv (pending_list pm) ([], st)"
    by (rule rtranclp_inv[OF s served_step]) (auto simp: served_inv_def start_state_def)
  then obtain served where I: "map snd served = batch_reqs st" "\<forall>(p, r, ch) \<in> set served. serves_with p r ch"
    "chunked_list st = map (\<lambda>(p, r, ch). p\<lparr>chunked_req := Some r\<rparr>) (filter (\<lambda>(p, r, ch). ch) served)"
    "mset (map prompt_stage (pending_list pm)) = mset (map (\<lambda>(p, r, ch). prompt_stage p) served) + mset (map prompt_stage (kept st))"
    "subseq (map prompt_stage (kept st)) (map prompt_stage (pending_list pm))"
    by (auto simp: served_inv_def)
  show ?thesis
  proof (cases "batch_reqs st = []")
    case True
    then have "served = []" using I(1) by simp
    then have "mset (map prompt_stage (pending_list pm)) = mset (map prompt_stage (kept st))" using I(4) by simp
    from mset_eq_length[OF this] have "length (map prompt_stage (kept st)) = length (map prompt_stage (pending_list pm))" by simp
    then have "map prompt_stage (kept st) = map prompt_stage (pending_list pm)" using I(5) subseq_same_length by blast
    then show ?thesis using True r by (simp add: pm_after_def Let_def)
  next
    case False
    then have "pending_list pm' = (if interleave_chunks pm \<and> stopped_for_lane_cap st then kept st @ chunked_list st else chunked_list st @ kept st)"
      using r(1) p by (simp add: pm_after_def Let_def)
    then show ?thesis unfolding r(2) if_not_P[OF False] option.case
      using I False by (intro exI[of _ served] exI[of _ "kept st"]) (simp add: Let_def)
  qed
qed

theorem prefill_pass_conserves_witness:
  "\<exists>pm' st served waiting. schedule_prefill None '''' 5 demo_prefill = Inr (pm', Some st) \<and> map p_uid (pending_list pm') = [2] \<and>
     batch_reqs st = map snd served \<and> map (\<lambda>(r, ch). (uid r, extend_len r, ch)) (batch_reqs st) = [(1, 2, False), (2, 3, True)] \<and>
     (\<forall>(p, r, ch) \<in> set served. serves_with p r ch) \<and>
     mset (map prompt_stage (pending_list demo_prefill)) = mset (map (\<lambda>(p, r, ch). prompt_stage p) served) + mset (map prompt_stage waiting)"
proof -
  obtain pm' st where s: "schedule_prefill None '''' 5 demo_prefill = Inr (pm', Some st)" "map p_uid (pending_list pm') = [2]"
    "map (\<lambda>(r, ch). (uid r, extend_len r, ch)) (batch_reqs st) = [(1, 2, False), (2, 3, True)]"
    by (rule batch_shape_some[OF demo_pass_shape])
  obtain served waiting where "batch_reqs st = map snd served" "\<forall>(p, r, ch) \<in> set served. serves_with p r ch"
    "mset (map prompt_stage (pending_list demo_prefill)) = mset (map (\<lambda>(p, r, ch). prompt_stage p) served) + mset (map prompt_stage waiting)"
    using prefill_pass_conserves[OF s(1), unfolded option.case] by (elim exE conjE)
  then show ?thesis using s by (intro exI[of _ pm'] exI[of _ st] exI[of _ served] exI[of _ waiting] conjI)
qed

text \<open>C34: On a naive or radix cache the batch of a prefill pass is always backed by pages: whatever the pass admitted, skipped, cut,
  refused or undid, \<^verbatim>\<open>committed_pages_required\<close> of the batch does not raise, that is, the pages its next forward needs are free,
  evictable or still to be committed.\<close>

theorem prefill_batch_backed:
  assumes "schedule_prefill hook mode budget pm = Inr (pm', Some st)"
    and "0 < mpage_size (pm_cm pm)" "plain_prefix (mpage_size (pm_cm pm)) (pcache (pm_cm pm))"
    and "committed_pages (pm_cm pm) \<le> num_pages (pm_cm pm)" "0 \<le> inflight_tokens (pm_dm pm)"
  shows "\<exists>n. committed_pages_required (map fst (batch_reqs st)) (pm_cm pm') = Inr n"
proof -
  let ?m = "pm_cm pm" and ?R = "inflight_tokens (pm_dm pm)"
  obtain pm1 a seatable where p: "pm_cm pm1 = ?m" "pm_dm pm1 = pm_dm pm" "pm_memo pm1 = []"
    and a: "(if interleave_chunks pm1 \<and> length (pending_list pm1) > 1
      then seatable_lanes pm1 (lane_cap_of budget pm) (inflight_chunks pm1) (start_adder budget pm1)
      else Inr (start_adder budget pm1, 0)) = Inr (a, seatable)"
    and s: "(pass_step hook (max_chunked_prefills pm) (lane_cap_of budget pm))\<^sup>*\<^sup>*
       (pending_list pm, count_in (note_pass seatable (inflight_chunks pm)) (start_state (inflight_chunks pm) a pm1)) ([], st)"
    and r: "pm' = pm_after st pm1"
    by (rule schedule_prefill_pass[OF assms(1)])
  note S = start_adder_plain[of pm1 budget, unfolded p, OF assms(2,3) refl]
  have "scanned (start_adder budget pm1) a \<and> reserved_pages a = ?R"
  proof (cases "interleave_chunks pm1 \<and> length (pending_list pm1) > 1")
    case True
    then show ?thesis using a S(3) seatable_lanes_plain[OF _ S(1)] by simp
  next
    case False
    from a[unfolded if_not_P[OF this]] show ?thesis using S by (simp add: scanned_def same_pages_def)
  qed
  then have b: "backed_inv (mpage_size ?m) ?m ?R
      (pending_list pm, count_in (note_pass seatable (inflight_chunks pm)) (start_state (inflight_chunks pm) a pm1))"
    using S(2) by (simp add: backed_inv_def Let_def scanned_def start_state_def)
  have "backed_inv (mpage_size ?m) ?m ?R ([], st)"
    by (rule rtranclp_inv[where I = "backed_inv (mpage_size ?m) ?m ?R", OF s]) (use b in \<open>simp_all add: backed_step[OF _ _ assms(2)]\<close>)
  then show ?thesis using backed_required[OF _ assms(5,4,2)] r by (simp add: pm_after_def Let_def)
qed

theorem prefill_batch_backed_witness:
  "\<exists>pm' st n. schedule_prefill None '''' 5 demo_prefill = Inr (pm', Some st) \<and>
     committed_pages_required (map fst (batch_reqs st)) (pm_cm pm') = Inr n"
proof -
  obtain pm' st where s: "schedule_prefill None '''' 5 demo_prefill = Inr (pm', Some st)"
    by (rule batch_shape_some[OF demo_pass_shape])
  have m: "mpage_size (pm_cm demo_prefill) = 2" "pcache (pm_cm demo_prefill) = PRadix demo_cache"
    "committed_pages (pm_cm demo_prefill) = 12" "num_pages (pm_cm demo_prefill) = 12" "inflight_tokens (pm_dm demo_prefill) = 0"
    by (simp_all add: demo_prefill_def manager_init_def Let_def inflight_tokens_def)
  have "page_size demo_cache = 2" by (simp add: demo_cache_def)
  then have "plain_prefix 2 (PRadix demo_cache)" using demo_cache_inv(1) by simp
  then show ?thesis using prefill_batch_backed[OF s] s unfolding m by auto
qed

end
