(* ===== verification/Prefill_Live.thy ===== *)
theory Prefill_Live
  imports Prefill_Backed
begin

text \<open>
  A prefill pass over a queue of prompts that have not begun, on a naive or radix cache: no step after the finishability check
  raises, and a prompt that does not fit never keeps one that fits from being admitted.
\<close>

section \<open>A lock costs at most the tokens it covers\<close>

lemma evictable_lock_path:
  "path_kids u cs = Some p \<Longrightarrow> path_str u cs = Some (ks, vs) \<Longrightarrow> distinct (uuids cs) \<Longrightarrow>
   esum evictable_tokens cs \<le> esum evictable_tokens (upd_set (set p) f cs) + int (length ks)"
proof (induction u cs arbitrary: p ks vs rule: path_kids.induct)
  case (2 u w a k v gs cs)
  have d: "w \<notin> set (uuids gs)" "w \<notin> set (uuids cs)" "distinct (uuids gs)" "distinct (uuids cs)"
    "set (uuids gs) \<inter> set (uuids cs) = {}" using "2.prems"(3) by auto
  show ?case
  proof (cases "u = w")
    case True
    then have "upd_set {w} f gs = gs" "upd_set {w} f cs = cs" using d by (auto intro!: upd_set_id)
    then show ?thesis using "2.prems" True by (auto simp: evictable_tokens_def)
  next
    case False
    show ?thesis
    proof (cases "path_kids u gs")
      case (Some q)
      then have p: "p = w # q" using "2.prems" False by simp
      have q: "set q \<subseteq> set (uuids gs)" "u \<in> set (uuids gs)" using path_kids_set[OF Some] by auto
      then obtain ks' vs' where k: "path_str u gs = Some (ks', vs')" "ks = k @ ks'"
        using "2.prems"(2) False path_str_None[of u gs] by (auto split: option.splits)
      have "upd_set (set p) f gs = upd_set (set q) f gs" unfolding p using d(1) by (simp add: upd_set_insert_id)
      moreover have "upd_set (set p) f cs = cs" using p q(1) d by (intro upd_set_id) auto
      ultimately show ?thesis
        using "2.IH"(1)[OF False Some k(1) d(3)] k(2) p by (auto simp: evictable_tokens_def)
    next
      case None
      then have c: "path_kids u cs = Some p" using "2.prems" False by simp
      then have q: "set p \<subseteq> set (uuids cs)" "u \<in> set (uuids cs)" using path_kids_set[OF c] by auto
      then have u: "u \<notin> set (uuids gs)" using d(5) by blast
      have "upd_set (set p) f gs = gs" using q(1) d(5) by (intro upd_set_id) blast
      moreover have "w \<notin> set p" using q d(2) by blast
      moreover have "path_str u cs = Some (ks, vs)" using "2.prems"(2) False u path_str_None[of u gs] by (auto split: option.splits)
      ultimately show ?thesis using "2.IH"(2)[OF False None c _ d(4)] "2.prems"(2) False by simp
    qed
  qed
qed simp

lemma lock_handle_cost:
  assumes i: "radix_inv s" and h: "handle_str s h = Some (ks, vs)"
  shows "\<exists>s'. lock_handle s h False = Inr s' \<and> evictable_size s \<le> evictable_size s' + int (length ks)"
proof -
  have live: "live_handle s h" using h handle_str_live[OF i] by simp
  obtain p where p: "chain (hnode h) (root_node s) = Inr p"
    "hnode h \<noteq> uuid (root_node s) \<Longrightarrow> path_kids (hnode h) (kids (root_node s)) = Some (rev p)"
    "hnode h = uuid (root_node s) \<Longrightarrow> p = []" using live_chain[OF i live] by metis
  obtain s' where s': "lock_handle s h False = Inr s'" "radix_inv s'"
    "kids (root_node s') = upd_set (set p) inc_ref (kids (root_node s))"
    using lock_handle_ok[OF i live] p(1) by auto
  have d: "distinct (uuids (kids (root_node s)))" using i by (auto simp: radix_inv_def dest: tree_invD)
  have "esum evictable_tokens (kids (root_node s)) \<le> esum evictable_tokens (kids (root_node s')) + int (length ks)"
  proof (cases "hnode h = uuid (root_node s)")
    case True
    then show ?thesis using p(3) s'(3) by simp
  next
    case False
    then have "path_str (hnode h) (kids (root_node s)) = Some (ks, vs)" using h by (simp add: handle_str_def)
    from evictable_lock_path[OF p(2)[OF False] this d, of inc_ref] show ?thesis unfolding s'(3) by simp
  qed
  then show ?thesis using s' i by (auto simp: radix_inv_def)
qed

lemma lock_plain_total:
  assumes "plain_prefix ps pc" "handle_ok pc h"
  shows "\<exists>pc'. lock_prefix h False pc = Inr pc' \<and> evictable_size_of pc \<le> evictable_size_of pc' + int (handle_len h)"
proof (cases "(pc, h)" rule: handle_ok.cases)
  case (2 s k)
  then obtain ks vs where "handle_str s k = Some (ks, vs)" "length ks = cached_len k" using assms(2) by auto
  with 2 assms(1) lock_handle_cost[of s k ks vs] show ?thesis by (auto simp: size_info_def)
qed (use assms in \<open>auto simp: naive_lock_handle_def\<close>)

section \<open>Matching never fails\<close>

lemma match_plain_total:
  assumes "plain_prefix ps pc"
  shows "\<exists>pc' h mv. match_prefix_of tic ids pooled pc = Inr (pc', h, mv) \<and> handle_len h \<le> length ids"
proof (cases pc)
  case (PRadix s)
  then obtain s' h vs where "match_prefix tic ids s = Inr (s', h)" "longest_match s ids (cached_len h) vs"
    using match_prefix_correct[of s tic ids] assms by auto
  then show ?thesis using PRadix by (auto simp: longest_match_def)
qed (use assms in \<open>auto simp: naive_match_prefix_def naive_handle_init_def\<close>)

text \<open>
  The prompts \<open>Q\<close> of a pass over a queue without chunks: each is new and not empty, fits in a row of width \<open>W\<close>, and no two have the
  same uid. The rows that are free exist in both tables; the memo of a pass never offers a prompt all of its tokens.
\<close>

definition fresh_queue :: "nat \<Rightarrow> pending list \<Rightarrow> bool" where
  "fresh_queue W Q \<longleftrightarrow> distinct (map p_uid Q) \<and>
     list_all (\<lambda>p. chunked_req p = None \<and> 0 < input_len p \<and> input_len p \<le> W) Q"

definition rows_wide :: "nat \<Rightarrow> 'v manager \<Rightarrow> table_manager \<Rightarrow> bool" where
  "rows_wide W m tm \<longleftrightarrow> list_all (\<lambda>i. i < length (token_pool tm) \<and> i < length (page_table m)) (free_rows tm) \<and>
     list_all (\<lambda>row. W \<le> length row) (token_pool tm) \<and> list_all (\<lambda>row. W \<le> length row) (page_table m)"

definition memo_short :: "pending list \<Rightarrow> (int \<times> cache_handle \<times> int option) list option \<Rightarrow> bool" where
  "memo_short Q memo \<longleftrightarrow> (\<forall>p l h mv. p \<in> set Q \<longrightarrow> memo = Some l \<longrightarrow> map_of l (p_uid p) = Some (h, mv) \<longrightarrow> handle_len h < input_len p)"

definition ready :: "nat \<Rightarrow> pending list \<Rightarrow> 'v adder \<Rightarrow> bool" where
  "ready W Q a \<longleftrightarrow> plain_ok a \<and> rows_wide W (ad_cm a) (ad_tm a) \<and> memo_short Q (match_memo a)"

lemma fresh_queueD:
  assumes "fresh_queue W Q" "p \<in> set Q"
  shows "chunked_req p = None" "0 < input_len p" "input_len p \<le> W"
    "q \<in> set Q \<Longrightarrow> p_uid q = p_uid p \<Longrightarrow> q = p"
  using assms by (auto simp: fresh_queue_def list_all_iff distinct_map inj_on_def)

lemma ready_frame:
  assumes "ready W Q a" "same_pages (ad_cm a) (ad_cm b)" "pcache (ad_cm b) = pcache (ad_cm a)" "page_table (ad_cm b) = page_table (ad_cm a)"
    "ad_tm b = ad_tm a" "match_memo b = match_memo a"
  shows "ready W Q b"
  using assms plain_ok_cong[of a b] by (simp add: ready_def rows_wide_def)

lemma adder_match_total:
  assumes Q: "fresh_queue W Q" "p \<in> set Q" and a: "ready W Q a"
  shows "\<exists>a' h mv. adder_match p a = Inr (a', h, mv) \<and> ready W Q a' \<and> handle_len h < input_len p \<and> ad_tm a' = ad_tm a \<and>
    page_table (ad_cm a') = page_table (ad_cm a) \<and> pass_budget a' = pass_budget a"
proof (cases "case match_memo a of None \<Rightarrow> None | Some memo \<Rightarrow> map_of memo (p_uid p)")
  case (Some hit)
  obtain h mv where hit: "hit = (h, mv)" by (cases hit)
  let ?a = "a\<lparr>ad_counters := map_option (\<lambda>c. c\<lparr>match_memo_hits := match_memo_hits c + 1\<rparr>) (ad_counters a)\<rparr>"
  have m: "adder_match p a = Inr (?a, h, mv)" using Some hit by (simp add: adder_match_def)
  have "handle_len h < input_len p" using Some hit a Q(2) by (auto simp: ready_def memo_short_def split: option.splits)
  moreover have "ready W Q ?a" by (rule ready_frame[OF a]) (simp_all add: same_pages_def)
  ultimately show ?thesis using m by simp
next
  case None
  let ?ps = "mpage_size (ad_cm a)"
  let ?bypass = "p_no_prefix_cache p \<or> (\<not> p_no_prefix_cache p \<and> pooled_probe p) \<and> \<not> is_hybrid (pcache (ad_cm a))"
  let ?ids = "if ?bypass then [] else take (length (p_input_ids p) - 1) (p_input_ids p)"
  have pos: "0 < length (p_input_ids p)" using fresh_queueD(2)[OF Q] by (simp add: input_len_def)
  have pl: "plain_prefix ?ps (pcache (ad_cm a))" using a by (simp add: ready_def plain_ok_def)
  obtain pc h mv where m: "match_prefix_of (clock a 0) ?ids (\<not> p_no_prefix_cache p \<and> pooled_probe p) (pcache (ad_cm a)) = Inr (pc, h, mv)"
    "handle_len h \<le> length ?ids" using match_plain_total[OF pl] by metis
  have "length ?ids \<le> length (p_input_ids p) - 1" by simp
  then have len: "handle_len h < input_len p" using m(2) pos unfolding input_len_def by linarith
  let ?cm = "(ad_cm a)\<lparr>pcache := pc\<rparr>"
  have r: "match_req (clock a 0) (p_input_ids p) (p_no_prefix_cache p) (pooled_probe p) (ad_cm a) = Inr (?cm, h, mv)"
    unfolding match_req_def Let_def using pos m(1) by (simp add: py_assert_def)
  let ?a = "tick 1 (a\<lparr>ad_cm := ?cm, ad_counters := map_option (note_match (input_len p)) (ad_counters a),
       match_memo := map_option (AList.update (p_uid p) (h, mv)) (match_memo a)\<rparr>)"
  have am: "adder_match p a = Inr (?a, h, mv)" unfolding adder_match_def None r by simp
  have "memo_short Q (match_memo ?a)"
    unfolding memo_short_def
  proof (intro allI impI)
    fix q l g nv assume q: "q \<in> set Q" "match_memo ?a = Some l" "map_of l (p_uid q) = Some (g, nv)"
    then obtain l0 where l0: "match_memo a = Some l0" "l = AList.update (p_uid p) (h, mv) l0" by (auto simp: tick_def)
    show "handle_len g < input_len q"
    proof (cases "p_uid q = p_uid p")
      case True
      then have "q = p" using fresh_queueD(4)[OF Q q(1)] by simp
      then show ?thesis using q(3) l0 len by (simp add: update_conv')
    next
      case False
      then have "map_of l0 (p_uid q) = Some (g, nv)" using q(3) l0 by (simp add: update_conv')
      then show ?thesis using a q(1) l0 by (auto simp: ready_def memo_short_def)
    qed
  qed
  moreover have "plain_ok ?a" using adder_match_plain(1)[OF am] a by (simp add: ready_def)
  moreover have "rows_wide W (ad_cm ?a) (ad_tm ?a)" using a by (simp add: ready_def rows_wide_def tick_def)
  ultimately show ?thesis using am len by (simp add: ready_def) (simp add: tick_def)
qed

section \<open>Writes stay inside the tables\<close>

lemma copy_into_total:
  assumes "x \<le> y" "y \<le> length row" "length vals = y - x"
  shows "\<exists>row'. copy_into x y vals row = Inr row' \<and> length row' = length row"
  using assms by (auto simp: copy_into_def splice_def Let_def)

lemma list_all_update: "list_all P xs \<Longrightarrow> P x \<Longrightarrow> list_all P (xs[i := x])"
  by (auto simp: list_all_iff dest!: set_update_subset_insert[THEN subsetD])

lemma rows_wideD:
  assumes "rows_wide W m tm"
  shows "i < length (token_pool tm) \<Longrightarrow> W \<le> length (token_pool tm ! i)" "i < length (page_table m) \<Longrightarrow> W \<le> length (page_table m ! i)"
    "i \<in> set (free_rows tm) \<Longrightarrow> i < length (token_pool tm) \<and> i < length (page_table m)"
  using assms unfolding rows_wide_def list_all_iff using nth_mem by blast+

lemma write_tokens_total:
  assumes r: "rows_wide W (ad_cm a) (ad_tm a)" and i: "i < length (token_pool (ad_tm a))"
    and b: "x \<le> y" "y \<le> W" "length ids = y - x"
  shows "\<exists>toks. write_tokens i x y ids a = Inr (a\<lparr>ad_tm := (ad_tm a)\<lparr>token_pool := (token_pool (ad_tm a))[i := toks]\<rparr>\<rparr>) \<and> W \<le> length toks"
proof -
  have w: "W \<le> length (token_pool (ad_tm a) ! i)" using rows_wideD(1)[OF r i] .
  obtain toks where "copy_into x y ids (token_pool (ad_tm a) ! i) = Inr toks" "length toks = length (token_pool (ad_tm a) ! i)"
    using copy_into_total[OF b(1) le_trans[OF b(2) w] b(3)] by blast
  then show ?thesis using i w by (auto simp: write_tokens_def py_nth_def)
qed

lemma rows_wide_pool: "rows_wide W m tm \<Longrightarrow> W \<le> length toks \<Longrightarrow> rows_wide W m (tm\<lparr>token_pool := (token_pool tm)[i := toks]\<rparr>)"
  by (simp add: rows_wide_def list_all_update)

lemma rows_wide_table: "rows_wide W m tm \<Longrightarrow> W \<le> length row \<Longrightarrow> rows_wide W (set_row t row m) tm"
  by (simp add: rows_wide_def set_row_def list_all_update)

lemma matched_plain_total:
  assumes "plain_prefix ps pc" "handle_ok pc h" "0 < handle_len h"
  shows "\<exists>vs. matched_indices_of pc h = Inr vs \<and> length vs = handle_len h"
proof (cases "(pc, h)" rule: handle_ok.cases)
  case (2 s k)
  then obtain ks vs where k: "handle_str s k = Some (ks, vs)" "length ks = cached_len k" using assms(2) by auto
  have i: "radix_inv s" using assms(1) 2 by simp
  show ?thesis using handle_str_indices[OF i k(1)] k(2) 2 assms(3) by auto
qed (use assms in auto)

text \<open>What an admission may change of the tables: rows are written in place, free rows are taken from the end.\<close>

definition wrote :: "nat \<Rightarrow> 'v adder \<Rightarrow> 'v adder \<Rightarrow> bool" where
  "wrote W a a' \<longleftrightarrow> rows_wide W (ad_cm a') (ad_tm a') \<and> length (token_pool (ad_tm a')) = length (token_pool (ad_tm a)) \<and>
     length (page_table (ad_cm a')) = length (page_table (ad_cm a)) \<and> free_rows (ad_tm a') = free_rows (ad_tm a) \<and>
     pass_budget a' = pass_budget a"

lemma write_matched_total:
  assumes r: "rows_wide W (ad_cm a) (ad_tm a)" and i: "i < length (token_pool (ad_tm a))" "i < length (page_table (ad_cm a))"
    and h: "plain_prefix ps (pcache (ad_cm a))" "handle_ok (pcache (ad_cm a)) h" "handle_len h \<le> input_len p" "input_len p \<le> W"
  shows "\<exists>a'. write_matched i (handle_len h) p h a = Inr a' \<and> wrote W a a'"
proof (cases "handle_len h = 0")
  case True
  then show ?thesis using r by (simp add: write_matched_def wrote_def)
next
  case False
  let ?c = "handle_len h"
  have len: "length (take ?c (p_input_ids p)) = ?c - 0" using h(3) by (simp add: input_len_def)
  have cW: "?c \<le> W" using h(3,4) by simp
  obtain toks where t: "write_tokens i 0 ?c (take ?c (p_input_ids p)) a =
      Inr (a\<lparr>ad_tm := (ad_tm a)\<lparr>token_pool := (token_pool (ad_tm a))[i := toks]\<rparr>\<rparr>)" "W \<le> length toks"
    using write_tokens_total[OF r i(1) _ cW len] by auto
  obtain vs where v: "matched_indices_of (pcache (ad_cm a)) h = Inr vs" "length vs = ?c"
    using matched_plain_total[OF h(1,2)] False by auto
  have w: "W \<le> length (page_table (ad_cm a) ! i)" using rows_wideD(2)[OF r i(2)] .
  obtain row where row: "copy_into (?c - length vs) ?c vs (page_table (ad_cm a) ! i) = Inr row"
    "length row = length (page_table (ad_cm a) ! i)"
    using copy_into_total[of 0 ?c "page_table (ad_cm a) ! i" vs] v(2) cW w by auto
  let ?tm = "(ad_tm a)\<lparr>token_pool := (token_pool (ad_tm a))[i := toks]\<rparr>"
  have "write_matched i ?c p h a = Inr (a\<lparr>ad_tm := ?tm, ad_cm := set_row (Some i) row (ad_cm a)\<rparr>)"
    using False t(1) v(1) row(1) i(2) by (simp add: write_matched_def row_of_def row_index_def py_nth_def)
  moreover have "rows_wide W (set_row (Some i) row (ad_cm a)) ?tm"
    using rows_wide_table[OF rows_wide_pool[OF r t(2)]] w row(2) by simp
  ultimately show ?thesis by (simp add: wrote_def set_row_def)
qed

lemma rows_wide_pcache [simp]: "rows_wide W (m\<lparr>pcache := pc\<rparr>) tm = rows_wide W m tm"
  by (simp add: rows_wide_def)

lemma rows_wide_alloc: "rows_wide W m tm \<Longrightarrow> set rows \<subseteq> set (free_rows tm) \<Longrightarrow> rows_wide W m (tm\<lparr>free_rows := rows\<rparr>)"
  by (auto simp: rows_wide_def list_all_iff)

section \<open>An allocation that fits succeeds\<close>

definition footprint :: "nat \<Rightarrow> pending \<Rightarrow> int" where
  "footprint ps p = div_ceil (int (input_len p) + int (p_output_len p)) (int ps) * int ps"

definition fits :: "pending \<Rightarrow> 'v adder \<Rightarrow> bool" where
  "fits p a \<longleftrightarrow> free_rows (ad_tm a) \<noteq> [] \<and> footprint (mpage_size (ad_cm a)) p + reserved_size a \<le> available_size (ad_cm a)"

lemma reservation_footprint:
  assumes "0 < mpage_size (ad_cm a)" "mpage_size (ad_cm a) dvd clen"
  shows "kv_reservation_size (int (input_len p) + int (p_output_len p)) (int clen) a = footprint (mpage_size (ad_cm a)) p - int clen"
proof -
  let ?ps = "int (mpage_size (ad_cm a))"
  obtain k where k: "clen = mpage_size (ad_cm a) * k" using assms(2) by blast
  have "div_ceil (int clen) ?ps = int k"
  proof (rule antisym)
    show "div_ceil (int clen) ?ps \<le> int k" by (rule div_ceil_le_int) (use assms(1) k in \<open>simp_all add: mult.commute\<close>)
    have "int k = int clen div ?ps" using assms(1) k by simp
    also have "\<dots> \<le> (int clen + ?ps - 1) div ?ps" using assms(1) by (intro zdiv_mono1) simp_all
    finally show "int k \<le> div_ceil (int clen) ?ps" by (simp add: div_ceil_def)
  qed
  then show ?thesis using k by (simp add: kv_reservation_size_def footprint_def Let_def algebra_simps)
qed

text \<open>The outcome of \<^verbatim>\<open>_try_allocate_one\<close> on the tables; the row taken is the last of the free ones.\<close>

definition allocated :: "nat \<Rightarrow> pending list \<Rightarrow> pending \<Rightarrow> 'v adder \<Rightarrow> 'v adder \<Rightarrow> resource option \<Rightarrow> bool" where
  "allocated W Q p a a' res \<longleftrightarrow> rows_wide W (ad_cm a') (ad_tm a') \<and> memo_short Q (match_memo a') \<and> pass_budget a' = pass_budget a \<and>
     (case res of
        None \<Rightarrow> free_rows (ad_tm a') = free_rows (ad_tm a)
      | Some (h, row, live, pp, mv) \<Rightarrow> handle_len h < input_len p \<and> free_rows (ad_tm a) = free_rows (ad_tm a') @ [row] \<and>
          row < length (token_pool (ad_tm a')) \<and> row < length (page_table (ad_cm a')) \<and>
          available_size (ad_cm a) \<le> available_size (ad_cm a') + int (handle_len h))"

lemma available_pcache:
  "available_size (m\<lparr>pcache := pc\<rparr>) = available_size m - evictable_size_of (pcache m) + evictable_size_of pc"
  by (simp add: available_size_def Let_def)

lemma try_allocate_one_total:
  assumes Q: "fresh_queue W Q" "p \<in> set Q" and a: "ready W Q a"
  shows "\<exists>a' res. try_allocate_one hook p a = Inr (a', res) \<and> allocated W Q p a a' res \<and> (fits p a \<longrightarrow> res \<noteq> None)"
proof -
  let ?a0 = "a\<lparr>refusal := ''table''\<rparr>"
  have r0: "ready W Q ?a0" by (rule ready_frame[OF a]) (simp_all add: same_pages_def)
  show ?thesis
  proof (cases "table_available (ad_tm ?a0) = 0")
    case True
    then show ?thesis using a by (simp add: try_allocate_one_def allocated_def ready_def fits_def table_available_def)
  next
    case False
    then obtain tm row where row: "free_rows (ad_tm a) = tm @ [row]" by (cases "free_rows (ad_tm a)" rule: rev_cases) (auto simp: table_available_def)
    obtain a1 h mv where m: "adder_match p ?a0 = Inr (a1, h, mv)" "ready W Q a1" "handle_len h < input_len p" "ad_tm a1 = ad_tm a"
      "page_table (ad_cm a1) = page_table (ad_cm a)" "pass_budget a1 = pass_budget a"
      using adder_match_total[OF Q r0] by auto
    have a0: "plain_ok ?a0" using r0 by (simp add: ready_def)
    note M = adder_match_plain[OF m(1) a0]
    have sb: "same_budgets a a1" using adder_match_same[OF m(1)] by simp
    have av: "available_size (ad_cm a1) = available_size (ad_cm a)" using same_pages_available[OF M(2)] M(3) by simp
    have pl: "0 < mpage_size (ad_cm a1)" "plain_prefix (mpage_size (ad_cm a1)) (pcache (ad_cm a1))" using M(1) by (auto simp: plain_ok_def)
    have al: "mpage_size (ad_cm a1) dvd handle_len h" by (rule handle_aligned[OF pl(2) M(4)])
    let ?g = "kv_reservation_size (int (input_len p) + int (p_output_len p)) (int (handle_len h)) a1"
    have g: "?g = footprint (mpage_size (ad_cm a1)) p - int (handle_len h)" by (rule reservation_footprint[OF pl(1) al])
    have fit: "?g + int (handle_len h) + reserved_size a1 \<le> available_size (ad_cm a1)" if "fits p a"
      using that g av sb M(2) by (simp add: fits_def same_budgets_def same_pages_def)
    have R: "rows_wide W (ad_cm a1) (ad_tm a1)" "memo_short Q (match_memo a1)" using m(2) by (simp_all add: ready_def)
    note rest = try_allocate_one_def[of hook p a, unfolded Let_def if_not_P[OF False] m(1) rbind_simps prod.case]
    show ?thesis
    proof (cases "kv_gate_ok ?g (a1\<lparr>refusal := ''kv''\<rparr>)")
      case False
      then have "\<not> fits p a" using fit by (auto simp: kv_gate_ok_def)
      then show ?thesis using rest False R m(4,5,6) by (simp add: allocated_def)
    next
      case g1: True
      obtain pc where pc: "lock_prefix h False (pcache (ad_cm a1)) = Inr pc"
        "evictable_size_of (pcache (ad_cm a1)) \<le> evictable_size_of pc + int (handle_len h)"
        using lock_plain_total[OF pl(2) M(4)] by blast
      note L = lock_plain[OF pl(2) M(4) pc(1)]
      let ?cm = "(ad_cm a1)\<lparr>pcache := pc\<rparr>"
      let ?a3 = "a1\<lparr>refusal := ''kv'', ad_cm := ?cm\<rparr>"
      have l: "lock h (ad_cm a1) = Inr ?cm" using pc(1) by (simp add: lock_def)
      have av3: "available_size (ad_cm a1) \<le> available_size ?cm + int (handle_len h)" using pc(2) by (simp add: available_pcache)
      have nh: "\<not> is_hybrid pc" using plain_not_hybrid[OF L(1)] .
      show ?thesis
      proof (cases "kv_gate_ok ?g ?a3")
        case False
        then have nf: "\<not> fits p a" using fit av3 by (auto simp: kv_gate_ok_def)
        have "refuse h ?a3 = Inr (?a3\<lparr>ad_cm := ?cm\<lparr>pcache := pcache (ad_cm a1)\<rparr>\<rparr>, None)"
          using L(2) by (simp add: refuse_def unlock_def)
        then show ?thesis using rest g1 l False nf R m(4,6) by (simp add: allocated_def)
      next
        case True
        let ?tm = "(ad_tm a)\<lparr>free_rows := tm\<rparr>"
        let ?a5 = "?a3\<lparr>refusal := ''chunk'', ad_tm := ?tm\<rparr>"
        have t: "table_allocate (ad_tm a1) = Inr (?tm, row)" using row m(4) by (simp add: table_allocate_def)
        have r5: "rows_wide W (ad_cm ?a5) (ad_tm ?a5)" using rows_wide_alloc[OF R(1), of tm] m(4) row by (simp add: subset_insertI)
        have rl: "row < length (token_pool (ad_tm ?a5)) \<and> row < length (page_table (ad_cm ?a5))"
          using rows_wideD(3)[OF R(1), of row] m(4) row by simp
        obtain a6 where w: "write_matched row (handle_len h) p h ?a5 = Inr a6" "wrote W ?a5 a6"
          using write_matched_total[OF r5 _ _ _ _ _ fresh_queueD(3)[OF Q], of row "mpage_size (ad_cm a1)" h] rl L(1,3) M(4) m(3) by auto
        note F = write_matched_frame[OF w(1)]
        have nh6: "\<not> is_hybrid (pcache (ad_cm a6))" using F nh by simp
        have av6: "available_size (ad_cm a6) = available_size ?cm" using same_pages_available F by fastforce
        have "allocated W Q p a a6 (Some (h, row, None, None, mv))"
          using w(2) rl m(3,6) row F R(2) av av3 av6 unfolding allocated_def wrote_def by simp
        moreover have "try_allocate_one hook p a = Inr (a6, Some (h, row, None, None, mv))"
          using rest g1 l True nh t w(1) nh6 by (simp add: reserve_states_def take_states_def)
        ultimately show ?thesis by simp
      qed
    qed
  qed
qed

section \<open>An admission that fits succeeds\<close>

lemma add_one_req_total:
  assumes r: "rows_wide W (ad_cm a) (ad_tm a)" and i: "i < length (token_pool (ad_tm a))" and W: "input_len p \<le> W"
  shows "\<exists>a' got. add_one_req p h (Some i) clen live pp nx rs limit a = Inr (a', got) \<and> wrote W a a' \<and>
    match_memo a' = match_memo a \<and> ad_cm a' = ad_cm a \<and> (got = None \<longleftrightarrow> chunk_size_of p clen limit a = None)"
proof (cases "chunk_size_of p clen limit a")
  case None
  then show ?thesis using r by (simp add: add_one_req_def wrote_def)
next
  case (Some c)
  note B = chunk_size_bounds[OF Some]
  let ?e = "clen + nat c"
  have e: "?e \<le> input_len p" "clen < ?e" using B(1,3) by auto
  have len: "length (slice clen ?e (p_input_ids p)) = ?e - clen" using e by (simp add: input_len_def)
  define a1 where "a1 = a\<lparr>token_budget := token_budget a - c,
                     reserved_size := reserved_size a + (if chunked_req p = None
                       then kv_reservation_size (int (input_len p) + int (p_output_len p)) (int clen) a else 0),
                     reserved_pages := reserved_pages a + page_span (int clen) (int clen + c) a\<rparr>"
  have a1: "ad_tm a1 = ad_tm a" "ad_cm a1 = ad_cm a" "pass_budget a1 = pass_budget a" "match_memo a1 = match_memo a" by (simp_all add: a1_def)
  have eW: "clen \<le> ?e" "?e \<le> W" using e W by auto
  have r1: "rows_wide W (ad_cm a1) (ad_tm a1)" "i < length (token_pool (ad_tm a1))" using r i a1 by simp_all
  obtain toks where t: "write_tokens i clen ?e (slice clen ?e (p_input_ids p)) a1 =
      Inr (a1\<lparr>ad_tm := (ad_tm a1)\<lparr>token_pool := (token_pool (ad_tm a1))[i := toks]\<rparr>\<rparr>)" "W \<le> length toks"
    using write_tokens_total[OF r1 eW len] by blast
  have q: "\<exists>x. req_init n (p_uid p) (take ?e (p_input_ids p)) (Some i) clen (p_output_len p) h (p_session_id p) = Inr x" for n
    using e by (simp add: req_init_def py_assert_def input_len_def)
  have w: "wrote W a (a1\<lparr>ad_tm := (ad_tm a1)\<lparr>token_pool := (token_pool (ad_tm a1))[i := toks]\<rparr>, next_id := n\<rparr>)" for n
    using rows_wide_pool[OF r t(2), of i] a1 by (simp add: wrote_def)
  let ?a2 = "a1\<lparr>ad_tm := (ad_tm a1)\<lparr>token_pool := (token_pool (ad_tm a1))[i := toks]\<rparr>\<rparr>"
  obtain x where x: "req_init (next_id ?a2) (p_uid p) (take ?e (p_input_ids p)) (Some i) clen (p_output_len p) h (p_session_id p) = Inr x"
    using q by blast
  have "\<exists>g. add_one_req p h (Some i) clen live pp nx rs limit a = Inr (?a2\<lparr>next_id := next_id ?a2 + 1\<rparr>, Some g)"
    unfolding add_one_req_def Some option.case Let_def a1_def[symmetric] t(1) rbind_simps x by blast
  then show ?thesis using w a1 Some by fastforce
qed

text \<open>A chunk is refused only for want of tokens or of pages; the whole-image rule never refuses with a full budget.\<close>

lemma chunk_size_progress:
  assumes "0 < token_budget a" "pass_budget a \<le> token_budget a" "clen < input_len p" "\<forall>l. limit = Some l \<longrightarrow> 0 < l"
    "int clen < kv_chunk_end (int clen) a"
  shows "chunk_size_of p clen limit a \<noteq> None"
proof -
  have "0 < capped_chunk p clen limit a"
    using assms by (auto simp: capped_chunk_def Let_def split: option.splits)
  moreover have "image_cut p clen remain c al a \<noteq> None" for remain c al
    using assms(2) by (auto simp: image_cut_def Let_def split: option.splits)
  ultimately show ?thesis by (simp add: chunk_size_of_def Let_def)
qed

lemma chunk_end_progress:
  assumes ps: "0 < mpage_size (ad_cm a)" "mpage_size (ad_cm a) dvd clen" and l: "clen < input_len p"
    and f: "reserved_pages a + footprint (mpage_size (ad_cm a)) p \<le> available_size (ad_cm a) + int clen"
  shows "int clen < kv_chunk_end (int clen) a"
proof -
  let ?ps = "int (mpage_size (ad_cm a))"
  have p: "0 < ?ps" using ps by simp
  have "div_ceil (int clen) ?ps < div_ceil (int (input_len p) + int (p_output_len p)) ?ps"
    by (rule div_ceil_next_int) (use ps l p in auto)
  then have "div_ceil (int clen) ?ps + 1 \<le> div_ceil (int (input_len p) + int (p_output_len p)) ?ps" by simp
  then have "(div_ceil (int clen) ?ps + 1) * ?ps \<le> footprint (mpage_size (ad_cm a)) p"
    unfolding footprint_def using p by (intro mult_right_mono) simp_all
  moreover have c: "int clen \<le> div_ceil (int clen) ?ps * ?ps"
  proof -
    have "int clen + ?ps - 1 - ?ps < (int clen + ?ps - 1) div ?ps * ?ps"
      using minus_mod_eq_div_mult[of "int clen + ?ps - 1" ?ps] pos_mod_bound[OF p, of "int clen + ?ps - 1"] by linarith
    then show ?thesis by (simp add: div_ceil_def)
  qed
  ultimately have "?ps \<le> max 0 (available_size (ad_cm a) - reserved_pages a)" using f by (simp add: distrib_right)
  then have "1 \<le> max 0 (available_size (ad_cm a) - reserved_pages a) div ?ps"
    using p zdiv_mono1[of ?ps "max 0 (available_size (ad_cm a) - reserved_pages a)" ?ps] by simp
  then have "(div_ceil (int clen) ?ps + 1) * ?ps \<le> kv_chunk_end (int clen) a"
    unfolding kv_chunk_end_def Let_def using p by (intro mult_right_mono) simp_all
  then show ?thesis using c p by (simp add: distrib_right)
qed

text \<open>The state of a pass that has admitted nothing: its budgets are those it began with.\<close>

definition idle :: "nat \<Rightarrow> int \<Rightarrow> int \<Rightarrow> int \<Rightarrow> 'v adder \<Rightarrow> bool" where
  "idle n B R A a \<longleftrightarrow> mpage_size (ad_cm a) = n \<and> free_rows (ad_tm a) \<noteq> [] \<and> token_budget a = B \<and> pass_budget a = B \<and> reserved_size a = R \<and> reserved_pages a = R \<and>
     available_size (ad_cm a) = A"

lemma try_add_one_total:
  assumes Q: "fresh_queue W Q" "p \<in> set Q" and a: "ready W Q a"
  shows "\<exists>a' got. try_add_one hook p limit a = Inr (a', p, got) \<and> ready W Q a' \<and>
    (got = None \<longrightarrow> idle n B R A a \<longrightarrow> idle n B R A a') \<and>
    (idle n B R A a \<longrightarrow> 0 < B \<longrightarrow> footprint n p + R \<le> A \<longrightarrow> (\<forall>l. limit = Some l \<longrightarrow> 0 < l) \<longrightarrow> got \<noteq> None)"
proof (cases "token_budget a \<le> 0")
  case True
  have "ready W Q (a\<lparr>refusal := ''''\<rparr>)" by (rule ready_frame[OF a]) (simp_all add: same_pages_def)
  then show ?thesis using True by (auto simp: try_add_one_def Let_def idle_def)
next
  case tb: False
  let ?a0 = "a\<lparr>refusal := ''''\<rparr>"
  have r0: "ready W Q ?a0" by (rule ready_frame[OF a]) (simp_all add: same_pages_def)
  have pl: "plain_ok a" "plain_ok ?a0" using a r0 by (simp_all add: ready_def)
  note fresh = fresh_queueD(1)[OF Q]
  obtain a1 res where t: "try_allocate_one hook p ?a0 = Inr (a1, res)" "allocated W Q p ?a0 a1 res" "fits p ?a0 \<longrightarrow> res \<noteq> None"
    using try_allocate_one_total[OF Q r0] by metis
  have sb: "same_budgets a a1" using try_allocate_one_same[OF t(1)] by simp
  note T = try_allocate_one_plain[OF t(1) pl(2)]
  note def = try_add_one_def[of hook p limit a, unfolded Let_def adder.simps if_not_P[OF tb] fresh option.case t(1) rbind_simps prod.case]
  show ?thesis
  proof (cases res)
    case None
    then have K: "kept_cache ?a0 a1" using T by simp
    have "ready W Q a1" using t(2) K None by (simp add: ready_def allocated_def kept_cache_def)
    moreover have "idle n B R A a1" if "idle n B R A a"
      using that t(2) None sb K same_pages_available[of "ad_cm a" "ad_cm a1"]
      by (simp add: idle_def allocated_def same_budgets_def kept_cache_def) (simp add: same_pages_def)
    moreover have "\<not> fits p ?a0" using t(3) None by simp
    ultimately show ?thesis using def tb fresh t(1) None
      by (auto simp: try_add_one_def Let_def fits_def idle_def)
  next
    case (Some x)
    then obtain h row mv where res: "res = Some (h, row, None, None, mv)" and L: "locked_for h ?a0 a1" using T by (cases x) auto
    have al: "rows_wide W (ad_cm a1) (ad_tm a1)" "memo_short Q (match_memo a1)" "pass_budget a1 = pass_budget a" "handle_len h < input_len p"
      "free_rows (ad_tm a) = free_rows (ad_tm a1) @ [row]" "row < length (token_pool (ad_tm a1))" "row < length (page_table (ad_cm a1))"
      "available_size (ad_cm a) \<le> available_size (ad_cm a1) + int (handle_len h)"
      using t(2) res by (simp_all add: allocated_def)
    obtain a2 got where r: "add_one_req p h (Some row) (handle_len h) None None False mv limit a1 = Inr (a2, got)" "wrote W a1 a2"
      "match_memo a2 = match_memo a1" "ad_cm a2 = ad_cm a1" "got = None \<longleftrightarrow> chunk_size_of p (handle_len h) limit a1 = None"
      using add_one_req_total[OF al(1,6) fresh_queueD(3)[OF Q], of h "handle_len h" None None False mv limit] by (elim exE conjE) assumption
    have P: "0 < mpage_size (ad_cm a1)" "mpage_size (ad_cm a1) dvd handle_len h" "mpage_size (ad_cm a1) = mpage_size (ad_cm a)"
      using L by (auto simp: locked_for_def plain_ok_def same_pages_def)
    have prog: "got \<noteq> None" if "idle n B R A a" "0 < B" "footprint n p + R \<le> A" "\<forall>l. limit = Some l \<longrightarrow> 0 < l"
    proof -
      have "int (handle_len h) < kv_chunk_end (int (handle_len h)) a1"
        by (rule chunk_end_progress[OF P(1,2) al(4)]) (use that sb al(8) P(3) in \<open>simp add: idle_def same_budgets_def\<close>)
      then show ?thesis
        using chunk_size_progress[of a1 "handle_len h" p limit] that sb al(3,4) r(5) by (simp add: idle_def same_budgets_def)
    qed
    show ?thesis
    proof (cases got)
      case None
      then have a2: "a2 = a1" using add_one_req_none r(1) by blast
      obtain pc where pc: "lock_prefix h True (pcache (ad_cm a1)) = Inr pc" using L by (auto simp: locked_for_def)
      let ?a3 = "a1\<lparr>ad_cm := (ad_cm a1)\<lparr>pcache := pc\<rparr>, ad_tm := table_free row (ad_tm a1)\<rparr>"
      have u: "unlock h (ad_cm a1) = Inr ((ad_cm a1)\<lparr>pcache := pc\<rparr>)" using pc by (simp add: unlock_def)
      have K: "kept_cache ?a0 ?a3" by (rule unlock_kept[OF L u]) simp_all
      have e: "try_add_one hook p limit a = Inr (?a3, p, None)"
        using tb fresh t(1) res r(1) None a2 u by (simp add: try_add_one_def Let_def)
      have "rows_wide W (ad_cm a1) (table_free row (ad_tm a1))"
        using al(1,6,7) by (simp add: rows_wide_def table_free_def)
      then have "ready W Q ?a3" using K al(2) by (simp add: ready_def kept_cache_def)
      moreover have "idle n B R A ?a3" if "idle n B R A a"
        using that al(3,5) sb K same_pages_available[of "ad_cm a" "ad_cm ?a3"]
        by (simp add: idle_def same_budgets_def kept_cache_def table_free_def) (simp add: same_pages_def)
      ultimately show ?thesis using e prog None by auto
    next
      case (Some g)
      obtain q ch where g: "g = (q, ch)" by (cases g)
      have e: "try_add_one hook p limit a = Inr (a2, p, Some (q, ch))"
        using tb fresh t(1) res r(1) Some g by (simp add: try_add_one_def Let_def)
      have "plain_ok a2" using try_add_one_plain[OF e pl(1)] by (simp add: backed_def Let_def)
      then have "ready W Q a2" using r(2,3) al(2) by (simp add: ready_def wrote_def)
      then show ?thesis using e by auto
    qed
  qed
qed

section \<open>The pass never raises\<close>

lemma footprint_pos:
  assumes "0 < n" "0 < input_len p"
  shows "0 < footprint n p"
proof -
  have "int n \<le> int (input_len p) + int (p_output_len p) + int n - 1" using assms(2) by simp
  then have "1 \<le> div_ceil (int (input_len p) + int (p_output_len p)) (int n)"
    unfolding div_ceil_def using assms(1) zdiv_mono1[of "int n" _ "int n"] by simp
  then show ?thesis using assms(1) by (simp add: footprint_def)
qed

lemma pass_loop_total:
  assumes Q: "fresh_queue W Q" and B: "0 < B"
  shows "ready W Q (ps_adder st) \<Longrightarrow> set ps \<subseteq> set Q \<Longrightarrow>
    \<exists>st'. pass_loop hook cap lane_cap seatable ps st = Inr st' \<and> (batch_reqs st \<noteq> [] \<longrightarrow> batch_reqs st' \<noteq> []) \<and>
      (idle n B R A (ps_adder st) \<longrightarrow> chunked_inflight st < cap \<longrightarrow> q \<in> set ps \<longrightarrow> footprint n q + R \<le> A \<longrightarrow> batch_reqs st' \<noteq> [])"
proof (induction ps arbitrary: st)
  case Nil
  then show ?case by simp
next
  case (Cons p ps)
  have p: "p \<in> set Q" "set ps \<subseteq> set Q" using Cons.prems(2) by auto
  note fresh = fresh_queueD(1)[OF Q p(1)]
  show ?case
  proof (cases "cap \<le> chunked_inflight st")
    case True
    let ?st = "count_in (\<lambda>c. c\<lparr>fresh_admits_blocked_by_cap := fresh_admits_blocked_by_cap c + 1\<rparr>) (st\<lparr>kept := kept st @ [p]\<rparr>)"
    have "ready W Q (ps_adder ?st)" by (rule ready_frame[OF Cons.prems(1)]) (simp_all add: same_pages_def)
    from Cons.IH[OF this p(2)] show ?thesis using True fresh by simp
  next
    case False
    let ?limit = "if seatable > 0
      then Some (max 1 (token_budget (ps_adder st) div max 1 (int seatable - int (length (batch_reqs st))))) else None"
    have lim: "\<forall>l. ?limit = Some l \<longrightarrow> 0 < l" by (auto simp: less_max_iff_disj)
    obtain a got where t: "try_add_one hook p ?limit (ps_adder st) = Inr (a, p, got)" "ready W Q a"
      "got = None \<longrightarrow> idle n B R A (ps_adder st) \<longrightarrow> idle n B R A a"
      "idle n B R A (ps_adder st) \<longrightarrow> footprint n p + R \<le> A \<longrightarrow> got \<noteq> None"
      using try_add_one_total[OF Q p(1) Cons.prems(1), of hook ?limit n B R A] B lim by (elim exE conjE) blast
    have guard: "\<not> (chunked_req p = None \<and> cap \<le> chunked_inflight st)" using False by simp
    note L = pass_loop.simps(2)[of hook cap lane_cap seatable p ps st, unfolded Let_def not_not if_not_P[OF guard] t(1) rbind_simps prod.case]
    show ?thesis
    proof (cases got)
      case None
      let ?st = "st\<lparr>ps_adder := a, kept := kept st @ [p]\<rparr>"
      show ?thesis
      proof (cases "headroom a > 0")
        case True
        let ?f = "\<lambda>c. c\<lparr>fresh_admits_deferred := fresh_admits_deferred c + 1,
                            deferred_by := bump (if refusal a = '''' then ''other'' else refusal a) (deferred_by c)\<rparr>"
        have "ready W Q (ps_adder (count_in ?f ?st))" by (rule ready_frame[OF t(2)]) (simp_all add: same_pages_def count_in_def)
        from Cons.IH[OF this p(2)] obtain st' where st': "pass_loop hook cap lane_cap seatable ps (count_in ?f ?st) = Inr st'"
          "batch_reqs st \<noteq> [] \<longrightarrow> batch_reqs st' \<noteq> []"
          "idle n B R A (ps_adder (count_in ?f ?st)) \<longrightarrow> chunked_inflight st < cap \<longrightarrow> q \<in> set ps \<longrightarrow> footprint n q + R \<le> A \<longrightarrow>
             batch_reqs st' \<noteq> []" by auto
        have "idle n B R A (ps_adder (count_in ?f ?st)) = idle n B R A a" by (simp add: idle_def count_in_def)
        then show ?thesis using L None True fresh st' t(3,4) by auto
      next
        case False
        have "\<not> (idle n B R A (ps_adder st) \<and> q \<in> set (p # ps) \<and> footprint n q + R \<le> A)"
        proof
          assume i: "idle n B R A (ps_adder st) \<and> q \<in> set (p # ps) \<and> footprint n q + R \<le> A"
          then have ia: "idle n B R A a" using t(3) None by simp
          have "0 < n" using Cons.prems(1) i by (auto simp: ready_def plain_ok_def idle_def)
          moreover have "0 < input_len q" using fresh_queueD(2)[OF Q] i Cons.prems(2) by blast
          ultimately have "R < A" using i footprint_pos[of n q] by linarith
          then show False using False ia B by (simp add: headroom_def idle_def table_available_def)
        qed
        then show ?thesis using L None False fresh by auto
      qed
    next
      case (Some x)
      obtain r ch where x: "x = (r, ch)" by (cases x)
      let ?st = "admit p False r ch (st\<lparr>ps_adder := a\<rparr>)"
      have "ready W Q (ps_adder ?st)"
        using t(2) plain_ok_admit[of p False r ch "st\<lparr>ps_adder := a\<rparr>"] by (simp add: ready_def)
      from Cons.IH[OF this p(2)] obtain st' where "pass_loop hook cap lane_cap seatable ps ?st = Inr st'" "batch_reqs st' \<noteq> []" by auto
      then show ?thesis using L Some x fresh by simp
    qed
  qed
qed

section \<open>The scan before the pass never raises\<close>

definition looked :: "nat \<Rightarrow> pending list \<Rightarrow> 'v adder \<Rightarrow> 'v adder \<Rightarrow> bool" where
  "looked W Q a a' \<longleftrightarrow> ready W Q a' \<and> ad_tm a' = ad_tm a \<and> same_pages (ad_cm a) (ad_cm a') \<and>
     evictable_size_of (pcache (ad_cm a')) = evictable_size_of (pcache (ad_cm a))"

lemma looked_trans: "looked W Q a b \<Longrightarrow> looked W Q b c \<Longrightarrow> looked W Q a c"
  unfolding looked_def using same_pages_trans by metis

lemma looked_refl: "ready W Q a \<Longrightarrow> looked W Q a a"
  by (simp add: looked_def same_pages_def)

lemma would_seat_total:
  assumes Q: "fresh_queue W Q" "p \<in> set Q" and a: "ready W Q a"
  shows "\<exists>a' ok. would_seat p n k a = Inr (a', ok) \<and> looked W Q a a'"
proof (cases "n \<le> 0")
  case True
  then show ?thesis using fresh_queueD(1)[OF Q] looked_refl[OF a] by (auto simp: would_seat_def)
next
  case False
  obtain a1 h mv where m: "adder_match p a = Inr (a1, h, mv)" "ready W Q a1" "ad_tm a1 = ad_tm a"
    using adder_match_total[OF Q a] by auto
  have "plain_ok a" using a by (simp add: ready_def)
  note M = adder_match_plain[OF m(1) this]
  have l: "looked W Q a a1" using m M by (simp add: looked_def)
  moreover have "looked W Q a (a1\<lparr>reserved_size := x, reserved_pages := y\<rparr>)" for x y
    using l by (auto simp: looked_def ready_def plain_ok_def)
  ultimately show ?thesis using False fresh_queueD(1)[OF Q] m(1)
    by (simp add: would_seat_def Let_def) (simp add: ex_bool_eq)
qed

lemma seat_loop_total:
  assumes Q: "fresh_queue W Q"
  shows "ready W Q scan \<Longrightarrow> set ps \<subseteq> set Q \<Longrightarrow>
    \<exists>scan' m. seat_loop cap lane_cap ps n k inflight seatable scan = Inr (scan', m) \<and> looked W Q scan scan'"
proof (induction ps arbitrary: n k inflight seatable scan)
  case Nil
  then show ?case by (simp add: looked_refl)
next
  case (Cons p ps)
  have p: "p \<in> set Q" "set ps \<subseteq> set Q" using Cons.prems(2) by auto
  show ?case
  proof (cases "chunked_req p = None \<and> cap \<le> inflight")
    case True
    then show ?thesis using Cons.IH[OF Cons.prems(1) p(2)] by simp
  next
    case False
    obtain scan1 ok where w: "would_seat p n k scan = Inr (scan1, ok)" "looked W Q scan scan1"
      using would_seat_total[OF Q p(1) Cons.prems(1)] by blast
    have r1: "ready W Q scan1" using w(2) by (simp add: looked_def)
    note L = seat_loop.simps(2)[of cap lane_cap p ps n k inflight seatable scan, unfolded Let_def if_not_P[OF False] w(1) rbind_simps prod.case]
    have "\<exists>scan' m. seat_loop cap lane_cap ps n' k' i' s' scan1 = Inr (scan', m) \<and> looked W Q scan scan'" for n' k' i' s'
      using Cons.IH[OF r1 p(2)] looked_trans[OF w(2)] by blast
    then show ?thesis using L w(2) by auto
  qed
qed

lemma seatable_lanes_total:
  assumes Q: "fresh_queue W (pending_list pm)" and a: "ready W (pending_list pm) a"
  shows "\<exists>a' k. seatable_lanes pm lane_cap inflight a = Inr (a', k) \<and> ready W (pending_list pm) a' \<and>
    (idle n B R A a \<longrightarrow> idle n B R A a')"
proof -
  let ?Q = "pending_list pm"
  have r: "ready W ?Q (adder_post_init a)" by (rule ready_frame[OF a]) (simp_all add: adder_post_init_def same_pages_def)
  have nh: "\<not> is_hybrid (pcache (ad_cm a))" using a by (auto simp: ready_def plain_ok_def plain_not_hybrid)
  obtain scan m where s: "seat_loop (max_chunked_prefills pm) lane_cap ?Q (int (table_available (ad_tm a))) 0 inflight 0 (adder_post_init a) =
      Inr (scan, m)" "looked W ?Q (adder_post_init a) scan"
    using seat_loop_total[OF Q r order_refl] by blast
  let ?a = "a\<lparr>ad_cm := ad_cm scan, match_memo := match_memo scan, ad_counters := ad_counters scan, clock := clock scan\<rparr>"
  have e: "ad_cm (adder_post_init a) = ad_cm a" "ad_tm (adder_post_init a) = ad_tm a" by (simp_all add: adder_post_init_def)
  have l: "looked W ?Q a scan" using s(2) e by (simp add: looked_def)
  then have "ready W ?Q ?a" by (auto simp: looked_def ready_def plain_ok_def)
  moreover have "idle n B R A ?a" if "idle n B R A a"
    using that l same_pages_available[of "ad_cm a" "ad_cm scan"] by (simp add: idle_def looked_def) (simp add: same_pages_def)
  ultimately show ?thesis using s(1) nh by (simp add: seatable_lanes_def)
qed

section \<open>No head-of-line blocking\<close>

lemma standing_fresh: "fresh_queue W (pending_list pm) \<Longrightarrow> standing_reservation pm = 0"
  unfolding standing_reservation_def standing_of_def fresh_queue_def
  by (rule sum_list_nonneg_eq_0_iff[THEN iffD2]) (auto simp: list_all_iff)

text \<open>C40: No head-of-line blocking. On a naive or radix cache, with a queue of prompts none of which has begun, a pass raises in one
  case only: the environment asks for it (\<^verbatim>\<open>raise\<close>) and the running requests may still take more than is available. In every
  other case it returns; and if one prompt of the queue, wherever it stands, fits (its pages and what running requests may still
  take are available, a table row is free and the pass may begin a prompt), the pass admits a request, whatever prompts that do
  not fit stand before it.\<close>

theorem prefill_no_head_of_line_blocking:
  assumes "fresh_queue W (pending_list pm)" "rows_wide W (pm_cm pm) (pm_tm pm)"
    and "0 < mpage_size (pm_cm pm)" "plain_prefix (mpage_size (pm_cm pm)) (pcache (pm_cm pm))" "0 < budget"
  shows "if pending_list pm \<noteq> [] \<and> mode = ''raise'' \<and> available_size (pm_cm pm) < inflight_tokens (pm_dm pm)
    then schedule_prefill hook mode budget pm = Inl AssertionError
    else \<exists>pm' res. schedule_prefill hook mode budget pm = Inr (pm', res) \<and>
      (free_rows (pm_tm pm) \<noteq> [] \<and> 0 < max_chunked_prefills pm \<and>
       (\<exists>q \<in> set (pending_list pm). footprint (mpage_size (pm_cm pm)) q + inflight_tokens (pm_dm pm) \<le> available_size (pm_cm pm)) \<longrightarrow>
       (\<exists>st. res = Some st \<and> batch_reqs st \<noteq> []))"
proof (cases "pending_list pm = []")
  case True
  then show ?thesis by (simp add: schedule_prefill_def)
next
  case ne: False
  let ?Q = "pending_list pm" and ?n = "mpage_size (pm_cm pm)" and ?R = "inflight_tokens (pm_dm pm)" and ?A = "available_size (pm_cm pm)"
  let ?pm0 = "pm\<lparr>pm_memo := []\<rparr>"
  have st0: "standing_reservation ?pm0 = 0" using standing_fresh[of W ?pm0] assms(1) by simp
  show ?thesis
  proof (cases "mode = ''raise'' \<and> ?A < ?R")
    case True
    then have "check_finishability (standing_reservation ?pm0) mode ?pm0 = Inl AssertionError"
      by (simp add: check_finishability_def st0 Let_def)
    then show ?thesis using ne True by (simp add: schedule_prefill_def Let_def)
  next
    case False
    define pm1 where "pm1 = ?pm0\<lparr>pm_counters := note_invariant (?R - ?A) (pm_counters pm)\<rparr>"
    have c: "check_finishability (standing_reservation ?pm0) mode ?pm0 = Inr pm1"
      using False by (auto simp: check_finishability_def st0 pm1_def Let_def)
    have p: "pending_list pm1 = ?Q" "max_chunked_prefills pm1 = max_chunked_prefills pm" "pm_cm pm1 = pm_cm pm" "pm_tm pm1 = pm_tm pm"
      "pm_dm pm1 = pm_dm pm" "pm_memo pm1 = []" by (simp_all add: pm1_def)
    let ?a = "start_adder budget pm1"
    note S = start_adder_plain[of pm1 budget, unfolded p, OF assms(3,4) refl]
    have sr: "standing_reservation pm1 = 0" using standing_fresh[of W pm1] assms(1) p(1) by simp
    have tm: "ad_tm ?a = pm_tm pm" "match_memo ?a = Some []" by (simp_all add: start_adder_def adder_post_init_def p)
    have ready: "ready W ?Q ?a" using S(1,2) assms(2) tm by (simp add: ready_def memo_short_def)
    have idle: "free_rows (pm_tm pm) \<noteq> [] \<longrightarrow> idle ?n budget ?R ?A ?a"
      by (simp add: idle_def start_adder_def adder_post_init_def p sr)
    have "\<exists>a k. (if interleave_chunks pm1 \<and> length (pending_list pm1) > 1
        then seatable_lanes pm1 (lane_cap_of budget ?pm0) (inflight_chunks pm1) ?a else Inr (?a, 0)) = Inr (a, k) \<and>
        ready W ?Q a \<and> (free_rows (pm_tm pm) \<noteq> [] \<longrightarrow> idle ?n budget ?R ?A a)"
    proof (cases "interleave_chunks pm1 \<and> length (pending_list pm1) > 1")
      case True
      show ?thesis unfolding if_P[OF True]
        using seatable_lanes_total[of W pm1 ?a "lane_cap_of budget ?pm0" "inflight_chunks pm1" ?n budget ?R ?A, unfolded p(1), OF assms(1) ready] idle
        by blast
    next
      case False
      then show ?thesis using ready idle by (simp only: if_False) blast
    qed
    then obtain a k where a: "(if interleave_chunks pm1 \<and> length (pending_list pm1) > 1
        then seatable_lanes pm1 (lane_cap_of budget ?pm0) (inflight_chunks pm1) ?a else Inr (?a, 0)) = Inr (a, k)"
      "ready W ?Q a" "free_rows (pm_tm pm) \<noteq> [] \<longrightarrow> idle ?n budget ?R ?A a" by blast
    let ?st = "count_in (note_pass k (inflight_chunks pm1)) (start_state (inflight_chunks pm1) a pm1)"
    have n0: "inflight_chunks pm1 = 0"
      using assms(1) by (simp add: inflight_chunks_def p fresh_queue_def list_all_iff filter_empty_conv)
    have rd: "ready W ?Q (ps_adder ?st)"
      by (rule ready_frame[OF a(2)]) (simp_all add: same_pages_def count_in_def start_state_def)
    have il: "free_rows (pm_tm pm) \<noteq> [] \<longrightarrow> idle ?n budget ?R ?A (ps_adder ?st)"
      using a(3) by (simp add: idle_def count_in_def start_state_def)
    note L = pass_loop_total[OF assms(1,5) rd order_refl, of hook "max_chunked_prefills pm" "lane_cap_of budget ?pm0" k ?n ?R ?A]
    obtain st where l: "pass_loop hook (max_chunked_prefills pm) (lane_cap_of budget ?pm0) k ?Q ?st = Inr st" using L by blast
    have b: "batch_reqs st \<noteq> []" if "free_rows (pm_tm pm) \<noteq> []" "0 < max_chunked_prefills pm" "q \<in> set ?Q" "footprint ?n q + ?R \<le> ?A" for q
      using L[of q] il l n0 that by (auto simp: start_state_def)
    have r: "schedule_prefill hook mode budget pm = Inr (pm_after st pm1, if batch_reqs st = [] then None else Some st)"
      unfolding schedule_prefill_def Let_def if_not_P[OF ne] c rbind_simps a(1) prod.case unfolding p(1,2) l(1) rbind_simps ..
    have no: "\<not> (?Q \<noteq> [] \<and> mode = ''raise'' \<and> ?A < ?R)" using False by blast
    show ?thesis unfolding if_not_P[OF no] using r b by auto
  qed
qed

text \<open>The first prompt of the queue is too long for the pool; the second fits.\<close>

definition demo_blocked :: "int prefill_manager" where
  "demo_blocked = demo_prefill\<lparr>pending_list := [demo_prompt 1 [1, 2, 3, 4, 5, 6, 7, 8], demo_prompt 2 [3, 3]],
     pm_cm := (pm_cm demo_prefill)\<lparr>free_slots := [], committed_pages := 12\<rparr>\<rparr>"

theorem prefill_no_head_of_line_blocking_witness:
  "\<not> footprint 2 (demo_prompt 1 [1, 2, 3, 4, 5, 6, 7, 8]) \<le> available_size (pm_cm demo_blocked) \<and>
   (\<exists>pm' st. schedule_prefill None '''' 5 demo_blocked = Inr (pm', Some st) \<and> batch_reqs st \<noteq> [])"
proof -
  have m: "mpage_size (pm_cm demo_blocked) = 2" "pcache (pm_cm demo_blocked) = PRadix demo_cache"
    "max_chunked_prefills demo_blocked = 2" "free_rows (pm_tm demo_blocked) \<noteq> []"
    by (simp_all add: demo_blocked_def demo_prefill_def manager_init_def Let_def table_init_def)
  have r: "inflight_tokens (pm_dm demo_blocked) = 0" "available_size (pm_cm demo_blocked) = 6" "footprint 2 (demo_prompt 2 [3, 3]) = 4"
    "footprint 2 (demo_prompt 1 [1, 2, 3, 4, 5, 6, 7, 8]) = 10"
    by code_simp+
  have w: "fresh_queue 8 (pending_list demo_blocked)" "rows_wide 8 (pm_cm demo_blocked) (pm_tm demo_blocked)" by code_simp+
  have "page_size demo_cache = 2" by (simp add: demo_cache_def)
  then have pl: "plain_prefix 2 (PRadix demo_cache)" using demo_cache_inv(1) by simp
  have q: "demo_prompt 2 [3, 3] \<in> set (pending_list demo_blocked)" by (simp add: demo_blocked_def)
  have "\<exists>pm' st. schedule_prefill None '''' 5 demo_blocked = Inr (pm', Some st) \<and> batch_reqs st \<noteq> []"
  proof -
    have b: "0 < mpage_size (pm_cm demo_blocked)" "plain_prefix (mpage_size (pm_cm demo_blocked)) (pcache (pm_cm demo_blocked))" "(0 :: int) < 5"
      using m pl by simp_all
    have n: "\<not> (pending_list demo_blocked \<noteq> [] \<and> '''' = ''raise'' \<and> available_size (pm_cm demo_blocked) < inflight_tokens (pm_dm demo_blocked))" by simp
    obtain pm' res where "schedule_prefill None '''' 5 demo_blocked = Inr (pm', res)"
      "free_rows (pm_tm demo_blocked) \<noteq> [] \<and> 0 < max_chunked_prefills demo_blocked \<and>
       (\<exists>q \<in> set (pending_list demo_blocked). footprint (mpage_size (pm_cm demo_blocked)) q + inflight_tokens (pm_dm demo_blocked) \<le>
         available_size (pm_cm demo_blocked)) \<longrightarrow> (\<exists>st. res = Some st \<and> batch_reqs st \<noteq> [])"
      using prefill_no_head_of_line_blocking[OF w b, of "''''" None, unfolded if_not_P[OF n]] by (elim exE conjE)
    moreover have "\<exists>q \<in> set (pending_list demo_blocked). footprint (mpage_size (pm_cm demo_blocked)) q + inflight_tokens (pm_dm demo_blocked) \<le>
         available_size (pm_cm demo_blocked)" by (rule bexI[OF _ q]) (use m r in simp)
    ultimately show ?thesis using m(3,4) by auto
  qed
  then show ?thesis using r by simp
qed

end
