(* ===== verification/Ngram_Drafter.thy ===== *)
theory Ngram_Drafter
  imports Prelude
begin

text \<open>
  The drafter of prompt-lookup speculation, \<^verbatim>\<open>NgramDrafter\<close> and \<^verbatim>\<open>accepted_count\<close> of \<^verbatim>\<open>scheduler/spec_ngram.py\<close>: what it indexes,
  what a hit is, what its early test \<^verbatim>\<open>could_match\<close> promises, and why the accepted prefix of a verified draft with its bonus
  token is what greedy decoding produces.
\<close>

section \<open>The drafter\<close>

text \<open>
  \<^verbatim>\<open>NgramDrafter\<close>: the index maps an n-gram to the position after its last occurrence, \<open>prefix\<close> holds the hashes of the
  (n-1)-prefixes of the indexed n-grams. Python's hash of a tuple of integers is the parameter \<open>hash\<close>, a function.
\<close>

record drafter =
  ngram_n :: nat
  ngram_index :: "int list \<Rightarrow> nat option"
  ngram_prefix :: "int set"
  cursor :: nat

definition drafter_init :: "nat \<Rightarrow> drafter result" where
  "drafter_init n =
     py_assert (n \<ge> 1) (Inr \<lparr>ngram_n = n, ngram_index = (\<lambda>_. None), ngram_prefix = {}, cursor = 0\<rparr>)"

function observe_loop ::
  "(int list \<Rightarrow> int) \<Rightarrow> nat \<Rightarrow> int list \<Rightarrow> nat \<Rightarrow> (int list \<Rightarrow> nat option) \<Rightarrow> int set \<Rightarrow> nat \<times> (int list \<Rightarrow> nat option) \<times> int set" where
  "observe_loop hash n tokens i idx pre =
     (if int (i + n) \<le> int (length tokens) - 1
      then let key = slice i (i + n) tokens
           in observe_loop hash n tokens (i + 1) (idx(key \<mapsto> i + n)) (insert (hash (butlast key)) pre)
      else (i, idx, pre))"
  by auto
termination by (relation "measure (\<lambda>(hash, n, tokens, i, idx, pre). length tokens - i)") auto

declare observe_loop.simps [simp del]

definition observe :: "(int list \<Rightarrow> int) \<Rightarrow> int list \<Rightarrow> drafter \<Rightarrow> drafter" where
  "observe hash tokens d =
     (case observe_loop hash (ngram_n d) tokens (cursor d) (ngram_index d) (ngram_prefix d) of
        (i, idx, pre) \<Rightarrow> d\<lparr>cursor := i, ngram_index := idx, ngram_prefix := pre\<rparr>)"

definition ngram_hit :: "int list \<Rightarrow> drafter \<Rightarrow> nat option" where
  "ngram_hit tokens d =
     (let pos = length tokens in
      if pos < ngram_n d then None
      else case ngram_index d (slice (pos - ngram_n d) pos tokens) of
             None \<Rightarrow> None
           | Some hit \<Rightarrow> if hit \<ge> pos then None else Some hit)"

definition has_match :: "int list \<Rightarrow> drafter \<Rightarrow> bool" where
  "has_match tokens d \<longleftrightarrow> ngram_hit tokens d \<noteq> None"

definition could_match :: "(int list \<Rightarrow> int) \<Rightarrow> int list \<Rightarrow> drafter \<Rightarrow> bool" where
  "could_match hash tokens d =
     (let n1 = ngram_n d - 1; pos = length tokens in
      if pos < n1 then False else hash (slice (pos - n1) pos tokens) \<in> ngram_prefix d)"

definition draft :: "int list \<Rightarrow> int \<Rightarrow> drafter \<Rightarrow> int list" where
  "draft tokens k d =
     (if k \<le> 0 then []
      else case ngram_hit tokens d of
             None \<Rightarrow> []
           | Some hit \<Rightarrow> slice hit (hit + nat k) tokens)"

text \<open>\<^verbatim>\<open>accepted_count\<close>: the loop over the draft and the greedy tokens.\<close>

function accepted_loop :: "nat \<Rightarrow> int list \<Rightarrow> int list \<Rightarrow> nat" where
  "accepted_loop j dr greedy =
     (if j < length dr \<and> int j < int (length greedy) - 1 \<and> greedy ! j = dr ! j then accepted_loop (j + 1) dr greedy else j)"
  by auto
termination by (relation "measure (\<lambda>(j, dr, greedy). length dr - j)") auto

declare accepted_loop.simps [simp del]

definition accepted_count :: "int list \<Rightarrow> int list \<Rightarrow> nat" where
  "accepted_count dr greedy = accepted_loop 0 dr greedy"

section \<open>What the drafter knows\<close>

text \<open>The position after an n-gram of the tokens; the last one before \<open>lim\<close> is what the index should hold.\<close>

definition gram_at :: "nat \<Rightarrow> int list \<Rightarrow> int list \<Rightarrow> nat \<Rightarrow> bool" where
  "gram_at n tokens key j \<longleftrightarrow> n \<le> j \<and> j \<le> length tokens \<and> slice (j - n) j tokens = key"

definition last_gram :: "nat \<Rightarrow> int list \<Rightarrow> nat \<Rightarrow> int list \<Rightarrow> nat option \<Rightarrow> bool" where
  "last_gram n tokens lim key x \<longleftrightarrow>
     (case x of None \<Rightarrow> \<forall>j < lim. \<not> gram_at n tokens key j
      | Some j \<Rightarrow> j < lim \<and> gram_at n tokens key j \<and> (\<forall>j' < lim. gram_at n tokens key j' \<longrightarrow> j' \<le> j))"

text \<open>The drafter has indexed the n-grams that end before position \<open>cursor + n\<close> of the tokens, and nothing else.\<close>

definition indexed :: "(int list \<Rightarrow> int) \<Rightarrow> int list \<Rightarrow> drafter \<Rightarrow> bool" where
  "indexed hash tokens d \<longleftrightarrow> 1 \<le> ngram_n d \<and>
     (\<forall>key. last_gram (ngram_n d) tokens (cursor d + ngram_n d) key (ngram_index d key)) \<and>
     ngram_prefix d = (\<lambda>j. hash (butlast (slice (j - ngram_n d) j tokens))) ` {j. ngram_n d \<le> j \<and> j < cursor d + ngram_n d} \<and>
     cursor d \<le> length tokens - ngram_n d"

lemma slice_append: "j \<le> length xs \<Longrightarrow> slice i j (xs @ ys) = slice i j xs"
  by (simp add: slice_def)

lemma gram_at_append: "j \<le> length tokens \<Longrightarrow> gram_at n (tokens @ rest) key j = gram_at n tokens key j"
  by (simp add: gram_at_def slice_append)

lemma last_gram_step:
  assumes "last_gram n tokens (i + n) key x" "i + n \<le> length tokens"
  shows "last_gram n tokens (Suc i + n) key (if slice i (i + n) tokens = key then Some (i + n) else x)"
proof -
  have g: "gram_at n tokens key (i + n) \<longleftrightarrow> slice i (i + n) tokens = key" using assms(2) by (simp add: gram_at_def)
  show ?thesis using assms(1) g by (auto simp: last_gram_def less_Suc_eq split: option.splits)
qed

lemma observe_loop_indexed:
  assumes "1 \<le> n"
  shows "\<forall>key. last_gram n tokens (i + n) key (idx key) \<Longrightarrow>
   pre = (\<lambda>j. hash (butlast (slice (j - n) j tokens))) ` {j. n \<le> j \<and> j < i + n} \<Longrightarrow>
   observe_loop hash n tokens i idx pre = (i', idx', pre') \<Longrightarrow>
   i' = max i (length tokens - n) \<and> (\<forall>key. last_gram n tokens (i' + n) key (idx' key)) \<and>
   pre' = (\<lambda>j. hash (butlast (slice (j - n) j tokens))) ` {j. n \<le> j \<and> j < i' + n}"
proof (induction hash n tokens i idx pre rule: observe_loop.induct)
  case (1 hash n tokens i idx pre)
  show ?case
  proof (cases "int (i + n) \<le> int (length tokens) - 1")
    case True
    then have le: "i + n \<le> length tokens" "i + n < length tokens" by linarith+
    let ?key = "slice i (i + n) tokens"
    have a: "\<forall>key. last_gram n tokens (i + 1 + n) key ((idx(?key \<mapsto> i + n)) key)"
    proof
      fix key
      have "last_gram n tokens (Suc i + n) key (if ?key = key then Some (i + n) else idx key)"
        using 1(2) le(1) by (intro last_gram_step) blast+
      then show "last_gram n tokens (i + 1 + n) key ((idx(?key \<mapsto> i + n)) key)" by (cases "?key = key") auto
    qed
    have s: "{j. n \<le> j \<and> j < i + 1 + n} = insert (i + n) {j. n \<le> j \<and> j < i + n}" by auto
    have b: "insert (hash (butlast ?key)) pre = (\<lambda>j. hash (butlast (slice (j - n) j tokens))) ` {j. n \<le> j \<and> j < i + 1 + n}"
      unfolding s 1(3) by simp
    have "observe_loop hash n tokens (i + 1) (idx(?key \<mapsto> i + n)) (insert (hash (butlast ?key)) pre) = (i', idx', pre')"
      using 1(4) True by (simp add: observe_loop.simps[of hash n tokens i] Let_def)
    from 1(1)[OF True refl a b this] show ?thesis using le(2) by auto
  next
    case False
    then show ?thesis using 1(2,3,4) by (auto simp: observe_loop.simps[of hash n tokens i] max_def)
  qed
qed

lemma indexed_frame:
  assumes "indexed hash tokens d"
  shows "\<forall>key. last_gram (ngram_n d) (tokens @ rest) (cursor d + ngram_n d) key (ngram_index d key)"
    "ngram_prefix d = (\<lambda>j. hash (butlast (slice (j - ngram_n d) j (tokens @ rest)))) ` {j. ngram_n d \<le> j \<and> j < cursor d + ngram_n d}"
proof -
  let ?n = "ngram_n d" and ?c = "cursor d"
  have c: "?c \<le> length tokens - ?n" using assms by (simp add: indexed_def)
  have j: "j \<le> length tokens" if "?n \<le> j" "j < ?c + ?n" for j using that c by linarith
  have g: "gram_at ?n (tokens @ rest) key j = gram_at ?n tokens key j" if "j < ?c + ?n" for key j
  proof (cases "?n \<le> j")
    case True
    then show ?thesis using gram_at_append[OF j[OF True that]] by blast
  qed (simp add: gram_at_def)
  have "last_gram ?n (tokens @ rest) (?c + ?n) key x = last_gram ?n tokens (?c + ?n) key x" for key x
    unfolding last_gram_def using g by (auto split: option.splits)
  then show "\<forall>key. last_gram ?n (tokens @ rest) (?c + ?n) key (ngram_index d key)" using assms by (simp add: indexed_def)
  have "slice (j - ?n) j (tokens @ rest) = slice (j - ?n) j tokens" if "?n \<le> j" "j < ?c + ?n" for j
    using slice_append[OF j[OF that]] by blast
  then have "(\<lambda>j. hash (butlast (slice (j - ?n) j (tokens @ rest)))) ` {j. ?n \<le> j \<and> j < ?c + ?n} =
      (\<lambda>j. hash (butlast (slice (j - ?n) j tokens))) ` {j. ?n \<le> j \<and> j < ?c + ?n}"
    by (intro image_cong refl) simp
  then show "ngram_prefix d = (\<lambda>j. hash (butlast (slice (j - ?n) j (tokens @ rest)))) ` {j. ?n \<le> j \<and> j < ?c + ?n}"
    using assms unfolding indexed_def by metis
qed

lemma observe_indexed:
  fixes rest :: "int list"
  assumes "indexed hash tokens d"
  defines "ts \<equiv> tokens @ rest"
  shows "indexed hash ts (observe hash ts d) \<and> cursor (observe hash ts d) = length ts - ngram_n d \<and>
    ngram_n (observe hash ts d) = ngram_n d"
proof -
  obtain i idx pre where o: "observe_loop hash (ngram_n d) ts (cursor d) (ngram_index d) (ngram_prefix d) = (i, idx, pre)"
    by (metis prod_cases3)
  have n: "1 \<le> ngram_n d" "cursor d \<le> length ts - ngram_n d" using assms by (auto simp: indexed_def ts_def)
  note L = observe_loop_indexed[OF n(1) indexed_frame[OF assms(1), of rest, folded ts_def] o]
  have "i = length ts - ngram_n d" using L n(2) by simp
  moreover have "observe hash ts d = d\<lparr>cursor := i, ngram_index := idx, ngram_prefix := pre\<rparr>" using o by (simp add: observe_def)
  ultimately show ?thesis using L n(1) by (elim conjE) (simp add: indexed_def)
qed

text \<open>The drafters a request can have: new, then shown a token list that only grows.\<close>

inductive observed :: "(int list \<Rightarrow> int) \<Rightarrow> nat \<Rightarrow> int list \<Rightarrow> drafter \<Rightarrow> bool" for hash n where
  new: "drafter_init n = Inr d \<Longrightarrow> observed hash n [] d"
| grown: "observed hash n tokens d \<Longrightarrow> observed hash n (tokens @ rest) (observe hash (tokens @ rest) d)"

lemma observed_indexed:
  "observed hash n tokens d \<Longrightarrow> indexed hash tokens d \<and> cursor d = length tokens - n \<and> ngram_n d = n"
proof (induction rule: observed.induct)
  case (new d)
  then show ?case by (auto simp: drafter_init_def py_assert_eq_Inr indexed_def last_gram_def gram_at_def)
next
  case (grown tokens d rest)
  then show ?case using observe_indexed[of hash tokens d rest] by simp
qed

lemma observed_last:
  assumes "observed hash n tokens d" "n \<le> length tokens"
  shows "last_gram n tokens (length tokens) key (ngram_index d key)"
  using observed_indexed[OF assms(1)] assms(2) by (auto simp: indexed_def)

lemma observed_prefix:
  assumes "observed hash n tokens d" "n \<le> j" "j < length tokens"
  shows "hash (butlast (slice (j - n) j tokens)) \<in> ngram_prefix d"
  using observed_indexed[OF assms(1)] assms(2,3) by (auto simp: indexed_def)

text \<open>A hit is the position after the last earlier occurrence of the last \<open>n\<close> tokens.\<close>

lemma ngram_hit_last:
  assumes "observed hash n tokens d" "n \<le> length tokens"
  shows "last_gram n tokens (length tokens) (drop (length tokens - n) tokens) (ngram_hit tokens d)"
proof -
  have n: "ngram_n d = n" using observed_indexed[OF assms(1)] by simp
  have s: "slice (length tokens - n) (length tokens) tokens = drop (length tokens - n) tokens" by (simp add: slice_def)
  have "ngram_hit tokens d = ngram_index d (drop (length tokens - n) tokens)"
    using observed_last[OF assms, of "drop (length tokens - n) tokens"] assms(2) n s
    by (auto simp: ngram_hit_def Let_def last_gram_def split: option.splits)
  then show ?thesis using observed_last[OF assms] by simp
qed

lemma shifted_constant: "xs \<noteq> [] \<Longrightarrow> butlast xs = tl xs \<Longrightarrow> xs = replicate (length xs) (hd xs)"
proof (induction xs)
  case (Cons x xs)
  show ?case
  proof (cases "xs = []")
    case False
    then have e: "x # butlast xs = xs" using Cons.prems(2) by simp
    then have "hd xs = x" "butlast xs = tl xs" by (metis list.sel(1), metis list.sel(3))
    then show ?thesis using Cons.IH[OF False] by simp
  qed simp
qed simp

section \<open>The verified prefix\<close>

lemma accepted_loop_spec:
  assumes "j \<le> length dr" "int j \<le> int (length greedy) - 1" "\<forall>i < j. greedy ! i = dr ! i"
  shows "accepted_loop j dr greedy \<le> length dr \<and> accepted_loop j dr greedy < length greedy \<and>
    (\<forall>i < accepted_loop j dr greedy. greedy ! i = dr ! i) \<and>
    (accepted_loop j dr greedy < length dr \<longrightarrow> accepted_loop j dr greedy + 1 < length greedy \<longrightarrow>
       greedy ! accepted_loop j dr greedy \<noteq> dr ! accepted_loop j dr greedy)"
  using assms
proof (induction j dr greedy rule: accepted_loop.induct)
  case (1 j dr greedy)
  show ?case
  proof (cases "j < length dr \<and> int j < int (length greedy) - 1 \<and> greedy ! j = dr ! j")
    case True
    then have "j + 1 \<le> length dr" "int (j + 1) \<le> int (length greedy) - 1" "\<forall>i < j + 1. greedy ! i = dr ! i"
      using 1(4) by (auto simp: less_Suc_eq)
    from 1(1)[OF True this] show ?thesis using True by (simp add: accepted_loop.simps[of j])
  next
    case False
    then have "accepted_loop j dr greedy = j" by (subst accepted_loop.simps) (simp only: if_not_P[OF False] if_False)
    then show ?thesis using 1(2,3,4) False by auto
  qed
qed

text \<open>Ordinary greedy decoding: each token is the model's own after all the tokens before it.\<close>

fun greedy_extend :: "(int list \<Rightarrow> int) \<Rightarrow> nat \<Rightarrow> int list \<Rightarrow> int list" where
  "greedy_extend next 0 ids = []"
| "greedy_extend next (Suc k) ids = next ids # greedy_extend next k (ids @ [next ids])"

lemma greedy_extend_unique:
  "length ts = k \<Longrightarrow> (\<And>i. i < k \<Longrightarrow> ts ! i = next (ids @ take i ts)) \<Longrightarrow> ts = greedy_extend next k ids"
proof (induction k arbitrary: ids ts)
  case (Suc k)
  then obtain t ts' where ts: "ts = t # ts'" "length ts' = k" by (metis length_Suc_conv)
  have t: "t = next ids" using Suc.prems(2)[of 0] ts by simp
  have "ts' ! i = next ((ids @ [t]) @ take i ts')" if "i < k" for i
    using Suc.prems(2)[of "Suc i"] that ts by simp
  then show ?case using Suc.IH[of ts' "ids @ [t]"] ts t by simp
qed simp

text \<open>What the forward of a verify step returns: the model's token after each prefix of the draft.\<close>

definition verifies :: "(int list \<Rightarrow> int) \<Rightarrow> int list \<Rightarrow> int list \<Rightarrow> int list \<Rightarrow> bool" where
  "verifies next ids dr greedy \<longleftrightarrow> greedy = map (\<lambda>i. next (ids @ take i dr)) [0..<length dr + 1]"

lemma emitted_greedy:
  assumes "verifies next ids dr greedy"
  shows "take (accepted_count dr greedy + 1) greedy = greedy_extend next (accepted_count dr greedy + 1) ids"
proof (rule greedy_extend_unique)
  let ?a = "accepted_count dr greedy"
  have len: "length greedy = length dr + 1" using assms by (simp add: verifies_def)
  have A: "?a \<le> length dr" "?a < length greedy" "\<forall>i < ?a. greedy ! i = dr ! i"
    using accepted_loop_spec[of 0 dr greedy] len by (simp_all add: accepted_count_def)
  show "length (take (?a + 1) greedy) = ?a + 1" using A(2) by simp
  fix i assume i: "i < ?a + 1"
  have "take i dr = take i (take (?a + 1) greedy)"
    using A i by (intro nth_equalityI) auto
  then show "take (?a + 1) greedy ! i = next (ids @ take i (take (?a + 1) greedy))"
    using assms i A(1) by (simp add: verifies_def del: upt_Suc)
qed

text \<open>C22: The drafter proposes what followed the most recent earlier occurrence of the last \<open>n\<close> tokens: when these tokens occur
  before the end of the list, \<^verbatim>\<open>draft\<close> returns the up to \<open>k\<close> tokens after the last such occurrence, at least one;
  when they do not, it returns nothing. (The drafter was shown any sequence of growing token lists up to this one.)\<close>

theorem draft_most_recent:
  assumes "observed hash n tokens d" "n \<le> length tokens" "0 < k"
  defines "occurs \<equiv> \<lambda>j. n \<le> j \<and> j < length tokens \<and> slice (j - n) j tokens = drop (length tokens - n) tokens"
  shows "(\<exists>j. occurs j) \<and> draft tokens k d = take (nat k) (drop (GREATEST j. occurs j) tokens) \<and> draft tokens k d \<noteq> [] \<or>
    (\<forall>j. \<not> occurs j) \<and> draft tokens k d = []"
proof (cases "ngram_hit tokens d")
  case None
  then show ?thesis
    using ngram_hit_last[OF assms(1,2)] by (auto simp: last_gram_def gram_at_def draft_def occurs_def)
next
  case (Some j)
  then have j: "occurs j" "\<And>j'. occurs j' \<Longrightarrow> j' \<le> j"
    using ngram_hit_last[OF assms(1,2)] by (auto simp: last_gram_def gram_at_def occurs_def)
  have g: "(GREATEST j. occurs j) = j" using j by (rule Greatest_equality)
  have "draft tokens k d = slice j (j + nat k) tokens" using Some assms(3) by (simp add: draft_def)
  then have "draft tokens k d = take (nat k) (drop j tokens)" by (simp add: slice_def drop_take)
  moreover have "j < length tokens" using j(1) by (simp add: occurs_def)
  ultimately show ?thesis using g j(1) assms(3) by auto
qed

text \<open>A small hash and token list for the demonstrations.\<close>

definition demo_hash :: "int list \<Rightarrow> int" where
  "demo_hash xs = foldl (\<lambda>h x. h * 31 + x) 7 xs"

definition demo_tokens :: "int list" where
  "demo_tokens = [1, 2, 3, 9, 1, 2, 4, 5, 1, 2]"

lemma demo_observed:
  "observed demo_hash 2 demo_tokens (observe demo_hash demo_tokens \<lparr>ngram_n = 2, ngram_index = (\<lambda>_. None), ngram_prefix = {}, cursor = 0\<rparr>)"
  using observed.grown[OF observed.new[of 2], of _ demo_hash demo_tokens] by (simp add: drafter_init_def py_assert_def)

theorem draft_most_recent_witness:
  "\<exists>d. observed demo_hash 2 demo_tokens d \<and> draft demo_tokens 3 d = [4, 5, 1]"
proof -
  let ?d = "observe demo_hash demo_tokens \<lparr>ngram_n = 2, ngram_index = (\<lambda>_. None), ngram_prefix = {}, cursor = 0\<rparr>"
  let ?occ = "\<lambda>j. 2 \<le> j \<and> j < length demo_tokens \<and> slice (j - 2) j demo_tokens = drop (length demo_tokens - 2) demo_tokens"
  have len: "length demo_tokens = 10" by (simp add: demo_tokens_def)
  have "(GREATEST j. ?occ j) = 6"
  proof (rule Greatest_equality)
    show "?occ 6" by (simp add: demo_tokens_def slice_def)
    fix j assume j: "?occ j"
    have "\<not> ?occ 7" "\<not> ?occ 8" "\<not> ?occ 9" by (simp_all add: demo_tokens_def slice_def)
    then have "j \<noteq> 7" "j \<noteq> 8" "j \<noteq> 9" using j by blast+
    then show "j \<le> 6" using j len by linarith
  qed
  moreover have "?occ 6" by (simp add: demo_tokens_def slice_def)
  moreover have "2 \<le> length demo_tokens" by (simp add: len)
  ultimately have "draft demo_tokens 3 ?d = take (nat 3) (drop 6 demo_tokens)"
    using draft_most_recent[OF demo_observed, of 3] by (metis zero_less_numeral)
  then have "draft demo_tokens 3 ?d = [4, 5, 1]" by (simp add: demo_tokens_def)
  then show ?thesis using demo_observed by blast
qed

text \<open>C32: The test before a token lands, \<^verbatim>\<open>could_match\<close>, is exact up to one case: whenever the drafter finds a match for the list
  with the next token, whatever that token is, \<^verbatim>\<open>could_match\<close> held for the list before it, or the last \<open>n + 1\<close> tokens are all
  the same.\<close>

theorem could_match_necessary:
  assumes "observed hash n tokens d" "has_match (tokens @ [t]) (observe hash (tokens @ [t]) d)"
  shows "could_match hash tokens d \<or> n \<le> length tokens \<and> drop (length tokens - n) (tokens @ [t]) = replicate (n + 1) t"
proof -
  let ?ts = "tokens @ [t]"
  let ?d = "observe hash ?ts d"
  have o: "observed hash n ?ts ?d" by (rule observed.grown[OF assms(1)])
  have n: "ngram_n d = n" "ngram_n ?d = n" "1 \<le> n"
    using observed_indexed[OF assms(1)] observed_indexed[OF o] by (auto simp: indexed_def)
  obtain j where hit: "ngram_hit ?ts ?d = Some j" using assms(2) by (auto simp: has_match_def)
  then have len: "n \<le> length ?ts" using n(2) by (auto simp: ngram_hit_def Let_def split: if_splits)
  have J: "j < length ?ts" "n \<le> j" "slice (j - n) j ?ts = drop (length ?ts - n) ?ts"
    using ngram_hit_last[OF o len] hit by (auto simp: last_gram_def gram_at_def)
  show ?thesis
  proof (cases "j < length tokens")
    case True
    have k: "slice (j - n) j tokens = drop (length ?ts - n) ?ts" using J(3) True by (simp add: slice_append)
    have "butlast (drop (length ?ts - n) ?ts) = slice (length tokens - (n - 1)) (length tokens) tokens"
      using n(3) len by (simp add: butlast_drop slice_def)
    then have "could_match hash tokens d"
      using observed_prefix[OF assms(1) J(2) True] len n unfolding k by (simp add: could_match_def Let_def)
    then show ?thesis ..
  next
    case False
    then have j: "j = length tokens" using J(1) by simp
    let ?x = "drop (length tokens - n) ?ts"
    have le: "n \<le> length tokens" using J(2) j by simp
    have "butlast ?x = slice (j - n) j ?ts" using le j by (simp add: butlast_drop slice_def)
    also have "\<dots> = tl ?x" unfolding J(3) using le n(3) by (simp add: tl_drop Suc_diff_le drop_Suc)
    finally have x: "?x = replicate (length ?x) (hd ?x)" by (intro shifted_constant) simp_all
    have l: "length ?x = n + 1" using le by simp
    have "last ?x = t" by simp
    moreover have "last ?x = hd ?x" using x l by (metis last_replicate add_is_0 one_neq_zero)
    ultimately show ?thesis using x l le by simp
  qed
qed

theorem could_match_necessary_witness:
  "\<exists>d. observed demo_hash 2 (butlast demo_tokens) d \<and> has_match demo_tokens (observe demo_hash demo_tokens d) \<and>
     could_match demo_hash (butlast demo_tokens) d"
proof -
  let ?d = "observe demo_hash (butlast demo_tokens) \<lparr>ngram_n = 2, ngram_index = (\<lambda>_. None), ngram_prefix = {}, cursor = 0\<rparr>"
  have t: "butlast demo_tokens @ [2] = demo_tokens" by (simp add: demo_tokens_def)
  have o: "observed demo_hash 2 (butlast demo_tokens) ?d"
    using observed.grown[OF observed.new[of 2], of _ demo_hash "butlast demo_tokens"] by (simp add: drafter_init_def py_assert_def)
  have "observed demo_hash 2 demo_tokens (observe demo_hash demo_tokens ?d)" using observed.grown[OF o, of "[2]"] t by simp
  from ngram_hit_last[OF this]
  have "last_gram 2 demo_tokens (length demo_tokens) [1, 2] (ngram_hit demo_tokens (observe demo_hash demo_tokens ?d))"
    by (simp add: demo_tokens_def)
  moreover have "gram_at 2 demo_tokens [1, 2] 6" "6 < length demo_tokens" by (simp_all add: gram_at_def demo_tokens_def slice_def)
  ultimately have h: "has_match demo_tokens (observe demo_hash demo_tokens ?d)"
    by (auto simp: has_match_def last_gram_def split: option.splits)
  have "\<not> drop (length (butlast demo_tokens) - 2) demo_tokens = replicate 3 2" by (simp add: demo_tokens_def numeral_3_eq_3)
  then have "could_match demo_hash (butlast demo_tokens) ?d"
    using could_match_necessary[OF o, of 2] h unfolding t by simp
  then show ?thesis using o h by blast
qed

text \<open>The exception is real: on a run of one token the first match comes without \<^verbatim>\<open>could_match\<close> having announced it.\<close>

lemma could_match_misses_runs:
  "\<exists>d. observed demo_hash 2 [5, 5] d \<and> \<not> could_match demo_hash [5, 5] d \<and> has_match [5, 5, 5] (observe demo_hash [5, 5, 5] d)"
proof -
  let ?d0 = "\<lparr>ngram_n = 2, ngram_index = (\<lambda>_. None), ngram_prefix = {}, cursor = 0\<rparr>"
  have "observed demo_hash 2 [5, 5] (observe demo_hash [5, 5] ?d0)"
    using observed.grown[OF observed.new[of 2], of _ demo_hash "[5, 5]"] by (simp add: drafter_init_def py_assert_def)
  moreover have d: "observe demo_hash [5, 5] ?d0 = ?d0" by (simp add: observe_def observe_loop.simps)
  moreover have "\<not> could_match demo_hash [5, 5] ?d0" by (simp add: could_match_def)
  moreover have "has_match [5, 5, 5] (observe demo_hash [5, 5, 5] ?d0)"
    by (simp add: observe_def observe_loop.simps has_match_def ngram_hit_def slice_def Let_def)
  ultimately show ?thesis by metis
qed

end
