(* ===== verification/Spec_Step.thy ===== *)
theory Spec_Step
  imports Ngram_Drafter Manager_Commit Cache_Commit
begin

text \<open>
  One step of the speculative decoder, \<^verbatim>\<open>SpecNgramDecoder\<close> of \<^verbatim>\<open>scheduler/spec_ngram.py\<close>: its state and statistics, the budget, the
  staging of a draft, the commit, the messages, and \<^verbatim>\<open>run_step\<close> over all of them; beside it the drain of an ordinary decode
  step, from \<^verbatim>\<open>scheduler/scheduler.py\<close>. The engine's forward and its state kernels are the argument \<open>fwd\<close>, the tokenizer's
  decoder is a field of the stop rules; times and CUDA metadata are left out.
\<close>

section \<open>State of a decoder\<close>

text \<open>
  \<^verbatim>\<open>_SpecState\<close>: the object identity of its request, the drafter, the host token list and the adaptive draft length. Of the
  break-even estimator only what is not wall-clock time is kept: whether narrow probes are still due, and how many ran.
\<close>

record spec_state =
  ss_req :: nat
  ss_drafter :: drafter
  ss_max_k :: int
  ss_adaptive :: bool
  ss_tokens :: "int list"
  ss_k :: int
  ss_gated :: nat
  ss_seeding :: bool
  ss_probes :: nat

record spec_stats =
  verify_steps :: nat
  plain_peeks :: nat
  drafted_tokens :: nat
  accepted_tokens :: nat
  emitted_tokens :: nat
  declined_shape :: nat
  declined_no_slot :: nat
  declined_budget :: nat
  declined_stale_match :: nat
  declined_uneconomic :: nat
  seed_probe_steps :: nat
  accepted_hist :: "(nat \<times> nat) list"

text \<open>
  \<^verbatim>\<open>SpecNgramDecoder\<close>: its settings, its state and its statistics. \<open>fast_path\<close> is \<^verbatim>\<open>fast_prep\<close> on a pool that does not grow;
  \<open>track_chunk_size\<close> is the attribute of the state pool the fast preparation reads.
\<close>

record decoder =
  dec_n :: nat
  draft_len :: int
  dec_adaptive :: bool
  post_drain :: bool
  gate_seed :: bool
  fast_path :: bool
  track_chunk_size :: nat
  dec_state :: "spec_state option"
  dec_stats :: spec_stats

definition seed_widths :: "int list" where
  "seed_widths = [1, 3]"

definition note_accepted :: "nat \<Rightarrow> spec_stats \<Rightarrow> spec_stats" where
  "note_accepted accepted st =
     st\<lparr>accepted_hist := AList.update accepted ((case map_of (accepted_hist st) accepted of Some c \<Rightarrow> c | None \<Rightarrow> 0) + 1) (accepted_hist st)\<rparr>"

definition sync :: "(int list \<Rightarrow> int) \<Rightarrow> int list \<Rightarrow> spec_state \<Rightarrow> spec_state" where
  "sync hash ids s =
     (let have_n = length (ss_tokens s); want = length ids; d = ss_drafter s;
          s1 = (if want > have_n then s\<lparr>ss_tokens := ss_tokens s @ slice have_n want ids\<rparr>
                else if want < have_n
                then s\<lparr>ss_tokens := take want (ss_tokens s), ss_drafter := d\<lparr>cursor := min (cursor d) (want - ngram_n d)\<rparr>\<rparr>
                else s)
      in s1\<lparr>ss_drafter := observe hash (ss_tokens s1) (ss_drafter s1)\<rparr>)"

definition note_draft :: "int \<Rightarrow> nat \<Rightarrow> spec_state \<Rightarrow> spec_state" where
  "note_draft drafted accepted s =
     (if \<not> ss_adaptive s then s
      else if int accepted = drafted then s\<lparr>ss_k := ss_max_k s\<rparr>
      else if accepted = 0 then s\<lparr>ss_k := max 1 (ss_k s div 2)\<rparr>
      else s)"

definition new_spec_state :: "req \<Rightarrow> decoder \<Rightarrow> spec_state result" where
  "new_spec_state r dec =
     rbind (drafter_init (dec_n dec)) (\<lambda>d. Inr \<lparr>ss_req = req_id r, ss_drafter = d, ss_max_k = draft_len dec, ss_adaptive = dec_adaptive dec,
       ss_tokens = [], ss_k = draft_len dec, ss_gated = 0, ss_seeding = (gate_seed dec \<and> draft_len dec > 3), ss_probes = 0\<rparr>)"

definition state_for :: "req \<Rightarrow> decoder \<Rightarrow> spec_state result" where
  "state_for r dec =
     (case dec_state dec of
        Some s \<Rightarrow> if ss_req s = req_id r then Inr s else new_spec_state r dec
      | None \<Rightarrow> new_spec_state r dec)"

definition count_stat :: "(spec_stats \<Rightarrow> spec_stats) \<Rightarrow> decoder \<Rightarrow> decoder" where
  "count_stat f dec = dec\<lparr>dec_stats := f (dec_stats dec)\<rparr>"

text \<open>
  \<^verbatim>\<open>peek\<close>: whether the drafter could fire for the candidate of this iteration. The break-even gate compares wall-clock times; its
  verdict is the argument \<open>pays_off\<close>.
\<close>

definition peek :: "(int list \<Rightarrow> int) \<Rightarrow> bool \<Rightarrow> (spec_state \<Rightarrow> bool) \<Rightarrow> req option \<Rightarrow> decoder \<Rightarrow> (decoder \<times> req option) result" where
  "peek hash stale pays_off candidate dec =
     (case candidate of
        None \<Rightarrow> Inr (dec, None)
      | Some r \<Rightarrow> rbind (state_for r dec) (\<lambda>s0.
          let s = sync hash (input_ids r) s0; dec1 = dec\<lparr>dec_state := Some s\<rparr>;
              hit = (if stale \<and> post_drain dec then could_match hash (ss_tokens s) (ss_drafter s) else has_match (ss_tokens s) (ss_drafter s))
          in if ss_k s \<le> 0 \<or> \<not> hit then Inr (count_stat (\<lambda>st. st\<lparr>plain_peeks := plain_peeks st + 1\<rparr>) dec1, None)
             else if \<not> pays_off s
             then let s' = s\<lparr>ss_gated := ss_gated s + 1\<rparr>;
                      dec2 = count_stat (\<lambda>st. st\<lparr>declined_uneconomic := declined_uneconomic st + 1\<rparr>) (dec1\<lparr>dec_state := Some s'\<rparr>)
                  in Inr (dec2, if ss_gated s' mod 16 \<noteq> 0 then None else Some r)
             else Inr (dec1, Some r)))"

section \<open>One verify step\<close>

text \<open>\<^verbatim>\<open>_budget\<close>: the draft length, clamped by the output budget, the tool-call anchor and the probe widths; then a scratch slot.\<close>

definition clamped_k :: "req \<Rightarrow> spec_state \<Rightarrow> decoder \<Rightarrow> int" where
  "clamped_k r s dec =
     (let k0 = min (min (ss_k s) (draft_len dec)) (int (max_device_len r) - int (req_cached_len r) - 2);
          k1 = (case toolcall_anchor_len r of
                  Some anchor \<Rightarrow> if mamba_last_track_seqlen r = None \<and> req_cached_len r < anchor
                                 then min k0 (int anchor - int (req_cached_len r) - 1) else k0
                | None \<Rightarrow> k0)
      in if ss_seeding s \<and> ss_probes s < length seed_widths then min k1 (seed_widths ! ss_probes s) else k1)"

definition draft_budget :: "req \<Rightarrow> spec_state \<Rightarrow> decoder \<Rightarrow> 'v manager \<Rightarrow> (decoder \<times> 'v manager \<times> int) result" where
  "draft_budget r s dec m =
     (let k = clamped_k r s dec in
      if k \<le> 0 then Inr (count_stat (\<lambda>st. st\<lparr>declined_budget := declined_budget st + 1\<rparr>) dec, m, 0)
      else case linear_state_pool m of
        None \<Rightarrow> Inr (dec, m, k)
      | Some p \<Rightarrow>
          if spec_scratch_slot r = None \<and> num_free_slots p < 1
          then rbind (ensure_mamba_slots 1 m) (\<lambda>m1. rbind (pool_of m1) (\<lambda>p1.
                 if num_free_slots p1 < 1
                 then Inr (count_stat (\<lambda>st. st\<lparr>declined_no_slot := declined_no_slot st + 1\<rparr>) dec, m1, 0)
                 else Inr (dec, m1, k)))
          else Inr (dec, m, k))"

definition pool_row :: "req \<Rightarrow> table_manager \<Rightarrow> nat" where
  "pool_row r tm = (case table_idx r of Some i \<Rightarrow> i | None \<Rightarrow> length (token_pool tm) - 1)"

text \<open>The part of \<^verbatim>\<open>_verify\<close> before the forward: the draft enters the token pool, a due anchor is frozen, the live state is copied
  to the scratch slot, the request is extended over the draft and its pages are allocated.\<close>

definition ensure_scratch :: "req \<Rightarrow> 'v manager \<Rightarrow> ('v manager \<times> req) result" where
  "ensure_scratch r m =
     (case linear_state_pool m of
        None \<Rightarrow> Inr (m, r)
      | Some p \<Rightarrow>
          rbind (case spec_scratch_slot r of
                   Some sl \<Rightarrow> Inr (p, sl)
                 | None \<Rightarrow> rbind (pool_alloc 1 p) (\<lambda>(p1, slots). rbind (py_nth slots 0) (\<lambda>sl. Inr (p1, sl)))) (\<lambda>(p1, sl).
          case linear_slot_idx r of
            None \<Rightarrow> Inl TypeError
          | Some live \<Rightarrow> rbind (copy_from live sl p1) (\<lambda>p2.
              Inr (m\<lparr>linear_state_pool := Some p2\<rparr>, r\<lparr>spec_scratch_slot := Some sl\<rparr>))))"

definition stage_draft ::
  "bool \<Rightarrow> req \<Rightarrow> int list \<Rightarrow> 'v manager \<Rightarrow> table_manager \<Rightarrow> ('v manager \<times> table_manager \<times> req) result" where
  "stage_draft anchored r dr m tm =
     (let L = req_cached_len r; mlen = length dr + 1; i = pool_row r tm in
      rbind (py_nth (token_pool tm) i) (\<lambda>toks.
      rbind (copy_into (L + 1) (L + mlen) dr toks) (\<lambda>toks'.
      rbind (if anchored then snapshot_toolcall_anchor [r] m else Inr (m, [r])) (\<lambda>(m1, rs).
      rbind (ensure_scratch (hd rs) m1) (\<lambda>(m2, r2).
      let r3 = r2\<lparr>device_len := L + mlen\<rparr>
      in rbind (allocate_paged [r3] m2) (\<lambda>m3. Inr (m3, tm\<lparr>token_pool := (token_pool tm)[i := toks']\<rparr>, r3)))))))"

text \<open>
  The forward runs on the pool tokens of the batch and on the state slots; it returns the model's token after each of them, the
  pool with the scratch slot advanced, and what the layers captured. The replay of the captured inputs into a slot is a kernel.
\<close>

record 'v capture =
  capture_len :: nat
  has_layers :: bool
  replay :: "nat \<Rightarrow> nat \<Rightarrow> 'v pool \<Rightarrow> 'v pool"

type_synonym 'v forward = "int list \<Rightarrow> req \<Rightarrow> 'v pool option \<Rightarrow> int list \<times> 'v pool option \<times> 'v capture"

definition capture_commit :: "nat \<Rightarrow> nat \<Rightarrow> nat \<Rightarrow> 'v capture \<Rightarrow> 'v pool \<Rightarrow> 'v pool result" where
  "capture_commit live scratch n cap p =
     py_assert (1 \<le> n \<and> n \<le> capture_len cap)
       (if \<not> has_layers cap then Inr p
        else if n = capture_len cap then copy_from scratch live p
        else Inr (replay cap live n p))"

text \<open>\<^verbatim>\<open>_commit\<close>: the accepted tokens and the bonus token enter the request; the pages of the rejected positions go back, and the
  live state advances over the accepted positions.\<close>

definition advance_state :: "req \<Rightarrow> nat \<Rightarrow> 'v capture \<Rightarrow> 'v manager \<Rightarrow> 'v manager result" where
  "advance_state r n cap m =
     (case linear_state_pool m of
        None \<Rightarrow> Inr m
      | Some p \<Rightarrow> (case (linear_slot_idx r, spec_scratch_slot r) of
            (Some live, Some scratch) \<Rightarrow> rbind (capture_commit live scratch n cap p) (\<lambda>p'. Inr (m\<lparr>linear_state_pool := Some p'\<rparr>))
          | _ \<Rightarrow> Inl TypeError))"

definition adopt_tokens :: "nat \<Rightarrow> int list \<Rightarrow> req \<Rightarrow> req result" where
  "adopt_tokens L emitted r =
     rbind (append_host emitted r) (\<lambda>r1.
       let r2 = r1\<lparr>req_cached_len := L + length emitted, device_len := L + length emitted + 1\<rparr>
       in py_assert (device_len r2 = length (input_ids r2)) (Inr r2))"

definition commit_accepted ::
  "req \<Rightarrow> spec_state \<Rightarrow> nat \<Rightarrow> nat \<Rightarrow> int list \<Rightarrow> 'v capture \<Rightarrow> 'v manager \<Rightarrow> table_manager \<Rightarrow>
   ('v manager \<times> table_manager \<times> req \<times> spec_state) result" where
  "commit_accepted r s L drafted emitted cap m tm =
     (let alloc_len = L + drafted + 1; i = pool_row r tm in
      rbind (adopt_tokens L emitted r) (\<lambda>r2.
      rbind (py_nth (token_pool tm) i) (\<lambda>toks.
      if emitted = [] \<or> length toks \<le> req_cached_len r2 then Inl IndexError
      else rbind (free_spec_tail r2 (req_cached_len r2) alloc_len m) (\<lambda>m1.
           rbind (advance_state r2 (req_cached_len r2 - L) cap m1) (\<lambda>m2.
             Inr (m2, tm\<lparr>token_pool := (token_pool tm)[i := toks[req_cached_len r2 := last emitted]]\<rparr>, r2,
                  s\<lparr>ss_tokens := ss_tokens s @ emitted\<rparr>))))))"

section \<open>Messages\<close>

text \<open>What ends a request: its sampling parameters, the tokens of the model that end a text, and the tokenizer's decoder.\<close>

record stop_rules =
  ignore_eos :: bool
  eos_token_ids :: "int list"
  stop_strs :: "string list"
  output_len :: nat
  tokenizer_decode :: "int list \<Rightarrow> string"
  toolcall_anchor_id :: "int option"

record detokenize_msg =
  msg_uid :: int
  next_token :: int
  msg_finished :: bool
  finish_reason :: "string option"
  matched_stop :: "string option"

definition contains_str :: "string \<Rightarrow> string \<Rightarrow> bool" where
  "contains_str s text \<longleftrightarrow> list_ex (\<lambda>i. take (length s) (drop i text) = s) [0..<length text + 1]"

definition match_stop_str :: "stop_rules \<Rightarrow> req \<Rightarrow> string option" where
  "match_stop_str rules r =
     (let prompt_len = max_device_len r - output_len rules; n = length (input_ids r) in
      if n \<le> prompt_len then None
      else let max_chars = Max (set (map length (stop_strs rules)));
               tail_start = max prompt_len (n - (max_chars + 1));
               tail = tokenizer_decode rules (drop tail_start (input_ids r))
           in List.find (\<lambda>s. contains_str s tail) (stop_strs rules))"

text \<open>
  The decision after a token and its message: the code of a verify step, and below the ordinary drain of a decode step, each in
  its own place with its own test of the length.
\<close>

fun emit_loop :: "stop_rules \<Rightarrow> int list \<Rightarrow> nat \<Rightarrow> nat \<Rightarrow> int list \<Rightarrow> req \<Rightarrow> req \<times> detokenize_msg list \<times> bool" where
  "emit_loop rules buf L e [] r = (r, [], False)"
| "emit_loop rules buf L e (token # rest) r =
     (let pos_end = L + 1 + e + 1; r1 = r\<lparr>input_ids := take pos_end buf\<rparr>;
          hit_length = pos_end \<ge> max_device_len r1;
          hit_eos = (\<not> ignore_eos rules \<and> token \<in> set (eos_token_ids rules));
          ms = (if \<not> hit_eos \<and> stop_strs rules \<noteq> [] then match_stop_str rules r1 else None);
          fin = (hit_length \<or> hit_eos \<or> ms \<noteq> None);
          r2 = (if Some token = toolcall_anchor_id rules \<and> toolcall_anchor_len r1 = None \<and> \<not> fin
                then r1\<lparr>toolcall_anchor_len := Some pos_end\<rparr> else r1);
          msg = \<lparr>msg_uid = uid r, next_token = token, msg_finished = fin,
                 finish_reason = (if fin then Some (if hit_eos \<or> ms \<noteq> None then ''stop'' else ''length'') else None), matched_stop = ms\<rparr>
      in if fin then (r2, [msg], True)
         else case emit_loop rules buf L (e + 1) rest r2 of (r3, msgs, stopped) \<Rightarrow> (r3, msg # msgs, stopped))"

text \<open>\<^verbatim>\<open>_finish\<close>, up to the release of a finished request's resources, which is the scheduler's.\<close>

definition finish_step ::
  "stop_rules \<Rightarrow> req \<Rightarrow> spec_state \<Rightarrow> nat \<Rightarrow> int list \<Rightarrow> 'v manager \<Rightarrow> decode_manager \<Rightarrow>
   ('v manager \<times> decode_manager \<times> req \<times> spec_state option \<times> detokenize_msg list \<times> bool) result" where
  "finish_step rules r s L emitted m dm =
     (case emit_loop rules (input_ids r) L 0 emitted r of (r1, msgs, stopped) \<Rightarrow>
        if stopped
        then let pos_end = length (input_ids r1); alloc_len = req_cached_len r1;
                 r2 = r1\<lparr>req_cached_len := pos_end - 1, device_len := pos_end\<rparr>
             in rbind (free_spec_tail r2 (req_cached_len r2) alloc_len m) (\<lambda>m1. Inr (m1, remove_req r2 dm, r2, None, msgs, True))
        else Inr (m, dm, r1, Some s, msgs, False))"

text \<open>
  The drain of an ordinary decode step for one request that is neither aborted nor finished, \<^verbatim>\<open>Scheduler._process_last_data\<close>: the
  sampled token is appended and judged.
\<close>

definition drain_token :: "stop_rules \<Rightarrow> int \<Rightarrow> req \<Rightarrow> (req \<times> detokenize_msg) result" where
  "drain_token rules token r =
     rbind (append_host [token] r) (\<lambda>r1.
       let hit_length = (\<not> can_decode r1);
           hit_eos = (\<not> ignore_eos rules \<and> token \<in> set (eos_token_ids rules));
           ms = (if \<not> hit_eos \<and> stop_strs rules \<noteq> [] then match_stop_str rules r1 else None);
           fin = (hit_length \<or> hit_eos \<or> ms \<noteq> None);
           reason = (if fin then Some (if hit_eos \<or> ms \<noteq> None then ''stop'' else ''length'') else None);
           r2 = (if Some token = toolcall_anchor_id rules \<and> toolcall_anchor_len r1 = None \<and> \<not> fin
                 then r1\<lparr>toolcall_anchor_len := Some (length (input_ids r1))\<rparr> else r1)
       in Inr (r2, \<lparr>msg_uid = uid r, next_token = token, msg_finished = fin, finish_reason = reason, matched_stop = ms\<rparr>))"

section \<open>The step\<close>

text \<open>
  \<^verbatim>\<open>run_step\<close>: whether the step ran, and what it leaves. Of the break-even estimator only the counts are kept, and the adaptive
  draft length, which the probes of a seeded gate also drive.
\<close>

definition note_step :: "decoder \<Rightarrow> nat \<Rightarrow> nat \<Rightarrow> spec_state \<Rightarrow> spec_state" where
  "note_step dec drafted accepted s =
     (if ss_seeding s
      then let s1 = s\<lparr>ss_probes := ss_probes s + 1\<rparr>;
               s2 = (if accepted < drafted then note_draft (draft_len dec) accepted s1 else s1)
           in if length seed_widths \<le> ss_probes s2 then s2\<lparr>ss_seeding := False\<rparr> else s2
      else note_draft (int drafted) accepted s)"

definition run_stats :: "bool \<Rightarrow> nat \<Rightarrow> nat \<Rightarrow> nat \<Rightarrow> spec_stats \<Rightarrow> spec_stats" where
  "run_stats probe drafted accepted emitted st =
     note_accepted accepted
       (st\<lparr>seed_probe_steps := seed_probe_steps st + (if probe then 1 else 0), verify_steps := verify_steps st + 1,
           drafted_tokens := drafted_tokens st + drafted, accepted_tokens := accepted_tokens st + accepted,
           emitted_tokens := emitted_tokens st + emitted\<rparr>)"

text \<open>The running set holds the request itself, so it sees what the step did to it.\<close>

definition share_req :: "req \<Rightarrow> decode_manager \<Rightarrow> decode_manager" where
  "share_req r dm = dm\<lparr>running_reqs := map (\<lambda>x. if req_id x = req_id r then r else x) (running_reqs dm)\<rparr>"

record 'v spec_world =
  sw_dec :: decoder
  sw_manager :: "'v manager"
  sw_table :: table_manager
  sw_running :: decode_manager
  sw_req :: req

text \<open>Reading the batch's tokens by position; a position past the row raises.\<close>

definition gather_row :: "nat \<Rightarrow> nat \<Rightarrow> int list \<Rightarrow> int list result" where
  "gather_row a b row = (if length row < b then Inl IndexError else Inr (slice a b row))"

text \<open>The fast batch preparation asserts that the batch cannot reach a snapshot boundary of the state pool.\<close>

definition check_width :: "decoder \<Rightarrow> nat \<Rightarrow> 'v manager \<Rightarrow> unit result" where
  "check_width dec mlen m =
     (if fast_path dec \<and> linear_state_pool m \<noteq> None then py_assert (mlen \<le> track_chunk_size dec) (Inr ()) else Inr ())"

definition verify_step ::
  "'v forward \<Rightarrow> stop_rules \<Rightarrow> spec_state \<Rightarrow> int list \<Rightarrow> 'v spec_world \<Rightarrow> ('v spec_world \<times> detokenize_msg list \<times> bool) result" where
  "verify_step fwd rules s dr w =
     (let r = sw_req w; dec = sw_dec w; L = req_cached_len r in
      rbind (stage_draft (toolcall_anchor_id rules \<noteq> None) r dr (sw_manager w) (sw_table w)) (\<lambda>(m1, tm1, r1).
      rbind (check_width dec (length dr + 1) m1) (\<lambda>_.
      rbind (gather_row L (L + length dr + 1) (token_pool tm1 ! pool_row r1 tm1)) (\<lambda>ids.
      let r1' = (if linear_state_pool m1 = None then r1 else r1\<lparr>linear_slot_idx := spec_scratch_slot r1\<rparr>)
      in case fwd ids r1' (linear_state_pool m1) of (greedy, p, cap) \<Rightarrow>
         let accepted = accepted_count dr greedy; emitted = take (accepted + 1) greedy
         in rbind (commit_accepted r1 s L (length dr) emitted cap (m1\<lparr>linear_state_pool := p\<rparr>) tm1) (\<lambda>(m2, tm2, r2, s2).
            rbind (finish_step rules r2 s2 L emitted m2 (sw_running w)) (\<lambda>(m3, dm3, r3, so, msgs, stopped).
            let dec' = count_stat (run_stats (ss_seeding s) (length dr) accepted (length emitted))
                         (dec\<lparr>dec_state := map_option (note_step dec (length dr) accepted) so\<rparr>)
            in Inr (\<lparr>sw_dec = dec', sw_manager = m3, sw_table = tm2, sw_running = share_req r3 dm3, sw_req = r3\<rparr>, msgs, stopped)))))))"

definition run_step ::
  "(int list \<Rightarrow> int) \<Rightarrow> 'v forward \<Rightarrow> stop_rules \<Rightarrow> 'v spec_world \<Rightarrow> (bool \<times> 'v spec_world \<times> detokenize_msg list) result" where
  "run_step hash fwd rules w =
     rbind (state_for (sw_req w) (sw_dec w)) (\<lambda>s0.
       let r = sw_req w; s = sync hash (input_ids r) s0; L = req_cached_len r; dec1 = (sw_dec w)\<lparr>dec_state := Some s\<rparr>
       in if device_len r \<noteq> L + 1 \<or> length (ss_tokens s) \<noteq> device_len r
          then Inr (False, w\<lparr>sw_dec := count_stat (\<lambda>st. st\<lparr>declined_shape := declined_shape st + 1\<rparr>) dec1\<rparr>, [])
          else rbind (draft_budget r s dec1 (sw_manager w)) (\<lambda>(dec2, m1, k).
            let w1 = w\<lparr>sw_dec := dec2, sw_manager := m1\<rparr>
            in if k \<le> 0 then Inr (False, w1, [])
               else let dr = draft (ss_tokens s) k (ss_drafter s)
                 in if dr = []
                    then Inr (False, w1\<lparr>sw_dec := count_stat (\<lambda>st. st\<lparr>declined_stale_match := declined_stale_match st + 1\<rparr>) dec2\<rparr>, [])
                    else rbind (verify_step fwd rules s dr w1) (\<lambda>(w2, msgs, stopped). Inr (True, w2, msgs))))"

end
