(* ===== verification/Spec_Lossless.thy ===== *)
theory Spec_Lossless
  imports Spec_Step
begin

text \<open>
  Speculation against ordinary greedy decoding: the messages, the request and the decision to stop after a verify step are
  those of a number of ordinary steps.
\<close>

section \<open>A verify step is a run of ordinary steps\<close>

text \<open>Ordinary greedy decoding of one request, up to \<open>k\<close> tokens: the forward advances the lengths, the drain judges the token.\<close>

fun decode_loop :: "(int list \<Rightarrow> int) \<Rightarrow> stop_rules \<Rightarrow> nat \<Rightarrow> req \<Rightarrow> (req \<times> detokenize_msg list \<times> bool) result" where
  "decode_loop next rules 0 r = Inr (r, [], False)"
| "decode_loop next rules (Suc k) r =
     rbind (drain_token rules (next (input_ids r)) (complete_one r)) (\<lambda>(r1, msg).
       if msg_finished msg then Inr (r1, [msg], True)
       else rbind (decode_loop next rules k r1) (\<lambda>(r2, msgs, stopped). Inr (r2, msg # msgs, stopped)))"

lemma match_stop_str_cong:
  "input_ids a = input_ids b \<Longrightarrow> max_device_len a = max_device_len b \<Longrightarrow> match_stop_str rules a = match_stop_str rules b"
  by (simp only: match_stop_str_def)

definition decode_shape :: "req \<Rightarrow> bool" where
  "decode_shape r \<longleftrightarrow> device_len r = req_cached_len r + 1 \<and> length (input_ids r) = device_len r"

text \<open>The request in the middle of \<^verbatim>\<open>_finish\<close> is the ordinary one with the lengths of the whole step.\<close>

lemma emit_loop_decode:
  assumes "\<And>i. i < length ts \<Longrightarrow> ts ! i = next (input_ids r @ take i ts)"
    "decode_shape r" "req_cached_len r = L + e" "device_len r + length ts \<le> max_device_len r"
    "emit_loop rules (input_ids r @ ts) L e ts (r\<lparr>req_cached_len := c, device_len := d\<rparr>) = (q, msgs, stopped)"
  shows "\<exists>r'. decode_loop next rules (length ts) r = Inr (r', msgs, stopped) \<and>
    (\<exists>rest. input_ids q @ rest = input_ids r @ ts) \<and> decode_shape r' \<and> q = r'\<lparr>req_cached_len := c, device_len := d\<rparr> \<and>
    (\<not> stopped \<longrightarrow> req_cached_len r' = req_cached_len r + length ts)"
  using assms
proof (induction ts arbitrary: r e q msgs stopped)
  case Nil
  then show ?case by (auto simp: emit_loop.simps)
next
  case (Cons t ts)
  let ?ids = "input_ids r" and ?eos = "\<not> ignore_eos rules \<and> t \<in> set (eos_token_ids rules)"
  define r1 where "r1 = (complete_one r)\<lparr>input_ids := ?ids @ [t]\<rparr>"
  define ms where "ms = (if \<not> ?eos \<and> stop_strs rules \<noteq> [] then match_stop_str rules r1 else None)"
  define fin where "fin \<longleftrightarrow> max_device_len r \<le> length ?ids + 1 \<or> ?eos \<or> ms \<noteq> None"
  define r2 where "r2 = (if Some t = toolcall_anchor_id rules \<and> toolcall_anchor_len r = None \<and> \<not> fin
     then r1\<lparr>toolcall_anchor_len := Some (length ?ids + 1)\<rparr> else r1)"
  define msg where "msg = \<lparr>msg_uid = uid r, next_token = t, msg_finished = fin,
     finish_reason = (if fin then Some (if ?eos \<or> ms \<noteq> None then ''stop'' else ''length'') else None), matched_stop = ms\<rparr>"
  have t: "t = next ?ids" using Cons.prems(1)[of 0] by simp
  have sh: "device_len r = req_cached_len r + 1" "length ?ids = device_len r" using Cons.prems(2) by (simp_all add: decode_shape_def)
  have pe: "L + 1 + e + 1 = length ?ids + 1" using sh Cons.prems(3) by simp
  have tk: "take (length ?ids + 1) (?ids @ t # ts) = ?ids @ [t]" by simp
  have app: "append_host [t] (complete_one r) = Inr r1"
    using Cons.prems(4) sh by (simp add: append_host_def complete_one_def r1_def)
  have cd: "\<not> can_decode r1 \<longleftrightarrow> max_device_len r \<le> length ?ids + 1"
    using sh by (auto simp: can_decode_def remain_len_def r1_def complete_one_def)
  have f1: "toolcall_anchor_len r1 = toolcall_anchor_len r" "input_ids r1 = ?ids @ [t]" "uid (complete_one r) = uid r"
    by (simp_all add: r1_def complete_one_def)
  have drain: "drain_token rules (next ?ids) (complete_one r) = Inr (r2, msg)"
    unfolding drain_token_def t[symmetric] app rbind_simps Let_def f1 cd ms_def[symmetric] fin_def[symmetric] msg_def r2_def by simp
  have ms': "match_stop_str rules (r\<lparr>req_cached_len := c, device_len := d, input_ids := ?ids @ [t]\<rparr>) = match_stop_str rules r1"
    by (rule match_stop_str_cong) (simp_all add: r1_def complete_one_def)
  have q2: "(if Some t = toolcall_anchor_id rules \<and> toolcall_anchor_len r = None \<and> \<not> fin
      then r\<lparr>req_cached_len := c, device_len := d, input_ids := ?ids @ [t], toolcall_anchor_len := Some (length ?ids + 1)\<rparr>
      else r\<lparr>req_cached_len := c, device_len := d, input_ids := ?ids @ [t]\<rparr>) = r2\<lparr>req_cached_len := c, device_len := d\<rparr>"
    by (simp add: r2_def r1_def complete_one_def)
  let ?q1 = "r\<lparr>req_cached_len := c, device_len := d, input_ids := ?ids @ [t]\<rparr>"
  have qs: "max_device_len ?q1 = max_device_len r" "toolcall_anchor_len ?q1 = toolcall_anchor_len r"
    "uid (r\<lparr>req_cached_len := c, device_len := d\<rparr>) = uid r" by simp_all
  have step: "emit_loop rules (?ids @ t # ts) L e (t # ts) (r\<lparr>req_cached_len := c, device_len := d\<rparr>) =
     (if fin then (r2\<lparr>req_cached_len := c, device_len := d\<rparr>, [msg], True)
      else case emit_loop rules (?ids @ t # ts) L (e + 1) ts (r2\<lparr>req_cached_len := c, device_len := d\<rparr>) of
        (r3, msgs, stopped) \<Rightarrow> (r3, msg # msgs, stopped))"
    by (simp only: emit_loop.simps Let_def pe tk qs ms' ms_def[symmetric] fin_def[symmetric] msg_def[symmetric] q2)
  have sh2: "decode_shape r2" "req_cached_len r2 = L + (e + 1)" "device_len r2 = device_len r + 1" "max_device_len r2 = max_device_len r"
    "input_ids r2 = ?ids @ [t]"
    using sh Cons.prems(3) by (simp_all add: decode_shape_def r2_def r1_def complete_one_def)
  show ?case
  proof (cases fin)
    case True
    then have q: "q = r2\<lparr>req_cached_len := c, device_len := d\<rparr>" "msgs = [msg]" "stopped"
      using Cons.prems(5) unfolding step by simp_all
    have "decode_loop next rules (length (t # ts)) r = Inr (r2, [msg], True)"
      using True by (simp add: drain) (simp add: msg_def)
    then show ?thesis using q sh2 by (intro exI[of _ r2]) simp
  next
    case False
    obtain q' ms2 st where E: "emit_loop rules (?ids @ t # ts) L (e + 1) ts (r2\<lparr>req_cached_len := c, device_len := d\<rparr>) = (q', ms2, st)"
      by (metis prod_cases3)
    then have q: "q = q'" "msgs = msg # ms2" "stopped = st" using Cons.prems(5) False unfolding step by simp_all
    have a: "input_ids r2 @ ts = ?ids @ t # ts" using sh2(5) by simp
    have "\<exists>r'. decode_loop next rules (length ts) r2 = Inr (r', ms2, st) \<and>
      (\<exists>rest. input_ids q' @ rest = input_ids r2 @ ts) \<and> decode_shape r' \<and> q' = r'\<lparr>req_cached_len := c, device_len := d\<rparr> \<and>
      (\<not> st \<longrightarrow> req_cached_len r' = req_cached_len r2 + length ts)"
    proof (rule Cons.IH)
      show "ts ! i = next (input_ids r2 @ take i ts)" if "i < length ts" for i
        using Cons.prems(1)[of "Suc i"] that sh2(5) by simp
      show "device_len r2 + length ts \<le> max_device_len r2" using Cons.prems(4) sh2 by simp
      show "emit_loop rules (input_ids r2 @ ts) L (e + 1) ts (r2\<lparr>req_cached_len := c, device_len := d\<rparr>) = (q', ms2, st)"
        unfolding a by (rule E)
    qed (use sh2 in auto)
    from this obtain r' where r': "decode_loop next rules (length ts) r2 = Inr (r', ms2, st)"
      "\<exists>rest. input_ids q' @ rest = input_ids r2 @ ts" "decode_shape r'" "q' = r'\<lparr>req_cached_len := c, device_len := d\<rparr>"
      "\<not> st \<longrightarrow> req_cached_len r' = req_cached_len r2 + length ts" by blast
    have "decode_loop next rules (length (t # ts)) r = Inr (r', msgs, stopped)"
      using False r'(1) q by (simp add: drain) (simp add: msg_def)
    then show ?thesis using r' q a sh2 Cons.prems(3) by (intro exI[of _ r']) simp
  qed
qed

lemma emit_loop_overwrites:
  "ts \<noteq> [] \<Longrightarrow> emit_loop rules buf L e ts (r\<lparr>input_ids := ids\<rparr>) = emit_loop rules buf L e ts r"
proof (cases ts)
  case (Cons t ts')
  have u: "uid (r\<lparr>input_ids := ids\<rparr>) = uid r" "\<And>x. (r\<lparr>input_ids := ids\<rparr>)\<lparr>input_ids := x\<rparr> = r\<lparr>input_ids := x\<rparr>" by simp_all
  show ?thesis unfolding Cons by (simp only: emit_loop.simps Let_def u)
qed simp

lemma free_spec_tail_req: "free_spec_tail r a b m = free_spec_tail r' a b m" if "table_idx r = table_idx r'"
  using that by (simp add: free_spec_tail_def)

lemma adopt_tokens_eq:
  "adopt_tokens L emitted r = Inr r2 \<longleftrightarrow> length (input_ids r) + length emitted \<le> max_device_len r \<and> length (input_ids r) = L + 1 \<and>
     r2 = r\<lparr>input_ids := input_ids r @ emitted, req_cached_len := L + length emitted, device_len := L + length emitted + 1\<rparr>"
  by (auto simp: adopt_tokens_def append_host_def py_assert_def Let_def)

lemma commit_acceptedE:
  assumes "commit_accepted r s L n emitted cap m tm = Inr (m2, tm2, r2, s2)"
  obtains m1 where "emitted \<noteq> []" "adopt_tokens L emitted r = Inr r2"
    "s2 = s\<lparr>ss_tokens := ss_tokens s @ emitted\<rparr>"
    "free_spec_tail r2 (req_cached_len r2) (L + n + 1) m = Inr m1" "advance_state r2 (req_cached_len r2 - L) cap m1 = Inr m2"
  using assms unfolding commit_accepted_def Let_def by (elim rbindE) (auto split: if_splits elim!: rbindE)

text \<open>What a verify step leaves of a request is what ordinary decoding of the same tokens leaves.\<close>

lemma commit_finish_decode:
  assumes "commit_accepted r s (req_cached_len r) n emitted cap m tm = Inr (m2, tm2, r2, s2)"
    "finish_step rules r2 s2 (req_cached_len r) emitted m2' dm = Inr (m3, dm3, r3, so, msgs, stopped)"
    "\<And>i. i < length emitted \<Longrightarrow> emitted ! i = next (input_ids r @ take i emitted)"
  shows "decode_loop next rules (length emitted) (r\<lparr>device_len := req_cached_len r + 1\<rparr>) = Inr (r3, msgs, stopped)"
proof -
  let ?L = "req_cached_len r" and ?r0 = "r\<lparr>device_len := req_cached_len r + 1\<rparr>"
  let ?c = "?L + length emitted" and ?d = "?L + length emitted + 1"
  have c: "emitted \<noteq> []" "length (input_ids r) + length emitted \<le> max_device_len r" "length (input_ids r) = ?L + 1"
    "r2 = r\<lparr>input_ids := input_ids r @ emitted, req_cached_len := ?c, device_len := ?d\<rparr>"
    using assms(1) by (auto simp: adopt_tokens_eq elim!: commit_acceptedE)
  obtain q ms st where E: "emit_loop rules (input_ids r2) ?L 0 emitted r2 = (q, ms, st)" by (metis prod_cases3)
  have r2: "r2 = (?r0\<lparr>req_cached_len := ?c, device_len := ?d\<rparr>)\<lparr>input_ids := input_ids r @ emitted\<rparr>" unfolding c(4) by simp
  have E': "emit_loop rules (input_ids ?r0 @ emitted) ?L 0 emitted (?r0\<lparr>req_cached_len := ?c, device_len := ?d\<rparr>) = (q, ms, st)"
    using E emit_loop_overwrites[OF c(1)] unfolding r2 by simp
  have "\<exists>r'. decode_loop next rules (length emitted) ?r0 = Inr (r', ms, st) \<and> (\<exists>rest. input_ids q @ rest = input_ids ?r0 @ emitted) \<and>
      decode_shape r' \<and> q = r'\<lparr>req_cached_len := ?c, device_len := ?d\<rparr> \<and> (\<not> st \<longrightarrow> req_cached_len r' = req_cached_len ?r0 + length emitted)"
    by (rule emit_loop_decode[OF _ _ _ _ E']) (use assms(3) c in \<open>simp_all add: decode_shape_def\<close>)
  then obtain r' where r': "decode_loop next rules (length emitted) ?r0 = Inr (r', ms, st)" "decode_shape r'"
    "q = r'\<lparr>req_cached_len := ?c, device_len := ?d\<rparr>" "\<not> st \<longrightarrow> req_cached_len r' = req_cached_len ?r0 + length emitted" by blast
  have r3: "r3 = r'" "msgs = ms" "stopped = st"
  proof -
    show "msgs = ms" "stopped = st" using assms(2) E by (auto simp: finish_step_def Let_def split: if_splits elim!: rbindE)
    show "r3 = r'"
    proof (cases st)
      case True
      have "r3 = q\<lparr>req_cached_len := length (input_ids q) - 1, device_len := length (input_ids q)\<rparr>"
        using assms(2) E True by (auto simp: finish_step_def Let_def elim!: rbindE)
      then show ?thesis using r'(2,3) by (simp add: decode_shape_def)
    next
      case False
      then have "r3 = q" using assms(2) E by (simp add: finish_step_def)
      moreover have "req_cached_len r' = ?c" "device_len r' = ?d" using False r'(2,4) by (simp_all add: decode_shape_def)
      ultimately show ?thesis using r'(3) by simp
    qed
  qed
  then show ?thesis using r'(1) by simp
qed

text \<open>Keeping up with the request: the token list becomes its ids, and the drafter has observed them.\<close>

lemma sync_observed:
  assumes "observed hash n (ss_tokens s) (ss_drafter s)" "ids = ss_tokens s @ rest"
  shows "ss_tokens (sync hash ids s) = ids" "observed hash n ids (ss_drafter (sync hash ids s))"
proof -
  have t: "ss_tokens s @ slice (length (ss_tokens s)) (length ids) ids = ids" using assms(2) by (simp add: slice_def)
  then have e: "sync hash ids s = s\<lparr>ss_tokens := ids, ss_drafter := observe hash ids (ss_drafter s)\<rparr>"
    using assms(2) by (cases "rest = []") (simp_all add: sync_def Let_def)
  show "ss_tokens (sync hash ids s) = ids" unfolding e by simp
  show "observed hash n ids (ss_drafter (sync hash ids s))" unfolding e using observed.grown[OF assms(1), of rest] assms(2) by simp
qed

lemma note_draft_range: "1 \<le> ss_k s \<Longrightarrow> ss_k s \<le> ss_max_k s \<Longrightarrow> 1 \<le> ss_k (note_draft d a s) \<and> ss_k (note_draft d a s) \<le> ss_max_k s"
  by (auto simp: note_draft_def)

text \<open>The fields a staged draft changes besides the lengths: the frozen anchor and the scratch slot.\<close>

definition with_slots :: "nat option \<Rightarrow> bool \<Rightarrow> nat option \<Rightarrow> req \<Rightarrow> req" where
  "with_slots a b c r = r\<lparr>mamba_last_track_seqlen := a, mamba_next_track_idx := b, spec_scratch_slot := c\<rparr>"

lemma with_slots_sel [simp]:
  "input_ids (with_slots a b c r) = input_ids r" "req_cached_len (with_slots a b c r) = req_cached_len r"
  "device_len (with_slots a b c r) = device_len r" "max_device_len (with_slots a b c r) = max_device_len r"
  "table_idx (with_slots a b c r) = table_idx r" "req_handle (with_slots a b c r) = req_handle r"
  "uid (with_slots a b c r) = uid r" "req_id (with_slots a b c r) = req_id r"
  "linear_slot_idx (with_slots a b c r) = linear_slot_idx r" "mamba_ping_pong (with_slots a b c r) = mamba_ping_pong r"
  "toolcall_anchor_len (with_slots a b c r) = toolcall_anchor_len r"
  by (simp_all add: with_slots_def)

lemma with_slots_self: "\<exists>a b c. r = with_slots a b c r"
  by (intro exI[of _ "mamba_last_track_seqlen r"] exI[of _ "mamba_next_track_idx r"] exI[of _ "spec_scratch_slot r"])
    (simp add: with_slots_def)

lemma with_slots_again: "with_slots a b c (with_slots a' b' c' r) = with_slots a b c r"
  by (simp add: with_slots_def)

lemma drain_token_slots:
  "drain_token rules t (complete_one (with_slots a b c r)) =
     rbind (drain_token rules t (complete_one r)) (\<lambda>(r1, msg). Inr (with_slots a b c r1, msg))"
proof -
  let ?r1 = "(complete_one r)\<lparr>input_ids := input_ids r @ [t]\<rparr>"
  have ap: "append_host [t] (complete_one (with_slots a b c r)) =
      (if length (input_ids r) + 1 \<le> max_device_len r then Inr (with_slots a b c ?r1) else Inl AssertionError)"
    "append_host [t] (complete_one r) = (if length (input_ids r) + 1 \<le> max_device_len r then Inr ?r1 else Inl AssertionError)"
    by (simp_all add: append_host_def complete_one_def py_assert_def with_slots_def)
  have m: "match_stop_str rules (with_slots a b c ?r1) = match_stop_str rules ?r1" by (rule match_stop_str_cong) simp_all
  have c: "can_decode (with_slots a b c ?r1) = can_decode ?r1" by (simp add: can_decode_def remain_len_def)
  have u: "uid (complete_one (with_slots a b c r)) = uid (complete_one r)" by (simp add: complete_one_def)
  have t: "(with_slots a b c ?r1)\<lparr>toolcall_anchor_len := x\<rparr> = with_slots a b c (?r1\<lparr>toolcall_anchor_len := x\<rparr>)" for x
    by (simp add: with_slots_def)
  show ?thesis
  proof (cases "length (input_ids r) + 1 \<le> max_device_len r")
    case True
    show ?thesis unfolding drain_token_def ap if_P[OF True] rbind_simps Let_def m c u t with_slots_sel prod.case
      by (simp add: if_distrib[of "with_slots a b c"])
  next
    case False
    show ?thesis unfolding drain_token_def ap if_not_P[OF False] rbind_simps ..
  qed
qed

lemma decode_loop_slots:
  "decode_loop next rules k (with_slots a b c r) =
     rbind (decode_loop next rules k r) (\<lambda>(r1, msgs, st). Inr (with_slots a b c r1, msgs, st))"
proof (induction k arbitrary: r)
  case (Suc k)
  show ?case
  proof (cases "drain_token rules (next (input_ids r)) (complete_one r)")
    case (Inl e)
    then show ?thesis by (simp add: drain_token_slots)
  next
    case (Inr x)
    obtain r1 msg where x: "x = (r1, msg)" by (cases x)
    show ?thesis
    proof (cases "msg_finished msg")
      case False
      then show ?thesis using Inr x Suc.IH[of r1]
        by (cases "decode_loop next rules k r1") (auto simp: drain_token_slots)
    qed (use Inr x in \<open>simp add: drain_token_slots\<close>)
  qed
qed simp

section \<open>The parts of a staged draft\<close>

lemma snapshot_one:
  assumes "snapshot_toolcall_anchor [r] m = Inr (m1, rs)"
  shows "(\<exists>a b. rs = [with_slots a b (spec_scratch_slot r) r]) \<and> (\<exists>p. m1 = m\<lparr>linear_state_pool := p\<rparr>)"
proof -
  have self: "\<exists>a b. r = with_slots a b (spec_scratch_slot r) r" "\<exists>p. m = m\<lparr>linear_state_pool := p\<rparr>"
    by (intro exI[of _ "mamba_last_track_seqlen r"] exI[of _ "mamba_next_track_idx r"] exI[of _ "linear_state_pool m"];
        simp add: with_slots_def)+
  have w: "r\<lparr>mamba_last_track_seqlen := a, mamba_next_track_idx := b\<rparr> = with_slots a b (spec_scratch_slot r) r" for a b
    by (simp add: with_slots_def)
  show ?thesis
    using assms self w by (auto split: if_splits option.splits prod.splits elim!: rbindE)
qed

lemma ensure_scratch_frame:
  assumes "ensure_scratch r m = Inr (m1, r1)"
  shows "(\<exists>c. r1 = with_slots (mamba_last_track_seqlen r) (mamba_next_track_idx r) c r) \<and> (\<exists>p. m1 = m\<lparr>linear_state_pool := p\<rparr>)"
proof (cases "linear_state_pool m")
  case None
  then show ?thesis using assms
    by (auto simp: ensure_scratch_def with_slots_def intro: exI[of _ "spec_scratch_slot r"] exI[of _ None])
next
  case (Some p)
  then show ?thesis using assms
    by (auto simp: ensure_scratch_def with_slots_def split: option.splits elim!: rbindE)
qed

lemma copy_into_exact:
  assumes "copy_into a b vals row = Inr row'" "a \<le> b" "length vals = b - a"
  shows "length row' = length row" "take a row' = take a row" "b \<le> length row \<Longrightarrow> slice a b row' = vals"
proof -
  have c: "(b \<le> length row \<longrightarrow> row' = splice a b vals row) \<and> length row' = length row \<and> take a row' = take a row"
  proof (cases "b \<le> length row")
    case True
    have k: "length (slice a b row) = b - a" using True by simp
    have "row' = (if b - a = 0 then row else splice a b vals row)"
      using assms(1,3) unfolding copy_into_def Let_def k by simp
    then have "row' = splice a b vals row" using assms(2,3) by (auto simp: splice_def split: if_splits)
    then show ?thesis using splice_props[OF assms(2) True assms(3)] by simp
  next
    case False
    then have k: "length (slice a b row) < b - a \<or> b = a" using assms(2) by auto
    have "row' = row \<or> row' = splice a b (replicate (length (slice a b row)) (hd vals)) row \<and> length vals = 1 \<and> length (slice a b row) \<noteq> 0"
      using assms(1,3) k unfolding copy_into_def Let_def by (auto split: if_splits)
    moreover have "False" if "length vals = 1" "length (slice a b row) \<noteq> 0" using that assms(3) k by auto
    ultimately have "row' = row" by blast
    then show ?thesis using False by simp
  qed
  show "length row' = length row" "take a row' = take a row" using c by simp_all
  assume "b \<le> length row"
  then show "slice a b row' = vals" using c splice_props(2)[OF assms(2) _ assms(3)] by simp
qed

lemma stage_draftE:
  assumes "stage_draft anchored r dr m tm = Inr (m', tm', r')"
  obtains a b c p toks toks' where "pool_row r tm < length (token_pool tm)" "toks = token_pool tm ! pool_row r tm"
    "copy_into (req_cached_len r + 1) (req_cached_len r + (length dr + 1)) dr toks = Inr toks'"
    "tm' = tm\<lparr>token_pool := (token_pool tm)[pool_row r tm := toks']\<rparr>"
    "r' = (with_slots a b c r)\<lparr>device_len := req_cached_len r + (length dr + 1)\<rparr>"
    "allocate_paged [r'] (m\<lparr>linear_state_pool := p\<rparr>) = Inr m'"
proof -
  let ?L = "req_cached_len r"
  from assms obtain toks toks' m1 rs m2 r2 m3 where
    t: "py_nth (token_pool tm) (pool_row r tm) = Inr toks" "copy_into (?L + 1) (?L + (length dr + 1)) dr toks = Inr toks'" and
    s: "(if anchored then snapshot_toolcall_anchor [r] m else Inr (m, [r])) = Inr (m1, rs)" and
    e: "ensure_scratch (hd rs) m1 = Inr (m2, r2)" and
    al: "allocate_paged [r2\<lparr>device_len := ?L + (length dr + 1)\<rparr>] m2 = Inr m3" and
    out: "m' = m3" "tm' = tm\<lparr>token_pool := (token_pool tm)[pool_row r tm := toks']\<rparr>" "r' = r2\<lparr>device_len := ?L + (length dr + 1)\<rparr>"
    unfolding stage_draft_def Let_def by (elim rbindE) (auto elim!: rbindE)
  have s': "(\<exists>a b c. rs = [with_slots a b c r]) \<and> (\<exists>p. m1 = m\<lparr>linear_state_pool := p\<rparr>)"
  proof (cases anchored)
    case True
    then show ?thesis using s snapshot_one by fastforce
  next
    case False
    have "m = m\<lparr>linear_state_pool := linear_state_pool m\<rparr>" by simp
    then show ?thesis using False s with_slots_self by (metis Inr_inject fst_conv if_False snd_conv)
  qed
  then obtain a b c p where 1: "rs = [with_slots a b c r]" "m1 = m\<lparr>linear_state_pool := p\<rparr>" by blast
  obtain a' b' c' p' where 2: "r2 = with_slots a' b' c' (hd rs)" "m2 = m1\<lparr>linear_state_pool := p'\<rparr>"
    using ensure_scratch_frame[OF e] by blast
  have "m2 = m\<lparr>linear_state_pool := p'\<rparr>" using 1 2 by simp
  moreover have "r2 = with_slots a' b' c' r" using 1 2 by (simp add: with_slots_again)
  moreover have "pool_row r tm < length (token_pool tm)" "toks = token_pool tm ! pool_row r tm"
    using t(1) by (auto simp: py_nth_def split: if_splits)
  ultimately show thesis using that t(2) al out by metis
qed

text \<open>
  What the engine's forward of a verify batch returns: after the committed tokens (in the KV cache) and the first tokens of the
  batch, the model's own next token. It may also move the state slots.
\<close>

definition greedy_forward :: "(int list \<Rightarrow> int) \<Rightarrow> 'v forward \<Rightarrow> bool" where
  "greedy_forward next fwd \<longleftrightarrow>
     (\<forall>ids r p. fst (fwd ids r p) = map (\<lambda>i. next (take (req_cached_len r) (input_ids r) @ take (i + 1) ids)) [0..<length ids])"

text \<open>The token pool holds the request's last token, where its next forward reads it.\<close>

definition last_token_staged :: "req \<Rightarrow> table_manager \<Rightarrow> bool" where
  "last_token_staged r tm \<longleftrightarrow> token_pool tm ! pool_row r tm ! req_cached_len r = input_ids r ! req_cached_len r"

lemma pool_row_list_update [simp]: "pool_row r (tm\<lparr>token_pool := (token_pool tm)[i := x]\<rparr>) = pool_row r tm"
  by (simp add: pool_row_def split: option.split)

lemma staged_verifies:
  assumes st: "stage_draft anchored r dr m tm = Inr (m1, tm1, r1)"
    and g: "gather_row (req_cached_len r) (req_cached_len r + length dr + 1) (token_pool tm1 ! pool_row r1 tm1) = Inr ids"
    and r: "decode_shape r" "last_token_staged r tm" "greedy_forward next fwd"
    and f: "fwd ids (r1\<lparr>linear_slot_idx := sl\<rparr>) p = (greedy, q)"
  shows "verifies next (input_ids r) dr greedy"
proof -
  let ?L = "req_cached_len r" and ?tok = "input_ids r ! req_cached_len r"
  obtain a b c x toks toks' where S: "pool_row r tm < length (token_pool tm)" "toks = token_pool tm ! pool_row r tm"
    "copy_into (?L + 1) (?L + (length dr + 1)) dr toks = Inr toks'" "tm1 = tm\<lparr>token_pool := (token_pool tm)[pool_row r tm := toks']\<rparr>"
    "r1 = (with_slots a b c r)\<lparr>device_len := ?L + (length dr + 1)\<rparr>"
    using stage_draftE[OF st] by metis
  have "pool_row r1 tm1 = pool_row r tm" unfolding S(4) pool_row_list_update by (simp add: S(5) pool_row_def)
  then have row: "token_pool tm1 ! pool_row r1 tm1 = toks'" using S(1,4) by simp
  have len: "?L + length dr + 1 \<le> length toks'" and ids: "ids = slice ?L (?L + length dr + 1) toks'"
    using g unfolding row by (auto simp: gather_row_def split: if_splits)
  have C: "length toks' = length toks" "take (?L + 1) toks' = take (?L + 1) toks" "slice (?L + 1) (?L + (length dr + 1)) toks' = dr"
    using copy_into_exact[OF S(3)] len by (simp_all add: copy_into_exact(1)[OF S(3)])
  have lt: "?L < length toks'" using len by simp
  have "toks' ! ?L = toks ! ?L" using C(2) by (metis Suc_eq_plus1 lessI nth_take)
  then have tok: "toks' ! ?L = ?tok" using r(2) S(2) by (simp add: last_token_staged_def)
  have "ids = slice ?L (?L + 1) toks' @ slice (?L + 1) (?L + (length dr + 1)) toks'"
    unfolding ids by (subst slice_split[of _ "?L + 1"]) simp_all
  also have "slice ?L (?L + 1) toks' = [?tok]" using lt tok by (simp add: slice_def take_Suc_conv_app_nth)
  finally have ids': "ids = ?tok # dr" using C(3) by simp
  have i: "input_ids r = take ?L (input_ids r) @ [?tok]" using r(1) by (simp add: decode_shape_def take_Suc_conv_app_nth[symmetric])
  have "greedy = map (\<lambda>i. next (take ?L (input_ids r) @ take (i + 1) ids)) [0..<length ids]"
  proof -
    let ?r = "r1\<lparr>linear_slot_idx := sl\<rparr>"
    have e: "input_ids ?r = input_ids r" "req_cached_len ?r = ?L" using S(5) by simp_all
    have "greedy = fst (fwd ids ?r p)" using f by simp
    also have "\<dots> = map (\<lambda>i. next (take (req_cached_len ?r) (input_ids ?r) @ take (i + 1) ids)) [0..<length ids]"
      using r(3) unfolding greedy_forward_def by blast
    finally show ?thesis unfolding e .
  qed
  also have "\<dots> = map (\<lambda>i. next (input_ids r @ take i dr)) [0..<length dr + 1]"
    unfolding ids' by (subst (3) i) simp
  finally show ?thesis by (simp add: verifies_def)
qed

lemma greedy_extend_nth:
  "length (greedy_extend next k ids) = k"
  "i < k \<Longrightarrow> greedy_extend next k ids ! i = next (ids @ take i (greedy_extend next k ids))"
proof (induction k arbitrary: ids i)
  case (Suc k)
  { case 1 then show ?case using Suc.IH(1) by simp }
  { case 2 then show ?case using Suc.IH(2)[of _ "ids @ [next ids]"] by (cases i) simp_all }
qed simp_all

lemma verify_step_decode:
  assumes v: "verify_step fwd rules s dr w = Inr (w', msgs, stopped)"
    and r: "decode_shape (sw_req w)" "last_token_staged (sw_req w) (sw_table w)" "greedy_forward next fwd"
  shows "\<exists>n r' a b c. 1 \<le> n \<and> decode_loop next rules n (sw_req w) = Inr (r', msgs, stopped) \<and> sw_req w' = with_slots a b c r'"
proof -
  let ?r = "sw_req w" and ?L = "req_cached_len (sw_req w)"
  from v obtain m1 tm1 r1 ids where
    st: "stage_draft (toolcall_anchor_id rules \<noteq> None) ?r dr (sw_manager w) (sw_table w) = Inr (m1, tm1, r1)" and
    g: "gather_row ?L (?L + length dr + 1) (token_pool tm1 ! pool_row r1 tm1) = Inr ids" and
    k: "(case fwd ids (if linear_state_pool m1 = None then r1 else r1\<lparr>linear_slot_idx := spec_scratch_slot r1\<rparr>) (linear_state_pool m1) of
       (greedy, p, cap) \<Rightarrow>
         let accepted = accepted_count dr greedy; emitted = take (accepted + 1) greedy
         in rbind (commit_accepted r1 s ?L (length dr) emitted cap (m1\<lparr>linear_state_pool := p\<rparr>) tm1) (\<lambda>(m2, tm2, r2, s2).
            rbind (finish_step rules r2 s2 ?L emitted m2 (sw_running w)) (\<lambda>(m3, dm3, r3, so, msgs, stopped).
            let dec' = count_stat (run_stats (ss_seeding s) (length dr) accepted (length emitted))
                         ((sw_dec w)\<lparr>dec_state := map_option (note_step (sw_dec w) (length dr) accepted) so\<rparr>)
            in Inr (\<lparr>sw_dec = dec', sw_manager = m3, sw_table = tm2, sw_running = share_req r3 dm3, sw_req = r3\<rparr>, msgs, stopped)))) =
       Inr (w', msgs, stopped)"
    unfolding verify_step_def Let_def by (elim rbindE) (auto elim!: rbindE)
  have "\<exists>sl. (if linear_state_pool m1 = None then r1 else r1\<lparr>linear_slot_idx := spec_scratch_slot r1\<rparr>) = r1\<lparr>linear_slot_idx := sl\<rparr>"
    by (cases "linear_state_pool m1 = None") (auto intro: exI[of _ "linear_slot_idx r1"])
  then obtain sl where sl: "(if linear_state_pool m1 = None then r1 else r1\<lparr>linear_slot_idx := spec_scratch_slot r1\<rparr>) = r1\<lparr>linear_slot_idx := sl\<rparr>" ..
  obtain greedy p cap where f: "fwd ids (r1\<lparr>linear_slot_idx := sl\<rparr>) (linear_state_pool m1) = (greedy, p, cap)" by (metis prod_cases3)
  let ?a = "accepted_count dr greedy" and ?em = "take (accepted_count dr greedy + 1) greedy"
  obtain m2 tm2 r2 s2 m3 dm3 r3 so where
    c: "commit_accepted r1 s ?L (length dr) ?em cap (m1\<lparr>linear_state_pool := p\<rparr>) tm1 = Inr (m2, tm2, r2, s2)" and
    fin: "finish_step rules r2 s2 ?L ?em m2 (sw_running w) = Inr (m3, dm3, r3, so, msgs, stopped)" and
    w': "sw_req w' = r3"
    using k unfolding sl f Let_def by (auto elim!: rbindE)
  obtain a b c' where r1: "r1 = (with_slots a b c' ?r)\<lparr>device_len := ?L + (length dr + 1)\<rparr>" using stage_draftE[OF st] by metis
  have ver: "verifies next (input_ids ?r) dr greedy" by (rule staged_verifies[OF st g r f])
  note em = emitted_greedy[OF ver]
  have L: "req_cached_len r1 = ?L" "input_ids r1 = input_ids ?r" unfolding r1 by simp_all
  have again: "r1\<lparr>device_len := ?L + 1\<rparr> = with_slots a b c' ?r"
    using r(1) unfolding r1 by (simp add: with_slots_def decode_shape_def)
  have len: "length ?em = ?a + 1" unfolding em by (rule greedy_extend_nth(1))
  have "decode_loop next rules (length ?em) (r1\<lparr>device_len := req_cached_len r1 + 1\<rparr>) = Inr (r3, msgs, stopped)"
  proof (rule commit_finish_decode)
    show "commit_accepted r1 s (req_cached_len r1) (length dr) ?em cap (m1\<lparr>linear_state_pool := p\<rparr>) tm1 = Inr (m2, tm2, r2, s2)"
      unfolding L by (rule c)
    show "finish_step rules r2 s2 (req_cached_len r1) ?em m2 (sw_running w) = Inr (m3, dm3, r3, so, msgs, stopped)"
      unfolding L by (rule fin)
    fix i assume i: "i < length ?em"
    show "?em ! i = next (input_ids r1 @ take i ?em)" unfolding L(2) em using i len by (intro greedy_extend_nth(2)) simp
  qed
  then have d: "decode_loop next rules (?a + 1) (with_slots a b c' ?r) = Inr (r3, msgs, stopped)"
    unfolding len L(1) again .
  then obtain r' where r': "decode_loop next rules (?a + 1) ?r = Inr (r', msgs, stopped)" "r3 = with_slots a b c' r'"
    unfolding decode_loop_slots by (auto elim!: rbindE)
  then show ?thesis using w' by (intro exI[of _ "?a + 1"] exI[of _ r'] exI[of _ a] exI[of _ b] exI[of _ c']) simp
qed

text \<open>C12: Speculation is lossless: when a verify step ran, the request, the messages and the decision to stop are those of ordinary
  greedy decoding over one or more tokens (only the frozen anchor and the scratch slot differ); when it declines, the
  request, the token pool and the running set are as before and nothing is emitted.\<close>

theorem spec_step_is_decoding:
  assumes "run_step hash fwd rules w = Inr (drafted, w', msgs)"
    "decode_shape (sw_req w)" "last_token_staged (sw_req w) (sw_table w)" "greedy_forward next fwd"
  shows "if drafted
    then \<exists>n r' stopped a b c. 1 \<le> n \<and> decode_loop next rules n (sw_req w) = Inr (r', msgs, stopped) \<and> sw_req w' = with_slots a b c r'
    else sw_req w' = sw_req w \<and> sw_table w' = sw_table w \<and> sw_running w' = sw_running w \<and> msgs = []"
proof -
  obtain s0 where s0: "state_for (sw_req w) (sw_dec w) = Inr s0" using assms(1) by (auto simp: run_step_def elim!: rbindE)
  define s where "s = sync hash (input_ids (sw_req w)) s0"
  let ?r = "sw_req w" and ?dec1 = "(sw_dec w)\<lparr>dec_state := Some s\<rparr>"
  show ?thesis
  proof (cases "device_len ?r \<noteq> req_cached_len ?r + 1 \<or> length (ss_tokens s) \<noteq> device_len ?r")
    case True
    then have "drafted = False \<and> msgs = [] \<and> w' = w\<lparr>sw_dec := count_stat (\<lambda>st. st\<lparr>declined_shape := declined_shape st + 1\<rparr>) ?dec1\<rparr>"
      using assms(1) unfolding run_step_def s0 rbind_simps Let_def s_def[symmetric] if_P[OF True] by simp
    then show ?thesis by simp
  next
    case False
    obtain dec2 m1 k where b: "draft_budget ?r s ?dec1 (sw_manager w) = Inr (dec2, m1, k)" and
      run: "(let w1 = w\<lparr>sw_dec := dec2, sw_manager := m1\<rparr>
            in if k \<le> 0 then Inr (False, w1, [])
               else let dr = draft (ss_tokens s) k (ss_drafter s)
                 in if dr = []
                    then Inr (False, w1\<lparr>sw_dec := count_stat (\<lambda>st. st\<lparr>declined_stale_match := declined_stale_match st + 1\<rparr>) dec2\<rparr>, [])
                    else rbind (verify_step fwd rules s dr w1) (\<lambda>(w2, msgs, stopped). Inr (True, w2, msgs))) = Inr (drafted, w', msgs)"
      using assms(1) unfolding run_step_def s0 rbind_simps Let_def s_def[symmetric] if_not_P[OF False] by (auto elim!: rbindE)
    let ?w1 = "w\<lparr>sw_dec := dec2, sw_manager := m1\<rparr>" and ?dr = "draft (ss_tokens s) k (ss_drafter s)"
    show ?thesis
    proof (cases "k \<le> 0 \<or> ?dr = []")
      case True
      then show ?thesis using run by (auto simp: Let_def split: if_splits)
    next
      case False
      then have v: "rbind (verify_step fwd rules s ?dr ?w1) (\<lambda>(w2, msgs, stopped). Inr (True, w2, msgs)) = Inr (drafted, w', msgs)"
        using run by (simp add: Let_def)
      then obtain st where v': "verify_step fwd rules s ?dr ?w1 = Inr (w', msgs, st)" and t: "drafted" by (auto elim!: rbindE)
      have "decode_shape (sw_req ?w1)" "last_token_staged (sw_req ?w1) (sw_table ?w1)" using assms(2,3) by simp_all
      from verify_step_decode[OF v' this assms(4)] have "\<exists>n r' a b c. 1 \<le> n \<and> decode_loop next rules n (sw_req w) = Inr (r', msgs, st) \<and>
        sw_req w' = with_slots a b c r'" by simp
      then show ?thesis unfolding if_P[OF t] by blast
    qed
  qed
qed

section \<open>A small world\<close>

text \<open>A request \<open>[7, 8, 9, 7, 8]\<close> over pages of two tokens; the model says 9 after an 8, and 5 after anything else.\<close>

definition demo_next :: "int list \<Rightarrow> int" where
  "demo_next ids = (if last ids = 8 then 9 else 5)"

definition demo_fwd :: "int forward" where
  "demo_fwd ids r p = (map (\<lambda>i. demo_next (take (req_cached_len r) (input_ids r) @ take (i + 1) ids)) [0..<length ids], p,
     \<lparr>capture_len = length ids, has_layers = False, replay = (\<lambda>live n q. q)\<rparr>)"

definition spec_rules :: stop_rules where
  "spec_rules = \<lparr>ignore_eos = True, eos_token_ids = [], stop_strs = [], output_len = 5, tokenizer_decode = (\<lambda>_. []),
     toolcall_anchor_id = Some 99\<rparr>"

definition spec_req :: req where
  "spec_req = commit_req\<lparr>input_ids := [7, 8, 9, 7, 8], req_cached_len := 4, device_len := 5, max_device_len := 10,
     req_handle := NaiveH \<lparr>ncached_len = 0\<rparr>\<rparr>"

definition spec_manager :: "int manager" where
  "spec_manager = demo_manager\<lparr>free_slots := [4, 6, 8], pcache := PNaive, page_table := [[0, 1, 2, 3, 0, 0, 0, 0, 0, 0]]\<rparr>"

definition spec_world :: "int spec_world" where
  "spec_world = \<lparr>sw_dec = \<lparr>dec_n = 2, draft_len = 2, dec_adaptive = True, post_drain = True, gate_seed = False, fast_path = True, track_chunk_size = 64, dec_state = None,
       dec_stats = \<lparr>verify_steps = 0, plain_peeks = 0, drafted_tokens = 0, accepted_tokens = 0, emitted_tokens = 0, declined_shape = 0,
         declined_no_slot = 0, declined_budget = 0, declined_stale_match = 0, declined_uneconomic = 0, seed_probe_steps = 0,
         accepted_hist = []\<rparr>\<rparr>,
     sw_manager = spec_manager,
     sw_table = \<lparr>max_running_reqs = 1, free_rows = [], token_pool = [[7, 8, 9, 7, 8, 0, 0, 0, 0, 0]]\<rparr>,
     sw_running = \<lparr>dm_page_size = 2, running_reqs = [spec_req]\<rparr>, sw_req = spec_req\<rparr>"

lemma spec_world_runs:
  "case run_step demo_hash demo_fwd spec_rules spec_world of
     Inr (drafted, w', msgs) \<Rightarrow> drafted \<and> map next_token msgs = [9, 5] \<and> input_ids (sw_req w') = [7, 8, 9, 7, 8, 9, 5] \<and>
       free_slots (sw_manager w') = [8, 6]
   | Inl _ \<Rightarrow> False"
  by code_simp

lemma spec_world_ready:
  "decode_shape spec_req" "last_token_staged spec_req (sw_table spec_world)" "greedy_forward demo_next demo_fwd"
proof -
  show "decode_shape spec_req" "last_token_staged spec_req (sw_table spec_world)" by code_simp+
qed (simp add: greedy_forward_def demo_fwd_def)

theorem spec_step_is_decoding_witness:
  "\<exists>w' n r' stopped msgs a b c. run_step demo_hash demo_fwd spec_rules spec_world = Inr (True, w', msgs) \<and> map next_token msgs = [9, 5] \<and>
     decode_loop demo_next spec_rules n spec_req = Inr (r', msgs, stopped) \<and> sw_req w' = with_slots a b c r'"
proof -
  obtain d w' msgs where run: "run_step demo_hash demo_fwd spec_rules spec_world = Inr (d, w', msgs)" "d" "map next_token msgs = [9, 5]"
    using spec_world_runs by (auto split: sum.splits prod.splits)
  have w: "sw_req spec_world = spec_req" by (simp add: spec_world_def)
  have r: "decode_shape (sw_req spec_world)" "last_token_staged (sw_req spec_world) (sw_table spec_world)"
    using spec_world_ready unfolding w by blast+
  obtain n r' st a b c where D: "decode_loop demo_next spec_rules n spec_req = Inr (r', msgs, st)" "sw_req w' = with_slots a b c r'"
    using spec_step_is_decoding[OF run(1) r spec_world_ready(3)] unfolding w if_P[OF run(2)] by (elim exE conjE) (rule that)
  show ?thesis
    by (rule exI[of _ w'], rule exI[of _ n], rule exI[of _ r'], rule exI[of _ st], rule exI[of _ msgs], rule exI[of _ a], rule exI[of _ b],
        rule exI[of _ c]) (use run D in simp)
qed

end
