(* ===== verification/Spec_Pages.thy ===== *)
theory Spec_Pages
  imports Spec_Lossless
begin

text \<open>
  Pages and state slots of a verify step: it never raises, gives back the pages of the rejected positions, and its draft
  length stays inside every bound.
\<close>

section \<open>Pages and slots\<close>

lemma slice_empty: "b \<le> a \<Longrightarrow> slice a b xs = []"
  by (simp add: slice_def min.coboundedI2)

text \<open>The state pool before and after: there is one or there is none, and it keeps its slots.\<close>

definition pool_like :: "'v pool option \<Rightarrow> 'v pool option \<Rightarrow> bool" where
  "pool_like p q \<longleftrightarrow> map_option num_slots p = map_option num_slots q"

lemma pool_like_refl [simp]: "pool_like p p"
  by (simp add: pool_like_def)

lemma pool_like_trans: "pool_like p q \<Longrightarrow> pool_like q s \<Longrightarrow> pool_like p s"
  by (simp add: pool_like_def)

lemma pool_like_None: "pool_like p q \<Longrightarrow> p = None \<longleftrightarrow> q = None"
  by (cases p; cases q) (simp_all add: pool_like_def)

lemma manager_inv_pool:
  "manager_inv lk m owned \<Longrightarrow> pool_like (linear_state_pool m) p \<Longrightarrow> manager_inv lk (m\<lparr>linear_state_pool := p\<rparr>) owned"
  using pool_like_None[of "linear_state_pool m" p] by (auto simp: manager_inv_def)

lemma copy_from_like: "a < num_slots p \<Longrightarrow> b < num_slots p \<Longrightarrow> \<exists>q. copy_from a b p = Inr q \<and> num_slots q = num_slots p \<and> pool_free q = pool_free p"
  by (simp add: copy_from_def)

lemma release_states_like:
  "release_states sl m = Inr m' \<Longrightarrow> pool_like (linear_state_pool m) (linear_state_pool m') \<and> mpage_size m' = mpage_size m"
  by (auto simp: release_states_def pool_like_def pool_release_def split: if_splits option.splits)

lemma allocate_like:
  assumes "allocate k m = Inr (m', pages)"
  shows "pool_like (linear_state_pool m) (linear_state_pool m') \<and> mpage_size m' = mpage_size m"
proof -
  have e: "pool_like (linear_state_pool m) (linear_state_pool m1) \<and> mpage_size m1 = mpage_size m" if "evict_to_free n m = Inr (m1, l)" for n m1 l
    using that by (auto simp: evict_to_free_def elim!: rbindE dest!: release_states_like)
  show ?thesis using assms e
    by (fastforce simp: allocate_def py_assert_eq_Inr split: if_splits elim!: rbindE)
qed

lemma allocate_paged_like:
  assumes "allocate_paged reqs m = Inr m'"
  shows "pool_like (linear_state_pool m) (linear_state_pool m') \<and> mpage_size m' = mpage_size m"
proof -
  have w: "linear_state_pool m2 = linear_state_pool m1 \<and> mpage_size m2 = mpage_size m1"
    if "write_page_table al info m1 = Inr m2" for al info m1 m2 using that by (auto simp: write_page_table_def elim!: rbindE)
  show ?thesis using assms
    by (auto simp: allocate_paged_def Let_def split: if_splits elim!: rbindE dest!: allocate_like w)
qed

lemma write_rows_lengths:
  "write_rows ps table allocated info = Inr table' \<Longrightarrow> \<forall>(t, a, b) \<in> set info. a \<le> b \<Longrightarrow>
   length table' = length table \<and> (\<forall>j < length table. length (table' ! j) = length (table ! j))"
proof (induction ps table allocated info arbitrary: table' rule: write_rows.induct)
  case (1 ps table allocated)
  then show ?case by (simp add: py_assert_eq_Inr)
next
  case (2 ps table allocated t a b info)
  let ?i = "case t of Some i \<Rightarrow> i | None \<Rightarrow> length table - 1" and ?n = "b * ps - a * ps"
  have al: "\<not> length allocated < ?n" using 2(2) by (auto simp: Let_def split: if_splits)
  obtain row where row: "py_nth table ?i = Inr row" "\<not> length row < b * ps"
    "write_rows ps (table[?i := splice (a * ps) (b * ps) (take ?n allocated) row]) (drop ?n allocated) info = Inr table'"
    using 2(2) al by (auto simp: Let_def split: if_splits elim!: rbindE)
  have ab: "a * ps \<le> b * ps" using 2(3) by simp
  have "length (splice (a * ps) (b * ps) (take ?n allocated) row) = length row"
    using al row(2) ab by (simp add: splice_def)
  moreover have "row = table ! ?i" "?i < length table" using row(1) by (auto simp: py_nth_def split: if_splits)
  moreover have "\<forall>(t, a, b) \<in> set info. a \<le> b" using 2(3) by simp
  ultimately show ?case using 2(1)[of "a * ps" "b * ps" ?n ?i row table'] al row by (auto simp: nth_list_update)
qed

lemma allocate_paged_lengths:
  assumes "allocate_paged reqs m = Inr m'" "manager_inv lk m owned"
  shows "length (page_table m') = length (page_table m) \<and> (\<forall>j < length (page_table m). length (page_table m' ! j) = length (page_table m ! j))"
proof -
  have e: "page_table m1 = page_table m" if "evict_to_free n m = Inr (m1, l)" for n m1 l
    using that by (auto simp: evict_to_free_def release_states_def split: if_splits option.splits elim!: rbindE)
  have a: "page_table m1 = page_table m" if "allocate k m = Inr (m1, pages)" for k m1 pages
    using that e by (fastforce simp: allocate_def py_assert_eq_Inr split: if_splits elim!: rbindE)
  have i: "\<forall>(t, a, b) \<in> set (allocation_info ps reqs). a \<le> b" for ps
    using allocation_info_rows(3)[of _ _ _ ps reqs] by (auto dest: less_imp_le)
  have w: "length (page_table m2) = length (page_table m1) \<and> (\<forall>j < length (page_table m1). length (page_table m2 ! j) = length (page_table m1 ! j))"
    if "write_page_table al (allocation_info ps reqs) m1 = Inr m2" for al ps m1 m2
    using that write_rows_lengths[OF _ i] by (auto simp: write_page_table_def elim!: rbindE)
  show ?thesis using assms(1)
    by (auto simp: allocate_paged_def Let_def split: if_splits elim!: rbindE dest!: a w)
qed

text \<open>The pages of a row from a handle's end to the page ceiling of a length.\<close>

definition pages_upto :: "req \<Rightarrow> nat \<Rightarrow> 'v manager \<Rightarrow> int list" where
  "pages_upto r n m = every (mpage_size m) (slice (handle_len (req_handle r)) (div_ceil n (mpage_size m) * mpage_size m) (req_row r m))"

lemma req_pages_upto: "req_pages r m = pages_upto r (req_cached_len r) m"
  by (simp add: req_pages_def pages_upto_def req_end_def)

lemma pages_upto_split:
  assumes "0 < mpage_size m" "mpage_size m dvd handle_len (req_handle r)" "handle_len (req_handle r) \<le> a" "a \<le> b"
    "div_ceil b (mpage_size m) * mpage_size m \<le> length (req_row r m)"
  shows "pages_upto r b m = pages_upto r a m @
     every (mpage_size m) (slice (div_ceil a (mpage_size m) * mpage_size m) (div_ceil b (mpage_size m) * mpage_size m) (req_row r m))"
proof -
  have a: "a \<le> div_ceil a (mpage_size m) * mpage_size m" using align_ceil_ge[OF assms(1), of a] by (simp add: align_ceil_def)
  have b: "div_ceil a (mpage_size m) * mpage_size m \<le> div_ceil b (mpage_size m) * mpage_size m"
    using div_ceil_mono[OF assms(1,4)] by simp
  show ?thesis unfolding pages_upto_def
    by (rule every_slice_split[OF assms(1) _ b assms(2) _ le_trans[OF b assms(5)]]) (use assms(3) a in simp_all)
qed

lemma free_spec_tail_ok:
  assumes inv: "manager_inv lk m (mset (pages_upto r alloc m) + owned)"
    and r: "table_idx r = Some i" "i < length (page_table m)" "mpage_size m dvd handle_len (req_handle r)"
    "handle_len (req_handle r) \<le> keep" "keep \<le> alloc" "div_ceil alloc (mpage_size m) * mpage_size m \<le> length (req_row r m)"
  shows "\<exists>m'. free_spec_tail r keep alloc m = Inr m' \<and> manager_inv lk m' (mset (pages_upto r keep m) + owned) \<and>
    page_table m' = page_table m \<and> mpage_size m' = mpage_size m \<and> linear_state_pool m' = linear_state_pool m"
proof -
  let ?ps = "mpage_size m"
  have pos: "0 < ?ps" using inv prefix_inv_pos by (auto simp: manager_inv_def)
  let ?f = "div_ceil keep ?ps * ?ps" and ?e = "div_ceil alloc ?ps * ?ps"
  let ?x = "slice ?f ?e (req_row r m)"
  have sp: "mset (pages_upto r alloc m) = mset (pages_upto r keep m) + mset (every ?ps ?x)"
    using pages_upto_split[OF pos r(3,4,5,6)] by simp
  have row: "row_of (table_idx r) m = Inr (req_row r m)" using r(1,2) by (simp add: row_of_def py_nth_def req_row_def row_index_def)
  show ?thesis
  proof (cases "?e \<le> ?f")
    case True
    then have "?x = []" by (rule slice_empty)
    then have "manager_inv lk m (mset (pages_upto r keep m) + owned)" using inv unfolding sp by simp
    then show ?thesis using True by (intro exI[of _ m]) (simp add: free_spec_tail_def)
  next
    case False
    have "manager_inv lk (free_pages ?x m) (mset (pages_upto r keep m) + owned)"
      using inv unfolding sp by (cases "?x = []") (simp_all add: free_pages_def manager_inv_def ac_simps)
    moreover have "free_spec_tail r keep alloc m = Inr (free_pages ?x m)"
      unfolding free_spec_tail_def Let_def if_not_P[OF False] row rbind_simps ..
    ultimately show ?thesis by (intro exI[of _ "free_pages ?x m"]) (simp add: free_pages_def)
  qed
qed

lemma emit_loop_shape:
  "emit_loop rules buf L e ts r = (q, msgs, st) \<Longrightarrow>
   (\<exists>ids a. q = r\<lparr>input_ids := ids, toolcall_anchor_len := a\<rparr>) \<and>
   (st \<longrightarrow> (\<exists>j. 1 \<le> j \<and> j \<le> length ts \<and> input_ids q = take (L + 1 + e + j) buf))"
proof (induction ts arbitrary: e r q msgs st)
  case Nil
  then show ?case by (auto intro!: exI[of _ "input_ids r"] exI[of _ "toolcall_anchor_len r"])
next
  case (Cons t ts)
  let ?r1 = "r\<lparr>input_ids := take (L + 1 + e + 1) buf\<rparr>"
  let ?eos = "\<not> ignore_eos rules \<and> t \<in> set (eos_token_ids rules)"
  define ms where "ms = (if \<not> ?eos \<and> stop_strs rules \<noteq> [] then match_stop_str rules ?r1 else None)"
  define fin where "fin \<longleftrightarrow> max_device_len ?r1 \<le> L + 1 + e + 1 \<or> ?eos \<or> ms \<noteq> None"
  define r2 where "r2 = (if Some t = toolcall_anchor_id rules \<and> toolcall_anchor_len ?r1 = None \<and> \<not> fin
     then ?r1\<lparr>toolcall_anchor_len := Some (L + 1 + e + 1)\<rparr> else ?r1)"
  have r2: "\<exists>a. r2 = r\<lparr>input_ids := take (L + 1 + e + 1) buf, toolcall_anchor_len := a\<rparr>"
    unfolding r2_def by (auto intro: exI[of _ "toolcall_anchor_len r"])
  have st: "\<exists>msg. emit_loop rules buf L e (t # ts) r = (if fin then (r2, [msg], True)
      else case emit_loop rules buf L (e + 1) ts r2 of (r3, msgs, stopped) \<Rightarrow> (r3, msg # msgs, stopped))"
    by (simp only: emit_loop.simps Let_def ms_def[symmetric] fin_def[symmetric] r2_def[symmetric]) blast
  then obtain msg where E: "emit_loop rules buf L e (t # ts) r = (if fin then (r2, [msg], True)
      else case emit_loop rules buf L (e + 1) ts r2 of (r3, msgs, stopped) \<Rightarrow> (r3, msg # msgs, stopped))" ..
  show ?case
  proof (cases fin)
    case True
    then have q: "q = r2" using Cons.prems E by simp
    have "input_ids r2 = take (L + 1 + e + 1) buf" using r2 by auto
    then show ?thesis using r2 unfolding q by (intro conjI impI exI[of _ 1]) auto
  next
    case False
    obtain q' ms' st' where E2: "emit_loop rules buf L (e + 1) ts r2 = (q', ms', st')" by (metis prod_cases3)
    then have q: "q = q'" "st = st'" using Cons.prems E False by simp_all
    note ih = Cons.IH[OF E2]
    obtain ids a a' where "r2 = r\<lparr>input_ids := take (L + 1 + e + 1) buf, toolcall_anchor_len := a'\<rparr>"
      "q' = r2\<lparr>input_ids := ids, toolcall_anchor_len := a\<rparr>" using ih r2 by blast
    then have "q' = r\<lparr>input_ids := ids, toolcall_anchor_len := a\<rparr>" by simp
    then have "\<exists>ids a. q' = r\<lparr>input_ids := ids, toolcall_anchor_len := a\<rparr>" by blast
    moreover have "st' \<longrightarrow> (\<exists>j. 1 \<le> j \<and> j \<le> length (t # ts) \<and> input_ids q' = take (L + 1 + e + j) buf)"
    proof
      assume st'
      then obtain j where "1 \<le> j" "j \<le> length ts" "input_ids q' = take (L + 1 + (e + 1) + j) buf" using ih by blast
      then show "\<exists>j. 1 \<le> j \<and> j \<le> length (t # ts) \<and> input_ids q' = take (L + 1 + e + j) buf"
        by (intro exI[of _ "Suc j"]) simp
    qed
    ultimately show ?thesis unfolding q by blast
  qed
qed

text \<open>A request a verify step may run on: its row, its handle and its state slots exist.\<close>

definition spec_ready :: "req \<Rightarrow> 'v manager \<Rightarrow> table_manager \<Rightarrow> bool" where
  "spec_ready r m tm \<longleftrightarrow> decode_shape r \<and>
     (\<exists>i. table_idx r = Some i \<and> i < length (page_table m) \<and> i < length (token_pool tm) \<and> max_device_len r \<le> length (token_pool tm ! i)) \<and>
     mpage_size m dvd handle_len (req_handle r) \<and> handle_len (req_handle r) \<le> req_cached_len r \<and>
     div_ceil (max_device_len r) (mpage_size m) * mpage_size m \<le> length (req_row r m) \<and>
     (case linear_state_pool m of None \<Rightarrow> True | Some p \<Rightarrow>
        (\<exists>live < num_slots p. linear_slot_idx r = Some live) \<and>
        (case spec_scratch_slot r of Some sl \<Rightarrow> sl < num_slots p
         | None \<Rightarrow> 0 < num_free_slots p \<and> (\<forall>x \<in> set (pool_free p). x < num_slots p)) \<and>
        (case mamba_ping_pong r of Some (x, y) \<Rightarrow> x < num_slots p \<and> y < num_slots p | None \<Rightarrow> True))"

text \<open>The engine's forward gives one token per position, captures them all and moves no slot of the pool.\<close>

definition forward_ok :: "'v forward \<Rightarrow> bool" where
  "forward_ok fwd \<longleftrightarrow> (\<forall>ids r p. case fwd ids r p of (greedy, q, cap) \<Rightarrow>
     length greedy = length ids \<and> pool_like p q \<and> capture_len cap = length ids \<and> (\<forall>live k x. num_slots (replay cap live k x) = num_slots x))"

lemma snapshot_one_ok:
  assumes "spec_ready r m tm" "manager_inv lk m owned"
  shows "\<exists>a b p. snapshot_toolcall_anchor [r] m = Inr (m\<lparr>linear_state_pool := p\<rparr>, [with_slots a b (spec_scratch_slot r) r]) \<and>
    pool_like (linear_state_pool m) p \<and> (\<forall>x y. linear_state_pool m = Some x \<longrightarrow> p = Some y \<longrightarrow> pool_free y = pool_free x)"
proof -
  have self: "m = m\<lparr>linear_state_pool := linear_state_pool m\<rparr>"
    "r = with_slots (mamba_last_track_seqlen r) (mamba_next_track_idx r) (spec_scratch_slot r) r" by (simp_all add: with_slots_def)
  show ?thesis
  proof (cases "\<exists>a x y. is_hybrid (pcache m) \<and> toolcall_anchor_len r = Some a \<and> mamba_ping_pong r = Some (x, y) \<and>
      \<not> (mamba_last_track_seqlen r \<noteq> None \<or> req_cached_len r \<noteq> a \<or> align_down a (mpage_size m) \<noteq> a)")
    case True
    then obtain a x y where T: "is_hybrid (pcache m)" "toolcall_anchor_len r = Some a" "mamba_ping_pong r = Some (x, y)"
      "\<not> (mamba_last_track_seqlen r \<noteq> None \<or> req_cached_len r \<noteq> a \<or> align_down a (mpage_size m) \<noteq> a)" by blast
    obtain p where p: "linear_state_pool m = Some p" using T(1) assms(2) by (auto simp: manager_inv_def)
    obtain live where l: "linear_slot_idx r = Some live" "live < num_slots p" "x < num_slots p" "y < num_slots p"
      using assms(1) p T(3) by (auto simp: spec_ready_def)
    have d: "(if mamba_next_track_idx r then y else x) < num_slots p" using l(3,4) by (cases "mamba_next_track_idx r") simp_all
    obtain q where q: "copy_from live (if mamba_next_track_idx r then y else x) p = Inr q" "num_slots q = num_slots p" "pool_free q = pool_free p"
      using copy_from_like[OF l(2) d] by blast
    have "snapshot_toolcall_anchor [r] m =
       Inr (m\<lparr>linear_state_pool := Some q\<rparr>, [with_slots (Some a) (\<not> mamba_next_track_idx r) (spec_scratch_slot r) r])"
      using T p l(1) q(1) by (simp add: pool_of_def with_slots_def)
    then show ?thesis using p q(2,3) by (intro exI[of _ "Some a"] exI[of _ "\<not> mamba_next_track_idx r"] exI[of _ "Some q"])
        (simp add: pool_like_def)
  next
    case False
    then have "snapshot_toolcall_anchor [r] m = Inr (m, [r])" by (auto split: option.splits prod.splits if_splits)
    then show ?thesis using self
      by (intro exI[of _ "mamba_last_track_seqlen r"] exI[of _ "mamba_next_track_idx r"] exI[of _ "linear_state_pool m"]) simp
  qed
qed

lemma ensure_scratch_ok:
  assumes "spec_ready r m tm"
  shows "\<exists>c p. ensure_scratch r m = Inr (m\<lparr>linear_state_pool := p\<rparr>, with_slots (mamba_last_track_seqlen r) (mamba_next_track_idx r) c r) \<and>
    pool_like (linear_state_pool m) p \<and> (case p of None \<Rightarrow> True | Some q \<Rightarrow> \<exists>sl < num_slots q. c = Some sl)"
proof (cases "linear_state_pool m")
  case None
  then show ?thesis by (intro exI[of _ "spec_scratch_slot r"] exI[of _ None]) (simp add: ensure_scratch_def with_slots_def)
next
  case (Some p)
  obtain live where l: "linear_slot_idx r = Some live" "live < num_slots p" using assms Some by (auto simp: spec_ready_def)
  have "\<exists>p1 sl. (case spec_scratch_slot r of Some sl \<Rightarrow> Inr (p, sl)
      | None \<Rightarrow> rbind (pool_alloc 1 p) (\<lambda>(p1, slots). rbind (py_nth slots 0) (\<lambda>sl. Inr (p1, sl)))) = Inr (p1, sl) \<and>
      num_slots p1 = num_slots p \<and> sl < num_slots p"
  proof (cases "spec_scratch_slot r")
    case None
    then have f: "0 < length (pool_free p)" "\<forall>x \<in> set (pool_free p). x < num_slots p"
      using assms Some by (auto simp: spec_ready_def num_free_slots_def)
    have d: "drop (length (pool_free p) - 1) (pool_free p) = [last (pool_free p)]"
      using f(1) by (cases "pool_free p" rule: rev_cases) simp_all
    have a: "pool_alloc 1 p = Inr (p\<lparr>pool_free := take (length (pool_free p) - 1) (pool_free p)\<rparr>, [last (pool_free p)])"
      using f(1) d by (simp add: pool_alloc_def)
    show ?thesis unfolding None option.case a rbind_simps prod.case py_nth_def using f by simp
  next
    case sl: (Some sl)
    then show ?thesis using assms Some by (simp add: spec_ready_def)
  qed
  then obtain p1 sl where A: "(case spec_scratch_slot r of Some sl \<Rightarrow> Inr (p, sl)
      | None \<Rightarrow> rbind (pool_alloc 1 p) (\<lambda>(p1, slots). rbind (py_nth slots 0) (\<lambda>sl. Inr (p1, sl)))) = Inr (p1, sl)"
      "num_slots p1 = num_slots p" "sl < num_slots p" by blast
  obtain p2 where C: "copy_from live sl p1 = Inr p2" "num_slots p2 = num_slots p1"
    using copy_from_like[of live p1 sl] l(2) A(2,3) by auto
  have "ensure_scratch r m = Inr (m\<lparr>linear_state_pool := Some p2\<rparr>, with_slots (mamba_last_track_seqlen r) (mamba_next_track_idx r) (Some sl) r)"
    unfolding ensure_scratch_def Some option.case A(1) rbind_simps prod.case l(1) C(1) by (simp add: with_slots_def)
  then show ?thesis using Some A(2,3) C(2) by (intro exI[of _ "Some sl"] exI[of _ "Some p2"]) (simp add: pool_like_def)
qed

lemma spec_ready_slots:
  assumes "spec_ready r m tm" "pool_like (linear_state_pool m) p"
    "\<forall>x y. linear_state_pool m = Some x \<longrightarrow> p = Some y \<longrightarrow> pool_free y = pool_free x"
  shows "spec_ready (with_slots a b (spec_scratch_slot r) r) (m\<lparr>linear_state_pool := p\<rparr>) tm"
proof -
  let ?r = "with_slots a b (spec_scratch_slot r) r" and ?m = "m\<lparr>linear_state_pool := p\<rparr>"
  have e: "req_row ?r ?m = req_row r m" "decode_shape ?r = decode_shape r" "spec_scratch_slot ?r = spec_scratch_slot r"
    by (simp_all add: req_row_def decode_shape_def with_slots_def)
  show ?thesis
  proof (cases "linear_state_pool m")
    case None
    then have "p = None" using assms(2) pool_like_None by blast
    then show ?thesis using assms(1) None unfolding spec_ready_def e by simp
  next
    case (Some x)
    then obtain y where y: "p = Some y" "num_slots y = num_slots x" using assms(2) by (cases p) (simp_all add: pool_like_def)
    then have "pool_free y = pool_free x" using assms(3) Some by blast
    then show ?thesis using assms(1) Some y unfolding spec_ready_def e by (simp add: num_free_slots_def split: option.splits prod.splits)
  qed
qed

text \<open>Allocating for one request: its pages up to the new length are its old ones and the new ones.\<close>

lemma allocate_one_ok:
  assumes inv: "manager_inv lk m (mset (pages_upto r (req_cached_len r) m) + owned)"
    and r: "table_idx r = Some i" "i < length (page_table m)" "mpage_size m dvd handle_len (req_handle r)"
      "handle_len (req_handle r) \<le> req_cached_len r" "req_cached_len r \<le> device_len r"
      "div_ceil (device_len r) (mpage_size m) * mpage_size m \<le> length (req_row r m)"
    and room: "div_ceil (device_len r) (mpage_size m) - div_ceil (req_cached_len r) (mpage_size m) \<le>
      length (free_slots m) + nat (evictable_size_of (pcache m)) div mpage_size m"
  shows "\<exists>m'. allocate_paged [r] m = Inr m' \<and> manager_inv lk m' (mset (pages_upto r (device_len r) m') + owned) \<and>
    mpage_size m' = mpage_size m \<and> length (page_table m') = length (page_table m) \<and> length (req_row r m') = length (req_row r m) \<and>
    (\<forall>j < length (page_table m). Some j \<noteq> table_idx r \<longrightarrow> page_table m' ! j = page_table m ! j) \<and>
    pool_like (linear_state_pool m) (linear_state_pool m')"
proof -
  let ?L = "req_cached_len r" and ?n = "device_len r" and ?ps = "mpage_size m"
  have pos: "0 < ?ps" using inv prefix_inv_pos by (auto simp: manager_inv_def)
  have fit: "rows_fit m [r]" using r(1,2,6) by (simp add: rows_fit_def req_row_def)
  have nd: "sum_list (map (\<lambda>r. div_ceil (device_len r) ?ps - div_ceil (req_cached_len r) ?ps) [r]) \<le>
      length (free_slots m) + nat (evictable_size_of (pcache m)) div ?ps" using room by simp
  obtain m3 pages where A: "allocate_paged [r] m = Inr m3" "manager_inv lk m3 (mset pages + (mset (pages_upto r ?L m) + owned))"
    "concat (map (\<lambda>(t, a, b). slice (a * ?ps) (b * ?ps) (page_table m3 ! the t)) (allocation_info ?ps [r])) = page_to_token ?ps pages"
    "length (page_table m3) = length (page_table m)"
    "\<forall>j < length (page_table m). Some j \<notin> table_idx ` set [r] \<longrightarrow> page_table m3 ! j = page_table m ! j"
    "\<forall>r \<in> set [r]. take (div_ceil (req_cached_len r) ?ps * ?ps) (page_table m3 ! the (table_idx r)) =
        take (div_ceil (req_cached_len r) ?ps * ?ps) (page_table m ! the (table_idx r))"
    using allocate_paged_ok[OF inv fit nd] by blast
  have ps3: "mpage_size m3 = ?ps" and pl: "pool_like (linear_state_pool m) (linear_state_pool m3)" using allocate_paged_like[OF A(1)] by simp_all
  have lr: "length (req_row r m3) = length (req_row r m)" using allocate_paged_lengths[OF A(1) inv] r(2) by (simp add: req_row_def r(1))
  have same: "pages_upto r ?L m3 = pages_upto r ?L m"
  proof -
    have "take (div_ceil ?L ?ps * ?ps) (page_table m3 ! i) = take (div_ceil ?L ?ps * ?ps) (page_table m ! i)"
      using A(6) by (simp add: r(1))
    then show ?thesis by (simp add: pages_upto_def slice_def req_row_def r(1) ps3)
  qed
  have new: "every ?ps (slice (div_ceil ?L ?ps * ?ps) (div_ceil ?n ?ps * ?ps) (req_row r m3)) = pages"
  proof (cases "div_ceil ?L ?ps < div_ceil ?n ?ps")
    case True
    then have "slice (div_ceil ?L ?ps * ?ps) (div_ceil ?n ?ps * ?ps) (req_row r m3) = page_to_token ?ps pages"
      using A(3) by (simp add: r(1) req_row_def)
    then show ?thesis using pos by simp
  next
    case False
    then have "length (page_to_token ?ps pages) = 0" using A(3) by simp
    then have "pages = []" using pos by simp
    moreover have "slice (div_ceil ?L ?ps * ?ps) (div_ceil ?n ?ps * ?ps) (req_row r m3) = []"
      using False by (intro slice_empty mult_le_mono1) simp
    ultimately show ?thesis by simp
  qed
  have "pages_upto r ?n m3 = pages_upto r ?L m3 @ pages"
    using pages_upto_split[of m3 r ?L ?n] pos r(3-6) new lr by (simp add: ps3)
  then have "manager_inv lk m3 (mset (pages_upto r ?n m3) + owned)" using A(2) same by (simp add: ac_simps)
  then show ?thesis using A(1,4,5) ps3 lr pl by (intro exI[of _ m3]) auto
qed

text \<open>Staging a draft succeeds, and gives the request the pages of the drafted positions.\<close>

lemma stage_draft_ok:
  assumes rd: "spec_ready r m tm" and inv: "manager_inv lk m (mset (req_pages r m) + owned)"
    and dr: "req_cached_len r + length dr + 2 \<le> max_device_len r"
    and room: "div_ceil (req_cached_len r + length dr + 1) (mpage_size m) - div_ceil (req_cached_len r) (mpage_size m) \<le>
      length (free_slots m) + nat (evictable_size_of (pcache m)) div mpage_size m"
  shows "\<exists>m' tm' a b c. stage_draft anchored r dr m tm =
      Inr (m', tm', (with_slots a b c r)\<lparr>device_len := req_cached_len r + (length dr + 1)\<rparr>) \<and>
    manager_inv lk m' (mset (pages_upto r (req_cached_len r + length dr + 1) m') + owned) \<and>
    mpage_size m' = mpage_size m \<and> length (page_table m') = length (page_table m) \<and> length (req_row r m') = length (req_row r m) \<and>
    (\<forall>j < length (page_table m). Some j \<noteq> table_idx r \<longrightarrow> page_table m' ! j = page_table m ! j) \<and>
    pool_like (linear_state_pool m) (linear_state_pool m') \<and>
    (case linear_state_pool m' of None \<Rightarrow> True | Some q \<Rightarrow> \<exists>sl < num_slots q. c = Some sl) \<and>
    length (token_pool tm') = length (token_pool tm) \<and> length (token_pool tm' ! the (table_idx r)) = length (token_pool tm ! the (table_idx r))"
proof -
  let ?L = "req_cached_len r" and ?ps = "mpage_size m" and ?n = "req_cached_len r + length dr + 1"
  obtain i where i: "table_idx r = Some i" "i < length (page_table m)" "i < length (token_pool tm)"
    "max_device_len r \<le> length (token_pool tm ! i)" using rd by (auto simp: spec_ready_def)
  have pos: "0 < ?ps" using inv prefix_inv_pos by (auto simp: manager_inv_def)
  have row: "pool_row r tm = i" using i(1) by (simp add: pool_row_def)
  have tok: "py_nth (token_pool tm) i = Inr (token_pool tm ! i)" using i(3) by (simp add: py_nth_def)
  have k: "length (slice (?L + 1) (?L + (length dr + 1)) (token_pool tm ! i)) = length dr" using dr i(4) by simp
  then obtain toks' where T: "copy_into (?L + 1) (?L + (length dr + 1)) dr (token_pool tm ! i) = Inr toks'"
    by (cases "length dr = 0") (simp_all add: copy_into_def)
  have tl: "length toks' = length (token_pool tm ! i)" by (rule copy_into_exact(1)[OF T]) simp_all
  obtain a b p where S: "(if anchored then snapshot_toolcall_anchor [r] m else Inr (m, [r])) =
      Inr (m\<lparr>linear_state_pool := p\<rparr>, [with_slots a b (spec_scratch_slot r) r])" "pool_like (linear_state_pool m) p"
      "\<forall>x y. linear_state_pool m = Some x \<longrightarrow> p = Some y \<longrightarrow> pool_free y = pool_free x"
  proof (cases anchored)
    case True
    then show thesis using snapshot_one_ok[OF rd inv] that by auto
  next
    case False
    have "m = m\<lparr>linear_state_pool := linear_state_pool m\<rparr>"
      "r = with_slots (mamba_last_track_seqlen r) (mamba_next_track_idx r) (spec_scratch_slot r) r" by (simp_all add: with_slots_def)
    then show thesis using False by (intro that[of "linear_state_pool m" "mamba_last_track_seqlen r" "mamba_next_track_idx r"]) simp_all
  qed
  let ?m1 = "m\<lparr>linear_state_pool := p\<rparr>" and ?r1 = "with_slots a b (spec_scratch_slot r) r"
  obtain c q where E: "ensure_scratch ?r1 ?m1 = Inr (?m1\<lparr>linear_state_pool := q\<rparr>, with_slots (mamba_last_track_seqlen ?r1) (mamba_next_track_idx ?r1) c ?r1)"
    "pool_like (linear_state_pool ?m1) q" "case q of None \<Rightarrow> True | Some q \<Rightarrow> \<exists>sl < num_slots q. c = Some sl"
    using ensure_scratch_ok[OF spec_ready_slots[OF rd S(2,3)], of a b] by blast
  let ?m2 = "m\<lparr>linear_state_pool := q\<rparr>"
  have r2: "with_slots (mamba_last_track_seqlen ?r1) (mamba_next_track_idx ?r1) c ?r1 = with_slots a b c r" by (simp add: with_slots_def)
  have q: "pool_like (linear_state_pool m) q" using pool_like_trans[OF S(2)] E(2) by simp
  define r3 where "r3 = (with_slots a b c r)\<lparr>device_len := ?L + (length dr + 1)\<rparr>"
  have inv2: "manager_inv lk ?m2 (mset (pages_upto r ?L m) + owned)"
    using manager_inv_pool[OF inv q] by (simp add: req_pages_upto)
  have up: "div_ceil ?n ?ps * ?ps \<le> div_ceil (max_device_len r) ?ps * ?ps" using div_ceil_mono[OF pos, of ?n "max_device_len r"] dr by simp
  have rowlen: "div_ceil (max_device_len r) ?ps * ?ps \<le> length (page_table m ! i)" using rd i(1) by (simp add: spec_ready_def req_row_def)
  have r3: "table_idx r3 = Some i" "device_len r3 = ?n" "req_cached_len r3 = ?L" "req_handle r3 = req_handle r" using i(1) by (simp_all add: r3_def)
  have up3: "pages_upto r3 x m' = pages_upto r x m'" "req_row r3 m' = req_row r m'" for x and m' :: "'a manager"
    by (simp_all add: pages_upto_def req_row_def r3 i(1))
  have up2: "pages_upto r x ?m2 = pages_upto r x m" "req_row r ?m2 = req_row r m" for x by (simp_all add: pages_upto_def req_row_def)
  have "\<exists>m'. allocate_paged [r3] ?m2 = Inr m' \<and> manager_inv lk m' (mset (pages_upto r3 (device_len r3) m') + owned) \<and>
    mpage_size m' = mpage_size ?m2 \<and> length (page_table m') = length (page_table ?m2) \<and> length (req_row r3 m') = length (req_row r3 ?m2) \<and>
    (\<forall>j < length (page_table ?m2). Some j \<noteq> table_idx r3 \<longrightarrow> page_table m' ! j = page_table ?m2 ! j) \<and>
    pool_like (linear_state_pool ?m2) (linear_state_pool m')"
  proof (rule allocate_one_ok)
    show "manager_inv lk ?m2 (mset (pages_upto r3 (req_cached_len r3) ?m2) + owned)" unfolding up3 up2 r3 by (rule inv2)
    show "div_ceil (device_len r3) (mpage_size ?m2) * mpage_size ?m2 \<le> length (req_row r3 ?m2)"
      unfolding up3 up2 r3 using le_trans[OF up rowlen] by (simp add: req_row_def i(1))
  qed (use rd i(2) room in \<open>simp_all add: r3 spec_ready_def\<close>)
  then obtain m3 where A: "allocate_paged [r3] ?m2 = Inr m3" "manager_inv lk m3 (mset (pages_upto r ?n m3) + owned)" "mpage_size m3 = ?ps"
    "length (page_table m3) = length (page_table m)" "length (req_row r m3) = length (req_row r m)"
    "\<forall>j < length (page_table m). Some j \<noteq> table_idx r \<longrightarrow> page_table m3 ! j = page_table m ! j"
    "pool_like q (linear_state_pool m3)" unfolding up3 up2 r3 i(1) by auto
  have st: "stage_draft anchored r dr m tm = Inr (m3, tm\<lparr>token_pool := (token_pool tm)[i := toks']\<rparr>, r3)"
    unfolding stage_draft_def Let_def row tok rbind_simps T S(1) prod.case list.sel E(1) r2
    using A(1) by (simp add: r3_def)
  have pl: "pool_like (linear_state_pool m) (linear_state_pool m3)" by (rule pool_like_trans[OF q A(7)])
  have sc: "case linear_state_pool m3 of None \<Rightarrow> True | Some q \<Rightarrow> \<exists>sl < num_slots q. c = Some sl"
    using E(3) A(7) by (auto simp: pool_like_def split: option.splits)
  show ?thesis
    using st A(2-6) pl sc tl i
    by (intro exI[of _ m3] exI[of _ "tm\<lparr>token_pool := (token_pool tm)[i := toks']\<rparr>"] exI[of _ a] exI[of _ b] exI[of _ c])
      (simp add: r3_def)
qed

lemma commit_accepted_ok:
  assumes rd: "spec_ready r0 m0 tm0"
    and r: "r = (with_slots a b c r0)\<lparr>device_len := L + (n + 1)\<rparr>" "L = req_cached_len r0"
    and inv: "manager_inv lk m (mset (pages_upto r0 (L + n + 1) m) + owned)"
    and m: "mpage_size m = mpage_size m0" "length (page_table m) = length (page_table m0)" "length (req_row r0 m) = length (req_row r0 m0)"
      "pool_like (linear_state_pool m0) (linear_state_pool m)"
      "case linear_state_pool m of None \<Rightarrow> True | Some q \<Rightarrow> \<exists>sl < num_slots q. c = Some sl"
    and tm: "length (token_pool tm) = length (token_pool tm0)"
      "length (token_pool tm ! the (table_idx r0)) = length (token_pool tm0 ! the (table_idx r0))"
    and e: "emitted \<noteq> []" "length emitted \<le> n + 1" "L + n + 2 \<le> max_device_len r0" "capture_len cap = n + 1"
    and rep: "\<And>live k p. num_slots (replay cap live k p) = num_slots p"
  shows "\<exists>m' tm' r' s'. commit_accepted r s L n emitted cap m tm = Inr (m', tm', r', s') \<and>
    r' = r\<lparr>input_ids := input_ids r @ emitted, req_cached_len := L + length emitted, device_len := L + length emitted + 1\<rparr> \<and>
    manager_inv lk m' (mset (pages_upto r0 (L + length emitted) m') + owned) \<and>
    page_table m' = page_table m \<and> mpage_size m' = mpage_size m"
proof -
  let ?k = "length emitted"
  let ?r' = "r\<lparr>input_ids := input_ids r @ emitted, req_cached_len := L + ?k, device_len := L + ?k + 1\<rparr>"
  have pos: "0 < mpage_size m" using inv prefix_inv_pos by (auto simp: manager_inv_def)
  obtain i where i: "table_idx r0 = Some i" "i < length (page_table m0)" "i < length (token_pool tm0)"
    "max_device_len r0 \<le> length (token_pool tm0 ! i)" using rd by (auto simp: spec_ready_def)
  have sh: "length (input_ids r0) = L + 1" using rd r(2) by (simp add: spec_ready_def decode_shape_def)
  have ad: "adopt_tokens L emitted r = Inr ?r'" unfolding adopt_tokens_eq using sh e(2,3) by (simp add: r(1))
  have row: "pool_row r tm = i" using i(1) by (simp add: r(1) pool_row_def)
  have tok: "py_nth (token_pool tm) i = Inr (token_pool tm ! i)" using i(3) tm(1) by (simp add: py_nth_def)
  have lt: "\<not> (emitted = [] \<or> length (token_pool tm ! i) \<le> L + ?k)" using e i(4) tm(2) by (simp add: i(1))
  have sel: "table_idx ?r' = table_idx r0" "req_handle ?r' = req_handle r0" "req_cached_len ?r' = L + ?k" by (simp_all add: r(1))
  have up: "pages_upto ?r' x m = pages_upto r0 x m" for x by (simp add: pages_upto_def req_row_def r(1))
  have fit: "div_ceil (L + n + 1) (mpage_size m) * mpage_size m \<le> length (req_row r0 m)"
  proof -
    have "div_ceil (L + n + 1) (mpage_size m) * mpage_size m \<le> div_ceil (max_device_len r0) (mpage_size m) * mpage_size m"
      using div_ceil_mono[OF pos, of "L + n + 1" "max_device_len r0"] e(3) by simp
    also have "\<dots> \<le> length (req_row r0 m)" using rd m(1,3) by (simp add: spec_ready_def)
    finally show ?thesis .
  qed
  have h: "mpage_size m dvd handle_len (req_handle r0)" "handle_len (req_handle r0) \<le> L"
    using rd m(1) r(2) by (simp_all add: spec_ready_def)
  have "\<exists>m'. free_spec_tail ?r' (L + ?k) (L + n + 1) m = Inr m' \<and> manager_inv lk m' (mset (pages_upto ?r' (L + ?k) m) + owned) \<and>
      page_table m' = page_table m \<and> mpage_size m' = mpage_size m \<and> linear_state_pool m' = linear_state_pool m"
  proof (rule free_spec_tail_ok)
    show "manager_inv lk m (mset (pages_upto ?r' (L + n + 1) m) + owned)" unfolding up by (rule inv)
    show "table_idx ?r' = Some i" "i < length (page_table m)" using i m(2) sel by simp_all
    show "div_ceil (L + n + 1) (mpage_size m) * mpage_size m \<le> length (req_row ?r' m)"
      using fit by (simp add: req_row_def r(1))
  qed (use h e(2) sel in simp_all)
  then obtain m1 where F: "free_spec_tail ?r' (L + ?k) (L + n + 1) m = Inr m1" "manager_inv lk m1 (mset (pages_upto r0 (L + ?k) m) + owned)"
      "page_table m1 = page_table m" "mpage_size m1 = mpage_size m" "linear_state_pool m1 = linear_state_pool m" unfolding up by blast
  have k: "1 \<le> ?k \<and> ?k \<le> capture_len cap" using e by (simp add: Suc_le_eq)
  have "\<exists>p. advance_state ?r' ?k cap m1 = Inr (m1\<lparr>linear_state_pool := p\<rparr>) \<and> pool_like (linear_state_pool m1) p"
  proof (cases "linear_state_pool m1")
    case None
    then have "advance_state ?r' ?k cap m1 = Inr (m1\<lparr>linear_state_pool := None\<rparr>)" by (simp add: advance_state_def)
    then show ?thesis using None by (intro exI[of _ None]) simp
  next
    case (Some q)
    then obtain sl p0 where s: "sl < num_slots q" "c = Some sl" "linear_state_pool m0 = Some p0" "num_slots p0 = num_slots q"
      using m(4,5) F(5) by (auto simp: pool_like_def)
    obtain l where l: "linear_slot_idx r0 = Some l" "l < num_slots q" using rd s(3,4) by (auto simp: spec_ready_def)
    have L: "linear_slot_idx ?r' = Some l" "spec_scratch_slot ?r' = Some sl" using l(1) s(2) by (simp_all add: r(1) with_slots_def)
    obtain q' where "capture_commit l sl ?k cap q = Inr q'" "num_slots q' = num_slots q"
    proof (cases "has_layers cap \<and> ?k = capture_len cap")
      case True
      then show thesis using copy_from_like[OF s(1) l(2)] that k by (auto simp: capture_commit_def py_assert_def)
    next
      case False
      then have "capture_commit l sl ?k cap q = Inr (if has_layers cap then replay cap l ?k q else q)"
        using k by (auto simp: capture_commit_def py_assert_def)
      then show thesis using that rep[of l ?k q] by simp
    qed
    then have "advance_state ?r' ?k cap m1 = Inr (m1\<lparr>linear_state_pool := Some q'\<rparr>)"
      unfolding advance_state_def Some L by simp
    then show ?thesis using Some \<open>num_slots q' = num_slots q\<close> by (intro exI[of _ "Some q'"]) (simp add: pool_like_def)
  qed
  then obtain p where A: "advance_state ?r' ?k cap m1 = Inr (m1\<lparr>linear_state_pool := p\<rparr>)" "pool_like (linear_state_pool m1) p" by blast
  have kk: "L + ?k - L = ?k" by simp
  let ?m' = "m1\<lparr>linear_state_pool := p\<rparr>" and ?tm' = "tm\<lparr>token_pool := (token_pool tm)[i := (token_pool tm ! i)[L + ?k := last emitted]]\<rparr>"
  have "commit_accepted r s L n emitted cap m tm = Inr (?m', ?tm', ?r', s\<lparr>ss_tokens := ss_tokens s @ emitted\<rparr>)"
    unfolding commit_accepted_def Let_def ad rbind_simps row tok sel if_not_P[OF lt] F(1) kk A(1) ..
  moreover have "manager_inv lk ?m' (mset (pages_upto r0 (L + ?k) ?m') + owned)"
    using manager_inv_pool[OF F(2) A(2)] F(3,4) by (simp add: pages_upto_def req_row_def)
  ultimately show ?thesis using F(3,4) by (intro exI[of _ ?m'] exI[of _ ?tm'] exI[of _ ?r']) simp
qed

lemma finish_step_ok:
  assumes inv: "manager_inv lk m (mset (req_pages r m) + owned)"
    and r: "table_idx r = Some i" "i < length (page_table m)" "mpage_size m dvd handle_len (req_handle r)"
      "handle_len (req_handle r) \<le> L" "req_cached_len r = L + length emitted" "length (input_ids r) = L + length emitted + 1"
      "div_ceil (req_cached_len r) (mpage_size m) * mpage_size m \<le> length (req_row r m)"
  shows "\<exists>m' dm' r' so msgs st. finish_step rules r s L emitted m dm = Inr (m', dm', r', so, msgs, st) \<and>
    manager_inv lk m' (mset (req_pages r' m') + owned) \<and> page_table m' = page_table m \<and> mpage_size m' = mpage_size m"
proof -
  obtain q msgs st where E: "emit_loop rules (input_ids r) L 0 emitted r = (q, msgs, st)" by (metis prod_cases3)
  obtain ids a where q: "q = r\<lparr>input_ids := ids, toolcall_anchor_len := a\<rparr>" using emit_loop_shape[OF E] by blast
  have up: "pages_upto q x m' = pages_upto r x m'" "req_row q m = req_row r m" for x and m' :: "'a manager"
    by (simp_all add: q pages_upto_def req_row_def)
  show ?thesis
  proof (cases st)
    case False
    have "req_pages q m = req_pages r m" by (simp add: q req_pages_def req_row_def req_end_def)
    then show ?thesis using E False inv by (intro exI[of _ m] exI[of _ dm] exI[of _ q] exI[of _ "Some s"] exI[of _ msgs] exI[of _ False])
        (simp add: finish_step_def)
  next
    case True
    then obtain j where j: "1 \<le> j" "j \<le> length emitted" "input_ids q = take (L + 1 + 0 + j) (input_ids r)" using emit_loop_shape[OF E] by blast
    let ?n = "length (input_ids q)"
    have n: "?n = L + 1 + j" using j r(6) by simp
    let ?r = "q\<lparr>req_cached_len := ?n - 1, device_len := ?n\<rparr>"
    have c: "req_cached_len q = L + length emitted" using r(5) by (simp add: q)
    have u2: "pages_upto ?r x m' = pages_upto r x m'" "req_row ?r m = req_row r m" for x and m' :: "'a manager"
      by (simp_all add: q pages_upto_def req_row_def)
    have "\<exists>m'. free_spec_tail ?r (?n - 1) (req_cached_len q) m = Inr m' \<and> manager_inv lk m' (mset (pages_upto ?r (?n - 1) m) + owned) \<and>
        page_table m' = page_table m \<and> mpage_size m' = mpage_size m \<and> linear_state_pool m' = linear_state_pool m"
    proof (rule free_spec_tail_ok)
      show "manager_inv lk m (mset (pages_upto ?r (req_cached_len q) m) + owned)" unfolding u2 c using inv r(5) by (simp add: req_pages_upto)
      show "table_idx ?r = Some i" "mpage_size m dvd handle_len (req_handle ?r)" using r by (simp_all add: q)
      show "handle_len (req_handle ?r) \<le> ?n - 1" using r(4) n by (simp add: q)
      show "div_ceil (req_cached_len q) (mpage_size m) * mpage_size m \<le> length (req_row ?r m)" unfolding u2 c using r(5,7) by simp
    qed (use r(2) c n j in simp_all)
    then obtain m' where F: "free_spec_tail ?r (?n - 1) (req_cached_len q) m = Inr m'"
      "manager_inv lk m' (mset (pages_upto r (?n - 1) m) + owned)" "page_table m' = page_table m" "mpage_size m' = mpage_size m"
      unfolding u2 by blast
    have "finish_step rules r s L emitted m dm = Inr (m', remove_req ?r dm, ?r, None, msgs, True)"
      using F(1) E True by (simp add: finish_step_def Let_def)
    moreover have "req_pages ?r m' = pages_upto r (?n - 1) m"
      unfolding req_pages_upto u2 using F(3,4) by (simp add: pages_upto_def req_row_def)
    ultimately show ?thesis using F by (intro exI[of _ m'] exI[of _ "remove_req ?r dm"] exI[of _ ?r] exI[of _ None] exI[of _ msgs] exI[of _ True]) simp
  qed
qed

text \<open>The commit and the messages together.\<close>

lemma commit_finish_ok:
  assumes rd: "spec_ready r0 m0 tm0"
    and r: "r = (with_slots a b c r0)\<lparr>device_len := L + (n + 1)\<rparr>" "L = req_cached_len r0"
    and inv: "manager_inv lk m (mset (pages_upto r0 (L + n + 1) m) + owned)"
    and m: "mpage_size m = mpage_size m0" "length (page_table m) = length (page_table m0)" "length (req_row r0 m) = length (req_row r0 m0)"
      "pool_like (linear_state_pool m0) (linear_state_pool m)"
      "case linear_state_pool m of None \<Rightarrow> True | Some q \<Rightarrow> \<exists>sl < num_slots q. c = Some sl"
    and tm: "length (token_pool tm) = length (token_pool tm0)"
      "length (token_pool tm ! the (table_idx r0)) = length (token_pool tm0 ! the (table_idx r0))"
    and e: "emitted \<noteq> []" "length emitted \<le> n + 1" "L + n + 2 \<le> max_device_len r0" "capture_len cap = n + 1"
    and rep: "\<And>live k p. num_slots (replay cap live k p) = num_slots p"
  shows "\<exists>m1 tm1 r1 s1 m2 dm2 r2 so msgs st. commit_accepted r s L n emitted cap m tm = Inr (m1, tm1, r1, s1) \<and>
    finish_step rules r1 s1 L emitted m1 dm = Inr (m2, dm2, r2, so, msgs, st) \<and>
    manager_inv lk m2 (mset (req_pages r2 m2) + owned) \<and> page_table m2 = page_table m"
proof -
  obtain m1 tm1 r1 s1 where C: "commit_accepted r s L n emitted cap m tm = Inr (m1, tm1, r1, s1)"
    "r1 = r\<lparr>input_ids := input_ids r @ emitted, req_cached_len := L + length emitted, device_len := L + length emitted + 1\<rparr>"
    "manager_inv lk m1 (mset (pages_upto r0 (L + length emitted) m1) + owned)" "page_table m1 = page_table m" "mpage_size m1 = mpage_size m"
    using commit_accepted_ok[OF assms] by blast
  obtain i where i: "table_idx r0 = Some i" "i < length (page_table m0)" using rd by (auto simp: spec_ready_def)
  have r1: "table_idx r1 = table_idx r0" "req_handle r1 = req_handle r0" "req_cached_len r1 = L + length emitted"
    "length (input_ids r1) = L + length emitted + 1"
    using rd unfolding C(2) r by (simp_all add: spec_ready_def decode_shape_def)
  have pos: "0 < mpage_size m0" using inv m(1) prefix_inv_pos by (auto simp: manager_inv_def)
  have row: "req_row r1 m1 = req_row r0 m" using C(4) by (simp add: req_row_def r1(1))
  have "div_ceil (L + length emitted) (mpage_size m0) * mpage_size m0 \<le> div_ceil (max_device_len r0) (mpage_size m0) * mpage_size m0"
    using div_ceil_mono[OF pos, of "L + length emitted" "max_device_len r0"] e by simp
  also have "\<dots> \<le> length (req_row r0 m0)" using rd by (simp add: spec_ready_def)
  finally have fit: "div_ceil (req_cached_len r1) (mpage_size m1) * mpage_size m1 \<le> length (req_row r1 m1)"
    using C(5) m(1,3) row r1(3) by simp
  have own: "manager_inv lk m1 (mset (req_pages r1 m1) + owned)"
    using C(3) unfolding req_pages_upto r1(3) by (simp add: pages_upto_def req_row_def r1)
  have idx: "table_idx r1 = Some i" "i < length (page_table m1)" using i r1(1) C(4) m(2) by simp_all
  have h: "mpage_size m1 dvd handle_len (req_handle r1)" "handle_len (req_handle r1) \<le> L"
    using rd C(5) m(1) r1(2) r(2) by (simp_all add: spec_ready_def)
  show ?thesis using finish_step_ok[OF own idx h r1(3,4) fit, of rules s1 dm] C(1,4) by fastforce
qed

text \<open>C13: A verify step never raises and loses no page: on a request whose row, handle and state slots exist, with room for
  the draft and, on the fast path, a draft short of a snapshot boundary, it runs to its end whatever the model answers; afterwards every committed page is free, cached or owned, where
  the request owns exactly the pages of the tokens it kept, and the rows of the other requests are untouched.\<close>

theorem verify_step_conserves_pages:
  assumes "spec_ready (sw_req w) (sw_manager w) (sw_table w)" "forward_ok fwd"
    "manager_inv lk (sw_manager w) (mset (req_pages (sw_req w) (sw_manager w)) + owned)"
    "req_cached_len (sw_req w) + length dr + 2 \<le> max_device_len (sw_req w)"
    "div_ceil (req_cached_len (sw_req w) + length dr + 1) (mpage_size (sw_manager w)) -
       div_ceil (req_cached_len (sw_req w)) (mpage_size (sw_manager w)) \<le>
     length (free_slots (sw_manager w)) + nat (evictable_size_of (pcache (sw_manager w))) div mpage_size (sw_manager w)"
    "fast_path (sw_dec w) \<Longrightarrow> length dr + 1 \<le> track_chunk_size (sw_dec w)"
  shows "\<exists>w' msgs stopped. verify_step fwd rules s dr w = Inr (w', msgs, stopped) \<and>
    manager_inv lk (sw_manager w') (mset (req_pages (sw_req w') (sw_manager w')) + owned) \<and>
    (\<forall>j < length (page_table (sw_manager w)). Some j \<noteq> table_idx (sw_req w) \<longrightarrow>
       page_table (sw_manager w') ! j = page_table (sw_manager w) ! j)"
proof -
  let ?r = "sw_req w" and ?m = "sw_manager w" and ?tm = "sw_table w" and ?L = "req_cached_len (sw_req w)" and ?n = "length dr"
  obtain i where i: "table_idx ?r = Some i" "i < length (page_table ?m)" "i < length (token_pool ?tm)"
    "max_device_len ?r \<le> length (token_pool ?tm ! i)" using assms(1) by (auto simp: spec_ready_def)
  obtain m1 tm1 a b c where S: "stage_draft (toolcall_anchor_id rules \<noteq> None) ?r dr ?m ?tm =
      Inr (m1, tm1, (with_slots a b c ?r)\<lparr>device_len := ?L + (?n + 1)\<rparr>)"
    "manager_inv lk m1 (mset (pages_upto ?r (?L + ?n + 1) m1) + owned)" "mpage_size m1 = mpage_size ?m"
    "length (page_table m1) = length (page_table ?m)" "length (req_row ?r m1) = length (req_row ?r ?m)"
    "\<forall>j < length (page_table ?m). Some j \<noteq> table_idx ?r \<longrightarrow> page_table m1 ! j = page_table ?m ! j"
    "pool_like (linear_state_pool ?m) (linear_state_pool m1)"
    "case linear_state_pool m1 of None \<Rightarrow> True | Some q \<Rightarrow> \<exists>sl < num_slots q. c = Some sl"
    "length (token_pool tm1) = length (token_pool ?tm)"
    "length (token_pool tm1 ! the (table_idx ?r)) = length (token_pool ?tm ! the (table_idx ?r))"
    using stage_draft_ok[OF assms(1,3,4,5), of "toolcall_anchor_id rules \<noteq> None"] by (elim exE conjE) (rule that)
  let ?r1 = "(with_slots a b c ?r)\<lparr>device_len := ?L + (?n + 1)\<rparr>"
  let ?fr = "if linear_state_pool m1 = None then ?r1 else ?r1\<lparr>linear_slot_idx := spec_scratch_slot ?r1\<rparr>"
  have W: "check_width (sw_dec w) (?n + 1) m1 = Inr ()" using assms(6) by (simp add: check_width_def)
  have row: "pool_row ?r1 tm1 = i" using i(1) by (simp add: pool_row_def)
  have G: "gather_row ?L (?L + ?n + 1) (token_pool tm1 ! i) = Inr (slice ?L (?L + ?n + 1) (token_pool tm1 ! i))"
    using S(10) i assms(4) by (simp add: gather_row_def)
  let ?ids = "slice ?L (?L + ?n + 1) (token_pool tm1 ! i)"
  have li: "length ?ids = ?n + 1" using S(10) i assms(4) by simp
  obtain greedy p cap where f: "fwd ?ids ?fr (linear_state_pool m1) = (greedy, p, cap)" by (metis prod_cases3)
  have F: "length greedy = ?n + 1" "pool_like (linear_state_pool m1) p" "capture_len cap = ?n + 1"
    "\<And>live k x. num_slots (replay cap live k x) = num_slots x"
  proof -
    have "case fwd ?ids ?fr (linear_state_pool m1) of (greedy, q, cap) \<Rightarrow> length greedy = length ?ids \<and> pool_like (linear_state_pool m1) q \<and>
      capture_len cap = length ?ids \<and> (\<forall>live k x. num_slots (replay cap live k x) = num_slots x)"
      by (rule assms(2)[unfolded forward_ok_def, THEN spec, THEN spec, THEN spec])
    then have a: "length greedy = length ?ids \<and> pool_like (linear_state_pool m1) p \<and>
      capture_len cap = length ?ids \<and> (\<forall>live k x. num_slots (replay cap live k x) = num_slots x)"
      unfolding f prod.case .
    show "length greedy = ?n + 1" "pool_like (linear_state_pool m1) p" "capture_len cap = ?n + 1"
      "num_slots (replay cap live k x) = num_slots x" for live k x using a unfolding li by blast+
  qed
  let ?a = "accepted_count dr greedy" and ?em = "take (accepted_count dr greedy + 1) greedy"
  have acc: "?a \<le> ?n" using accepted_loop_spec[of 0 dr greedy] F(1) by (simp add: accepted_count_def)
  have em: "length ?em = ?a + 1" using acc F(1) by simp
  let ?m1 = "m1\<lparr>linear_state_pool := p\<rparr>"
  have up: "pages_upto ?r x ?m1 = pages_upto ?r x m1" "req_row ?r ?m1 = req_row ?r m1" for x by (simp_all add: pages_upto_def req_row_def)
  have "\<exists>m2 tm2 r2 s2 m3 dm3 r3 so msgs st. commit_accepted ?r1 s ?L ?n ?em cap ?m1 tm1 = Inr (m2, tm2, r2, s2) \<and>
    finish_step rules r2 s2 ?L ?em m2 (sw_running w) = Inr (m3, dm3, r3, so, msgs, st) \<and>
    manager_inv lk m3 (mset (req_pages r3 m3) + owned) \<and> page_table m3 = page_table ?m1"
  proof (rule commit_finish_ok[OF assms(1) refl refl])
    show "manager_inv lk ?m1 (mset (pages_upto ?r (?L + ?n + 1) ?m1) + owned)" unfolding up by (rule manager_inv_pool[OF S(2) F(2)])
    show "pool_like (linear_state_pool ?m) (linear_state_pool ?m1)" using pool_like_trans[OF S(7) F(2)] by simp
    show "case linear_state_pool ?m1 of None \<Rightarrow> True | Some q \<Rightarrow> \<exists>sl < num_slots q. c = Some sl"
      using S(8) F(2) by (auto simp: pool_like_def split: option.splits)
    show "length (req_row ?r ?m1) = length (req_row ?r ?m)" unfolding up by (rule S(5))
    show "?em \<noteq> []" "length ?em \<le> ?n + 1" using em acc by auto
  qed (use S(3,4,9,10) F(3,4) assms(4) in simp_all)
  then obtain m2 tm2 r2 s2 m3 dm3 r3 so msgs st where C: "commit_accepted ?r1 s ?L ?n ?em cap ?m1 tm1 = Inr (m2, tm2, r2, s2)"
    and D: "finish_step rules r2 s2 ?L ?em m2 (sw_running w) = Inr (m3, dm3, r3, so, msgs, st)"
    "manager_inv lk m3 (mset (req_pages r3 m3) + owned)" "page_table m3 = page_table m1" by auto
  let ?w = "\<lparr>sw_dec = count_stat (run_stats (ss_seeding s) ?n ?a (length ?em))
               ((sw_dec w)\<lparr>dec_state := map_option (note_step (sw_dec w) ?n ?a) so\<rparr>),
             sw_manager = m3, sw_table = tm2, sw_running = share_req r3 dm3, sw_req = r3\<rparr>"
  have "verify_step fwd rules s dr w = Inr (?w, msgs, st)"
    unfolding verify_step_def Let_def S(1) rbind_simps prod.case W row G f C D(1) ..
  then show ?thesis using D(2,3) S(6) by (intro exI[of _ ?w] exI[of _ msgs] exI[of _ st]) simp
qed

lemma spec_world_room:
  "spec_ready (sw_req spec_world) (sw_manager spec_world) (sw_table spec_world)" "forward_ok demo_fwd"
  "manager_inv (\<lambda>_. 0) (sw_manager spec_world) (mset (req_pages (sw_req spec_world) (sw_manager spec_world)) + {#})"
proof -
  have s: "sw_req spec_world = spec_req" "sw_manager spec_world = spec_manager" by (simp_all add: spec_world_def)
  have t: "token_pool (sw_table spec_world) = [[7, 8, 9, 7, 8, 0, 0, 0, 0, 0]]" by (simp add: spec_world_def)
  show "spec_ready (sw_req spec_world) (sw_manager spec_world) (sw_table spec_world)" unfolding s
    by (simp add: spec_ready_def t decode_shape_def spec_req_def commit_req_def spec_manager_def demo_manager_def req_row_def div_ceil_def)
  show "forward_ok demo_fwd" by (simp add: forward_ok_def demo_fwd_def)
  have g: "page_range 2 0 5 = [0, 2, 4, 6, 8]" by code_simp
  have p: "req_pages spec_req spec_manager = [0, 2]" by code_simp
  show "manager_inv (\<lambda>_. 0) (sw_manager spec_world) (mset (req_pages (sw_req spec_world) (sw_manager spec_world)) + {#})"
    unfolding s p using g by (simp add: manager_inv_def spec_manager_def demo_manager_def)
qed

definition spec_state0 :: spec_state where
  "spec_state0 = \<lparr>ss_req = 1, ss_drafter = \<lparr>ngram_n = 2, ngram_index = (\<lambda>_. None), ngram_prefix = {}, cursor = 0\<rparr>, ss_max_k = 8,
     ss_adaptive = True, ss_tokens = [], ss_k = 8, ss_gated = 0, ss_seeding = False, ss_probes = 0\<rparr>"

theorem verify_step_conserves_pages_witness:
  "\<exists>w' msgs stopped. verify_step demo_fwd spec_rules spec_state0 [9, 7] spec_world = Inr (w', msgs, stopped) \<and>
    manager_inv (\<lambda>_. 0) (sw_manager w') (mset (req_pages (sw_req w') (sw_manager w')) + {#})"
proof -
  have r: "req_cached_len (sw_req spec_world) + length [9, 7 :: int] + 2 \<le> max_device_len (sw_req spec_world)"
    "div_ceil (req_cached_len (sw_req spec_world) + length [9, 7 :: int] + 1) (mpage_size (sw_manager spec_world)) -
       div_ceil (req_cached_len (sw_req spec_world)) (mpage_size (sw_manager spec_world)) \<le>
     length (free_slots (sw_manager spec_world)) + nat (evictable_size_of (pcache (sw_manager spec_world))) div mpage_size (sw_manager spec_world)"
    by code_simp+
  have f: "length [9, 7 :: int] + 1 \<le> track_chunk_size (sw_dec spec_world)" by (simp add: spec_world_def)
  show ?thesis using verify_step_conserves_pages[OF spec_world_room r f, of spec_rules spec_state0] by blast
qed

text \<open>C23: The draft length never oversteps: \<^verbatim>\<open>_budget\<close> always answers, keeps the invariants of pages and slots, and a positive
  answer is at most the configured length, leaves room for a full acceptance and its bonus token in the output budget,
  never lets an accepted draft jump over a pending tool-call anchor, stays within the probe width, and comes with a slot
  for the scratch state.\<close>

theorem draft_budget_bounds:
  assumes "manager_inv lk m owned" "slots_inv m held" "linear_state_pool m = None \<or> (\<exists>h. pcache m = PHybrid h)"
  shows "\<exists>dec' m' k. draft_budget r s dec m = Inr (dec', m', k) \<and> manager_inv lk m' owned \<and> slots_inv m' held \<and>
    (0 < k \<longrightarrow> k \<le> draft_len dec \<and> k \<le> ss_k s \<and> int (req_cached_len r) + k + 2 \<le> int (max_device_len r) \<and>
      (\<forall>a. toolcall_anchor_len r = Some a \<longrightarrow> mamba_last_track_seqlen r = None \<longrightarrow> req_cached_len r < a \<longrightarrow>
        int (req_cached_len r) + k + 1 \<le> int a) \<and>
      (ss_seeding s \<and> ss_probes s < length seed_widths \<longrightarrow> k \<le> seed_widths ! ss_probes s) \<and>
      (\<forall>p. linear_state_pool m' = Some p \<longrightarrow> spec_scratch_slot r \<noteq> None \<or> 1 \<le> num_free_slots p))"
proof -
  let ?k = "clamped_k r s dec"
  have k: "?k \<le> draft_len dec \<and> ?k \<le> ss_k s \<and> int (req_cached_len r) + ?k + 2 \<le> int (max_device_len r)"
    "\<forall>a. toolcall_anchor_len r = Some a \<longrightarrow> mamba_last_track_seqlen r = None \<longrightarrow> req_cached_len r < a \<longrightarrow>
        int (req_cached_len r) + ?k + 1 \<le> int a"
    "ss_seeding s \<and> ss_probes s < length seed_widths \<longrightarrow> ?k \<le> seed_widths ! ss_probes s"
    by (auto simp: clamped_k_def Let_def min_def split: option.split)
  show ?thesis
  proof (cases "?k \<le> 0")
    case True
    then show ?thesis using assms by (simp add: draft_budget_def Let_def)
  next
    case pos: False
    show ?thesis
    proof (cases "linear_state_pool m")
      case None
      then show ?thesis using pos k assms by (simp add: draft_budget_def Let_def)
    next
      case (Some p)
      then obtain h where h: "pcache m = PHybrid h" using assms(3) by auto
      show ?thesis
      proof (cases "spec_scratch_slot r = None \<and> num_free_slots p < 1")
        case False
        have "draft_budget r s dec m = Inr (dec, m, ?k)"
          unfolding draft_budget_def Let_def if_not_P[OF pos] Some option.case if_not_P[OF False] ..
        then show ?thesis using Some k assms(1,2) False by (intro exI[of _ dec] exI[of _ m] exI[of _ ?k]) auto
      next
        case True
        have hm: "hybrid_manager m h p" using h Some by (simp add: hybrid_manager_def)
        obtain m1 h1 p1 where M: "ensure_mamba_slots 1 m = Inr m1" "manager_inv lk m1 owned" "slots_inv m1 held" "hybrid_manager m1 h1 p1"
          using ensure_mamba_ok[OF assms(1,2) hm, of 1] by blast
        have p1: "linear_state_pool m1 = Some p1" using M(4) by (simp add: hybrid_manager_def)
        have e: "draft_budget r s dec m =
            (if num_free_slots p1 < 1
             then Inr (count_stat (\<lambda>st. st\<lparr>declined_no_slot := declined_no_slot st + 1\<rparr>) dec, m1, 0) else Inr (dec, m1, ?k))"
          unfolding draft_budget_def Let_def if_not_P[OF pos] Some option.case if_P[OF True] M(1) rbind_simps by (simp add: pool_of_def p1)
        show ?thesis
        proof (cases "num_free_slots p1 < 1")
          case True
          then show ?thesis unfolding e if_P[OF True] using M(2,3)
            by (intro exI[of _ "count_stat (\<lambda>st. st\<lparr>declined_no_slot := declined_no_slot st + 1\<rparr>) dec"] exI[of _ m1] exI[of _ 0]) simp
        next
          case False
          then show ?thesis unfolding e if_not_P[OF False] using M(2,3) p1 k
            by (intro exI[of _ dec] exI[of _ m1] exI[of _ ?k]) auto
        qed
      qed
    qed
  qed
qed

theorem draft_budget_bounds_witness:
  "\<exists>m'. draft_budget spec_req spec_state0 (sw_dec spec_world) spec_manager = Inr (sw_dec spec_world, m', 2) \<and>
     manager_inv (\<lambda>_. 0) m' {#0, 2#} \<and> int (req_cached_len spec_req) + 2 + 2 \<le> int (max_device_len spec_req)"
proof -
  have p: "req_pages spec_req spec_manager = [0, 2]" "clamped_k spec_req spec_state0 (sw_dec spec_world) = 2" by code_simp+
  have l: "linear_state_pool spec_manager = None" by (simp add: spec_manager_def demo_manager_def)
  have i: "manager_inv (\<lambda>_. 0) spec_manager {#0, 2#}" using spec_world_room(3) p(1) by (simp add: spec_world_def)
  have si: "slots_inv spec_manager {#}" by (simp add: slots_inv_def spec_manager_def)
  have e: "draft_budget spec_req spec_state0 (sw_dec spec_world) spec_manager = Inr (sw_dec spec_world, spec_manager, 2)"
    using p(2) l by (simp add: draft_budget_def)
  obtain dec' m' k where B: "draft_budget spec_req spec_state0 (sw_dec spec_world) spec_manager = Inr (dec', m', k)"
    "manager_inv (\<lambda>_. 0) m' {#0, 2#}" "0 < k \<longrightarrow> int (req_cached_len spec_req) + k + 2 \<le> int (max_device_len spec_req)"
    using draft_budget_bounds[OF i si disjI1[OF l], of spec_req spec_state0 "sw_dec spec_world"] by blast
  then show ?thesis using e by simp
qed

end
