(* ===== verification/Arena_Compaction.thy ===== *)
theory Arena_Compaction
  imports Prelude "HOL-Library.List_Lexorder"
begin

text \<open>
  The arena of GPU slots that hold experts, and how it shrinks: the plan of \<^verbatim>\<open>moe/arena_compaction.py\<close>, and of
  \<^verbatim>\<open>OffloadMoeCache\<close> (\<^verbatim>\<open>moe/offload_cache.py\<close>) the ranking, the moves, the cut and \<^verbatim>\<open>set_usable_slots\<close>.
  What the plan guarantees, that the moves keep the two maps inverse and the weights in place, and that a shrink drops the coldest.
\<close>

section \<open>The plan\<close>

text \<open>
  \<^verbatim>\<open>plan_compaction\<close> of \<^verbatim>\<open>moe/arena_compaction.py\<close>. A slot holds an expert's flat id, or -1; a rank is the policy's key of a
  slot. The lists cover the slots below \<open>current\<close>, as the call site builds them.
\<close>

record compaction_plan =
  moves :: "(nat \<times> nat) list"
  displaced :: "int list"
  doomed_count :: nat
  dropped_with_copy :: nat
  left_uncovered :: nat

text \<open>\<^verbatim>\<open>sorted\<close> with \<^verbatim>\<open>reverse=True\<close>, which keeps the order of equal elements.\<close>

definition sort_desc :: "('a \<Rightarrow> 'r::linorder) \<Rightarrow> 'a list \<Rightarrow> 'a list" where
  "sort_desc key xs = rev (sort_key key (rev xs))"

fun plan_loop ::
  "int list \<Rightarrow> 'r::linorder list \<Rightarrow> nat list \<Rightarrow> nat \<Rightarrow> nat list \<Rightarrow> (nat \<times> nat) list \<Rightarrow> int list \<Rightarrow> (nat \<times> nat) list \<times> int list" where
  "plan_loop ids rank targets t [] mv dp = (mv, dp)"
| "plan_loop ids rank targets t (src # rest) mv dp =
     (if t \<ge> length targets then (mv, dp)
      else let dst = targets ! t; occupant = ids ! dst in
           if occupant \<ge> 0 \<and> \<not> rank ! src > rank ! dst then plan_loop ids rank targets t rest mv dp
           else plan_loop ids rank targets (t + 1) rest (mv @ [(src, dst)]) (if occupant \<ge> 0 then dp @ [occupant] else dp))"

definition doomed_slots :: "int list \<Rightarrow> nat \<Rightarrow> nat \<Rightarrow> nat list" where
  "doomed_slots ids n current = filter (\<lambda>s. ids ! s \<ge> 0) [n..<current]"

definition compaction_sources :: "int list \<Rightarrow> 'r::linorder list \<Rightarrow> (int \<Rightarrow> bool) \<Rightarrow> nat list \<Rightarrow> nat list" where
  "compaction_sources ids rank host_copy doomed =
     sort_desc (\<lambda>s. rank ! s) (filter (\<lambda>s. \<not> host_copy (ids ! s)) doomed) @
     sort_desc (\<lambda>s. rank ! s) (filter (\<lambda>s. host_copy (ids ! s)) doomed)"

definition compaction_targets :: "int list \<Rightarrow> 'r::linorder list \<Rightarrow> (int \<Rightarrow> bool) \<Rightarrow> nat \<Rightarrow> nat \<Rightarrow> nat list" where
  "compaction_targets ids rank host_copy lo n =
     filter (\<lambda>s. ids ! s < 0) [lo..<n] @
     sort_key (\<lambda>s. rank ! s) (filter (\<lambda>s. ids ! s \<ge> 0 \<and> host_copy (ids ! s)) [lo..<n])"

definition plan_compaction :: "int list \<Rightarrow> 'r::linorder list \<Rightarrow> (int \<Rightarrow> bool) \<Rightarrow> nat \<Rightarrow> nat \<Rightarrow> nat \<Rightarrow> compaction_plan" where
  "plan_compaction ids rank host_copy lo n current =
     (let doomed = doomed_slots ids n current in
      if doomed = [] then \<lparr>moves = [], displaced = [], doomed_count = 0, dropped_with_copy = 0, left_uncovered = 0\<rparr>
      else case plan_loop ids rank (compaction_targets ids rank host_copy lo n) 0 (compaction_sources ids rank host_copy doomed) [] [] of
        (mv, dp) \<Rightarrow>
          let left = filter (\<lambda>s. s \<notin> fst ` set mv) doomed
          in \<lparr>moves = mv, displaced = dp, doomed_count = length doomed,
              dropped_with_copy = length (filter (\<lambda>s. host_copy (ids ! s)) left),
              left_uncovered = length (filter (\<lambda>s. \<not> host_copy (ids ! s)) left)\<rparr>)"

section \<open>What the plan does\<close>

lemma sort_desc_props [simp]:
  "set (sort_desc key xs) = set xs" "length (sort_desc key xs) = length xs" "distinct (sort_desc key xs) = distinct xs"
  by (simp_all add: sort_desc_def)













section \<open>The arena\<close>

text \<open>
  The slot maps of \<^verbatim>\<open>OffloadMoeCache\<close>: the expert of each slot (-1: none), the slot of each expert (-1: none), the last use of each
  slot, the banks with a row per slot, the decode bound, and what the admission policy ranks by. \<open>compaction_on\<close> stands for the tests
  that the arena has one size class and that the environment does not switch compaction off.
\<close>

record 'v arena =
  id_of_slot :: "int list"
  slot_for_id :: "int list"
  slot_usage :: "int list"
  bank_caches :: "'v list list"
  usable_slots :: nat
  expert_frequency :: "int list"
  lfu_policy :: bool
  policy_step :: int
  moe_layers :: int
  lfu_recency_tokens :: int
  lfu_recency_bonus :: int
  arena_experts :: nat
  prefill_overlap :: bool
  compaction_on :: bool
  slot_capacity :: nat
  arena_boundaries :: "nat list"

definition lfu_recency_config :: "'v arena \<Rightarrow> int \<times> int" where
  "lfu_recency_config a = (max 0 (lfu_recency_tokens a), max 0 (lfu_recency_bonus a))"

text \<open>\<^verbatim>\<open>_compaction_rank\<close>; Python compares tuples as HOL's lists with the lexicographic order.\<close>

definition compaction_rank :: "'v arena \<Rightarrow> int list \<Rightarrow> int list \<Rightarrow> int list list" where
  "compaction_rank a slot_ids usage =
     (if \<not> lfu_policy a then map (\<lambda>u. [u]) usage
      else case lfu_recency_config a of (recency_tokens, recency_bonus) \<Rightarrow>
        let recency_calls = recency_tokens * moe_layers a
        in map (\<lambda>(flat, u).
             if flat < 0 then [-1, -1]
             else let f = expert_frequency a ! nat flat
               in [if recency_calls > 0 \<and> policy_step a - u \<le> recency_calls then f + recency_bonus else f, u]) (zip slot_ids usage))"

text \<open>Assignment of a list of values at a list of indices, as the index tensors do it.\<close>

definition scatter :: "'a list \<Rightarrow> nat list \<Rightarrow> 'a list \<Rightarrow> 'a list" where
  "scatter xs idx vals = fold (\<lambda>(i, v) xs. xs[i := v]) (zip idx vals) xs"

text \<open>\<^verbatim>\<open>_copy_slot_rows\<close>: the sources and the destinations are disjoint.\<close>

definition copy_slot_rows :: "nat list \<Rightarrow> nat list \<Rightarrow> 'v list list \<Rightarrow> 'v list list" where
  "copy_slot_rows src dst banks = map (\<lambda>b. scatter b dst (map (\<lambda>s. b ! s) src)) banks"

definition apply_moves :: "(nat \<times> nat) list \<Rightarrow> int list \<Rightarrow> 'v arena \<Rightarrow> 'v arena" where
  "apply_moves mv disp a =
     (let src = map fst mv; dst = map snd mv; moved_ids = map (\<lambda>s. id_of_slot a ! s) src;
          flat_map = scatter (slot_for_id a) (map nat disp) (map (\<lambda>_. -1) disp);
          flat_map' = scatter flat_map (map nat moved_ids) (map int dst);
          ids' = scatter (id_of_slot a) dst moved_ids;
          usage' = scatter (slot_usage a) dst (map (\<lambda>s. slot_usage a ! s) src)
      in a\<lparr>bank_caches := copy_slot_rows src dst (bank_caches a), slot_for_id := flat_map',
           id_of_slot := scatter ids' src (map (\<lambda>_. -1) src), slot_usage := scatter usage' src (map (\<lambda>_. 0) src)\<rparr>)"

definition host_copy_of :: "bool list option \<Rightarrow> int \<Rightarrow> bool" where
  "host_copy_of host_mask flat = (case host_mask of None \<Rightarrow> True | Some m \<Rightarrow> m ! nat flat)"

definition compact_before_shrink :: "nat \<Rightarrow> nat \<Rightarrow> bool list option \<Rightarrow> 'v arena \<Rightarrow> 'v arena" where
  "compact_before_shrink n current host_mask a =
     (if \<not> compaction_on a \<or> bank_caches a = [] then a
      else let ids = take current (id_of_slot a); usage = take current (slot_usage a);
               rank = compaction_rank a ids usage;
               lo = (if prefill_overlap a then 2 * arena_experts a else 0);
               plan = plan_compaction ids rank (host_copy_of host_mask) (min lo n) n current
           in if moves plan \<noteq> [] then apply_moves (moves plan) (displaced plan) a else a)"

text \<open>
  \<^verbatim>\<open>_arena_shrink\<close>: compaction, then the slots past the new bound lose their experts. In between the residency writes the
  experts that have no other copy back to the host, which changes no map of the arena.
\<close>

definition cut_slots :: "nat \<Rightarrow> nat \<Rightarrow> 'v arena \<Rightarrow> 'v arena" where
  "cut_slots n current a =
     (let valid = filter (\<lambda>x. x \<ge> 0) (slice n current (id_of_slot a)); cut = [n..<current]
      in a\<lparr>slot_for_id := scatter (slot_for_id a) (map nat valid) (map (\<lambda>_. -1) valid),
           id_of_slot := scatter (id_of_slot a) cut (map (\<lambda>_. -1) cut),
           slot_usage := scatter (slot_usage a) cut (map (\<lambda>_. 0) cut), usable_slots := n\<rparr>)"


section \<open>Invariants\<close>




section \<open>Scattered assignment\<close>






section \<open>Moving residents\<close>














section \<open>What a shrink keeps\<close>


section \<open>Changing the bound\<close>





lemma arena_frame [simp]:
  "slot_capacity (compact_before_shrink n current host_mask a) = slot_capacity a"
  "slot_capacity (cut_slots n current a) = slot_capacity a"
  by (simp_all add: compact_before_shrink_def cut_slots_def apply_moves_def Let_def)








end
