(* ===== verification/Spec2Isabelle.thy ===== *)
theory Spec2Isabelle
  imports Radix_Refinement Cache_Budget Prefill_Live Spec_Pages Arena_Compaction
begin

text \<open>
  FreeToken serves large mixture-of-experts language models on one machine. This library models the part of it that
  decides who owns memory: the prefix caches, the cache manager and the prefill scheduler on top of them, the pools of
  recurrent states and image embeddings, the policy that splits the memory budget, the arena of experts on the GPU, and the
  speculative decoder that runs on top of all this. All paths are below \<^verbatim>\<open>src/python/freetoken/\<close>.

  \<^bold>\<open>The program.\<close> A request (\<^verbatim>\<open>Req\<close> of \<^verbatim>\<open>core.py\<close>) owns a row of the page table (\<^verbatim>\<open>TableManager\<close>). Its tokens live
  in pages of KV slots. \<^verbatim>\<open>CacheManager\<close> keeps the free pages, and a prefix cache keeps the pages of finished or
  committed prompts in a radix tree, so that a later request with the same prefix reuses them. The scheduler pass
  (\<^verbatim>\<open>PrefillManager.schedule_next_batch\<close>) matches each queued prompt, locks the matched prefix against eviction, reserves the
  pages it will need, and cuts long prompts into chunks; \<^verbatim>\<open>allocate_paged\<close> then takes pages, evicting unlocked
  prefixes when there are too few; \<^verbatim>\<open>cache_req\<close> gives the pages of a request back to the tree. Models with
  recurrent layers have a second currency, the state slots of \<^verbatim>\<open>LinearStatePool\<close>, which the hybrid tree carries as
  snapshots on its nodes and evicts on its own. Operators can pin prefixes up to a budget. When a single greedy request
  decodes, the n-gram decoder drafts tokens from the request's own text, verifies them in one forward and gives the pages of
  the rejected ones back.

  \<^bold>\<open>Theories.\<close>
  \<^item> \<open>Prelude\<close>: Python's exceptions as the left summand of \<open>result\<close>, with \<open>rbind\<close> for sequencing; \<^verbatim>\<open>utils/misc.py\<close>;
    slices; the common-prefix length of two token lists; generic list, sum and multiset lemmas.
  \<^item> \<open>Paging\<close>: \<^verbatim>\<open>_page_to_token\<close> and the way back, pages as their first slots.
  \<^item> \<open>Radix_Tree\<close>: \<^verbatim>\<open>RadixTreeNode\<close> (a \<open>datatype\<close> whose children are an ordered list), the token walk with its node
    splits, the parent chain, unlinking, the traversals. The function \<open>content\<close> reads a tree as the list of all
    (token string, slot) pairs; the relation \<open>walked\<close> says what a walk may change.
  \<^item> \<open>Radix_Cache\<close>, \<open>Radix_Lock\<close>, \<open>Radix_Evict\<close>, \<open>Radix_Handles\<close>, \<open>Prefix_Cache\<close>, \<open>Radix_Trace\<close>: \<^verbatim>\<open>RadixPrefixCache\<close> and
    \<^verbatim>\<open>NaivePrefixCache\<close> (\<^verbatim>\<open>kvcache/radix_cache.py\<close>, \<^verbatim>\<open>kvcache/naive_cache.py\<close>). The invariant \<open>radix_inv\<close> (keys are whole pages,
    siblings differ in their first page, a node's lock count covers its children's, the two size counters are exact) and
    what every operation does under it; the contract \<^verbatim>\<open>BasePrefixCache\<close> of \<^verbatim>\<open>kvcache/base.py\<close> as the locale
    \<open>prefix_cache\<close>, interpreted by both caches; arbitrary traces of operations.
  \<^item> \<open>Radix_Refinement\<close>: the abstract specification of the radix cache, a locked map from page-aligned prefixes to slots, and the
    simulation (locale \<open>simulation\<close>, interpreted by the cache) that every run of the cache with the answers it gives is a run
    of the map.
  \<^item> \<open>Hybrid_Cache\<close>, \<open>Hybrid_Inv\<close>, \<open>Hybrid_Evict\<close>: \<^verbatim>\<open>HybridRadixCache\<close> (\<^verbatim>\<open>kvcache/hybrid_radix_cache.py\<close>). Its KV side is
    the record \<open>radix\<close>, since the class repeats that code; the snapshots, their counters and the two evictions are added.
  \<^item> \<open>Linear_State_Pool\<close>: \<^verbatim>\<open>kvcache/linear_state_pool.py\<close>, slots with their contents, the byte estimate and the sizing.
  \<^item> \<open>Multimodal\<close>: \<^verbatim>\<open>MMItem\<close>, \<^verbatim>\<open>scheduler/mm.py\<close>, \<^verbatim>\<open>mm/encoder_cache.py\<close>, \<^verbatim>\<open>_run_mm_encoder\<close> of \<^verbatim>\<open>engine/engine.py\<close>:
    where a chunk may end, and that a request's embedding rows are claimed, gathered and released once.
  \<^item> \<open>Requests\<close>: \<^verbatim>\<open>Req\<close>, \<^verbatim>\<open>scheduler/table.py\<close>, \<^verbatim>\<open>scheduler/decode.py\<close>.
  \<^item> \<open>Prefix_Pins\<close>: the ledger of pinned prefixes in \<^verbatim>\<open>scheduler/cache.py\<close> and \<^verbatim>\<open>PrefixCounters\<close>.
  \<^item> \<open>Cache_Manager\<close>, \<open>Cache_Commit\<close>, \<open>Manager_Pages\<close>, \<open>Manager_Commit\<close>: \<^verbatim>\<open>CacheManager\<close>. \<open>manager_inv\<close> says that free
    pages, pages in the tree and pages of live requests partition the pool; the locale \<open>kv_store\<close> is what allocation needs of
    a cache, interpreted by all three.
  \<^item> \<open>Prefill\<close>, \<open>Prefill_Pass\<close>, \<open>Prefill_Backed\<close>: \<^verbatim>\<open>scheduler/prefill.py\<close> with its counters. The admission loop is also a step
    relation, whose invariants bound what a pass admits, split the queue into the prompts served and those that wait, and
    show that every admitted chunk can be allocated.
  \<^item> \<open>Prefill_Live\<close>: a pass over new prompts raises only when the environment asks for it and the running requests may take
    more than is available, and a prompt that fits is not held up by one that does not.
  \<^item> \<open>Ngram_Drafter\<close>, \<open>Spec_Step\<close>, \<open>Spec_Lossless\<close>, \<open>Spec_Pages\<close>: \<^verbatim>\<open>scheduler/spec_ngram.py\<close> and the drain of an ordinary decode
    step in \<^verbatim>\<open>scheduler/scheduler.py\<close>. What the drafter proposes; \<^verbatim>\<open>run_step\<close> with its budget, staging, commit and messages; that a
    verify step is a run of ordinary greedy steps; that it never raises and loses no page.
  \<^item> \<open>Cache_Budget\<close>: \<^verbatim>\<open>engine/cache_budget.py\<close>.
  \<^item> \<open>Arena_Compaction\<close>: the slots of the expert arena, \<^verbatim>\<open>moe/arena_compaction.py\<close> and \<^verbatim>\<open>set_usable_slots\<close> with what it
    calls in \<^verbatim>\<open>moe/offload_cache.py\<close>; that a shrink keeps the maps, the weights and the hottest experts.

  \<^bold>\<open>Reading of the code.\<close> Python integers are \<open>int\<close> (or \<open>nat\<close> where the code only ever holds a size or an index). A raise is
  an \<open>Inl\<close>; \<^verbatim>\<open>assert\<close> is \<open>py_assert\<close>. A dict is an association list in insertion order, a set a list without repetitions, a
  tensor the list of its entries. Objects that are shared and mutated (tree nodes, requests) are named by an
  identifier and looked up; tree nodes by their \<^verbatim>\<open>uuid\<close>. A clock reading is an argument. \<^verbatim>\<open>heapq\<close> is a list from which a least element is
  taken.

  \<^bold>\<open>Loops and fuel.\<close> Recursion is structural or has a measure. Three loops carry fuel because their exit depends on state that
  a called component changes: \<open>ensure_mamba_loop\<close> gets one more than the number of requested slots, as every round but the last
  frees one (\<open>ensure_mamba_slots_exact\<close> shows that it returns); \<open>pin_loop\<close> one more than the number of pins, as every round
  but the last drops a pin (\<open>pin_prefix_within_budget\<close>); \<open>release_pins_loop\<close> the number of pins.

  \<^bold>\<open>Parameters.\<close> The hook that reclaims state slots when the pool runs dry (the scheduler's, outside the modelled files), the vision
  encoder, the forward of a verify batch with the replay of its captured state (\<open>fwd\<close>; a model that returns its own
  greedy token per position is \<open>greedy_forward\<close>, one that moves no slot is \<open>forward_ok\<close>), the tokenizer's decoder, Python's hash
  of a tuple of integers, the clock, the truncated product with the float memory ratio, and the item size of the state dtype.

  \<^bold>\<open>Not modelled.\<close> The wall-clock estimator of the speculative decoder with its probes' fit, the test which request it may run on, its
  metadata caches and telemetry, and the release of a request it finished. Of the expert arena: one of several size classes, the mapping of its pages, the
  lookup and eviction kernels and the transfers; the residency enters as the test whether the host has a copy of an expert. An image
  item drops its features once they are encoded, which the model of the encode step leaves out. The sliding-window cache and its pools, session leases and their disk spill, page compaction, the scheduler's event
  loop and processes, the engine, the expert residency controllers, device tensors and kernels, HTTP front ends and
  parsers, the tokenizer and the command line: they are I/O, numeric kernels, threads or third-party glue around the modelled
  state, or wait for an extension. Log lines, warnings and metrics without effect on the state are left out of the modelled
  operations.
\<close>

end
